(* ===== verification/Prelude.thy ===== *)
theory Prelude
  imports Main "HOL-Library.Word"
begin

unbundle bit_operations_syntax

text \<open>
  Shared vocabulary of the development: the machine integers the sources use, byte strings,
  the result types of fallible operations, and the generic facts on lists and words that the
  component theories rewrite with.
\<close>

section \<open>Machine types\<close>

type_synonym byte = "8 word"
type_synonym u16 = "16 word"
type_synonym u32 = "32 word"
type_synonym u64 = "64 word"
type_synonym bytes = "byte list"

text \<open>
  Collections of rewrite rules: \<open>unfolds\<close> holds the definitions of small accessors,
  \<open>wordsimps\<close> the facts on words that bring bit operations to arithmetic.
\<close>

named_theorems unfolds
named_theorems wordsimps

section \<open>Byte strings\<close>

text \<open>\<open>StringRef::startsWith\<close>, \<open>endsWith\<close>, \<open>substr\<close>, \<open>slice\<close> and \<open>find\<close> of
  \<open>misc/string_ref.hpp\<close>. \<open>npos\<close> is \<open>None\<close>.\<close>

definition startsWith :: "'a list \<Rightarrow> 'a list \<Rightarrow> bool" where
  "startsWith s ref \<longleftrightarrow> length s \<ge> length ref \<and> take (length ref) s = ref"

definition endsWith :: "'a list \<Rightarrow> 'a list \<Rightarrow> bool" where
  "endsWith s ref \<longleftrightarrow> length s \<ge> length ref \<and> drop (length s - length ref) s = ref"

definition slice :: "'a list \<Rightarrow> nat \<Rightarrow> nat \<Rightarrow> 'a list" where
  "slice s startIndex stopIndex = take (stopIndex - startIndex) (drop startIndex s)"

function find_from :: "'a list \<Rightarrow> nat \<Rightarrow> 'a list \<Rightarrow> nat option" where
  "find_from s pos needle =
     (if pos > length s then None
      else if startsWith (drop pos s) needle then Some pos
      else find_from s (Suc pos) needle)"
  by pat_completeness auto
termination
  by (relation "measure (\<lambda>(s, pos, needle). Suc (length s) - pos)") auto

declare find_from.simps [simp del]

lemma startsWith_append [simp]: "startsWith (p @ s) p"
  by (simp add: startsWith_def)

lemma startsWith_iff: "startsWith s p \<longleftrightarrow> (\<exists>t. s = p @ t)"
  by (metis append_take_drop_id startsWith_append startsWith_def)

lemma endsWith_iff: "endsWith s p \<longleftrightarrow> (\<exists>t. s = t @ p)"
proof
  assume "endsWith s p"
  then show "\<exists>t. s = t @ p"
    by (metis append_take_drop_id endsWith_def)
next
  assume "\<exists>t. s = t @ p"
  then show "endsWith s p" by (auto simp: endsWith_def)
qed

lemma startsWith_Nil [simp]: "startsWith s []"
  by (simp add: startsWith_def)

lemma find_from_Some:
  "find_from s pos needle = Some i \<Longrightarrow>
     pos \<le> i \<and> i \<le> length s \<and> startsWith (drop i s) needle \<and>
     (\<forall>j. pos \<le> j \<and> j < i \<longrightarrow> \<not> startsWith (drop j s) needle)"
proof (induction s pos needle rule: find_from.induct)
  case (1 s pos needle)
  show ?case
  proof (cases "pos > length s \<or> startsWith (drop pos s) needle")
    case True
    with "1.prems" show ?thesis by (auto simp: find_from.simps [of s pos] split: if_splits)
  next
    case False
    with "1.prems" have "find_from s (Suc pos) needle = Some i"
      by (simp add: find_from.simps [of s pos])
    with "1.IH" False show ?thesis
      by (metis Suc_leD Suc_leI le_neq_implies_less)
  qed
qed

lemma find_from_None:
  "find_from s pos needle = None \<Longrightarrow> pos \<le> j \<Longrightarrow> j \<le> length s \<Longrightarrow>
     \<not> startsWith (drop j s) needle"
proof (induction s pos needle rule: find_from.induct)
  case (1 s pos needle)
  from "1.prems" have "\<not> pos > length s" by simp
  with "1.prems" have n: "\<not> startsWith (drop pos s) needle"
    and nx: "find_from s (Suc pos) needle = None"
    by (auto simp: find_from.simps [of s pos] split: if_splits)
  show ?case
  proof (cases "j = pos")
    case True
    with n show ?thesis by simp
  next
    case False
    with "1.IH" "1.prems" n nx \<open>\<not> pos > length s\<close> show ?thesis by simp
  qed
qed

section \<open>Lists\<close>

lemma drop_eq_Cons_nth: "i < length xs \<Longrightarrow> drop i xs = xs ! i # drop (Suc i) xs"
  by (rule Cons_nth_drop_Suc [symmetric])

lemma append_eq_take_drop:
  "take n (drop i xs) = ys \<Longrightarrow> i + n \<le> length xs \<Longrightarrow> xs = take i xs @ ys @ drop (i + n) xs"
  by (metis add.commute append_take_drop_id drop_drop)

section \<open>Words\<close>

text \<open>
  Masks, shifts and disjoint unions of bits read as arithmetic on \<open>nat\<close>: with these facts a
  claim about packed fields becomes linear arithmetic with \<open>div\<close> and \<open>mod\<close>.
\<close>

lemma unat_and_mask: "unat ((a::'a::len word) AND mask n) = unat a mod 2 ^ n"
  by (simp add: unsigned_take_bit_eq flip: take_bit_eq_mask take_bit_eq_mod)

lemma unat_or_disj:
  assumes "(a::'a::len word) AND b = 0"
  shows "unat (a OR b) = unat a + unat b"
proof -
  have "unat a AND unat b = 0" using assms by (metis unsigned_and_eq unsigned_0)
  then show ?thesis
    by (metis disjunctive_add bit_and_iff bit_0_eq bot_apply bot_bool_def unsigned_or_eq)
qed

lemma unat_and_not_mask: "unat ((a::'a::len word) AND NOT (mask n)) = 2 ^ n * (unat a div 2 ^ n)"
proof -
  have "(a AND NOT (mask n)) OR (a AND mask n) = a"
    by (rule bit_word_eqI) (auto simp: bit_simps)
  moreover have "(a AND NOT (mask n)) AND (a AND mask n) = 0"
    by (rule bit_word_eqI) (auto simp: bit_simps)
  ultimately have "unat a = unat (a AND NOT (mask n)) + unat a mod 2 ^ n"
    by (metis unat_and_mask unat_or_disj)
  then show ?thesis by (metis add_diff_cancel_right' minus_mod_eq_mult_div)
qed

lemma unat_or_low:
  assumes "(c::'a::len word) AND mask k = 0" and "unat x < 2 ^ k"
  shows "unat (c OR x) = unat c + unat x"
proof (rule unat_or_disj)
  have "x = x AND mask k"
    using assms(2) by (metis unat_and_mask mod_less word_unat_eq_iff)
  then show "c AND x = 0"
    using assms(1) by (metis and.assoc and.commute and_zero_eq)
qed

lemma unat_drop_bit [wordsimps]: "unat (drop_bit n (x :: 'a::len word)) = unat x div 2 ^ n"
proof -
  have "take_bit LENGTH('a) (unat x) = unat x"
    by (simp only: take_bit_eq_mod mod_less unsigned_less)
  then have "unat (drop_bit n x) = drop_bit n (unat x)" by (simp add: unsigned_drop_bit_eq)
  then show ?thesis by (simp only: drop_bit_eq_div)
qed

lemma unat_push_bit:
  assumes "unat (y::'a::len word) * 2 ^ k < 2 ^ LENGTH('a)"
  shows "unat (push_bit k y) = unat y * 2 ^ k"
proof -
  have "unat (push_bit k y) = take_bit LENGTH('a) (push_bit k (unat y))"
    by (simp add: unsigned_push_bit_eq)
  with assms show ?thesis by (simp only: take_bit_eq_mod push_bit_eq_mult mod_less)
qed

lemma unat_push_or:
  assumes "unat x < 2 ^ k" and "unat (y::'a::len word) * 2 ^ k < 2 ^ LENGTH('a)"
  shows "unat (push_bit k y OR x) = unat y * 2 ^ k + unat x"
proof -
  have "push_bit k y AND mask k = 0"
    by (rule bit_word_eqI) (auto simp: bit_simps)
  with assms show ?thesis by (simp add: unat_or_low unat_push_bit)
qed

lemma unat_word_of_int:
  "0 \<le> c \<Longrightarrow> c < 2 ^ LENGTH('a) \<Longrightarrow> unat (word_of_int c :: 'a::len word) = nat c"
  by (simp add: unsigned_of_int take_bit_eq_mod flip: nat_mod_distrib)

lemma unat_ucast_down [wordsimps]:
  "unat (ucast (x :: 'b::len word) :: 'a::len word) = unat x mod 2 ^ LENGTH('a)"
  by (simp add: unsigned_ucast_eq take_bit_eq_mod)

lemma unat_byte_less [simp]: "unat (b :: byte) < 256"
  using unsigned_less [of b, where ?'a = nat] by simp

lemma unat_u16_less [simp]: "unat (b :: u16) < 65536"
  using unsigned_less [of b, where ?'a = nat] by simp

lemma unat_u32_less [simp]: "unat (b :: u32) < 4294967296"
  using unsigned_less [of b, where ?'a = nat] by simp

lemma unat_ucast_byte_u32 [simp]: "unat (ucast (b :: byte) :: u32) = unat b"
proof -
  have "unat b < 4294967296" using unat_byte_less [of b] by linarith
  then show ?thesis by (simp add: unat_ucast_down)
qed

lemma uint_eq_int_unat: "uint x = int (unat x)"
  by simp

lemma digit_div_mod: "z < b \<Longrightarrow> (a * b + z) div b = a \<and> (a * b + z) mod b = (z :: nat)"
  by simp

lemma mod_base: "d dvd k \<Longrightarrow> y < d \<Longrightarrow> (k + y) mod d = (y :: nat)"
  by (auto elim!: dvdE)

end
