(* ===== verification/Utf8.thy ===== *)
theory Utf8
  imports Prelude
begin

text \<open>
  \<open>misc/unicode.hpp\<close>: the classification of code points, UTF-16 surrogate pairs, the UTF-8 and
  WTF-8 validator, decoder and encoder, the code point stream over a byte range and the packed
  code point formats. The lemmas bring the bit operations to base-64 digits; the properties are
  that encoder and decoder are inverse on exactly the well-formed sequences.
\<close>

section \<open>Code points\<close>

text \<open>Predicates of \<open>UnicodeUtil\<close> on code points, C++ \<open>int\<close> values.\<close>

definition CODE_POINT_MAX :: int where
  "CODE_POINT_MAX = 0x10FFFF"

definition isCodePoint :: "int \<Rightarrow> bool" where
  "isCodePoint codePoint \<longleftrightarrow> codePoint \<ge> 0 \<and> codePoint \<le> CODE_POINT_MAX"

definition isHighSurrogate :: "int \<Rightarrow> bool" where
  "isHighSurrogate codePoint \<longleftrightarrow> codePoint \<ge> 0xD800 \<and> codePoint \<le> 0xDBFF"

definition isLowSurrogate :: "int \<Rightarrow> bool" where
  "isLowSurrogate codePoint \<longleftrightarrow> codePoint \<ge> 0xDC00 \<and> codePoint \<le> 0xDFFF"

definition isSurrogate :: "int \<Rightarrow> bool" where
  "isSurrogate codePoint \<longleftrightarrow> codePoint \<ge> 0xD800 \<and> codePoint \<le> 0xDFFF"

definition isValidCodePoint :: "int \<Rightarrow> bool" where
  "isValidCodePoint codePoint \<longleftrightarrow> isCodePoint codePoint \<and> \<not> isSurrogate codePoint"

definition isBmpCodePoint :: "int \<Rightarrow> bool" where
  "isBmpCodePoint codePoint \<longleftrightarrow> codePoint \<ge> 0 \<and> codePoint \<le> 0xFFFF"

definition isSupplementaryCodePoint :: "int \<Rightarrow> bool" where
  "isSupplementaryCodePoint codePoint \<longleftrightarrow> codePoint > 0xFFFF \<and> codePoint \<le> CODE_POINT_MAX"

lemmas code_point_defs = CODE_POINT_MAX_def isCodePoint_def isHighSurrogate_def isLowSurrogate_def
  isSurrogate_def isValidCodePoint_def isBmpCodePoint_def isSupplementaryCodePoint_def

section \<open>UTF-16 surrogate pairs\<close>

definition utf16ToCodePoint :: "u16 \<Rightarrow> u16 \<Rightarrow> int" where
  "utf16ToCodePoint high low =
     (if isHighSurrogate (uint high) \<and> isLowSurrogate (uint low)
      then uint (push_bit 10 (word_of_int (uint high - 0xD800) :: u32)
                 + word_of_int (uint low - 0xDC00) + 0x10000)
      else -1)"

definition codePointToUtf16 :: "int \<Rightarrow> u16 \<times> u16" where
  "codePointToUtf16 codePoint =
     (if isBmpCodePoint codePoint then (word_of_int codePoint, word_of_int codePoint)
      else let code = (word_of_int codePoint :: u32) - 0x10000
           in (ucast (drop_bit 10 code + 0xD800), ucast ((code AND 0x3FF) + 0xDC00)))"

section \<open>UTF-8\<close>

definition packedTable :: "nat list" where
  "packedTable =
     [1, 1, 1, 1, 1, 1, 1, 1, 1, 1, 1, 1, 1, 1, 1, 1,
      0, 0, 0, 0, 0, 0, 0, 0, 2, 2, 2, 2, 3, 3, 4, 0]"

definition utf8ByteSize :: "byte \<Rightarrow> nat" where
  "utf8ByteSize b = packedTable ! unat (drop_bit 3 b)"

text \<open>The bytes from \<open>begin\<close> to \<open>end\<close> are a list; the C++ code compares \<open>begin + k\<close> with
  \<open>end\<close> before it reads \<open>begin[k]\<close>, so no read is out of range.\<close>

definition utf8ValidateChar :: "bytes \<Rightarrow> bool \<Rightarrow> nat" where
  "utf8ValidateChar s allowSurrogate =
     (if s = [] then 0
      else if s ! 0 < 0x80 then 1
      else if s ! 0 AND 0xE0 = 0xC0 then
        (if length s = 1 \<or> s ! 1 AND 0xC0 \<noteq> 0x80 \<or> s ! 0 AND 0xFE = 0xC0 then 0 else 2)
      else if s ! 0 AND 0xF0 = 0xE0 then
        (if 2 \<ge> length s \<or> s ! 1 AND 0xC0 \<noteq> 0x80 \<or> s ! 2 AND 0xC0 \<noteq> 0x80
            \<or> (s ! 0 = 0xE0 \<and> s ! 1 AND 0xE0 = 0x80)
            \<or> (s ! 0 = 0xED \<and> s ! 1 AND 0xE0 = 0xA0 \<and> \<not> allowSurrogate) then 0 else 3)
      else if s ! 0 AND 0xF8 = 0xF0 then
        (if 3 \<ge> length s \<or> s ! 1 AND 0xC0 \<noteq> 0x80 \<or> s ! 2 AND 0xC0 \<noteq> 0x80
            \<or> s ! 3 AND 0xC0 \<noteq> 0x80
            \<or> (s ! 0 = 0xF0 \<and> s ! 1 AND 0xF0 = 0x80)
            \<or> (s ! 0 = 0xF4 \<and> s ! 1 > 0x8F) \<or> s ! 0 > 0xF4 then 0 else 4)
      else 0)"

abbreviation wtf8ValidateChar :: "bytes \<Rightarrow> nat" where
  "wtf8ValidateChar s \<equiv> utf8ValidateChar s True"

text \<open>\<open>begin[k] & mask\<close>, promoted to \<open>unsigned int\<close>.\<close>

abbreviation u32_of :: "byte \<Rightarrow> u32" where
  "u32_of b \<equiv> ucast b"

definition decode2 :: "byte \<Rightarrow> byte \<Rightarrow> u32" where
  "decode2 b0 b1 = push_bit 6 (u32_of b0 AND 0x1F) OR (u32_of b1 AND 0x3F)"

definition decode3 :: "byte \<Rightarrow> byte \<Rightarrow> byte \<Rightarrow> u32" where
  "decode3 b0 b1 b2 =
     push_bit 12 (u32_of b0 AND 0x0F) OR push_bit 6 (u32_of b1 AND 0x3F) OR (u32_of b2 AND 0x3F)"

definition decode4 :: "byte \<Rightarrow> byte \<Rightarrow> byte \<Rightarrow> byte \<Rightarrow> u32" where
  "decode4 b0 b1 b2 b3 =
     push_bit 18 (u32_of b0 AND 0x07) OR push_bit 12 (u32_of b1 AND 0x3F)
       OR push_bit 6 (u32_of b2 AND 0x3F) OR (u32_of b3 AND 0x3F)"

definition utf8ToCodePoint :: "bytes \<Rightarrow> bool \<Rightarrow> nat \<times> int" where
  "utf8ToCodePoint s allowSurrogate =
     (let size = utf8ValidateChar s allowSurrogate in
      (size,
       if size = 1 then uint (s ! 0)
       else if size = 2 then uint (decode2 (s ! 0) (s ! 1))
       else if size = 3 then uint (decode3 (s ! 0) (s ! 1) (s ! 2))
       else if size = 4 then uint (decode4 (s ! 0) (s ! 1) (s ! 2) (s ! 3))
       else -1))"

abbreviation wtf8ToCodePoint :: "bytes \<Rightarrow> nat \<times> int" where
  "wtf8ToCodePoint s \<equiv> utf8ToCodePoint s True"

text \<open>The bytes written to \<open>buf\<close>; the returned size is their number.\<close>

definition codePointToUtf8 :: "int \<Rightarrow> bytes" where
  "codePointToUtf8 codePoint =
     (let c = (word_of_int codePoint :: u32) in
      if \<not> isCodePoint codePoint then []
      else if codePoint \<le> 0x7F then [word_of_int codePoint]
      else if codePoint \<le> 0x7FF then
        [ucast (0xC0 OR drop_bit 6 c), ucast (0x80 OR (c AND 0x3F))]
      else if codePoint \<le> 0xFFFF then
        [ucast (0xE0 OR drop_bit 12 c), ucast (0x80 OR (drop_bit 6 c AND 0x3F)),
         ucast (0x80 OR (c AND 0x3F))]
      else if codePoint \<le> 0x10FFFF then
        [ucast (0xF0 OR drop_bit 18 c), ucast (0x80 OR (drop_bit 12 c AND 0x3F)),
         ucast (0x80 OR (drop_bit 6 c AND 0x3F)), ucast (0x80 OR (c AND 0x3F))]
      else [])"

section \<open>Streams of code points\<close>

record utf8_stream =
  stream_rest :: bytes
  stream_allowSurrogate :: bool

definition nextCodePoint :: "utf8_stream \<Rightarrow> int \<times> utf8_stream" where
  "nextCodePoint st =
     (let (size, codePoint) = utf8ToCodePoint (stream_rest st) (stream_allowSurrogate st) in
      if size < 1 then (-1, st\<lparr>stream_rest := drop 1 (stream_rest st)\<rparr>)
      else (codePoint, st\<lparr>stream_rest := drop size (stream_rest st)\<rparr>))"

text \<open>The loop \<open>while (stream) { stream.nextCodePoint() }\<close>.\<close>

function stream_codePoints :: "utf8_stream \<Rightarrow> int list" where
  "stream_codePoints st =
     (if stream_rest st = [] then []
      else (let (cp, st') = nextCodePoint st in cp # stream_codePoints st'))"
  by pat_completeness auto
termination
  by (relation "measure (\<lambda>st. length (stream_rest st))")
    (auto simp: nextCodePoint_def split: prod.splits if_splits)

declare stream_codePoints.simps [simp del]

section \<open>Packed code points\<close>

text \<open>\<open>CodePointWithMeta\<close>: 8 bits of meta data over 24 bits of code point, where
  \<open>0xFFFFFF\<close> stands for a negative code point.\<close>

type_synonym CodePointWithMeta = u32

definition mkCodePointWithMeta :: "int \<Rightarrow> byte \<Rightarrow> CodePointWithMeta" where
  "mkCodePointWithMeta codePoint meta =
     push_bit 24 (ucast meta) OR
     (if codePoint < 0 then 0xFFFFFF else (word_of_int codePoint :: u32) AND 0xFFFFFF)"

definition getMeta :: "CodePointWithMeta \<Rightarrow> byte" where
  "getMeta v = ucast (drop_bit 24 v)"

definition metaCodePoint :: "CodePointWithMeta \<Rightarrow> int" where
  "metaCodePoint v = (let cc = v AND 0xFFFFFF in if cc = 0xFFFFFF then -1 else uint cc)"

text \<open>\<open>CodePointPropertyInterval\<close>: 16 bits of property, 24 bits each of first and last.\<close>

type_synonym CodePointPropertyInterval = u64

definition mkPropertyInterval :: "int \<Rightarrow> int \<Rightarrow> u16 \<Rightarrow> CodePointPropertyInterval" where
  "mkPropertyInterval fst_cp lst_cp p =
     push_bit 48 (ucast p) OR push_bit 24 (word_of_int fst_cp) OR word_of_int lst_cp"

definition interval_first :: "CodePointPropertyInterval \<Rightarrow> int" where
  "interval_first d = uint (drop_bit 24 d AND 0xFFFFFF)"

definition interval_last :: "CodePointPropertyInterval \<Rightarrow> int" where
  "interval_last d = uint (d AND 0xFFFFFF)"

definition interval_property :: "CodePointPropertyInterval \<Rightarrow> u16" where
  "interval_property d = ucast (drop_bit 48 d)"

definition interval_contains :: "CodePointPropertyInterval \<Rightarrow> int \<Rightarrow> bool" where
  "interval_contains d codePoint \<longleftrightarrow> codePoint \<ge> interval_first d \<and> codePoint \<le> interval_last d"

section \<open>Bytes as arithmetic\<close>

lemma byte_masks:
  "(0xE0 :: byte) = NOT (mask 5)" "(0xC0 :: byte) = NOT (mask 6)" "(0xFE :: byte) = NOT (mask 1)"
  "(0xF0 :: byte) = NOT (mask 4)" "(0xF8 :: byte) = NOT (mask 3)"
  by code_simp+

lemma u32_masks:
  "(0x3F :: u32) = mask 6" "(0x1F :: u32) = mask 5" "(0x0F :: u32) = mask 4" "(0x07 :: u32) = mask 3"
  "(0x3FF :: u32) = mask 10"
  by code_simp+

lemma unat_and_lead:
  fixes b :: byte
  shows "unat (b AND 0xE0) = 32 * (unat b div 32)" "unat (b AND 0xC0) = 64 * (unat b div 64)"
    "unat (b AND 0xFE) = 2 * (unat b div 2)" "unat (b AND 0xF0) = 16 * (unat b div 16)"
    "unat (b AND 0xF8) = 8 * (unat b div 8)"
  by (simp_all only: byte_masks unat_and_not_mask) simp_all

lemma byte_lead [wordsimps]:
  fixes b :: byte
  shows "b AND 0xE0 = 0xC0 \<longleftrightarrow> unat b div 32 = 6"
    and "b AND 0xE0 = 0x80 \<longleftrightarrow> unat b div 32 = 4"
    and "b AND 0xE0 = 0xA0 \<longleftrightarrow> unat b div 32 = 5"
    and "b AND 0xC0 = 0x80 \<longleftrightarrow> unat b div 64 = 2"
    and "b AND 0xFE = 0xC0 \<longleftrightarrow> unat b div 2 = 96"
    and "b AND 0xF0 = 0xE0 \<longleftrightarrow> unat b div 16 = 14"
    and "b AND 0xF0 = 0x80 \<longleftrightarrow> unat b div 16 = 8"
    and "b AND 0xF8 = 0xF0 \<longleftrightarrow> unat b div 8 = 30"
  by (auto simp only: word_unat_eq_iff unat_and_lead) auto

lemma u32_trail [wordsimps]:
  fixes w :: u32
  shows "unat (w AND 0x3F) = unat w mod 64" "unat (w AND 0x1F) = unat w mod 32"
    "unat (w AND 0x0F) = unat w mod 16" "unat (w AND 0x07) = unat w mod 8"
    "unat (w AND 0x3FF) = unat w mod 1024"
  by (simp_all only: u32_masks unat_and_mask) simp_all

lemma unat_decode2 [wordsimps]: "unat (decode2 b0 b1) = unat b0 mod 32 * 64 + unat b1 mod 64"
  unfolding decode2_def by (subst unat_push_or) (simp_all add: wordsimps)

lemma unat_decode3 [wordsimps]:
  "unat (decode3 b0 b1 b2) = unat b0 mod 16 * 4096 + unat b1 mod 64 * 64 + unat b2 mod 64"
proof -
  have "unat (push_bit 6 (u32_of b1 AND 0x3F) OR (u32_of b2 AND 0x3F))
      = unat b1 mod 64 * 64 + unat b2 mod 64"
    by (subst unat_push_or) (simp_all add: wordsimps)
  moreover have "unat b1 mod 64 * 64 + unat b2 mod 64 < 4096" by linarith
  moreover have "unat b0 mod 16 < 16" by simp
  ultimately show ?thesis
    unfolding decode3_def by (subst unat_push_or) (simp_all add: wordsimps)
qed

lemma unat_decode4 [wordsimps]:
  "unat (decode4 b0 b1 b2 b3) =
     unat b0 mod 8 * 262144 + unat b1 mod 64 * 4096 + unat b2 mod 64 * 64 + unat b3 mod 64"
proof -
  have i: "unat (push_bit 6 (u32_of b2 AND 0x3F) OR (u32_of b3 AND 0x3F))
      = unat b2 mod 64 * 64 + unat b3 mod 64"
    by (subst unat_push_or) (simp_all add: wordsimps)
  have b: "unat b2 mod 64 * 64 + unat b3 mod 64 < 4096" by linarith
  have "unat (push_bit 12 (u32_of b1 AND 0x3F) OR push_bit 6 (u32_of b2 AND 0x3F)
        OR (u32_of b3 AND 0x3F)) = unat b1 mod 64 * 4096 + unat b2 mod 64 * 64 + unat b3 mod 64"
    using i b by (subst unat_push_or) (simp_all add: wordsimps)
  moreover have "unat b1 mod 64 * 4096 + unat b2 mod 64 * 64 + unat b3 mod 64 < 262144"
    by linarith
  moreover have "unat b0 mod 8 < 8" by simp
  ultimately show ?thesis
    unfolding decode4_def by (subst unat_push_or) (simp_all add: wordsimps)
qed

section \<open>Encoding and decoding as functions on numbers\<close>

definition utf8_nats :: "nat \<Rightarrow> nat list" where
  "utf8_nats n =
     (if n \<le> 0x7F then [n]
      else if n \<le> 0x7FF then [192 + n div 64, 128 + n mod 64]
      else if n \<le> 0xFFFF then [224 + n div 4096, 128 + n div 64 mod 64, 128 + n mod 64]
      else [240 + n div 262144, 128 + n div 4096 mod 64, 128 + n div 64 mod 64, 128 + n mod 64])"

lemma digits64:
  fixes n :: nat
  shows "n = 4096 * (n div 4096) + 64 * (n div 64 mod 64) + n mod 64"
    and "n = 262144 * (n div 262144) + 4096 * (n div 4096 mod 64) + 64 * (n div 64 mod 64) + n mod 64"
proof -
  have d: "n div 4096 = n div 64 div 64" "n div 262144 = n div 64 div 64 div 64"
    by (simp_all flip: div_mult2_eq)
  have a: "64 * (n div 64) + n mod 64 = n" by simp
  have b: "64 * (n div 64 div 64) + n div 64 mod 64 = n div 64" by simp
  have c: "64 * (n div 64 div 64 div 64) + n div 64 div 64 mod 64 = n div 64 div 64" by simp
  show "n = 4096 * (n div 4096) + 64 * (n div 64 mod 64) + n mod 64"
    unfolding d using a b by linarith
  show "n = 262144 * (n div 262144) + 4096 * (n div 4096 mod 64) + 64 * (n div 64 mod 64) + n mod 64"
    unfolding d using a b c by linarith
qed

fun of_utf8_nats :: "nat list \<Rightarrow> nat" where
  "of_utf8_nats [a] = a"
| "of_utf8_nats [a, b] = (a - 192) * 64 + (b - 128)"
| "of_utf8_nats [a, b, c] = 4096 * (a - 224) + 64 * (b - 128) + (c - 128)"
| "of_utf8_nats [a, b, c, d] = 262144 * (a - 240) + 4096 * (b - 128) + 64 * (c - 128) + (d - 128)"
| "of_utf8_nats _ = 0"

lemma of_utf8_nats_inv: "of_utf8_nats (utf8_nats n) = n"
  using digits64(1) [of n] digits64(2) [of n] by (simp add: utf8_nats_def)

lemma utf8_nats_inj: "utf8_nats x = utf8_nats y \<Longrightarrow> x = y"
  by (metis of_utf8_nats_inv)

lemma unat_lead_or:
  fixes x :: u32
  shows "unat x < 32 \<Longrightarrow> unat (ucast (0xC0 OR x) :: byte) = 192 + unat x"
    and "unat x < 16 \<Longrightarrow> unat (ucast (0xE0 OR x) :: byte) = 224 + unat x"
    and "unat x < 8 \<Longrightarrow> unat (ucast (0xF0 OR x) :: byte) = 240 + unat x"
    and "unat x < 64 \<Longrightarrow> unat (ucast (0x80 OR x) :: byte) = 128 + unat x"
proof -
  have m: "(0xC0::u32) AND mask 6 = 0" "(0xE0::u32) AND mask 5 = 0" "(0xF0::u32) AND mask 4 = 0"
    "(0x80::u32) AND mask 6 = 0"
    by code_simp+
  show "unat x < 32 \<Longrightarrow> unat (ucast (0xC0 OR x) :: byte) = 192 + unat x"
    by (simp add: unat_or_low [OF m(1)] wordsimps)
  show "unat x < 16 \<Longrightarrow> unat (ucast (0xE0 OR x) :: byte) = 224 + unat x"
    by (simp add: unat_or_low [OF m(2)] wordsimps)
  show "unat x < 8 \<Longrightarrow> unat (ucast (0xF0 OR x) :: byte) = 240 + unat x"
    by (simp add: unat_or_low [OF m(3)] wordsimps)
  show "unat x < 64 \<Longrightarrow> unat (ucast (0x80 OR x) :: byte) = 128 + unat x"
    by (simp add: unat_or_low [OF m(4)] wordsimps)
qed

lemma map_unat_codePointToUtf8:
  assumes "isCodePoint cp"
  shows "map unat (codePointToUtf8 cp) = utf8_nats (nat cp)"
proof -
  from assms have cp: "0 \<le> cp" "cp \<le> 0x10FFFF" by (auto simp: code_point_defs)
  then have n: "unat (word_of_int cp :: u32) = nat cp" by (simp add: unat_word_of_int)
  have n7: "cp \<le> 0x7F \<Longrightarrow> unat (word_of_int cp :: byte) = nat cp"
    using cp by (simp add: unat_word_of_int)
  from cp assms show ?thesis
    by (auto simp: codePointToUtf8_def utf8_nats_def Let_def n n7 unat_lead_or unat_drop_bit
        u32_trail nat_le_iff)
qed

lemma map_unat_inj: "map unat xs = map unat (ys :: 'a::len word list) \<longleftrightarrow> xs = ys"
  by (simp add: list_eq_iff_nth_eq word_unat_eq_iff) (metis length_map nth_map)

lemma word_eq_nums:
  fixes b :: byte
  shows "b = 0xE0 \<longleftrightarrow> unat b = 224" "b = 0xED \<longleftrightarrow> unat b = 237" "b = 0xF0 \<longleftrightarrow> unat b = 240"
    "b = 0xF4 \<longleftrightarrow> unat b = 244"
  by (simp_all add: word_unat_eq_iff)

lemma validate_nats:
  "utf8ValidateChar s a =
     (case map unat s of
        [] \<Rightarrow> 0
      | b0 # r \<Rightarrow>
          if b0 < 128 then 1
          else if b0 div 32 = 6 then
            (case r of b1 # _ \<Rightarrow> if b1 div 64 \<noteq> 2 \<or> b0 div 2 = 96 then 0 else 2 | _ \<Rightarrow> 0)
          else if b0 div 16 = 14 then
            (case r of b1 # b2 # _ \<Rightarrow>
               if b1 div 64 \<noteq> 2 \<or> b2 div 64 \<noteq> 2 \<or> (b0 = 224 \<and> b1 div 32 = 4)
                  \<or> (b0 = 237 \<and> b1 div 32 = 5 \<and> \<not> a) then 0 else 3
             | _ \<Rightarrow> 0)
          else if b0 div 8 = 30 then
            (case r of b1 # b2 # b3 # _ \<Rightarrow>
               if b1 div 64 \<noteq> 2 \<or> b2 div 64 \<noteq> 2 \<or> b3 div 64 \<noteq> 2 \<or> (b0 = 240 \<and> b1 div 16 = 8)
                  \<or> (b0 = 244 \<and> b1 > 143) \<or> b0 > 244 then 0 else 4
             | _ \<Rightarrow> 0)
          else 0)"
proof -
  consider "s = []" | b0 where "s = [b0]" | b0 b1 where "s = [b0, b1]"
    | b0 b1 b2 where "s = [b0, b1, b2]" | b0 b1 b2 b3 r where "s = b0 # b1 # b2 # b3 # r"
    by (metis list.exhaust)
  then show ?thesis
    unfolding utf8ValidateChar_def byte_lead unfolding word_eq_nums word_less_nat_alt
    by cases (simp_all cong: if_cong split del: if_split)
qed

lemma surrogate_digits:
  fixes x y z :: nat
  assumes "x < 64" "z < 64"
  shows "0xD800 \<le> y * 4096 + x * 64 + z \<and> y * 4096 + x * 64 + z \<le> 0xDFFF \<longleftrightarrow> y = 13 \<and> 32 \<le> x"
proof (cases "y = 13")
  case True
  have "2048 \<le> x * 64 + z \<longleftrightarrow> 32 \<le> x" using assms by presburger
  with True assms show ?thesis by auto
next
  case False
  then consider "y \<le> 12" | "14 \<le> y" by linarith
  with False assms show ?thesis by cases auto
qed

lemma validate_utf8_nats:
  assumes "n \<le> 0x10FFFF" and "map unat s = utf8_nats n @ r"
  shows "utf8ValidateChar s a =
    (if 0xD800 \<le> n \<and> n \<le> 0xDFFF \<and> \<not> a then 0 else length (utf8_nats n))"
proof -
  consider "n \<le> 0x7F" | "0x7F < n" "n \<le> 0x7FF" | "0x7FF < n" "n \<le> 0xFFFF" | "0xFFFF < n"
    by linarith
  then show ?thesis
  proof cases
    case 1
    with assms(2) show ?thesis by (simp add: validate_nats utf8_nats_def split del: if_split)
  next
    case 2
    then have "(192 + n div 64) div 32 = 6" "(192 + n div 64) div 2 \<noteq> 96"
      "(128 + n mod 64) div 64 = 2" by auto
    with assms(2) 2 show ?thesis by (simp add: validate_nats utf8_nats_def split del: if_split)
  next
    case 3
    define x y z where "x = n div 64 mod 64" and "y = n div 4096" and "z = n mod 64"
    have n: "n = 4096 * y + 64 * x + z" "x < 64" "z < 64"
      using digits64(1) [of n] by (auto simp: x_def y_def z_def)
    with 3 have y: "y < 16" "y = 0 \<Longrightarrow> 32 \<le> x" by auto
    have sur: "0xD800 \<le> n \<and> n \<le> 0xDFFF \<longleftrightarrow> y = 13 \<and> 32 \<le> x"
      using surrogate_digits [of x z y] n by (simp add: ac_simps)
    have lead: "(224 + y) div 16 = 14" "(224 + y) div 32 = 7" "\<not> 224 + y < 128" using y(1) by auto
    have trail: "(128 + x) div 64 = 2" "(128 + z) div 64 = 2"
      "(128 + x) div 32 = (if x < 32 then 4 else 5)" using n by auto
    have s: "map unat s = (224 + y) # (128 + x) # (128 + z) # r"
      and l: "length (utf8_nats n) = 3"
      using assms(2) 3 by (auto simp: utf8_nats_def x_def y_def z_def)
    show ?thesis unfolding validate_nats s l using lead trail y(2) sur by auto
  next
    case 4
    define w x y z where "w = n div 262144" and "x = n div 64 mod 64" and "y = n div 4096 mod 64"
      and "z = n mod 64"
    have n: "n = 262144 * w + 4096 * y + 64 * x + z" "x < 64" "y < 64" "z < 64"
      using digits64(2) [of n] by (auto simp: x_def y_def z_def w_def)
    with 4 assms(1) have w: "w \<le> 4" "w = 0 \<Longrightarrow> 16 \<le> y" "w = 4 \<Longrightarrow> y < 16" by auto
    have lead: "(240 + w) div 8 = 30" "(240 + w) div 16 = 15" "(240 + w) div 32 = 7"
      "\<not> 240 + w < 128" using w(1) by auto
    have trail: "(128 + x) div 64 = 2" "(128 + z) div 64 = 2" "(128 + y) div 64 = 2"
      "(128 + y) div 16 = 8 \<longleftrightarrow> y < 16" using n by auto
    have s: "map unat s = (240 + w) # (128 + y) # (128 + x) # (128 + z) # r"
      and l: "length (utf8_nats n) = 4"
      using assms(2) 4 by (auto simp: utf8_nats_def x_def y_def z_def w_def)
    show ?thesis unfolding validate_nats s l using lead trail w 4 by auto
  qed
qed

lemma utf8_nats_of_valid2:
  fixes b0 b1 :: nat
  assumes "b0 div 32 = 6" "b1 div 64 = 2" "b0 div 2 \<noteq> 96"
  defines "n \<equiv> b0 mod 32 * 64 + b1 mod 64"
  shows "utf8_nats n = [b0, b1]" and "n \<le> 0x7FF"
proof -
  define y z where "y = b0 - 192" and "z = b1 - 128"
  have b: "b0 = 192 + y" "b1 = 128 + z" "y < 32" "z < 64" "y \<ge> 2"
    using assms(1-3) by (auto simp: y_def z_def)
  have "b0 mod 32 = y" "b1 mod 64 = z" unfolding b(1,2) using b by (simp_all add: mod_base)
  then have n: "n = y * 64 + z" by (simp add: n_def)
  have d: "n div 64 = y" "n mod 64 = z" unfolding n using b by auto
  show "utf8_nats n = [b0, b1]" using b d n by (auto simp: utf8_nats_def)
  show "n \<le> 0x7FF" using b n by auto
qed

lemma utf8_nats_of_valid3:
  fixes b0 b1 b2 :: nat
  assumes "b0 div 16 = 14" "b1 div 64 = 2" "b2 div 64 = 2" "\<not> (b0 = 224 \<and> b1 div 32 = 4)"
  defines "n \<equiv> b0 mod 16 * 4096 + b1 mod 64 * 64 + b2 mod 64"
  shows "utf8_nats n = [b0, b1, b2]" and "n \<le> 0xFFFF"
    and "0xD800 \<le> n \<and> n \<le> 0xDFFF \<longleftrightarrow> b0 = 237 \<and> b1 div 32 = 5"
proof -
  define y x z where "y = b0 - 224" and "x = b1 - 128" and "z = b2 - 128"
  have b: "b0 = 224 + y" "b1 = 128 + x" "b2 = 128 + z" "y < 16" "x < 64" "z < 64"
    using assms(1-3) by (auto simp: y_def x_def z_def)
  have low: "y = 0 \<Longrightarrow> 32 \<le> x" using assms(4) b by auto
  have "b0 mod 16 = y" "b1 mod 64 = x" "b2 mod 64 = z" unfolding b(1-3) using b by (simp_all add: mod_base)
  then have n: "n = y * 4096 + x * 64 + z" by (simp add: n_def)
  have n': "n = (y * 64 + x) * 64 + z" using n by simp
  have "n div 64 = y * 64 + x" "n mod 64 = z" unfolding n' using b digit_div_mod by blast+
  moreover have "(y * 64 + x) div 64 = y" "(y * 64 + x) mod 64 = x" using b digit_div_mod by blast+
  moreover have "n div 4096 = n div 64 div 64" by (simp flip: div_mult2_eq)
  ultimately have d: "n div 4096 = y" "n div 64 mod 64 = x" "n mod 64 = z" by simp_all
  have r: "n > 0x7FF" "n \<le> 0xFFFF" using n b low by (cases "y = 0"; auto)+
  show "utf8_nats n = [b0, b1, b2]" using d b r by (simp add: utf8_nats_def)
  show "n \<le> 0xFFFF" by fact
  have "b1 div 32 = 5 \<longleftrightarrow> 32 \<le> x" using b by auto
  then show "0xD800 \<le> n \<and> n \<le> 0xDFFF \<longleftrightarrow> b0 = 237 \<and> b1 div 32 = 5"
    unfolding n b(1) using surrogate_digits [of x z y] b by simp
qed

lemma utf8_nats_of_valid4:
  fixes b0 b1 b2 b3 :: nat
  assumes "b0 div 8 = 30" "b1 div 64 = 2" "b2 div 64 = 2" "b3 div 64 = 2"
    "\<not> (b0 = 240 \<and> b1 div 16 = 8)" "\<not> (b0 = 244 \<and> b1 > 143)" "\<not> b0 > 244"
  defines "n \<equiv> b0 mod 8 * 262144 + b1 mod 64 * 4096 + b2 mod 64 * 64 + b3 mod 64"
  shows "utf8_nats n = [b0, b1, b2, b3]" and "n \<le> 0x10FFFF" and "0xFFFF < n"
proof -
  define w y x z where "w = b0 - 240" and "y = b1 - 128" and "x = b2 - 128" and "z = b3 - 128"
  have b: "b0 = 240 + w" "b1 = 128 + y" "b2 = 128 + x" "b3 = 128 + z" "w \<le> 4" "y < 64" "x < 64" "z < 64"
    using assms(1-4,7) by (auto simp: w_def y_def x_def z_def)
  have low: "w = 0 \<Longrightarrow> 16 \<le> y" "w = 4 \<Longrightarrow> y < 16" using assms(5,6) b by auto
  have "b0 mod 8 = w" "b1 mod 64 = y" "b2 mod 64 = x" "b3 mod 64 = z" unfolding b(1-4) using b by (simp_all add: mod_base)
  then have n: "n = w * 262144 + y * 4096 + x * 64 + z" by (simp add: n_def)
  have n': "n = ((w * 64 + y) * 64 + x) * 64 + z" using n by simp
  have "n div 64 = (w * 64 + y) * 64 + x" "n mod 64 = z" unfolding n' using b digit_div_mod by blast+
  moreover have "((w * 64 + y) * 64 + x) div 64 = w * 64 + y" "((w * 64 + y) * 64 + x) mod 64 = x"
    "(w * 64 + y) div 64 = w" "(w * 64 + y) mod 64 = y" using b digit_div_mod by blast+
  moreover have "n div 4096 = n div 64 div 64" "n div 262144 = n div 64 div 64 div 64"
    by (simp_all flip: div_mult2_eq)
  ultimately have d: "n div 262144 = w" "n div 4096 mod 64 = y" "n div 64 mod 64 = x" "n mod 64 = z"
    by simp_all
  show g: "n > 0xFFFF" using n b low(1) by (cases "w = 0") auto
  show "n \<le> 0x10FFFF" using n b low(2) by (cases "w = 4") auto
  from g d b show "utf8_nats n = [b0, b1, b2, b3]" by (simp add: utf8_nats_def)
qed

lemma valid_cases:
  assumes "utf8ValidateChar s a = k" "k \<noteq> 0"
  obtains
    b0 r where "s = b0 # r" "k = 1" "unat b0 < 128"
  | b0 b1 r where "s = b0 # b1 # r" "k = 2"
      "unat b0 div 32 = 6" "unat b1 div 64 = 2" "unat b0 div 2 \<noteq> 96"
  | b0 b1 b2 r where "s = b0 # b1 # b2 # r" "k = 3"
      "unat b0 div 16 = 14" "unat b1 div 64 = 2" "unat b2 div 64 = 2"
      "\<not> (unat b0 = 224 \<and> unat b1 div 32 = 4)"
      "\<not> (unat b0 = 237 \<and> unat b1 div 32 = 5 \<and> \<not> a)"
  | b0 b1 b2 b3 r where "s = b0 # b1 # b2 # b3 # r" "k = 4"
      "unat b0 div 8 = 30" "unat b1 div 64 = 2" "unat b2 div 64 = 2" "unat b3 div 64 = 2"
      "\<not> (unat b0 = 240 \<and> unat b1 div 16 = 8)" "\<not> (unat b0 = 244 \<and> unat b1 > 143)"
      "\<not> unat b0 > 244"
proof (cases s)
  case Nil
  with assms show ?thesis by (simp add: validate_nats)
next
  case (Cons b0 r)
  note v = assms [unfolded validate_nats Cons list.map list.case]
  consider "unat b0 < 128" | "unat b0 div 32 = 6" | "unat b0 div 16 = 14" | "unat b0 div 8 = 30"
    using v by (metis (full_types))
  then show ?thesis
  proof cases
    case 1
    with v Cons show ?thesis by (intro that(1)) auto
  next
    case 2
    then have "\<not> unat b0 < 128" by auto
    with 2 v Cons show ?thesis by (cases r) (auto intro: that(2) split: if_splits)
  next
    case 3
    then have "\<not> unat b0 < 128" "unat b0 div 32 \<noteq> 6" by auto
    with 3 v Cons show ?thesis
      by (auto intro!: that(3) split: if_splits list.splits)
  next
    case 4
    then have "\<not> unat b0 < 128" "unat b0 div 32 \<noteq> 6" "unat b0 div 16 \<noteq> 14" by auto
    with 4 v Cons show ?thesis
      by (auto intro!: that(4) split: if_splits list.splits)
  qed
qed

section \<open>Round trips\<close>

text \<open>What one successful validation gives: the size, the leading byte and the encoding.\<close>

lemma decode_encode:
  assumes "utf8ToCodePoint s a = (k, cp)" "k \<noteq> 0"
  shows "isCodePoint cp" "codePointToUtf8 cp = take k s" "k \<le> length s"
    "\<not> a \<Longrightarrow> \<not> isSurrogate cp"
proof -
  have v: "utf8ValidateChar s a = k" using assms(1) by (simp add: utf8ToCodePoint_def Let_def)
  have "\<exists>n. cp = int n \<and> n \<le> 0x10FFFF \<and> utf8_nats n = map unat (take k s) \<and> k \<le> length s \<and>
      (a \<or> \<not> (0xD800 \<le> n \<and> n \<le> 0xDFFF))"
    using v assms(2)
  proof (cases rule: valid_cases)
    case (1 b0 r)
    with assms(1) show ?thesis
      by (intro exI [of _ "unat b0"]) (auto simp: utf8ToCodePoint_def Let_def v utf8_nats_def)
  next
    case (2 b0 b1 r)
    with assms(1) utf8_nats_of_valid2 [OF 2(3-5), folded unat_decode2] show ?thesis
      by (intro exI [of _ "unat (decode2 b0 b1)"])
        (auto simp: utf8ToCodePoint_def Let_def v)
  next
    case (3 b0 b1 b2 r)
    with assms(1) utf8_nats_of_valid3 [OF 3(3-6), folded unat_decode3] show ?thesis
      by (intro exI [of _ "unat (decode3 b0 b1 b2)"])
        (auto simp: utf8ToCodePoint_def Let_def v)
  next
    case (4 b0 b1 b2 b3 r)
    with assms(1) utf8_nats_of_valid4 [OF 4(3-9), folded unat_decode4] show ?thesis
      by (intro exI [of _ "unat (decode4 b0 b1 b2 b3)"])
        (auto simp: utf8ToCodePoint_def Let_def v)
  qed
  then obtain n where n: "cp = int n" "n \<le> 0x10FFFF" "utf8_nats n = map unat (take k s)"
    "k \<le> length s" "a \<or> \<not> (0xD800 \<le> n \<and> n \<le> 0xDFFF)" by blast
  then show c: "isCodePoint cp" by (simp add: code_point_defs)
  from map_unat_codePointToUtf8 [OF c] n show "codePointToUtf8 cp = take k s"
    by (simp add: map_unat_inj)
  from n show "k \<le> length s" "\<not> a \<Longrightarrow> \<not> isSurrogate cp" by (auto simp: code_point_defs)
qed

lemma decode_nats:
  assumes "n \<le> 0x10FFFF" "map unat s = utf8_nats n @ r" "utf8ValidateChar s a = length (utf8_nats n)"
  shows "snd (utf8ToCodePoint s a) = int n"
proof -
  have m: "codePointToUtf8 (snd (utf8ToCodePoint s a)) = take (length (utf8_nats n)) s"
    and c: "isCodePoint (snd (utf8ToCodePoint s a))"
    using decode_encode [of s a "length (utf8_nats n)"] assms(3)
    by (auto simp: utf8ToCodePoint_def Let_def utf8_nats_def)
  have "map unat (take (length (utf8_nats n)) s) = utf8_nats n"
    using assms(2) by (metis append_eq_conv_conj take_map)
  with m map_unat_codePointToUtf8 [OF c]
  have e: "utf8_nats (nat (snd (utf8ToCodePoint s a))) = utf8_nats n" by simp
  from utf8_nats_inj [OF e] c show ?thesis by (auto simp: code_point_defs)
qed

lemma utf8_nats_length: "length (utf8_nats n) \<noteq> 0"
  by (simp add: utf8_nats_def)

lemma encode_validate:
  assumes "isCodePoint cp" and "a \<or> \<not> isSurrogate cp"
  shows "utf8ValidateChar (codePointToUtf8 cp @ rest) a = length (codePointToUtf8 cp)"
    and "length (codePointToUtf8 cp) \<in> {1..4}"
proof -
  note m = map_unat_codePointToUtf8 [OF assms(1)]
  have l: "length (codePointToUtf8 cp) = length (utf8_nats (nat cp))" using m by (metis length_map)
  with assms m show "utf8ValidateChar (codePointToUtf8 cp @ rest) a = length (codePointToUtf8 cp)"
    by (subst validate_utf8_nats [of "nat cp" _ "map unat rest"])
      (auto simp: code_point_defs nat_le_iff le_nat_iff)
  show "length (codePointToUtf8 cp) \<in> {1..4}" unfolding l by (simp add: utf8_nats_def)
qed

lemma utf8ByteSize_nat:
  "utf8ByteSize b =
     (if unat b < 128 then 1 else if unat b < 192 then 0 else if unat b < 224 then 2
      else if unat b < 240 then 3 else if unat b < 248 then 4 else 0)"
proof -
  have "unat b div 8 < 32" using unat_byte_less [of b] by linarith
  then have "unat b div 8 \<in> set [0..<32]" by simp
  moreover have "\<forall>i\<in>set [0..<32]. packedTable ! i =
      (if i < 16 then 1 else if i < 24 then 0 else if i < 28 then 2 else if i < 30 then 3
       else if i < 31 then 4 else 0)"
    by code_simp
  ultimately show ?thesis
    by (auto simp: utf8ByteSize_def unat_drop_bit)
qed

lemma byteSize_lead:
  "unat b < 128 \<Longrightarrow> utf8ByteSize b = 1" "unat b div 64 = 2 \<Longrightarrow> utf8ByteSize b = 0"
  "unat b div 32 = 6 \<Longrightarrow> utf8ByteSize b = 2" "unat b div 16 = 14 \<Longrightarrow> utf8ByteSize b = 3"
  "unat b div 8 = 30 \<Longrightarrow> utf8ByteSize b = 4"
  unfolding utf8ByteSize_nat by auto

lemma validate_byteSize:
  assumes "utf8ValidateChar s a = k" "k \<noteq> 0"
  shows "s \<noteq> []" "utf8ByteSize (s ! 0) = k" "k \<le> length s"
    "\<And>i. 0 < i \<Longrightarrow> i < k \<Longrightarrow> utf8ByteSize (s ! i) = 0"
proof -
  have two: "0 < i \<and> i < (2::nat) \<longleftrightarrow> i = 1" and three: "0 < i \<and> i < (3::nat) \<longleftrightarrow> i = 1 \<or> i = 2"
    and four: "0 < i \<and> i < (4::nat) \<longleftrightarrow> i = 1 \<or> i = 2 \<or> i = 3" for i
    by auto
  have "s \<noteq> [] \<and> utf8ByteSize (s ! 0) = k \<and> k \<le> length s \<and>
    (\<forall>i. 0 < i \<and> i < k \<longrightarrow> utf8ByteSize (s ! i) = 0)"
    using assms
    by (cases rule: valid_cases)
      (auto simp: byteSize_lead two three four)
  then show "s \<noteq> []" "utf8ByteSize (s ! 0) = k" "k \<le> length s"
    "\<And>i. 0 < i \<Longrightarrow> i < k \<Longrightarrow> utf8ByteSize (s ! i) = 0" by auto
qed

lemma encode_decode:
  assumes "isCodePoint cp" and "a \<or> \<not> isSurrogate cp"
  shows "utf8ToCodePoint (codePointToUtf8 cp @ rest) a = (length (codePointToUtf8 cp), cp)"
proof -
  note m = map_unat_codePointToUtf8 [OF assms(1)]
  have l: "length (codePointToUtf8 cp) = length (utf8_nats (nat cp))" using m by (metis length_map)
  have v: "utf8ValidateChar (codePointToUtf8 cp @ rest) a = length (utf8_nats (nat cp))"
    using encode_validate(1) [OF assms] l by simp
  have "snd (utf8ToCodePoint (codePointToUtf8 cp @ rest) a) = int (nat cp)"
    using assms(1) m v by (intro decode_nats) (auto simp: code_point_defs nat_le_iff)
  with assms(1) v l show ?thesis
    by (auto simp: utf8ToCodePoint_def Let_def code_point_defs)
qed

text \<open>C19. Encoding then decoding: for every code point (a surrogate only when the decoder accepts
  surrogates) and whatever follows the encoded bytes, \<open>utf8ToCodePoint\<close> reads exactly the
  bytes that \<open>codePointToUtf8\<close> wrote and returns the code point.\<close>

theorem utf8_encode_decode:
  assumes "isCodePoint cp" and "a \<or> \<not> isSurrogate cp"
  shows "utf8ToCodePoint (codePointToUtf8 cp @ rest) a = (length (codePointToUtf8 cp), cp)"
  using assms by (rule encode_decode)

theorem utf8_encode_decode_witness:
  "isCodePoint 0x1F600 \<and> \<not> isSurrogate 0x1F600 \<and>
   utf8ToCodePoint (codePointToUtf8 0x1F600 @ [65]) False = (length (codePointToUtf8 0x1F600), 0x1F600)"
  using utf8_encode_decode [of "0x1F600" False "[65]"] by (simp add: code_point_defs)

text \<open>C20. Decoding then encoding: whenever \<open>utf8ToCodePoint\<close> accepts (non-zero size), the
  result is a code point (no surrogate in strict mode), the size fits in the input and agrees with
  \<open>utf8ByteSize\<close> of the leading byte, and \<open>codePointToUtf8\<close> gives back exactly the bytes
  read. So no overlong form, no stray byte and nothing above U+10FFFF is accepted.\<close>

theorem utf8_decode_encode:
  assumes "utf8ToCodePoint s a = (k, cp)" and "k \<noteq> 0"
  shows "isCodePoint cp \<and> (\<not> a \<longrightarrow> \<not> isSurrogate cp) \<and> k \<le> length s \<and>
    utf8ByteSize (s ! 0) = k \<and> codePointToUtf8 cp = take k s"
proof -
  have "utf8ValidateChar s a = k" using assms(1) by (simp add: utf8ToCodePoint_def Let_def)
  then have "utf8ByteSize (s ! 0) = k" using assms(2) by (rule validate_byteSize(2))
  with decode_encode [OF assms] show ?thesis by simp
qed

theorem utf8_decode_encode_witness:
  "utf8ToCodePoint [0xE3, 0x81, 0x82, 0x41] True = (3, 0x3042) \<and> isCodePoint 0x3042 \<and>
   codePointToUtf8 0x3042 = take 3 [0xE3, 0x81, 0x82, 0x41]"
proof -
  have d: "utf8ToCodePoint [0xE3, 0x81, 0x82, 0x41] True = (3, 0x3042)" by code_simp
  show ?thesis using d utf8_decode_encode [OF d] by simp
qed

text \<open>Surrogate pairs: splitting a supplementary code point gives a high and a low surrogate,
  and joining them gives the code point back.\<close>

theorem utf16_roundtrip:
  assumes "isSupplementaryCodePoint cp"
  shows "isHighSurrogate (uint (fst (codePointToUtf16 cp))) \<and>
    isLowSurrogate (uint (snd (codePointToUtf16 cp))) \<and>
    utf16ToCodePoint (fst (codePointToUtf16 cp)) (snd (codePointToUtf16 cp)) = cp"
proof -
  define n where "n = nat cp - 0x10000"
  have cp: "cp = int (n + 0x10000)" and n: "n < 0x100000"
    using assms by (auto simp: n_def code_point_defs)
  have w: "unat ((word_of_int cp :: u32) - 0x10000) = n"
    using n by (simp add: cp unat_of_nat)
  have "unat (drop_bit 10 ((word_of_int cp :: u32) - 0x10000) + 0xD800) = n div 1024 + 0xD800"
    using n by (simp add: unat_word_ariths unat_drop_bit w)
  then have hi: "unat (fst (codePointToUtf16 cp)) = n div 1024 + 0xD800"
    using assms n by (simp add: codePointToUtf16_def Let_def code_point_defs unat_ucast_down)
  have "unat (((word_of_int cp :: u32) - 0x10000 AND 0x3FF) + 0xDC00) = n mod 1024 + 0xDC00"
    using n by (simp add: unat_word_ariths u32_trail w)
  then have lo: "unat (snd (codePointToUtf16 cp)) = n mod 1024 + 0xDC00"
    using assms n by (simp add: codePointToUtf16_def Let_def code_point_defs unat_ucast_down)
  define h l :: u32 where "h = word_of_int (uint (fst (codePointToUtf16 cp)) - 0xD800)"
    and "l = word_of_int (uint (snd (codePointToUtf16 cp)) - 0xDC00)"
  have "unat h = n div 1024"
    unfolding h_def uint_eq_int_unat hi using n by (simp add: unat_of_nat)
  moreover have "unat l = n mod 1024"
    unfolding l_def uint_eq_int_unat lo by (simp add: unat_of_nat)
  ultimately have "unat (push_bit 10 h + l + 0x10000) = n + 0x10000"
    using n by (simp add: unat_word_ariths unat_push_bit)
  moreover have "isHighSurrogate (uint (fst (codePointToUtf16 cp)))"
    "isLowSurrogate (uint (snd (codePointToUtf16 cp)))"
    unfolding code_point_defs uint_eq_int_unat hi lo using n by auto
  ultimately show ?thesis
    unfolding utf16ToCodePoint_def h_def [symmetric] l_def [symmetric]
    by (simp add: cp) (simp only: uint_eq_int_unat)
qed

theorem utf16_roundtrip_witness:
  "isSupplementaryCodePoint 0x1F600 \<and>
   utf16ToCodePoint (fst (codePointToUtf16 0x1F600)) (snd (codePointToUtf16 0x1F600)) = 0x1F600"
proof -
  have s: "isSupplementaryCodePoint 0x1F600" by (simp add: code_point_defs)
  show ?thesis using s utf16_roundtrip [OF s] by simp
qed

text \<open>C23. A stream over the concatenated encodings of valid code points yields those code
  points, in order, and stops.\<close>

theorem stream_roundtrip:
  assumes "list_all (\<lambda>cp. isCodePoint cp \<and> (a \<or> \<not> isSurrogate cp)) cps"
  shows "stream_codePoints \<lparr>stream_rest = concat (map codePointToUtf8 cps), stream_allowSurrogate = a\<rparr> = cps"
  using assms
proof (induction cps)
  case Nil
  show ?case by (simp add: stream_codePoints.simps)
next
  case (Cons cp cps)
  then have cp: "isCodePoint cp" "a \<or> \<not> isSurrogate cp" by auto
  let ?r = "concat (map codePointToUtf8 cps)"
  have l: "length (codePointToUtf8 cp) \<ge> 1" using encode_validate(2) [OF cp] by simp
  have "utf8ToCodePoint (codePointToUtf8 cp @ ?r) a = (length (codePointToUtf8 cp), cp)"
  proof -
    have "snd (utf8ToCodePoint (codePointToUtf8 cp @ ?r) a) = int (nat cp)"
      using cp(1) map_unat_codePointToUtf8 [OF cp(1)] encode_validate(1) [OF cp]
      by (intro decode_nats [where r = "map unat ?r"])
        (auto simp: code_point_defs nat_le_iff simp flip: length_map [of unat "codePointToUtf8 cp"])
    with cp encode_validate(1) [OF cp] show ?thesis
      by (auto simp: utf8ToCodePoint_def Let_def code_point_defs)
  qed
  with l Cons show ?case
    by (subst stream_codePoints.simps) (auto simp: nextCodePoint_def)
qed

theorem stream_roundtrip_witness:
  "list_all (\<lambda>cp. isCodePoint cp \<and> (False \<or> \<not> isSurrogate cp)) [0x41, 0x3042] \<and>
   stream_codePoints \<lparr>stream_rest = concat (map codePointToUtf8 [0x41, 0x3042]),
      stream_allowSurrogate = False\<rparr> = [0x41, 0x3042]"
  using stream_roundtrip [of False "[0x41, 0x3042]"] by (simp add: code_point_defs)

lemma mask24: "(0xFFFFFF :: u32) = mask 24" "(0xFFFFFF :: u64) = mask 24"
  by code_simp+

lemma interval_roundtrip:
  assumes "0 \<le> f" "f \<le> 0xFFFFFF" "0 \<le> l" "l \<le> 0xFFFFFF"
  shows "interval_first (mkPropertyInterval f l p) = f \<and> interval_last (mkPropertyInterval f l p) = l \<and>
    interval_property (mkPropertyInterval f l p) = p"
proof -
  define fn ln where "fn = nat f" and "ln = nat l"
  have fl: "f = int fn" "l = int ln" "fn < 2 ^ 24" "ln < 2 ^ 24"
    using assms by (auto simp: fn_def ln_def)
  have w: "unat (word_of_int f :: u64) = fn" "unat (word_of_int l :: u64) = ln"
    using fl by (simp_all add: unat_of_nat)
  have p: "unat (ucast p :: u64) = unat p" "unat p < 65536"
  proof -
    show "unat p < 65536" by simp
    then have "unat p < 2 ^ LENGTH(64)" by (rule less_le_trans) simp
    then show "unat (ucast p :: u64) = unat p" by (simp only: unat_ucast_down mod_less)
  qed
  have i: "unat (push_bit 24 (word_of_int f) OR word_of_int l :: u64) = fn * 2 ^ 24 + ln"
    using w fl by (subst unat_push_or) auto
  then have v: "unat (mkPropertyInterval f l p) = unat p * 2 ^ 48 + (fn * 2 ^ 24 + ln)"
    unfolding mkPropertyInterval_def using fl p by (subst unat_push_or) auto
  let ?v = "unat p * 2 ^ 48 + (fn * 2 ^ 24 + ln)"
  have vv: "?v = (unat p * 2 ^ 24 + fn) * 2 ^ 24 + ln" by simp
  have "?v mod 2 ^ 24 = ln" "?v div 2 ^ 24 = unat p * 2 ^ 24 + fn"
    unfolding vv using digit_div_mod [OF fl(4)] by blast+
  moreover have "(unat p * 2 ^ 24 + fn) mod 2 ^ 24 = fn" using digit_div_mod [OF fl(3)] by blast
  moreover have "fn * 2 ^ 24 + ln < 2 ^ 48" using fl by simp
  then have "?v div 2 ^ 48 = unat p" using digit_div_mod by blast
  ultimately show ?thesis
    unfolding interval_first_def interval_last_def interval_property_def uint_eq_int_unat
      word_unat_eq_iff unat_ucast_down unat_drop_bit mask24 unat_and_mask v using fl p by simp
qed

text \<open>The packed representations lose nothing: \<open>CodePointWithMeta\<close> returns its meta byte and
  its code point (every negative one as -1), and \<open>CodePointPropertyInterval\<close> its bounds and
  its property.\<close>

theorem packed_roundtrip:
  assumes "cp < 0xFFFFFF" and "0 \<le> f" "f \<le> 0xFFFFFF" "0 \<le> l" "l \<le> 0xFFFFFF"
  shows "getMeta (mkCodePointWithMeta cp m) = m \<and>
    metaCodePoint (mkCodePointWithMeta cp m) = (if cp < 0 then -1 else cp) \<and>
    interval_first (mkPropertyInterval f l p) = f \<and> interval_last (mkPropertyInterval f l p) = l \<and>
    interval_property (mkPropertyInterval f l p) = p"
proof -
  define c where "c = (if cp < 0 then 0xFFFFFF else nat cp)"
  have c: "c < 2 ^ 24" "cp \<ge> 0 \<Longrightarrow> int c = cp" "c = 0xFFFFFF \<longleftrightarrow> cp < 0"
    using assms(1) by (auto simp: c_def)
  have "unat (if cp < 0 then 0xFFFFFF else (word_of_int cp :: u32) AND 0xFFFFFF) = c"
    using assms(1) by (cases "cp < 0") (simp_all add: c_def, simp add: mask24 unat_and_mask unat_word_of_int)
  moreover have "unat (ucast m :: u32) = unat m" by simp
  moreover have "unat m * 2 ^ 24 < 2 ^ 32" using unat_byte_less [of m] by simp
  ultimately have v: "unat (mkCodePointWithMeta cp m) = unat m * 2 ^ 24 + c"
    using c unfolding mkCodePointWithMeta_def by (subst unat_push_or) auto
  have "getMeta (mkCodePointWithMeta cp m) = m"
    using c v by (simp add: getMeta_def word_unat_eq_iff unat_ucast_down unat_drop_bit)
  moreover have u: "unat (mkCodePointWithMeta cp m AND 0xFFFFFF) = c"
    using c by (simp add: mask24 unat_and_mask v)
  then have "metaCodePoint (mkCodePointWithMeta cp m) = (if cp < 0 then -1 else cp)"
    unfolding metaCodePoint_def Let_def uint_eq_int_unat u word_unat_eq_iff using c by auto
  ultimately show ?thesis using interval_roundtrip [OF assms(2-5), of p] by blast
qed

theorem packed_roundtrip_witness:
  "(0x3042 :: int) < 0xFFFFFF \<and> getMeta (mkCodePointWithMeta 0x3042 7) = 7 \<and>
   metaCodePoint (mkCodePointWithMeta 0x3042 7) = 0x3042 \<and>
   interval_first (mkPropertyInterval 0x41 0x5A 3) = 0x41"
  using packed_roundtrip [of "0x3042" "0x41" "0x5A" 7 3] by simp

end
