(* ===== verification/Regex_Flag.thy ===== *)
theory Regex_Flag
  imports Utf8
begin

text \<open>
  \<open>regex/flag.h\<close> and \<open>regex/flag.cpp\<close>: the mode and the modifiers of a pattern, their canonical
  text (\<open>Flag::str\<close>) and the parser of a flag or modifier string with its errors.
\<close>

section \<open>Mode, modifiers, flag\<close>

datatype Mode = BMP | UNICODE | UNICODE_SET

text \<open>\<open>EACH_RE_MODIFIER\<close>: a modifier is a bit of an \<open>unsigned char\<close>.\<close>

datatype Modifier = IGNORE_CASE | MULTILINE | DOT_ALL

fun modifier_bit :: "Modifier \<Rightarrow> byte" where
  "modifier_bit IGNORE_CASE = 1"
| "modifier_bit MULTILINE = 2"
| "modifier_bit DOT_ALL = 4"

fun modifier_char :: "Modifier \<Rightarrow> char" where
  "modifier_char IGNORE_CASE = CHR ''i''"
| "modifier_char MULTILINE = CHR ''m''"
| "modifier_char DOT_ALL = CHR ''s''"

definition each_modifier :: "Modifier list" where
  "each_modifier = [IGNORE_CASE, MULTILINE, DOT_ALL]"

record Flag =
  flag_mode :: Mode
  flag_modifiers :: byte

definition hasFlag :: "'a::len word \<Rightarrow> 'a word \<Rightarrow> bool" where
  "hasFlag x y \<longleftrightarrow> x AND y = y"

definition setFlag :: "'a::len word \<Rightarrow> 'a word \<Rightarrow> 'a word" where
  "setFlag x y = x OR y"

definition flag_has :: "Flag \<Rightarrow> Modifier \<Rightarrow> bool" where
  "flag_has f m \<longleftrightarrow> hasFlag (flag_modifiers f) (modifier_bit m)"

definition isEitherUnicodeMode :: "Flag \<Rightarrow> bool" where
  "isEitherUnicodeMode f \<longleftrightarrow> flag_mode f = UNICODE \<or> flag_mode f = UNICODE_SET"

section \<open>Canonical text\<close>

definition letter_bit :: "char \<Rightarrow> u32" where
  "letter_bit c = push_bit (of_char c - 97) 1"

text \<open>\<open>Flag::str\<close>: a bit per letter, then the letters from a to z.\<close>

definition flag_str :: "Flag \<Rightarrow> string" where
  "flag_str f =
     (let set0 = (case flag_mode f of BMP \<Rightarrow> 0 | UNICODE \<Rightarrow> setFlag 0 (letter_bit CHR ''u'')
                  | UNICODE_SET \<Rightarrow> setFlag 0 (letter_bit CHR ''v''));
          set1 = foldl (\<lambda>s m. if flag_has f m then setFlag s (letter_bit (modifier_char m)) else s)
                   set0 each_modifier
      in filter (\<lambda>c. hasFlag set1 (letter_bit c)) (map (\<lambda>i. char_of (97 + i)) [0..<26]))"

section \<open>Parsing\<close>

datatype flag_error =
    InvalidUtf8Byte
  | ModifierTwice char
  | FlagTwice
  | InvalidModifier bytes
  | InvalidRegexFlag bytes

text \<open>The text each error appends to \<open>err\<close>.\<close>

definition str_bytes :: "string \<Rightarrow> bytes" where
  "str_bytes s = map of_char s"

fun flag_error_message :: "flag_error \<Rightarrow> bytes" where
  "flag_error_message InvalidUtf8Byte = str_bytes ''invalid UTF-8 byte''"
| "flag_error_message (ModifierTwice c) =
     str_bytes [CHR 0x60, c] @ str_bytes [CHR 0x27] @ str_bytes '' modifier has already been specified''"
| "flag_error_message FlagTwice = str_bytes ''flag has already been specified''"
| "flag_error_message (InvalidModifier u) =
     str_bytes ''invalid modifier: '' @ str_bytes [CHR 0x60] @ u @ str_bytes [CHR 0x27]"
| "flag_error_message (InvalidRegexFlag u) =
     str_bytes ''invalid regex flag: '' @ str_bytes [CHR 0x60] @ u @ str_bytes [CHR 0x27]"

definition find_modifier :: "int \<Rightarrow> Modifier option" where
  "find_modifier codePoint = List.find (\<lambda>m. codePoint = of_char (modifier_char m)) each_modifier"

definition find_mode :: "int \<Rightarrow> Mode option" where
  "find_mode codePoint = (if codePoint = of_char CHR ''u'' then Some UNICODE
     else if codePoint = of_char CHR ''v'' then Some UNICODE_SET else None)"

text \<open>The loop of \<open>Flag::parse\<close> from \<open>iter\<close> to the end, with the local variables \<open>mode\<close> and
  \<open>modifiers\<close>.\<close>

function flag_parse_loop :: "bool \<Rightarrow> bytes \<Rightarrow> Mode option \<Rightarrow> byte \<Rightarrow> flag_error + (Mode option \<times> byte)" where
  "flag_parse_loop onlyModifier s mode modifiers =
     (if s = [] then Inr (mode, modifiers)
      else (let (len, codePoint) = wtf8ToCodePoint s in
        if len = 0 then Inl InvalidUtf8Byte
        else case find_modifier codePoint of
          Some m \<Rightarrow>
            if hasFlag modifiers (modifier_bit m) then Inl (ModifierTwice (modifier_char m))
            else flag_parse_loop onlyModifier (drop len s) mode (setFlag modifiers (modifier_bit m))
        | None \<Rightarrow>
            (if find_mode codePoint \<noteq> None \<and> \<not> onlyModifier
             then (if mode \<noteq> None then Inl FlagTwice
                   else flag_parse_loop onlyModifier (drop len s) (find_mode codePoint) modifiers)
             else Inl ((if onlyModifier then InvalidModifier else InvalidRegexFlag) (take len s)))))"
  by pat_completeness auto
termination
  by (relation "measure (\<lambda>(onlyModifier, s, mode, modifiers). length s)") auto

declare flag_parse_loop.simps [simp del]

definition flag_parse :: "bytes \<Rightarrow> Mode \<Rightarrow> bool \<Rightarrow> flag_error + Flag" where
  "flag_parse ref defaultMode onlyModifier =
     (case flag_parse_loop onlyModifier ref None 0 of
        Inl e \<Rightarrow> Inl e
      | Inr (mode, modifiers) \<Rightarrow>
          Inr \<lparr>flag_mode = (case mode of Some m \<Rightarrow> m | None \<Rightarrow> defaultMode),
               flag_modifiers = modifiers\<rparr>)"

definition parseModifier :: "bytes \<Rightarrow> flag_error + byte" where
  "parseModifier ref = map_sum id flag_modifiers (flag_parse ref BMP True)"


section \<open>Correctness of the parser\<close>

lemma flag_letter_utf8:
  "codePointToUtf8 (of_char CHR ''i'') = [of_char CHR ''i'']"
  "codePointToUtf8 (of_char CHR ''m'') = [of_char CHR ''m'']"
  "codePointToUtf8 (of_char CHR ''s'') = [of_char CHR ''s'']"
  "codePointToUtf8 (of_char CHR ''u'') = [of_char CHR ''u'']"
  "codePointToUtf8 (of_char CHR ''v'') = [of_char CHR ''v'']"
  by code_simp+

lemma flag_letter_inj:
  "of_char CHR ''i'' = (105 :: int)" "of_char CHR ''m'' = (109 :: int)" "of_char CHR ''s'' = (115 :: int)"
  "of_char CHR ''u'' = (117 :: int)" "of_char CHR ''v'' = (118 :: int)"
  by code_simp+

lemma find_modifier_char: "find_modifier (of_char (modifier_char m)) = Some m"
  by (cases m) (simp_all add: find_modifier_def each_modifier_def)

lemma find_letters:
  "find_modifier (of_char CHR ''u'') = None" "find_modifier (of_char CHR ''v'') = None"
  "find_mode (of_char CHR ''u'') = Some UNICODE" "find_mode (of_char CHR ''v'') = Some UNICODE_SET"
  by code_simp+

lemmas find_letters_simped = find_letters [simplified]

lemma find_modifier_Some: "find_modifier c = Some m \<Longrightarrow> c = of_char (modifier_char m)"
  by (auto simp: find_modifier_def each_modifier_def split: if_splits)

lemma letter_decode:
  assumes "c \<in> set ''imsuv''"
  shows "wtf8ToCodePoint (of_char c # s) = (1, of_char c)"
proof -
  have u: "codePointToUtf8 (of_char c) = [of_char c]" using assms flag_letter_utf8 by auto
  have "isCodePoint (of_char c)" using assms by (auto simp: flag_letter_inj code_point_defs)
  from encode_decode [OF this, of True s] u show ?thesis by simp
qed

lemma decode_letter:
  assumes "wtf8ToCodePoint s = (len, of_char c)" "len \<noteq> 0" "c \<in> set ''imsuv''"
  shows "len = 1 \<and> s = of_char c # drop 1 s"
proof -
  have u: "codePointToUtf8 (of_char c) = [of_char c]" using assms(3) flag_letter_utf8 by auto
  with decode_encode [OF assms(1,2)] have "take len s = [of_char c]" "len \<le> length s" by auto
  then have "len = 1" by (metis One_nat_def length_Cons length_take list.size(3) min.absorb2)
  with \<open>take len s = [of_char c]\<close> show ?thesis by (cases s) auto
qed

lemma flag_parse_letter:
  assumes "c \<in> set ''imsuv''"
  shows "flag_parse_loop only (of_char c # s) mode mods =
    (case find_modifier (of_char c) of
       Some m \<Rightarrow> if hasFlag mods (modifier_bit m) then Inl (ModifierTwice (modifier_char m))
          else flag_parse_loop only s mode (setFlag mods (modifier_bit m))
     | None \<Rightarrow> (if only then Inl (InvalidModifier [of_char c])
          else if mode \<noteq> None then Inl FlagTwice
          else flag_parse_loop only s (find_mode (of_char c)) mods))"
proof -
  have "find_modifier (of_char c) = None \<Longrightarrow> find_mode (of_char c) \<noteq> None"
    using assms find_modifier_char [of IGNORE_CASE] find_modifier_char [of MULTILINE]
      find_modifier_char [of DOT_ALL] find_letters by auto
  then show ?thesis
    using letter_decode [OF assms, of s]
    by (subst flag_parse_loop.simps) (auto simp: Let_def split: option.splits)
qed

fun modifier_index :: "Modifier \<Rightarrow> nat" where
  "modifier_index IGNORE_CASE = 0"
| "modifier_index MULTILINE = 1"
| "modifier_index DOT_ALL = 2"

lemma hasFlag_bit: "hasFlag w (modifier_bit m) \<longleftrightarrow> bit w (modifier_index m)"
proof -
  have e: "modifier_bit m = 2 ^ modifier_index m" by (cases m) simp_all
  have k: "modifier_index m < 8" by (cases m) simp_all
  show ?thesis unfolding hasFlag_def e using k
    by (auto simp: bit_and_iff bit_exp_iff intro!: bit_word_eqI dest: arg_cong [of _ _ "\<lambda>x. bit x (modifier_index m)"])
qed

lemma bit_modifier: "bit (modifier_bit m) (modifier_index m') \<longleftrightarrow> m = m'"
  by (cases m; cases m'; simp; code_simp)

lemma hasFlag_set: "hasFlag (setFlag mods (modifier_bit m)) (modifier_bit m') \<longleftrightarrow>
    m = m' \<or> hasFlag mods (modifier_bit m')"
  unfolding hasFlag_bit setFlag_def bit_or_iff bit_modifier by blast

text \<open>The letters a flag string may have: distinct, one of u and v at most; \<open>mode\<close> and \<open>mods\<close> are
  what has been read before.\<close>

definition flag_letters :: "bool \<Rightarrow> string \<Rightarrow> Mode option \<Rightarrow> byte \<Rightarrow> bool" where
  "flag_letters only cs mode mods \<longleftrightarrow>
     distinct cs \<and> set cs \<subseteq> set ''ims'' \<union> (if only then {} else set ''uv'') \<and>
     \<not> {CHR ''u'', CHR ''v''} \<subseteq> set cs \<and>
     (mode \<noteq> None \<longrightarrow> CHR ''u'' \<notin> set cs \<and> CHR ''v'' \<notin> set cs) \<and>
     (\<forall>m. hasFlag mods (modifier_bit m) \<longrightarrow> modifier_char m \<notin> set cs)"

definition mode_of_letters :: "string \<Rightarrow> Mode option \<Rightarrow> Mode option" where
  "mode_of_letters cs mode = (if CHR ''u'' \<in> set cs then Some UNICODE
     else if CHR ''v'' \<in> set cs then Some UNICODE_SET else mode)"

lemma modifier_letters: "c \<in> set ''ims'' \<longleftrightarrow> (\<exists>m. c = modifier_char m)"
  by (metis (full_types) Modifier.exhaust list.set_intros(1) list.set_intros(2) modifier_char.simps
      empty_iff list.set(1) set_ConsD)

lemma modifier_char_inj: "modifier_char m = modifier_char m' \<longleftrightarrow> m = m'"
  by (cases m; cases m') simp_all

lemma modifier_char_mode:
  "modifier_char m \<noteq> CHR ''u''" "modifier_char m \<noteq> CHR ''v''"
  "CHR ''u'' \<noteq> modifier_char m" "CHR ''v'' \<noteq> modifier_char m"
  by (cases m; simp)+

lemma flag_parse_sound:
  assumes "flag_parse_loop only s mode mods = Inr (mode', mods')"
  shows "\<exists>cs. s = str_bytes cs \<and> flag_letters only cs mode mods \<and> mode' = mode_of_letters cs mode \<and>
    (\<forall>m. hasFlag mods' (modifier_bit m) \<longleftrightarrow> hasFlag mods (modifier_bit m) \<or> modifier_char m \<in> set cs)"
  using assms
proof (induction only s mode mods rule: flag_parse_loop.induct)
  case (1 only s mode mods)
  obtain len cp where d: "wtf8ToCodePoint s = (len, cp)" by fastforce
  show ?case
  proof (cases "s = [] \<or> len = 0")
    case True
    with "1.prems" d have "s = []" "mode' = mode" "mods' = mods"
      by (auto simp: flag_parse_loop.simps [of only s] split: if_splits)
    then show ?thesis
      by (intro exI [of _ "[]"]) (auto simp: str_bytes_def flag_letters_def mode_of_letters_def)
  next
    case ne: False
    show ?thesis
    proof (cases "find_modifier cp")
      case (Some m)
      let ?c = "modifier_char m"
      have cp: "cp = of_char ?c" using find_modifier_Some [OF Some] .
      have s: "len = 1" "s = of_char ?c # drop 1 s"
        using decode_letter [of s len ?c] d cp ne by (cases m; simp)+
      have nf: "\<not> hasFlag mods (modifier_bit m)"
        and r: "flag_parse_loop only (drop 1 s) mode (setFlag mods (modifier_bit m)) = Inr (mode', mods')"
        using "1.prems" ne d Some s by (auto simp: flag_parse_loop.simps [of only s] split: if_splits)
      from "1.IH"(2) [OF _ d [symmetric] refl _ Some nf] ne s r obtain cs where cs:
        "drop 1 s = str_bytes cs" "flag_letters only cs mode (setFlag mods (modifier_bit m))"
        "mode' = mode_of_letters cs mode"
        "\<forall>m'. hasFlag mods' (modifier_bit m') \<longleftrightarrow>
           hasFlag (setFlag mods (modifier_bit m)) (modifier_bit m') \<or> modifier_char m' \<in> set cs"
        by auto
      have "s = str_bytes (?c # cs)" using s(2) cs(1) by (simp add: str_bytes_def)
      moreover have "flag_letters only (?c # cs) mode mods"
        using cs(2) nf modifier_letters [of ?c]
        by (auto simp: flag_letters_def hasFlag_set modifier_char_inj modifier_char_mode)
      ultimately show ?thesis
        using cs(3,4) by (intro exI [of _ "?c # cs"])
          (auto simp: mode_of_letters_def hasFlag_set modifier_char_inj modifier_char_mode)
    next
      case None
      have fm: "find_mode cp \<noteq> None" "\<not> only" "mode = None"
        and r: "flag_parse_loop only (drop len s) (find_mode cp) mods = Inr (mode', mods')"
        using "1.prems" ne d None by (auto simp: flag_parse_loop.simps [of only s] split: if_splits)
      obtain c where c: "cp = of_char c" "c = CHR ''u'' \<or> c = CHR ''v''"
        using fm(1) unfolding find_mode_def by metis
      have s: "len = 1" "s = of_char c # drop 1 s"
        using decode_letter [of s len c] d c ne by auto
      from "1.IH"(1) [OF _ d [symmetric] refl _ None] ne s r fm obtain cs where cs:
        "drop 1 s = str_bytes cs" "flag_letters only cs (find_mode cp) mods"
        "mode' = mode_of_letters cs (find_mode cp)"
        "\<forall>m'. hasFlag mods' (modifier_bit m') \<longleftrightarrow>
           hasFlag mods (modifier_bit m') \<or> modifier_char m' \<in> set cs"
        by auto
      have "s = str_bytes (c # cs)" using s(2) cs(1) by (simp add: str_bytes_def)
      moreover have "flag_letters only (c # cs) mode mods"
        using cs(2) fm c(2) by (auto simp: flag_letters_def modifier_char_mode dest: sym)
      moreover have "mode' = mode_of_letters (c # cs) mode"
        using cs(2,3) c fm(1) by (auto simp: mode_of_letters_def flag_letters_def find_letters_simped)
      moreover have "modifier_char m \<noteq> c" for m using c(2) modifier_char_mode by metis
      then have "\<forall>m'. hasFlag mods' (modifier_bit m') \<longleftrightarrow>
          hasFlag mods (modifier_bit m') \<or> modifier_char m' \<in> set (c # cs)"
        unfolding list.set using cs(4) by blast
      ultimately show ?thesis by blast
    qed
  qed
qed

lemma flag_parse_complete:
  "flag_letters only cs mode mods \<Longrightarrow> \<exists>r. flag_parse_loop only (str_bytes cs) mode mods = Inr r"
proof (induction cs arbitrary: mode mods)
  case Nil
  then show ?case by (simp add: str_bytes_def flag_parse_loop.simps)
next
  case (Cons c cs)
  have c: "c \<in> set ''imsuv''" using Cons.prems by (auto simp: flag_letters_def split: if_splits)
  show ?case
  proof (cases "c \<in> set ''ims''")
    case True
    then obtain m where m: "c = modifier_char m" using modifier_letters by blast
    have "flag_letters only cs mode (setFlag mods (modifier_bit m))"
      using Cons.prems m by (auto simp: flag_letters_def hasFlag_set)
    from Cons.IH [OF this] Cons.prems flag_parse_letter [OF c] m show ?thesis
      by (auto simp: str_bytes_def find_modifier_char flag_letters_def)
  next
    case False
    with c have uv: "c = CHR ''u'' \<or> c = CHR ''v''" by auto
    with Cons.prems have "flag_letters only cs (find_mode (of_char c)) mods" "mode = None" "\<not> only"
      by (auto simp: flag_letters_def split: if_splits)
    moreover have "find_modifier (of_char c) = None" using uv find_letters by blast
    then have "flag_parse_loop only (str_bytes (c # cs)) None mods =
        flag_parse_loop only (str_bytes cs) (find_mode (of_char c)) mods" if "\<not> only"
      using that flag_parse_letter [OF c, of only "str_bytes cs" None mods]
      unfolding str_bytes_def list.map by simp
    ultimately show ?thesis using Cons.IH by metis
  qed
qed

text \<open>C28. \<open>Flag::parse\<close> accepts exactly the strings of distinct letters i, m, s (and, unless only
  modifiers are wanted, one of u and v); the accepted flag has exactly the modifiers whose letters
  occur, and the mode u or v names, or the default.\<close>

theorem flag_parse_iff:
  "case flag_parse s d only of
     Inr f \<Rightarrow> \<exists>cs. s = str_bytes cs \<and> flag_letters only cs None 0 \<and>
       flag_mode f = (case mode_of_letters cs None of Some m \<Rightarrow> m | None \<Rightarrow> d) \<and>
       (\<forall>m. flag_has f m \<longleftrightarrow> modifier_char m \<in> set cs)
   | Inl e \<Rightarrow> \<nexists>cs. s = str_bytes cs \<and> flag_letters only cs None 0"
proof (cases "flag_parse_loop only s None 0")
  case (Inl e)
  then have "\<nexists>cs. s = str_bytes cs \<and> flag_letters only cs None 0"
    using flag_parse_complete [of only _ None 0] by force
  then show ?thesis using Inl by (simp add: flag_parse_def)
next
  case (Inr r)
  then have "flag_parse_loop only s None 0 = Inr (fst r, snd r)" by simp
  from flag_parse_sound [OF this] obtain cs where cs: "s = str_bytes cs" "flag_letters only cs None 0"
      "fst r = mode_of_letters cs None"
      "\<forall>m. hasFlag (snd r) (modifier_bit m) \<longleftrightarrow> hasFlag 0 (modifier_bit m) \<or> modifier_char m \<in> set cs"
    by blast
  have none: "\<not> hasFlag 0 (modifier_bit m)" for m by (cases m) (simp_all add: hasFlag_def)
  show ?thesis unfolding flag_parse_def Inr
    by (cases r) (use cs none in \<open>auto simp: flag_has_def intro!: exI [of _ cs]\<close>)
qed

lemma alphabet: "map (\<lambda>i. char_of (97 + i)) [0..<26] = ''abcdefghijklmnopqrstuvwxyz''"
  by code_simp

lemma parse_letters:
  "flag_parse_loop False (105 # s) mode mods =
     (if hasFlag mods 1 then Inl (ModifierTwice CHR ''i'') else flag_parse_loop False s mode (setFlag mods 1))"
  "flag_parse_loop False (109 # s) mode mods =
     (if hasFlag mods 2 then Inl (ModifierTwice CHR ''m'') else flag_parse_loop False s mode (setFlag mods 2))"
  "flag_parse_loop False (115 # s) mode mods =
     (if hasFlag mods 4 then Inl (ModifierTwice CHR ''s'') else flag_parse_loop False s mode (setFlag mods 4))"
  "flag_parse_loop False (117 # s) None mods = flag_parse_loop False s (Some UNICODE) mods"
  "flag_parse_loop False (118 # s) None mods = flag_parse_loop False s (Some UNICODE_SET) mods"
  "flag_parse_loop False [] mode mods = Inr (mode, mods)"
  using flag_parse_letter [of "CHR ''i''"] flag_parse_letter [of "CHR ''m''"]
    flag_parse_letter [of "CHR ''s''"] flag_parse_letter [of "CHR ''u''"] flag_parse_letter [of "CHR ''v''"]
    find_modifier_char [of IGNORE_CASE] find_modifier_char [of MULTILINE] find_modifier_char [of DOT_ALL]
  by (simp_all add: find_letters_simped flag_parse_loop.simps [of False "[]"])

text \<open>C29. \<open>Flag::str\<close> and \<open>Flag::parse\<close> round trip: the canonical text of a flag with any of
  the three modifiers parses back to the flag (with the BMP mode as the default, since the BMP mode
  has no letter).\<close>

theorem flag_str_parse:
  assumes "flag_modifiers f < 8"
  shows "flag_parse (str_bytes (flag_str f)) BMP False = Inr f"
proof -
  obtain mo w where f: "f = \<lparr>flag_mode = mo, flag_modifiers = w\<rparr>" by (cases f) auto
  have "unat w < 8" using assms f by (simp add: word_less_nat_alt)
  then have "unat w \<in> {0, 1, 2, 3, 4, 5, 6, 7}" by auto
  then have "w \<in> {0, 1, 2, 3, 4, 5, 6, 7}" by (auto simp: word_unat_eq_iff)
  then show ?thesis unfolding f flag_str_def alphabet
    by (cases mo; elim insertE emptyE)
      (simp_all add: letter_bit_def hasFlag_def setFlag_def each_modifier_def flag_has_def
        flag_parse_def str_bytes_def parse_letters)
qed

theorem flag_str_parse_witness:
  "flag_parse (str_bytes (flag_str \<lparr>flag_mode = UNICODE_SET, flag_modifiers = 5\<rparr>)) BMP False =
     Inr \<lparr>flag_mode = UNICODE_SET, flag_modifiers = 5\<rparr>"
  by (rule flag_str_parse) simp

end
