(* ===== verification/Codepoint_Set.thy ===== *)
theory Codepoint_Set
  imports Utf8
begin

text \<open>
  \<open>misc/codepoint_set.hpp\<close>: the three packed range formats, the read-only view
  \<open>CodePointSetRef\<close> with its binary searches, and the column width of a code point
  (\<open>UnicodeUtil::width\<close>), which searches three such tables.
\<close>

section \<open>Range formats\<close>

text \<open>\<open>BMPCodePointRange\<close>: first and last in the two halves of a 32-bit word.\<close>

type_synonym BMPCodePointRange = u32

definition mkBMPCodePointRange :: "u16 \<Rightarrow> u16 \<Rightarrow> BMPCodePointRange" where
  "mkBMPCodePointRange fst_cp lst_cp = push_bit 16 (ucast fst_cp) OR ucast lst_cp"

definition firstBMP :: "BMPCodePointRange \<Rightarrow> u16" where
  "firstBMP v = ucast (drop_bit 16 v)"

definition lastBMP :: "BMPCodePointRange \<Rightarrow> u16" where
  "lastBMP v = ucast (v AND 0xFFFF)"

text \<open>\<open>BMPCodePointRange::SearchComp\<close>\<close>

definition bmp_less_value :: "BMPCodePointRange \<Rightarrow> u16 \<Rightarrow> bool" where
  "bmp_less_value x y \<longleftrightarrow> lastBMP x < y"

definition bmp_value_less :: "u16 \<Rightarrow> BMPCodePointRange \<Rightarrow> bool" where
  "bmp_value_less x y \<longleftrightarrow> x < firstBMP y"

text \<open>\<open>NonBMPCodePointRange\<close>: two consecutive words, each an \<open>int\<close>.\<close>

type_synonym NonBMPCodePointRange = "u32 \<times> u32"

definition firstNonBMP :: "NonBMPCodePointRange \<Rightarrow> int" where
  "firstNonBMP r = sint (fst r)"

definition lastNonBMP :: "NonBMPCodePointRange \<Rightarrow> int" where
  "lastNonBMP r = sint (snd r)"

definition nonbmp_less_value :: "NonBMPCodePointRange \<Rightarrow> int \<Rightarrow> bool" where
  "nonbmp_less_value x y \<longleftrightarrow> lastNonBMP x < y"

definition nonbmp_value_less :: "int \<Rightarrow> NonBMPCodePointRange \<Rightarrow> bool" where
  "nonbmp_value_less x y \<longleftrightarrow> x < firstNonBMP y"

text \<open>\<open>PackedNonBMPCodePointRange\<close>: 21 bits of first, 11 bits of length. \<open>pack\<close> throws
  (at compile time) when the range is inverted or too long.\<close>

type_synonym PackedNonBMPCodePointRange = u32

definition mkPackedNonBMP :: "int \<Rightarrow> u32 \<Rightarrow> PackedNonBMPCodePointRange" where
  "mkPackedNonBMP fst_cp sz = word_of_int fst_cp OR push_bit 21 sz"

definition packNonBMP :: "int \<Rightarrow> int \<Rightarrow> PackedNonBMPCodePointRange option" where
  "packNonBMP fst_cp lst_cp =
     (if fst_cp \<le> lst_cp \<and> lst_cp - fst_cp < 2 ^ 11
      then Some (mkPackedNonBMP fst_cp (word_of_int (lst_cp - fst_cp))) else None)"

definition packedFirst :: "PackedNonBMPCodePointRange \<Rightarrow> int" where
  "packedFirst v = uint (v AND 0x1FFFFF)"

definition packedLast :: "PackedNonBMPCodePointRange \<Rightarrow> int" where
  "packedLast v = packedFirst v + uint (drop_bit 21 v)"

definition packed_less_value :: "PackedNonBMPCodePointRange \<Rightarrow> int \<Rightarrow> bool" where
  "packed_less_value x y \<longleftrightarrow> packedLast x < y"

definition packed_value_less :: "int \<Rightarrow> PackedNonBMPCodePointRange \<Rightarrow> bool" where
  "packed_value_less x y \<longleftrightarrow> x < packedFirst y"

section \<open>Binary search\<close>

text \<open>\<open>std::lower_bound\<close> and \<open>std::binary_search\<close> with a comparator: \<open>lower_bound\<close> halves
  the interval starting at \<open>i\<close> of \<open>count\<close> elements.\<close>

function lower_bound :: "('r \<Rightarrow> 'v \<Rightarrow> bool) \<Rightarrow> 'r list \<Rightarrow> 'v \<Rightarrow> nat \<Rightarrow> nat \<Rightarrow> nat" where
  "lower_bound lt rs v i count =
     (if count = 0 then i
      else (let step = count div 2 in
            if lt (rs ! (i + step)) v
            then lower_bound lt rs v (i + step + 1) (count - (step + 1))
            else lower_bound lt rs v i step))"
  by pat_completeness auto
termination
  by (relation "measure (\<lambda>(_, _, _, _, count). count)") auto

declare lower_bound.simps [simp del]

definition binary_search :: "('r \<Rightarrow> 'v \<Rightarrow> bool) \<Rightarrow> ('v \<Rightarrow> 'r \<Rightarrow> bool) \<Rightarrow> 'r list \<Rightarrow> 'v \<Rightarrow> bool" where
  "binary_search less_rv less_vr rs v =
     (let i = lower_bound less_rv rs v 0 (length rs) in i \<noteq> length rs \<and> \<not> less_vr v (rs ! i))"

section \<open>Code point sets\<close>

text \<open>\<open>CodePointSetRef\<close>: \<open>ptr\<close> points to \<open>size\<close> words, first the BMP ranges, then the packed
  ranges, then pairs of words. \<open>CodePointSet\<close> holds the same data and owns or borrows it.\<close>

record CodePointSetRef =
  set_ptr :: "u32 list"
  set_bmpSize :: nat
  set_packedNonBmpSize :: nat

definition getSize :: "CodePointSetRef \<Rightarrow> nat" where
  "getSize s = length (set_ptr s)"

definition getBMPRanges :: "CodePointSetRef \<Rightarrow> BMPCodePointRange list" where
  "getBMPRanges s = take (set_bmpSize s) (set_ptr s)"

definition getPackedNonBMPRanges :: "CodePointSetRef \<Rightarrow> PackedNonBMPCodePointRange list" where
  "getPackedNonBMPRanges s = take (set_packedNonBmpSize s) (drop (set_bmpSize s) (set_ptr s))"

fun word_pairs :: "u32 list \<Rightarrow> NonBMPCodePointRange list" where
  "word_pairs (a # b # r) = (a, b) # word_pairs r"
| "word_pairs _ = []"

definition getNonBMPRanges :: "CodePointSetRef \<Rightarrow> NonBMPCodePointRange list" where
  "getNonBMPRanges s = word_pairs (drop (set_bmpSize s + set_packedNonBmpSize s) (set_ptr s))"

definition set_contains :: "CodePointSetRef \<Rightarrow> int \<Rightarrow> bool" where
  "set_contains s codePoint =
     (if codePoint < 0 then False
      else if codePoint \<le> 0xFFFF
      then binary_search bmp_less_value bmp_value_less (getBMPRanges s) (word_of_int codePoint)
      else if set_packedNonBmpSize s \<noteq> 0 \<and>
              binary_search packed_less_value packed_value_less (getPackedNonBMPRanges s) codePoint
      then True
      else binary_search nonbmp_less_value nonbmp_value_less (getNonBMPRanges s) codePoint)"

section \<open>Column width\<close>

datatype AmbiguousCharWidth = HALF | FULL

text \<open>The generated tables of \<open>unicode_width.in\<close> are arguments.\<close>

definition width :: "CodePointSetRef \<Rightarrow> CodePointSetRef \<Rightarrow> CodePointSetRef \<Rightarrow> int
    \<Rightarrow> AmbiguousCharWidth \<Rightarrow> int" where
  "width zero_width_table ambiguous_width_table two_width_table codePoint ambiguousCharWidth =
     (if codePoint < 0 then -3
      else if codePoint = 0 then 0
      else if codePoint \<ge> 32 \<and> codePoint < 127 then 1
      else if codePoint < 32 \<or> (codePoint \<ge> 0x7F \<and> codePoint < 0xA0) then -1
      else if set_contains zero_width_table codePoint then -2
      else if ambiguousCharWidth = FULL \<and> set_contains ambiguous_width_table codePoint then 2
      else if codePoint < 0x1100 then 1
      else if set_contains two_width_table codePoint then 2
      else 1)"

section \<open>Correctness of the search\<close>

lemma lower_bound_partition:
  assumes "\<And>j k. j \<le> k \<Longrightarrow> k < length rs \<Longrightarrow> lt (rs ! k) v \<Longrightarrow> lt (rs ! j) v" "i + count \<le> length rs"
    "\<forall>j<i. lt (rs ! j) v" "\<forall>j. i + count \<le> j \<and> j < length rs \<longrightarrow> \<not> lt (rs ! j) v"
  shows "lower_bound lt rs v i count \<le> length rs
    \<and> (\<forall>j < lower_bound lt rs v i count. lt (rs ! j) v)
    \<and> (\<forall>j. lower_bound lt rs v i count \<le> j \<and> j < length rs \<longrightarrow> \<not> lt (rs ! j) v)"
  using assms(2-4)
proof (induction count arbitrary: i rule: less_induct)
  case (less count)
  let ?m = "i + count div 2"
  show ?case
  proof (cases "count = 0")
    case True
    with less.prems show ?thesis by (simp add: lower_bound.simps)
  next
    case False
    then have m: "?m < i + count" "?m < length rs" using less.prems(1) by auto
    show ?thesis
    proof (cases "lt (rs ! ?m) v")
      case True
      let ?k = "count - (count div 2 + 1)"
      have h: "\<forall>j < ?m + 1. lt (rs ! j) v" using True assms(1) [OF _ m(2)] by (simp add: less_Suc_eq_le)
      have k: "?k < count" "?m + 1 + ?k = i + count" using False by auto
      have "lower_bound lt rs v i count = lower_bound lt rs v (?m + 1) ?k"
        using True False by (simp add: lower_bound.simps [of lt rs v i count] Let_def)
      then show ?thesis using less.IH [OF k(1), of "?m + 1", unfolded k(2), OF less.prems(1) h less.prems(3)] by presburger
    next
      case nlt: False
      then have t: "\<forall>j. ?m \<le> j \<and> j < length rs \<longrightarrow> \<not> lt (rs ! j) v" using assms(1) by blast
      have k: "count div 2 < count" using False by simp
      have "lower_bound lt rs v i count = lower_bound lt rs v i (count div 2)"
        using nlt False by (simp add: lower_bound.simps [of lt rs v i count] Let_def)
      then show ?thesis using less.IH [OF k, OF less_imp_le [OF m(2)] less.prems(2) t] by presburger
    qed
  qed
qed

text \<open>A table of ranges: the two comparators of a \<open>SearchComp\<close> compare a value with the bounds
  of a range. In a table sorted by disjoint ranges the search finds a value iff a range covers it.\<close>

locale range_search =
  fixes less_rv :: "'r \<Rightarrow> 'v :: linorder \<Rightarrow> bool"
    and less_vr :: "'v \<Rightarrow> 'r \<Rightarrow> bool"
    and lo hi :: "'r \<Rightarrow> 'v"
  assumes less_rv: "less_rv r v \<longleftrightarrow> hi r < v"
    and less_vr: "less_vr v r \<longleftrightarrow> v < lo r"
begin

definition ordered :: "'r list \<Rightarrow> bool" where
  "ordered rs \<longleftrightarrow> sorted_wrt (\<lambda>a b. hi a < lo b) rs \<and> list_all (\<lambda>r. lo r \<le> hi r) rs"

lemma ordered_nth: "ordered rs \<Longrightarrow> i < j \<Longrightarrow> j < length rs \<Longrightarrow> hi (rs ! i) < lo (rs ! j)"
  by (auto simp: ordered_def sorted_wrt_iff_nth_less)

lemma ordered_self: "ordered rs \<Longrightarrow> i < length rs \<Longrightarrow> lo (rs ! i) \<le> hi (rs ! i)"
  by (auto simp: ordered_def list_all_length)

lemma ordered_hi: "ordered rs \<Longrightarrow> i \<le> j \<Longrightarrow> j < length rs \<Longrightarrow> hi (rs ! i) \<le> hi (rs ! j)"
  by (metis less_imp_le le_neq_implies_less order.trans order_refl ordered_nth ordered_self)

lemma lower_bound_spec:
  assumes "ordered rs" "i + count \<le> length rs"
    "\<forall>j<i. hi (rs ! j) < v" "\<forall>j. i + count \<le> j \<and> j < length rs \<longrightarrow> v \<le> hi (rs ! j)"
  shows "lower_bound less_rv rs v i count \<le> length rs
    \<and> (\<forall>j < lower_bound less_rv rs v i count. hi (rs ! j) < v)
    \<and> (\<forall>j. lower_bound less_rv rs v i count \<le> j \<and> j < length rs \<longrightarrow> v \<le> hi (rs ! j))"
proof -
  have "hi (rs ! j) < v" if "j \<le> k" "k < length rs" "hi (rs ! k) < v" for j k
    using ordered_hi [OF assms(1) that(1,2)] that(3) by (rule le_less_trans)
  then show ?thesis
    using lower_bound_partition [of rs less_rv v i count] assms(2-4) unfolding less_rv not_less by blast
qed

lemma search_iff:
  assumes "ordered rs"
  shows "binary_search less_rv less_vr rs v \<longleftrightarrow> (\<exists>r\<in>set rs. lo r \<le> v \<and> v \<le> hi r)"
proof -
  let ?i = "lower_bound less_rv rs v 0 (length rs)"
  have i: "?i \<le> length rs" "\<forall>j < ?i. hi (rs ! j) < v"
    "\<forall>j. ?i \<le> j \<and> j < length rs \<longrightarrow> v \<le> hi (rs ! j)"
  proof -
    have "?i \<le> length rs \<and> (\<forall>j < ?i. hi (rs ! j) < v) \<and>
        (\<forall>j. ?i \<le> j \<and> j < length rs \<longrightarrow> v \<le> hi (rs ! j))"
      by (rule lower_bound_spec [OF assms]) auto
    then show "?i \<le> length rs" "\<forall>j < ?i. hi (rs ! j) < v"
      "\<forall>j. ?i \<le> j \<and> j < length rs \<longrightarrow> v \<le> hi (rs ! j)"
      by blast+
  qed
  show ?thesis
  proof
    assume "binary_search less_rv less_vr rs v"
    then have "?i < length rs" "lo (rs ! ?i) \<le> v"
      using i(1) by (auto simp: binary_search_def Let_def less_vr)
    with i(3) show "\<exists>r\<in>set rs. lo r \<le> v \<and> v \<le> hi r" by (metis nth_mem order_refl)
  next
    assume "\<exists>r\<in>set rs. lo r \<le> v \<and> v \<le> hi r"
    then obtain j where j: "j < length rs" "lo (rs ! j) \<le> v" "v \<le> hi (rs ! j)"
      by (auto simp: in_set_conv_nth)
    with i(2) have "?i \<le> j" by (meson not_le)
    moreover have "\<not> ?i < j"
    proof
      assume lt: "?i < j"
      with j(1) i(3) have "v \<le> hi (rs ! ?i)" by simp
      also have "\<dots> < lo (rs ! j)" using ordered_nth [OF assms lt j(1)] .
      finally show False using j(2) by simp
    qed
    ultimately have "?i = j" by simp
    with j show "binary_search less_rv less_vr rs v"
      by (auto simp: binary_search_def Let_def less_vr)
  qed
qed

end

interpretation bmp: range_search bmp_less_value bmp_value_less firstBMP lastBMP
  by unfold_locales (auto simp: bmp_less_value_def bmp_value_less_def)

interpretation nonbmp: range_search nonbmp_less_value nonbmp_value_less firstNonBMP lastNonBMP
  by unfold_locales (auto simp: nonbmp_less_value_def nonbmp_value_less_def)

interpretation packed: range_search packed_less_value packed_value_less packedFirst packedLast
  by unfold_locales (auto simp: packed_less_value_def packed_value_less_def)

section \<open>What a set contains\<close>

text \<open>The code points that the three parts of a set denote, and the shape a set must have.\<close>

definition set_points :: "CodePointSetRef \<Rightarrow> int set" where
  "set_points s =
     (\<Union>r\<in>set (getBMPRanges s). {uint (firstBMP r)..uint (lastBMP r)}) \<union>
     (\<Union>r\<in>set (getPackedNonBMPRanges s). {packedFirst r..packedLast r}) \<union>
     (\<Union>r\<in>set (getNonBMPRanges s). {firstNonBMP r..lastNonBMP r})"

definition set_wf :: "CodePointSetRef \<Rightarrow> bool" where
  "set_wf s \<longleftrightarrow>
     sorted_wrt (\<lambda>a b. lastBMP a < firstBMP b) (getBMPRanges s) \<and>
     list_all (\<lambda>r. firstBMP r \<le> lastBMP r) (getBMPRanges s) \<and>
     sorted_wrt (\<lambda>a b. packedLast a < packedFirst b) (getPackedNonBMPRanges s) \<and>
     list_all (\<lambda>r. 0xFFFF < packedFirst r \<and> packedFirst r \<le> packedLast r) (getPackedNonBMPRanges s) \<and>
     sorted_wrt (\<lambda>a b. lastNonBMP a < firstNonBMP b) (getNonBMPRanges s) \<and>
     list_all (\<lambda>r. 0xFFFF < firstNonBMP r \<and> firstNonBMP r \<le> lastNonBMP r) (getNonBMPRanges s)"

lemma set_wf_ordered:
  assumes "set_wf s"
  shows "bmp.ordered (getBMPRanges s)" "packed.ordered (getPackedNonBMPRanges s)"
    "nonbmp.ordered (getNonBMPRanges s)"
  using assms
  by (auto simp: set_wf_def bmp.ordered_def packed.ordered_def nonbmp.ordered_def list_all_iff)

lemma bmp_covers:
  assumes "0 \<le> cp" "cp \<le> 0xFFFF"
  shows "firstBMP r \<le> word_of_int cp \<and> word_of_int cp \<le> lastBMP r \<longleftrightarrow>
    uint (firstBMP r) \<le> cp \<and> cp \<le> uint (lastBMP r)"
proof -
  have "uint (word_of_int cp :: u16) = cp" using assms by (simp add: unsigned_of_int take_bit_int_eq_self)
  then show ?thesis by (simp add: word_le_def)
qed

lemma set_contains_iff_aux:
  assumes "set_wf s"
  shows "set_contains s cp \<longleftrightarrow> cp \<ge> 0 \<and> cp \<in> set_points s"
proof -
  note ord = set_wf_ordered [OF assms]
  have np: "\<And>r. r \<in> set (getPackedNonBMPRanges s) \<Longrightarrow> 0xFFFF < packedFirst r"
    and nn: "\<And>r. r \<in> set (getNonBMPRanges s) \<Longrightarrow> 0xFFFF < firstNonBMP r"
    using assms by (auto simp: set_wf_def list_all_iff)
  have nb: "uint (lastBMP r) \<le> 0xFFFF" for r
    using unat_u16_less [of "lastBMP r"] unfolding uint_eq_int_unat by linarith
  have pz: "set_packedNonBmpSize s = 0 \<Longrightarrow> getPackedNonBMPRanges s = []"
    by (simp add: getPackedNonBMPRanges_def)
  consider "cp < 0" | "0 \<le> cp" "cp \<le> 0xFFFF" | "0xFFFF < cp" by linarith
  then show ?thesis
  proof cases
    case 2
    then have "set_contains s cp \<longleftrightarrow> (\<exists>r\<in>set (getBMPRanges s). uint (firstBMP r) \<le> cp \<and> cp \<le> uint (lastBMP r))"
      by (simp add: set_contains_def bmp.search_iff [OF ord(1)] bmp_covers)
    moreover have "cp \<notin> {packedFirst r..packedLast r}" if "r \<in> set (getPackedNonBMPRanges s)" for r
      using np [OF that] 2 by simp
    moreover have "cp \<notin> {firstNonBMP r..lastNonBMP r}" if "r \<in> set (getNonBMPRanges s)" for r
      using nn [OF that] 2 by simp
    ultimately show ?thesis using 2 unfolding set_points_def by fastforce
  next
    case 3
    have "cp \<notin> {uint (firstBMP r)..uint (lastBMP r)}" for r using nb [of r] 3 by simp
    with 3 show ?thesis
      by (auto simp: set_contains_def set_points_def packed.search_iff [OF ord(2)]
          nonbmp.search_iff [OF ord(3)] pz)
  qed (simp add: set_contains_def)
qed

text \<open>C24. Membership: on a well-formed set (sorted, disjoint ranges, the non-BMP parts above the
  BMP) the three binary searches of \<open>CodePointSetRef::contains\<close> answer exactly whether some
  stored range covers the code point; negative values are never members.\<close>

theorem set_contains_iff:
  assumes "set_wf s"
  shows "set_contains s cp \<longleftrightarrow> cp \<ge> 0 \<and> cp \<in> set_points s"
  using assms by (rule set_contains_iff_aux)

theorem set_contains_iff_witness:
  "set_wf \<lparr>set_ptr = [mkBMPCodePointRange 0x41 0x5A, 0x1F600, 0x1F64F], set_bmpSize = 1,
      set_packedNonBmpSize = 0\<rparr> \<and>
   set_contains \<lparr>set_ptr = [mkBMPCodePointRange 0x41 0x5A, 0x1F600, 0x1F64F], set_bmpSize = 1,
      set_packedNonBmpSize = 0\<rparr> 0x1F610"
proof -
  let ?s = "\<lparr>set_ptr = [mkBMPCodePointRange 0x41 0x5A, 0x1F600, 0x1F64F], set_bmpSize = 1,
      set_packedNonBmpSize = 0\<rparr>"
  have w: "set_wf ?s" by code_simp
  have "0x1F610 \<in> {firstNonBMP (0x1F600, 0x1F64F)..lastNonBMP (0x1F600, 0x1F64F)}"
    by (simp add: firstNonBMP_def lastNonBMP_def)
  then have "0x1F610 \<in> set_points ?s" by (simp add: set_points_def getNonBMPRanges_def)
  with set_contains_iff [OF w] w show ?thesis by simp
qed

section \<open>Packing\<close>

lemma masks_21_16: "(0x1FFFFF :: u32) = mask 21" "(0xFFFF :: u32) = mask 16"
  by code_simp+

lemma unat_ucast_u16_u32 [simp]: "unat (ucast (w :: u16) :: u32) = unat w"
proof -
  have "unat w < 2 ^ LENGTH(32)" using unat_u16_less [of w] by (rule less_le_trans) simp
  then show ?thesis by (simp only: unat_ucast_down mod_less)
qed

lemma unat_mkBMP: "unat (mkBMPCodePointRange f l) = unat f * 2 ^ 16 + unat l"
  unfolding mkBMPCodePointRange_def
  using unat_u16_less [of f] unat_u16_less [of l] by (subst unat_push_or) auto

lemma bmp_pack_roundtrip:
  "firstBMP (mkBMPCodePointRange f l) = f" "lastBMP (mkBMPCodePointRange f l) = l"
proof -
  have l: "unat l < 2 ^ 16" using unat_u16_less [of l] by simp
  note d = digit_div_mod [OF l, of "unat f"]
  show "firstBMP (mkBMPCodePointRange f l) = f"
    unfolding firstBMP_def word_unat_eq_iff unat_ucast_down unat_drop_bit unat_mkBMP using d by simp
  show "lastBMP (mkBMPCodePointRange f l) = l"
    unfolding lastBMP_def word_unat_eq_iff unat_ucast_down masks_21_16 unat_and_mask unat_mkBMP
    using d by simp
qed

text \<open>\<open>PackedNonBMPCodePointRange::pack\<close> accepts exactly the ranges of at most 2048 code points
  and is inverted by \<open>firstNonBMP\<close> and \<open>lastNonBMP\<close>; anything else is refused.\<close>

theorem packNonBMP_roundtrip:
  assumes "0 \<le> f" "f \<le> 0x1FFFFF"
  shows "case packNonBMP f l of
      Some v \<Rightarrow> packedFirst v = f \<and> packedLast v = l \<and> l - f < 2048
    | None \<Rightarrow> l < f \<or> 2048 \<le> l - f"
proof (cases "f \<le> l \<and> l - f < 2 ^ 11")
  case True
  define fn dn where "fn = nat f" and "dn = nat (l - f)"
  have n: "f = int fn" "l = int fn + int dn" "fn < 2 ^ 21" "dn < 2 ^ 11"
    using True assms by (auto simp: fn_def dn_def)
  have "unat (push_bit 21 (word_of_int (l - f) :: u32) OR word_of_int f) = dn * 2 ^ 21 + fn"
    using n by (subst unat_push_or) (simp_all add: unat_of_nat)
  then have v: "unat (mkPackedNonBMP f (word_of_int (l - f))) = dn * 2 ^ 21 + fn"
    by (simp add: mkPackedNonBMP_def or.commute)
  have "packedFirst (mkPackedNonBMP f (word_of_int (l - f))) = f"
    unfolding packedFirst_def uint_eq_int_unat masks_21_16 unat_and_mask v
    using digit_div_mod [OF n(3), of dn] n by simp
  moreover from this have "packedLast (mkPackedNonBMP f (word_of_int (l - f))) = l"
    unfolding packedLast_def uint_eq_int_unat unat_drop_bit v
    using digit_div_mod [OF n(3), of dn] n by simp
  ultimately show ?thesis using True by (simp add: packNonBMP_def)
qed (auto simp: packNonBMP_def)

theorem packNonBMP_roundtrip_witness:
  "(case packNonBMP 0x1F600 0x1F64F of
      Some v \<Rightarrow> packedFirst v = 0x1F600 \<and> packedLast v = 0x1F64F \<and> (0x1F64F - 0x1F600 :: int) < 2048
    | None \<Rightarrow> (0x1F64F :: int) < 0x1F600 \<or> (2048 :: int) \<le> 0x1F64F - 0x1F600)"
  by (rule packNonBMP_roundtrip) simp_all

end
