(* ===== verification/Regex_Matcher.thy ===== *)
theory Regex_Matcher
  imports Codepoint_Set Regex_Flag
begin

text \<open>
  \<open>regex/capture.h\<close> and \<open>regex/matcher.h\<close>: captured ranges and the groups of a name, the
  character classes the engine tests directly, the bit set of ASCII characters and the tagged word
  that holds one of four kinds of matcher. The properties are that packing a set, a bit set or a
  string in a matcher loses nothing of it.
\<close>

section \<open>Captures\<close>

record Capture =
  cap_offset :: u32
  cap_size :: u32

text \<open>\<open>Capture()\<close>: both fields are \<open>UINT32_MAX\<close>.\<close>

definition unset_capture :: Capture where
  "unset_capture = \<lparr>cap_offset = 0xFFFFFFFF, cap_size = 0xFFFFFFFF\<rparr>"

definition isUnset :: "Capture \<Rightarrow> bool" where
  "isUnset c \<longleftrightarrow> cap_offset c = 0xFFFFFFFF \<and> cap_size c = 0xFFFFFFFF"

definition endOffset :: "Capture \<Rightarrow> u32" where
  "endOffset c = cap_offset c + cap_size c"

text \<open>\<open>NamedCaptureEntry\<close>: one group index, or several for a name that several groups share.\<close>

datatype NamedCaptureEntry = SingleIndex nat | MultipleIndices "nat list"

fun hasMultipleIndices :: "NamedCaptureEntry \<Rightarrow> bool" where
  "hasMultipleIndices (SingleIndex _) = False"
| "hasMultipleIndices (MultipleIndices _) = True"

record NamedCaptureGroups =
  offsetMap :: "bytes \<rightharpoonup> nat"
  entries :: "(bytes \<times> NamedCaptureEntry) list"

definition groups_find :: "NamedCaptureGroups \<Rightarrow> bytes \<Rightarrow> NamedCaptureEntry option" where
  "groups_find g name = map_option (\<lambda>i. snd (entries g ! i)) (offsetMap g name)"

definition findByIndex :: "NamedCaptureGroups \<Rightarrow> nat \<Rightarrow> NamedCaptureEntry option" where
  "findByIndex g index = (if index < length (entries g) then Some (snd (entries g ! index)) else None)"

fun findValidNamedCapture :: "NamedCaptureEntry \<Rightarrow> Capture list \<Rightarrow> Capture" where
  "findValidNamedCapture (MultipleIndices is) captures =
     (case List.find (\<lambda>i. \<not> isUnset (captures ! i)) is of
        Some i \<Rightarrow> captures ! i
      | None \<Rightarrow> unset_capture)"
| "findValidNamedCapture (SingleIndex i) captures = captures ! i"

section \<open>Character classes\<close>

definition isLineTerminator :: "int \<Rightarrow> bool" where
  "isLineTerminator codePoint \<longleftrightarrow>
     codePoint = 10 \<or> codePoint = 13 \<or> codePoint = 0x2028 \<or> codePoint = 0x2029"

definition isWord :: "int \<Rightarrow> bool" where
  "isWord codePoint \<longleftrightarrow>
     (codePoint \<ge> 65 \<and> codePoint \<le> 90) \<or> (codePoint \<ge> 97 \<and> codePoint \<le> 122) \<or>
     (codePoint \<ge> 48 \<and> codePoint \<le> 57) \<or> codePoint = 95"

section \<open>ASCII sets\<close>

record AsciiSet =
  ascii_first :: u64
  ascii_second :: u64

definition empty_ascii :: AsciiSet where
  "empty_ascii = \<lparr>ascii_first = 0, ascii_second = 0\<rparr>"

definition ascii_add :: "AsciiSet \<Rightarrow> int \<Rightarrow> AsciiSet" where
  "ascii_add s codePoint =
     (if codePoint \<le> 127 \<and> codePoint \<ge> 0
      then (if codePoint div 64 = 0
            then s\<lparr>ascii_first := setFlag (ascii_first s) (push_bit (nat (codePoint mod 64)) 1)\<rparr>
            else s\<lparr>ascii_second := setFlag (ascii_second s) (push_bit (nat (codePoint mod 64)) 1)\<rparr>)
      else s)"

definition ascii_contains :: "AsciiSet \<Rightarrow> int \<Rightarrow> bool" where
  "ascii_contains s codePoint =
     (if codePoint \<le> 127 \<and> codePoint \<ge> 0
      then hasFlag (if codePoint div 64 = 0 then ascii_first s else ascii_second s)
             (push_bit (nat (codePoint mod 64)) 1)
      else False)"

section \<open>Matchers\<close>

datatype MatcherType = ASCII | OWNED_CODE_POINT_SET | BORROWED_CODE_POINT_SET | RADIX_TREE | STRING

fun matcher_type_code :: "MatcherType \<Rightarrow> u64" where
  "matcher_type_code ASCII = 0"
| "matcher_type_code OWNED_CODE_POINT_SET = 1"
| "matcher_type_code BORROWED_CODE_POINT_SET = 2"
| "matcher_type_code RADIX_TREE = 3"
| "matcher_type_code STRING = 4"

text \<open>The union of \<open>Matcher\<close>; a pointer stands for the memory it points to.\<close>

datatype matcher_data = Second u64 | SetPtr "u32 list" | RadixPtr bytes | StrPtr bytes

record Matcher =
  matcher_first :: u64
  matcher_data :: matcher_data

definition withinAsciiSet :: "int \<Rightarrow> bool" where
  "withinAsciiSet codePoint \<longleftrightarrow> codePoint \<ge> 8 \<and> codePoint \<le> 127"

definition mkSetMatcher :: "bool \<Rightarrow> CodePointSetRef \<Rightarrow> Matcher" where
  "mkSetMatcher owned s =
     \<lparr>matcher_first = push_bit 48 (of_nat (set_bmpSize s)) OR push_bit 32 (of_nat (set_packedNonBmpSize s)) OR
        push_bit 8 (of_nat (getSize s)) OR
        matcher_type_code (if owned then OWNED_CODE_POINT_SET else BORROWED_CODE_POINT_SET),
      matcher_data = SetPtr (set_ptr s)\<rparr>"

definition mkAsciiMatcher :: "AsciiSet \<Rightarrow> Matcher" where
  "mkAsciiMatcher s =
     \<lparr>matcher_first = (ascii_first s AND NOT 0xFF) OR matcher_type_code ASCII,
      matcher_data = Second (ascii_second s)\<rparr>"

definition mkRadixMatcher :: "bytes \<Rightarrow> u16 \<Rightarrow> Matcher" where
  "mkRadixMatcher buf longestStringSize =
     \<lparr>matcher_first = push_bit 32 (of_nat (length buf)) OR push_bit 16 (ucast longestStringSize) OR
        matcher_type_code RADIX_TREE,
      matcher_data = RadixPtr buf\<rparr>"

definition mkStringMatcher :: "bytes \<Rightarrow> Matcher" where
  "mkStringMatcher buf =
     \<lparr>matcher_first = push_bit 32 (of_nat (length buf)) OR matcher_type_code STRING,
      matcher_data = StrPtr buf\<rparr>"

text \<open>\<open>type()\<close>: the low byte.\<close>

definition matcher_type :: "Matcher \<Rightarrow> MatcherType option" where
  "matcher_type m = List.find (\<lambda>t. matcher_first m AND 0xFF = matcher_type_code t)
     [ASCII, OWNED_CODE_POINT_SET, BORROWED_CODE_POINT_SET, RADIX_TREE, STRING]"

definition matcher_BMPSize :: "Matcher \<Rightarrow> u16" where
  "matcher_BMPSize m = ucast (drop_bit 48 (matcher_first m))"

definition matcher_PackedBMPSize :: "Matcher \<Rightarrow> u16" where
  "matcher_PackedBMPSize m = ucast (drop_bit 32 (matcher_first m) AND 0xFFFF)"

definition matcher_Size :: "Matcher \<Rightarrow> u32" where
  "matcher_Size m = ucast (drop_bit 8 (matcher_first m) AND 0xFFFFFF)"

definition getLongestStringSize :: "Matcher \<Rightarrow> u16" where
  "getLongestStringSize m = ucast (drop_bit 16 (matcher_first m) AND 0xFFFF)"

definition getRadixSize :: "Matcher \<Rightarrow> u32" where
  "getRadixSize m = ucast (drop_bit 32 (matcher_first m))"

definition asCodePointSetRef :: "Matcher \<Rightarrow> CodePointSetRef" where
  "asCodePointSetRef m =
     \<lparr>set_ptr = (case matcher_data m of SetPtr p \<Rightarrow> take (unat (matcher_Size m)) p | _ \<Rightarrow> []),
      set_bmpSize = unat (matcher_BMPSize m),
      set_packedNonBmpSize = unat (matcher_PackedBMPSize m)\<rparr>"

definition asAsciiSet :: "Matcher \<Rightarrow> AsciiSet" where
  "asAsciiSet m = \<lparr>ascii_first = matcher_first m,
     ascii_second = (case matcher_data m of Second w \<Rightarrow> w | _ \<Rightarrow> 0)\<rparr>"

definition matcher_contains :: "Matcher \<Rightarrow> int \<Rightarrow> bool" where
  "matcher_contains m codePoint =
     (if matcher_type m = Some ASCII then ascii_contains (asAsciiSet m) codePoint
      else set_contains (asCodePointSetRef m) codePoint)"

text \<open>\<open>asRadixTree\<close>: the longest string size and the serialized tree.\<close>

definition asRadixTree :: "Matcher \<Rightarrow> u16 \<times> bytes" where
  "asRadixTree m = (getLongestStringSize m,
     (case matcher_data m of RadixPtr p \<Rightarrow> take (unat (getRadixSize m)) p | _ \<Rightarrow> []))"

definition asStrRef :: "Matcher \<Rightarrow> bytes" where
  "asStrRef m = (case matcher_data m of StrPtr p \<Rightarrow> take (unat (getRadixSize m)) p | _ \<Rightarrow> [])"

section \<open>Packing\<close>

lemma u64_masks: "(0xFF :: u64) = mask 8" "(0xFFFF :: u64) = mask 16" "(0xFFFFFF :: u64) = mask 24"
  by code_simp+

lemma unat_four:
  fixes a b c :: nat
  assumes "a < 2 ^ 16" "b < 2 ^ 16" "c < 2 ^ 24" "unat (t :: u64) < 2 ^ 8"
  shows "unat (push_bit 48 (of_nat a) OR push_bit 32 (of_nat b) OR push_bit 8 (of_nat c) OR t :: u64) =
    a * 2 ^ 48 + b * 2 ^ 32 + c * 2 ^ 8 + unat t"
proof -
  have u: "unat (of_nat a :: u64) = a" "unat (of_nat b :: u64) = b" "unat (of_nat c :: u64) = c"
    using assms by (simp_all add: unat_of_nat)
  have 1: "unat (push_bit 8 (of_nat c) OR t :: u64) = c * 2 ^ 8 + unat t"
    using assms u by (subst unat_push_or) auto
  have l1: "c * 2 ^ 8 + unat t < 2 ^ 32" using assms(3,4) by simp
  have 2: "unat (push_bit 32 (of_nat b) OR (push_bit 8 (of_nat c) OR t) :: u64) =
      b * 2 ^ 32 + (c * 2 ^ 8 + unat t)"
    using assms(2) u 1 l1 by (subst unat_push_or) simp_all
  have l2: "b * 2 ^ 32 + (c * 2 ^ 8 + unat t) < 2 ^ 48" using assms(2) l1 by simp
  have "unat (push_bit 48 (of_nat a) OR (push_bit 32 (of_nat b) OR (push_bit 8 (of_nat c) OR t)) :: u64) =
      a * 2 ^ 48 + (b * 2 ^ 32 + (c * 2 ^ 8 + unat t))"
    using assms(1) u 2 l2 by (subst unat_push_or) simp_all
  then show ?thesis by (simp add: or.assoc)
qed

lemma four_fields:
  fixes a b c t :: nat
  assumes "b < 2 ^ 16" "c < 2 ^ 24" "t < 2 ^ 8" "n = a * 2 ^ 48 + b * 2 ^ 32 + c * 2 ^ 8 + t"
  shows "n mod 2 ^ 8 = t" "n div 2 ^ 8 mod 2 ^ 24 = c" "n div 2 ^ 32 mod 2 ^ 16 = b" "n div 2 ^ 48 = a"
proof -
  have n1: "n = ((a * 2 ^ 16 + b) * 2 ^ 24 + c) * 2 ^ 8 + t" using assms(4) by simp
  show "n mod 2 ^ 8 = t" unfolding n1 using digit_div_mod [OF assms(3)] by blast
  have d1: "n div 2 ^ 8 = (a * 2 ^ 16 + b) * 2 ^ 24 + c"
    unfolding n1 using digit_div_mod [OF assms(3)] by blast
  show "n div 2 ^ 8 mod 2 ^ 24 = c" unfolding d1 using digit_div_mod [OF assms(2)] by blast
  have "n div 2 ^ 32 = n div 2 ^ 8 div 2 ^ 24" by (simp flip: div_mult2_eq)
  then have d2: "n div 2 ^ 32 = a * 2 ^ 16 + b" unfolding d1 using digit_div_mod [OF assms(2)] by metis
  show "n div 2 ^ 32 mod 2 ^ 16 = b" unfolding d2 using digit_div_mod [OF assms(1)] by blast
  have "n div 2 ^ 48 = n div 2 ^ 32 div 2 ^ 16" by (simp flip: div_mult2_eq)
  then show "n div 2 ^ 48 = a" unfolding d2 using digit_div_mod [OF assms(1)] by metis
qed

text \<open>The sizes a matcher has room for.\<close>

definition set_fits :: "CodePointSetRef \<Rightarrow> bool" where
  "set_fits s \<longleftrightarrow> set_bmpSize s < 2 ^ 16 \<and> set_packedNonBmpSize s < 2 ^ 16 \<and> getSize s < 2 ^ 24"

lemma unat_u64_less: "unat (w :: u64) < 2 ^ 64"
  using unsigned_less [of w, where ?'a = nat] by simp

lemma mkSetMatcher_ref:
  assumes "set_fits s"
  shows "asCodePointSetRef (mkSetMatcher owned s) = s" "matcher_type (mkSetMatcher owned s) \<noteq> Some ASCII"
proof -
  let ?m = "mkSetMatcher owned s"
  let ?t = "matcher_type_code (if owned then OWNED_CODE_POINT_SET else BORROWED_CODE_POINT_SET)"
  have t: "unat ?t < 2 ^ 8" "unat ?t \<noteq> 0" by auto
  have n: "unat (matcher_first ?m) =
      set_bmpSize s * 2 ^ 48 + set_packedNonBmpSize s * 2 ^ 32 + getSize s * 2 ^ 8 + unat ?t"
    using assms t(1) unfolding mkSetMatcher_def by (simp add: unat_four set_fits_def del: matcher_type_code.simps)
  note f = four_fields [OF _ _ t(1) n]
  have b: "unat (matcher_BMPSize ?m) = set_bmpSize s"
    unfolding matcher_BMPSize_def unat_ucast_down unat_drop_bit using f(4) assms by (simp add: set_fits_def)
  have p: "unat (matcher_PackedBMPSize ?m) = set_packedNonBmpSize s"
    unfolding matcher_PackedBMPSize_def unat_ucast_down u64_masks unat_and_mask unat_drop_bit
    using f(3) assms by (simp add: set_fits_def)
  have z: "unat (matcher_Size ?m) = getSize s"
    unfolding matcher_Size_def unat_ucast_down u64_masks unat_and_mask unat_drop_bit
    using f(2) assms by (simp add: set_fits_def)
  show "asCodePointSetRef ?m = s"
    unfolding asCodePointSetRef_def b p z by (simp add: mkSetMatcher_def getSize_def)
  have "unat (matcher_first ?m AND 0xFF) = unat ?t"
    unfolding u64_masks unat_and_mask using f(1) assms by (simp add: set_fits_def)
  then have "matcher_first ?m AND 0xFF = ?t" by (simp add: word_unat_eq_iff)
  then show "matcher_type ?m \<noteq> Some ASCII" by (auto simp: matcher_type_def)
qed

lemma two_fields:
  assumes "length buf < 2 ^ 32" "unat (t :: u64) < 2 ^ 32"
  shows "unat (push_bit 32 (of_nat (length buf)) OR t) = length buf * 2 ^ 32 + unat t"
  using assms by (subst unat_push_or) (auto simp: unat_of_nat)

lemma mkStringMatcher_str:
  assumes "length buf < 2 ^ 32"
  shows "asStrRef (mkStringMatcher buf) = buf"
proof -
  have n: "unat (matcher_first (mkStringMatcher buf)) = length buf * 2 ^ 32 + 4"
    using two_fields [OF assms, of 4] by (simp add: mkStringMatcher_def)
  have "(length buf * 2 ^ 32 + 4) div 2 ^ 32 = length buf" by simp
  then have "unat (getRadixSize (mkStringMatcher buf)) = length buf"
    unfolding getRadixSize_def unat_ucast_down unat_drop_bit n using assms by simp
  then show ?thesis unfolding asStrRef_def by (simp add: mkStringMatcher_def)
qed

lemma mkRadixMatcher_tree:
  assumes "length buf < 2 ^ 32"
  shows "asRadixTree (mkRadixMatcher buf w) = (w, buf)"
proof -
  let ?m = "mkRadixMatcher buf w"
  have w: "unat (ucast w :: u64) = unat w"
    unfolding unat_ucast_down using unat_u16_less [of w] by (intro mod_less, rule less_trans) simp_all
  have "unat (push_bit 16 (ucast w) OR 3 :: u64) = unat w * 2 ^ 16 + 3"
    using w less_trans [OF unat_u16_less [of w], of 281474976710656] by (subst unat_push_or) simp_all
  moreover have "unat w * 2 ^ 16 + 3 < 2 ^ 32" by (simp, insert unat_u16_less [of w], linarith)
  ultimately have n: "unat (matcher_first ?m) = length buf * 2 ^ 32 + (unat w * 2 ^ 16 + 3)"
    using two_fields [OF assms, of "push_bit 16 (ucast w) OR 3"]
    by (simp add: mkRadixMatcher_def or.assoc)
  have "(length buf * 2 ^ 32 + (unat w * 2 ^ 16 + 3)) div 2 ^ 32 = length buf"
    using digit_div_mod [OF \<open>unat w * 2 ^ 16 + 3 < 2 ^ 32\<close>] by blast
  then have z: "unat (getRadixSize ?m) = length buf"
    unfolding getRadixSize_def unat_ucast_down unat_drop_bit n using assms by simp
  have e: "(length buf * 2 ^ 32 + (unat w * 2 ^ 16 + 3)) = (length buf * 2 ^ 16 + unat w) * 2 ^ 16 + 3"
    by simp
  have d: "((length buf * 2 ^ 16 + unat w) * 2 ^ 16 + 3) div 2 ^ 16 = length buf * 2 ^ 16 + unat w"
    using digit_div_mod [of 3 "2 ^ 16"] by simp
  have "unat w < 2 ^ 16" by simp
  then have "(length buf * 2 ^ 32 + (unat w * 2 ^ 16 + 3)) div 2 ^ 16 mod 2 ^ 16 = unat w"
    unfolding e d using digit_div_mod by blast
  then have l: "getLongestStringSize ?m = w"
    unfolding getLongestStringSize_def word_unat_eq_iff unat_ucast_down u64_masks unat_and_mask
      unat_drop_bit n using unat_u16_less [of w] by simp
  show ?thesis unfolding asRadixTree_def l z by (simp add: mkRadixMatcher_def)
qed

section \<open>ASCII sets\<close>

lemma hasFlag_exp: "k < LENGTH('a) \<Longrightarrow> hasFlag (w :: 'a::len word) (2 ^ k) \<longleftrightarrow> bit w k"
  unfolding hasFlag_def
  by (auto simp: bit_and_iff bit_exp_iff intro!: bit_word_eqI dest: arg_cong [of _ _ "\<lambda>x. bit x k"])

lemma ascii_bit:
  assumes "0 \<le> c" "c \<le> 127"
  shows "ascii_contains s c \<longleftrightarrow> bit (if c < 64 then ascii_first s else ascii_second s) (nat (c mod 64))"
proof -
  have k: "nat (c mod 64) < LENGTH(64)" by (simp add: nat_less_iff)
  have "c div 64 = 0 \<longleftrightarrow> c < 64" using assms by auto
  then show ?thesis
    using assms unfolding ascii_contains_def push_bit_of_1 hasFlag_exp [OF k] by simp
qed

lemma ascii_add_bits:
  assumes "0 \<le> a" "a \<le> 127" "i < 64"
  shows "bit (ascii_first (ascii_add s a)) i \<longleftrightarrow> bit (ascii_first s) i \<or> (a < 64 \<and> i = nat a)"
    "bit (ascii_second (ascii_add s a)) i \<longleftrightarrow> bit (ascii_second s) i \<or> (64 \<le> a \<and> i = nat (a - 64))"
proof -
  have d: "a div 64 = 0 \<longleftrightarrow> a < 64" using assms by auto
  have "a < 64 \<Longrightarrow> a mod 64 = a" "64 \<le> a \<Longrightarrow> a mod 64 = a - 64"
    using assms mod_pos_pos_trivial [of "a - 64" 64] minus_mod_self2 [of a 64] by auto
  with assms d show "bit (ascii_first (ascii_add s a)) i \<longleftrightarrow> bit (ascii_first s) i \<or> (a < 64 \<and> i = nat a)"
    "bit (ascii_second (ascii_add s a)) i \<longleftrightarrow> bit (ascii_second s) i \<or> (64 \<le> a \<and> i = nat (a - 64))"
    by (auto simp: ascii_add_def setFlag_def bit_or_iff push_bit_of_1 bit_exp_iff)
qed

lemma ascii_bits:
  assumes "0 \<le> c" "c \<le> 127"
  shows "c < 64 \<Longrightarrow> ascii_contains s c \<longleftrightarrow> bit (ascii_first s) (nat c)"
    "64 \<le> c \<Longrightarrow> ascii_contains s c \<longleftrightarrow> bit (ascii_second s) (nat (c - 64))"
  using assms mod_pos_pos_trivial [of "c - 64" 64] minus_mod_self2 [of c 64]
  by (auto simp: ascii_bit)

lemma ascii_out: "c < 0 \<or> 127 < c \<Longrightarrow> \<not> ascii_contains s c"
  by (auto simp: ascii_contains_def)

lemma ascii_contains_add:
  assumes "0 \<le> a" "a \<le> 127"
  shows "ascii_contains (ascii_add s a) c \<longleftrightarrow> ascii_contains s c \<or> c = a"
proof -
  consider "c < 0 \<or> 127 < c" | "0 \<le> c" "c < 64" | "64 \<le> c" "c \<le> 127" by linarith
  then show ?thesis
  proof cases
    case 1
    then show ?thesis using ascii_out assms by auto
  next
    case 2
    with ascii_bits(1) [of c] ascii_add_bits(1) [OF assms, of "nat c" s] assms show ?thesis by auto
  next
    case 3
    with ascii_bits(2) [of c] ascii_add_bits(2) [OF assms, of "nat (c - 64)" s] assms show ?thesis by auto
  qed
qed

lemma ascii_empty [simp]: "\<not> ascii_contains empty_ascii c"
  using ascii_out [of c empty_ascii] ascii_bits [of c empty_ascii]
  by (cases "c < 0"; cases "c < 64"; cases "c \<le> 127") (auto simp: empty_ascii_def)

lemma mkAsciiMatcher_contains:
  "matcher_contains (mkAsciiMatcher s) c \<longleftrightarrow> 8 \<le> c \<and> ascii_contains s c"
proof -
  let ?m = "mkAsciiMatcher s"
  have "(ascii_first s AND NOT 0xFF) AND 0xFF = 0"
    by (rule bit_word_eqI) (auto simp: bit_simps)
  then have t: "matcher_type ?m = Some ASCII" by (simp add: matcher_type_def mkAsciiMatcher_def)
  show ?thesis
  proof (cases "0 \<le> c \<and> c \<le> 127")
    case True
    then have c: "0 \<le> c" "c \<le> 127" by auto
    have "c < 64 \<Longrightarrow> c mod 64 = c" using c by simp
    then show ?thesis
      unfolding matcher_contains_def t using ascii_bit [OF c] c
      by (auto simp: asAsciiSet_def mkAsciiMatcher_def u64_masks bit_and_iff bit_not_iff bit_mask_iff
          bit_imp_le_length nat_less_iff)
  next
    case False
    with t show ?thesis by (auto simp: matcher_contains_def ascii_contains_def)
  qed
qed

text \<open>A matcher denotes what it was made from: packing a code point set (owned or borrowed), a
  string or a serialized tree in the tagged word and reading it back gives the same set, string or
  tree, as long as the sizes fit the fields; a packed ASCII set answers membership of exactly the
  characters added to it from U+0008 on, the code points the packing leaves room for.\<close>

theorem matcher_packing:
  assumes "set_fits s" "length buf < 2 ^ 32"
  shows "(matcher_contains (mkSetMatcher owned s) c \<longleftrightarrow> set_contains s c) \<and>
    asCodePointSetRef (mkSetMatcher owned s) = s \<and>
    asStrRef (mkStringMatcher buf) = buf \<and> asRadixTree (mkRadixMatcher buf w) = (w, buf) \<and>
    (matcher_contains (mkAsciiMatcher a) c \<longleftrightarrow> 8 \<le> c \<and> ascii_contains a c)"
  using mkSetMatcher_ref [OF assms(1)] mkStringMatcher_str [OF assms(2)]
    mkRadixMatcher_tree [OF assms(2)] mkAsciiMatcher_contains
  by (simp add: matcher_contains_def)

theorem matcher_packing_witness:
  "asStrRef (mkStringMatcher [0x61, 0x62]) = [0x61, 0x62] \<and>
   asCodePointSetRef (mkSetMatcher True \<lparr>set_ptr = [0x00410042], set_bmpSize = 1, set_packedNonBmpSize = 0\<rparr>) =
     \<lparr>set_ptr = [0x00410042], set_bmpSize = 1, set_packedNonBmpSize = 0\<rparr>"
  using matcher_packing [of "\<lparr>set_ptr = [0x00410042], set_bmpSize = 1, set_packedNonBmpSize = 0\<rparr>" "[0x61, 0x62]"]
  by (simp add: set_fits_def getSize_def)

end
