(* ===== verification/Radix_Tree.thy ===== *)
theory Radix_Tree
  imports Codepoint_Set
begin

text \<open>
  \<open>unicode/radix_tree.h\<close> and \<open>unicode/radix_tree.cpp\<close>: the radix tree that holds the strings of
  a character class with a property byte each, and its serialized, read-only form. The children of
  a node, an \<open>unordered_map\<close> in the source, are an association list. The properties state that the
  tree is a finite map: what \<open>find\<close> returns after \<open>add\<close> and \<open>remove\<close>.
\<close>

section \<open>The tree\<close>

datatype RadixTree = RadixTree (radix_prefix: bytes) (radix_property: byte)
  (radix_children: "(byte \<times> RadixTree) list")

definition empty_radix :: RadixTree where
  "empty_radix = RadixTree [] 0 []"

definition RADIX_MAX_STRING_SIZE :: nat where
  "RADIX_MAX_STRING_SIZE = 2 ^ 15 - 1"

definition radix_empty :: "RadixTree \<Rightarrow> bool" where
  "radix_empty t \<longleftrightarrow> radix_prefix t = [] \<and> radix_children t = []"

definition packedSize :: "RadixTree \<Rightarrow> nat \<Rightarrow> nat" where
  "packedSize t childOffsetBytes =
     3 + length (radix_prefix t) + 1 + length (radix_children t) * childOffsetBytes"

fun findCommonPrefix :: "bytes \<Rightarrow> bytes \<Rightarrow> bytes" where
  "findCommonPrefix (x # xs) (y # ys) = (if x \<noteq> y then [] else x # findCommonPrefix xs ys)"
| "findCommonPrefix _ _ = []"

datatype AddStatus = OK | ADDED | EMPTY | NONE_PROPERTY | RADIX_TOO_LARGE

text \<open>Replacing the child of a key, or adding it (\<open>children.emplace\<close>).\<close>

fun set_child :: "byte \<Rightarrow> RadixTree \<Rightarrow> (byte \<times> RadixTree) list \<Rightarrow> (byte \<times> RadixTree) list" where
  "set_child k t [] = [(k, t)]"
| "set_child k t ((k', t') # cs) = (if k = k' then (k, t) # cs else (k', t') # set_child k t cs)"

fun del_child :: "byte \<Rightarrow> (byte \<times> RadixTree) list \<Rightarrow> (byte \<times> RadixTree) list" where
  "del_child k [] = []"
| "del_child k ((k', t') # cs) = (if k = k' then cs else (k', t') # del_child k cs)"

lemma map_of_size [termination_simp]:
  "map_of cs k = Some t \<Longrightarrow> size t < Suc (size_list (size_prod (\<lambda>x. 0) size) cs)"
  by (induction cs) (auto split: if_splits)

text \<open>The loop of \<open>add\<close> at the node \<open>tree\<close>. A node made by \<open>getOrCreate\<close> is empty, so the next
  round stores the rest of the string in it; after a split the rest starts with another byte than
  the moved child, since the common prefix is as long as possible, so its node is new.\<close>

function radix_add_loop :: "RadixTree \<Rightarrow> bytes \<Rightarrow> byte \<Rightarrow> AddStatus \<times> RadixTree" where
  "radix_add_loop (RadixTree prefix property children) seq p =
     (let common = findCommonPrefix prefix seq; seq' = drop (length common) seq in
      if length common = length prefix then
        (if seq' = [] then
           (if property = 0 then (OK, RadixTree prefix p children)
            else (ADDED, RadixTree prefix property children))
         else if prefix = [] \<and> children = [] \<and> property = 0 then (OK, RadixTree seq' p children)
         else case map_of children (seq' ! 0) of
           Some child \<Rightarrow> (let (st, child') = radix_add_loop child seq' p in
             (st, RadixTree prefix property (set_child (seq' ! 0) child' children)))
         | None \<Rightarrow> (OK, RadixTree prefix property (set_child (seq' ! 0) (RadixTree seq' p []) children)))
      else
        (let childPrefix = drop (length common) prefix;
             child = RadixTree childPrefix property children;
             moved = [(childPrefix ! 0, child)] in
         if seq' = [] then (OK, RadixTree common p moved)
         else (OK, RadixTree common 0 (set_child (seq' ! 0) (RadixTree seq' p []) moved))))"
  by pat_completeness auto
termination
  by (relation "measure (\<lambda>(t, seq, p). size t)") (auto simp: map_of_size)

declare radix_add_loop.simps [simp del]

definition radix_add :: "RadixTree \<Rightarrow> bytes \<Rightarrow> byte \<Rightarrow> AddStatus \<times> RadixTree" where
  "radix_add t seq p =
     (if seq = [] then (EMPTY, t)
      else if p = 0 then (NONE_PROPERTY, t)
      else if length seq > RADIX_MAX_STRING_SIZE then (RADIX_TOO_LARGE, t)
      else radix_add_loop t seq p)"

text \<open>A node with a single child takes over its contents.\<close>

definition merge_child :: "bytes \<Rightarrow> byte \<Rightarrow> (byte \<times> RadixTree) list \<Rightarrow> RadixTree" where
  "merge_child prefix property children =
     (case children of
        [(_, child)] \<Rightarrow>
          RadixTree (prefix @ radix_prefix child) (radix_property child) (radix_children child)
      | _ \<Rightarrow> RadixTree prefix property children)"

function radix_remove :: "bytes \<Rightarrow> RadixTree \<Rightarrow> bool \<times> RadixTree" where
  "radix_remove seq (RadixTree prefix property children) =
     (if \<not> startsWith seq prefix then (False, RadixTree prefix property children)
      else (let seq' = drop (length prefix) seq in
        if seq' = [] then
          (if property \<noteq> 0
           then (True, merge_child (if children = [] then [] else prefix) 0 children)
           else (False, RadixTree prefix property children))
        else case map_of children (seq' ! 0) of
          Some child \<Rightarrow>
            (let (r, child') = radix_remove seq' child in
             if r then
               (let children' = (if radix_empty child' then del_child (seq' ! 0) children
                                 else set_child (seq' ! 0) child' children);
                    prefix' = (if children' = [] \<and> property = 0 then [] else prefix) in
                if property = 0 then (True, merge_child prefix' property children')
                else (True, RadixTree prefix' property children'))
             else (False, RadixTree prefix property children))
        | None \<Rightarrow> (False, RadixTree prefix property children)))"
  by pat_completeness auto
termination
  by (relation "measure (\<lambda>(seq, t). size t)") (auto simp: map_of_size)

declare radix_remove.simps [simp del]

function radix_find :: "RadixTree \<Rightarrow> bytes \<Rightarrow> byte" where
  "radix_find (RadixTree prefix property children) seq =
     (if \<not> startsWith seq prefix then 0
      else (let seq' = drop (length prefix) seq in
        if seq' = [] then property
        else case map_of children (seq' ! 0) of
          Some child \<Rightarrow> radix_find child seq'
        | None \<Rightarrow> 0))"
  by pat_completeness auto
termination
  by (relation "measure (\<lambda>(t, seq). size t)") (auto simp: map_of_size)

declare radix_find.simps [simp del]

text \<open>\<open>iterate\<close>: the stored strings with their properties, in the order of the walk.\<close>

fun radix_iterate :: "bytes \<Rightarrow> RadixTree \<Rightarrow> (bytes \<times> byte) list" where
  "radix_iterate buf (RadixTree prefix property children) =
     (if property \<noteq> 0 then [(buf @ prefix, property)] else []) @
     concat (map (\<lambda>e. radix_iterate (buf @ prefix) (snd e)) children)"

function count_code_points :: "bytes \<Rightarrow> nat" where
  "count_code_points s =
     (if s = [] then 0
      else (let len = wtf8ValidateChar s in Suc (count_code_points (drop (if len \<noteq> 0 then len else 1) s))))"
  by pat_completeness auto
termination
  by (relation "measure length") (auto simp: Let_def)

declare count_code_points.simps [simp del]

definition maxCodePointCount :: "RadixTree \<Rightarrow> nat" where
  "maxCodePointCount t = foldl max 0 (map (\<lambda>(s, p). count_code_points s) (radix_iterate [] t))"

section \<open>Serialization\<close>

text \<open>Big-endian numbers of \<open>n\<close> bytes.\<close>

definition be_bytes :: "nat \<Rightarrow> nat \<Rightarrow> bytes" where
  "be_bytes n v = map (\<lambda>i. of_nat (v div 2 ^ ((n - 1 - i) * 8) mod 256)) [0..<n]"

definition sort_children :: "(byte \<times> RadixTree) list \<Rightarrow> RadixTree list" where
  "sort_children cs = sort_key (\<lambda>t. unat (radix_prefix t ! 0)) (map snd cs)"

text \<open>The offsets of the children: each new target starts behind the last target of the queue.\<close>

fun place_children :: "nat \<Rightarrow> RadixTree \<times> nat \<Rightarrow> RadixTree list \<Rightarrow> (RadixTree \<times> nat) list" where
  "place_children w lst [] = []"
| "place_children w lst (c # cs) =
     (let e = (c, snd lst + packedSize (fst lst) w) in e # place_children w e cs)"

text \<open>The queue loop of \<open>serialize\<close>; the fuel is the number of nodes of the tree. \<open>None\<close> is the
  result false (an offset does not fit).\<close>

fun radix_nodes :: "RadixTree \<Rightarrow> nat" where
  "radix_nodes (RadixTree prefix property children) = Suc (sum_list (map (\<lambda>e. radix_nodes (snd e)) children))"

fun serialize_loop :: "nat \<Rightarrow> nat \<Rightarrow> (RadixTree \<times> nat) list \<Rightarrow> bytes \<Rightarrow> bytes option" where
  "serialize_loop fuel w [] buf = Some buf"
| "serialize_loop 0 w (t # ts) buf = None"
| "serialize_loop (Suc fuel) w ((tree, off) # ts) buf =
     (let meta = length (radix_prefix tree) * 512 + length (radix_children tree);
          placed = place_children w (last ((tree, off) # ts)) (sort_children (radix_children tree));
          buf' = buf @ be_bytes 3 meta @ radix_prefix tree @ [radix_property tree]
      in if \<exists>e\<in>set placed. snd e > 2 ^ (8 * w) - 1 then None
         else serialize_loop fuel w (ts @ placed)
                (buf' @ concat (map (\<lambda>e. be_bytes w (snd e)) placed)))"

definition radix_serialize :: "RadixTree \<Rightarrow> bytes option" where
  "radix_serialize t =
     (case serialize_loop (radix_nodes t) 2 [(t, 1)] [2] of
        Some buf \<Rightarrow> Some buf
      | None \<Rightarrow> serialize_loop (radix_nodes t) 3 [(t, 1)] [3])"

section \<open>The packed tree\<close>

record PackedRadixTree =
  packed_ptr :: bytes
  packed_maxCodePointCount :: u16

definition read_be :: "bytes \<Rightarrow> nat \<Rightarrow> nat \<Rightarrow> nat" where
  "read_be s i n = foldl (\<lambda>r j. r * 256 + unat (s ! (i + j))) 0 [0..<n]"

text \<open>\<open>PackedRadixChildIter\<close>: the offset of the child \<open>i\<close> of the table at \<open>tab\<close>, and the first
  byte of its prefix.\<close>

definition childOffset :: "bytes \<Rightarrow> nat \<Rightarrow> nat \<Rightarrow> nat \<Rightarrow> nat" where
  "childOffset s w tab i = read_be s (tab + i * w) w"

definition childByte :: "bytes \<Rightarrow> nat \<Rightarrow> nat \<Rightarrow> nat \<Rightarrow> byte" where
  "childByte s w tab i = s ! (childOffset s w tab i + 3)"

text \<open>The loop of \<open>findLongestMatched\<close>. Every round but the first consumes a byte of \<open>ref\<close>, so
  two rounds more than its length are enough on a serialized tree; running out is \<open>None\<close>.\<close>

primrec packed_find_loop :: "nat \<Rightarrow> bytes \<Rightarrow> nat \<Rightarrow> nat \<Rightarrow> nat \<Rightarrow> bytes \<Rightarrow> nat \<Rightarrow> byte \<Rightarrow> (nat \<times> byte) option" where
  "packed_find_loop 0 s w orgSize offset ref sz prop = None"
| "packed_find_loop (Suc fuel) s w orgSize offset ref sz prop =
     (if \<not> offset < length s then Some (sz, prop)
      else (let meta = read_be s offset 3;
                offset1 = offset + 3;
                prefixLen = meta div 512;
                prefix = slice s offset1 (offset1 + prefixLen) in
        if \<not> startsWith ref prefix then Some (sz, prop)
        else (let property = s ! (offset1 + prefixLen);
                  tab = offset1 + prefixLen + 1;
                  ref' = drop prefixLen ref;
                  sz' = (if property \<noteq> 0 then orgSize - length ref' else sz);
                  prop' = (if property \<noteq> 0 then property else prop) in
          if ref' = [] then Some (sz', prop')
          else (let n = meta mod 512;
                    i = lower_bound (\<lambda>i v. childByte s w tab i < v) [0..<n] (ref' ! 0) 0 n in
            if i \<noteq> n \<and> childByte s w tab i = ref' ! 0
            then packed_find_loop fuel s w orgSize (childOffset s w tab i) ref' sz' prop'
            else Some (sz', prop')))))"

definition packed_findLongestMatched :: "PackedRadixTree \<Rightarrow> bytes \<Rightarrow> (nat \<times> byte) option" where
  "packed_findLongestMatched t ref =
     packed_find_loop (length ref + 2) (packed_ptr t) (unat (packed_ptr t ! 0)) (length ref) 1 ref 0 0"

definition packed_find :: "PackedRadixTree \<Rightarrow> bytes \<Rightarrow> byte option" where
  "packed_find t ref = map_option (\<lambda>(len, p). if length ref = len then p else 0) (packed_findLongestMatched t ref)"

text \<open>\<open>PackedRadixTree::iterate\<close>, as the list of the strings it hands to the walker; the fuel bounds
  the depth.\<close>

primrec packed_iterate :: "nat \<Rightarrow> bytes \<Rightarrow> bytes \<Rightarrow> nat \<Rightarrow> (bytes \<times> byte) list" where
  "packed_iterate 0 s buf offset = []"
| "packed_iterate (Suc fuel) s buf offset =
     (if offset < length s then
        (let w = unat (s ! 0);
             meta = read_be s offset 3;
             prefixLen = meta div 512;
             buf' = buf @ slice s (offset + 3) (offset + 3 + prefixLen);
             property = s ! (offset + 3 + prefixLen);
             tab = offset + 3 + prefixLen + 1
         in (if property \<noteq> 0 then [(buf', property)] else []) @
            concat (map (\<lambda>i. packed_iterate fuel s buf' (childOffset s w tab i)) [0..<meta mod 512]))
      else [])"

definition packed_strings :: "PackedRadixTree \<Rightarrow> (bytes \<times> byte) list" where
  "packed_strings t = packed_iterate (length (packed_ptr t)) (packed_ptr t) [] 1"

section \<open>The tree as a finite map\<close>

text \<open>Every child is stored under the first byte of its non-empty prefix.\<close>

fun radix_wf :: "RadixTree \<Rightarrow> bool" where
  "radix_wf (RadixTree prefix property children) \<longleftrightarrow>
     distinct (map fst children) \<and>
     (\<forall>e\<in>set children. radix_prefix (snd e) \<noteq> [] \<and> radix_prefix (snd e) ! 0 = fst e \<and> radix_wf (snd e))"

definition child_ok :: "byte \<Rightarrow> RadixTree \<Rightarrow> bool" where
  "child_ok k c \<longleftrightarrow> radix_prefix c \<noteq> [] \<and> radix_prefix c ! 0 = k \<and> radix_wf c"

lemma wf_children:
  "radix_wf (RadixTree pre p cs) \<longleftrightarrow> distinct (map fst cs) \<and> (\<forall>(k, c)\<in>set cs. child_ok k c)"
  by (auto simp: child_ok_def case_prod_beta)

declare radix_wf.simps [simp del]

lemma wf_child: "radix_wf (RadixTree pre p cs) \<Longrightarrow> map_of cs k = Some c \<Longrightarrow> child_ok k c"
  unfolding wf_children by (metis (no_types, lifting) case_prodD map_of_SomeD)

lemma map_of_set_child [simp]: "map_of (set_child k t cs) = (map_of cs)(k \<mapsto> t)"
  by (induction cs rule: set_child.induct) auto

lemma set_set_child: "e \<in> set (set_child k t cs) \<Longrightarrow> e = (k, t) \<or> e \<in> set cs"
  by (induction cs rule: set_child.induct) (auto split: if_splits)

lemma keys_set_child: "fst ` set (set_child k t cs) = insert k (fst ` set cs)"
  by (induction cs rule: set_child.induct) auto

lemma distinct_set_child: "distinct (map fst cs) \<Longrightarrow> distinct (map fst (set_child k t cs))"
  by (induction cs rule: set_child.induct) (auto simp: keys_set_child)

lemma wf_set_child:
  assumes "radix_wf (RadixTree pre p cs)" "child_ok k t"
  shows "radix_wf (RadixTree pre' p' (set_child k t cs))"
  using assms distinct_set_child set_set_child unfolding wf_children by fastforce

lemma set_del_child: "set (del_child k cs) \<subseteq> set cs"
  by (induction cs rule: del_child.induct) auto

lemma distinct_del_child: "distinct (map fst cs) \<Longrightarrow> distinct (map fst (del_child k cs))"
  by (induction cs rule: del_child.induct) (auto dest: subsetD [OF set_del_child])

lemma map_of_del_child:
  "distinct (map fst cs) \<Longrightarrow> map_of (del_child k cs) = (map_of cs)(k := None)"
proof (induction cs rule: del_child.induct)
  case (2 k k' t' cs)
  then show ?case by (cases "k = k'") (auto simp: fun_eq_iff map_of_eq_None_iff)
qed auto

lemma wf_del_child:
  "radix_wf (RadixTree pre p cs) \<Longrightarrow> radix_wf (RadixTree pre' p' (del_child k cs))"
  using distinct_del_child set_del_child unfolding wf_children by fastforce

lemma find_other: "\<not> startsWith s pre \<Longrightarrow> radix_find (RadixTree pre p cs) s = 0"
  by (simp add: radix_find.simps)

lemma find_step:
  "radix_find (RadixTree pre p cs) (pre @ u) =
     (if u = [] then p else case map_of cs (u ! 0) of Some c \<Rightarrow> radix_find c u | None \<Rightarrow> 0)"
  by (simp add: radix_find.simps)

lemma find_shift: "radix_find (RadixTree (x @ a) p cs) (x @ u) = radix_find (RadixTree a p cs) u"
proof (cases "startsWith u a")
  case True
  then obtain v where "u = a @ v" by (auto simp: startsWith_iff)
  then show ?thesis using find_step [of "x @ a" p cs v] find_step [of a p cs v] by simp
next
  case False
  then have "\<not> startsWith (x @ u) (x @ a)" by (auto simp: startsWith_iff)
  with False show ?thesis by (simp add: find_other)
qed

lemma find_set_property:
  "radix_find (RadixTree pre p cs) s = (if s = pre then p else radix_find (RadixTree pre q cs) s)"
proof (cases "startsWith s pre")
  case True
  then obtain u where "s = pre @ u" by (auto simp: startsWith_iff)
  then show ?thesis using find_step [of pre p cs u] find_step [of pre q cs u] by simp
next
  case False
  then have "s \<noteq> pre" by (auto simp: startsWith_iff)
  with False show ?thesis by (simp add: find_other)
qed

lemma find_leaf: "radix_find (RadixTree pre p []) s = (if s = pre then p else 0)"
proof (cases "startsWith s pre")
  case True
  then obtain u where "s = pre @ u" by (auto simp: startsWith_iff)
  then show ?thesis using find_step [of pre p "[]" u] by simp
next
  case False
  then have "s \<noteq> pre" by (auto simp: startsWith_iff)
  with False show ?thesis by (simp add: find_other)
qed

text \<open>Two trees with the same prefix agree on a string if they agree behind the prefix.\<close>

lemma find_same_prefix:
  assumes "\<And>u. s = pre @ u \<Longrightarrow> radix_find (RadixTree pre p cs) s = x"
    and "\<not> startsWith s pre \<Longrightarrow> x = 0"
  shows "radix_find (RadixTree pre p cs) s = x"
  using assms find_other by (metis startsWith_iff)

lemma common_prefix:
  "\<exists>a b. pre = findCommonPrefix pre seq @ a \<and> seq = findCommonPrefix pre seq @ b \<and>
     (a = [] \<or> b = [] \<or> a ! 0 \<noteq> b ! 0)"
proof (induction pre seq rule: findCommonPrefix.induct)
  case (1 x xs y ys)
  show ?case
  proof (cases "x = y")
    case True
    with 1 show ?thesis by auto
  next
    case False
    then show ?thesis by (intro exI [of _ "x # xs"] exI [of _ "y # ys"]) simp
  qed
qed auto

text \<open>What an insertion has to achieve at a node.\<close>

definition added :: "RadixTree \<Rightarrow> bytes \<Rightarrow> byte \<Rightarrow> AddStatus \<times> RadixTree \<Rightarrow> bool" where
  "added t seq p res \<longleftrightarrow>
     radix_wf (snd res) \<and>
     (fst res = OK \<and> radix_find t seq = 0 \<and>
        (\<forall>s. radix_find (snd res) s = (if s = seq then p else radix_find t s)) \<or>
      fst res = ADDED \<and> radix_find t seq \<noteq> 0 \<and> snd res = t)"

lemma set_child_same: "map_of cs k = Some c \<Longrightarrow> set_child k c cs = cs"
  by (induction cs rule: set_child.induct) (auto split: if_splits)

lemma add_child:
  assumes wf: "radix_wf (RadixTree pre q cs)" and b: "b \<noteq> []"
    and c: "child_ok (b ! 0) (snd res)"
    and r: "case map_of cs (b ! 0) of Some c \<Rightarrow> added c b p res
      | None \<Rightarrow> res = (OK, RadixTree b p [])"
  shows "added (RadixTree pre q cs) (pre @ b) p
    (fst res, RadixTree pre q (set_child (b ! 0) (snd res) cs))"
proof -
  let ?t' = "RadixTree pre q (set_child (b ! 0) (snd res) cs)"
  have w: "radix_wf ?t'" using wf_set_child [OF wf c] .
  have old: "radix_find (RadixTree pre q cs) (pre @ b) =
      (case map_of cs (b ! 0) of Some c \<Rightarrow> radix_find c b | None \<Rightarrow> 0)"
    using find_step [of pre q cs b] b by simp
  have new: "radix_find ?t' s = (if s = pre @ b then p else radix_find (RadixTree pre q cs) s)"
    if "\<And>u. u \<noteq> [] \<Longrightarrow> u ! 0 = b ! 0 \<Longrightarrow> radix_find (snd res) u =
      (if u = b then p else case map_of cs (b ! 0) of Some c \<Rightarrow> radix_find c u | None \<Rightarrow> 0)" for s
  proof (rule find_same_prefix)
    show "\<not> startsWith s pre \<Longrightarrow> (if s = pre @ b then p else radix_find (RadixTree pre q cs) s) = 0"
      by (auto simp: find_other)
    fix u assume "s = pre @ u"
    then show "radix_find ?t' s = (if s = pre @ b then p else radix_find (RadixTree pre q cs) s)"
      using find_step [of pre q cs u] find_step [of pre q "set_child (b ! 0) (snd res) cs" u] that [of u] b
      by (auto split: if_splits)
  qed
  show ?thesis
  proof (cases "map_of cs (b ! 0)")
    case None
    with r have "res = (OK, RadixTree b p [])" by simp
    then show ?thesis unfolding added_def using w old new None by (simp add: find_leaf)
  next
    case (Some c)
    with r have a: "added c b p res" by simp
    show ?thesis
    proof (cases "fst res = OK")
      case True
      with a Some w old new show ?thesis by (simp add: added_def)
    next
      case False
      with a have "snd res = c" "fst res = ADDED" "radix_find c b \<noteq> 0" by (auto simp: added_def)
      with Some w old show ?thesis by (simp add: added_def set_child_same)
    qed
  qed
qed

lemma add_split:
  assumes wf: "radix_wf (RadixTree (x @ a) q cs)" and a: "a \<noteq> []" and ab: "b \<noteq> [] \<Longrightarrow> a ! 0 \<noteq> b ! 0"
  shows "added (RadixTree (x @ a) q cs) (x @ b) p
    (OK, if b = [] then RadixTree x p [(a ! 0, RadixTree a q cs)]
     else RadixTree x 0 (set_child (b ! 0) (RadixTree b p []) [(a ! 0, RadixTree a q cs)]))"
    (is "added ?t _ _ (OK, ?t')")
proof -
  have w: "radix_wf (RadixTree a q cs)" using wf by (simp add: wf_children)
  have m: "child_ok (a ! 0) (RadixTree a q cs)" using w a by (simp add: child_ok_def)
  have l: "radix_wf (RadixTree b p [])" by (simp add: wf_children)
  have "radix_wf ?t'"
  proof (cases "b = []")
    case False
    then have "child_ok (b ! 0) (RadixTree b p [])" using l by (simp add: child_ok_def)
    moreover have "radix_wf (RadixTree x 0 [(a ! 0, RadixTree a q cs)])" using m by (simp add: wf_children)
    ultimately show ?thesis using False wf_set_child by presburger
  qed (use m in \<open>simp add: wf_children\<close>)
  moreover have "radix_find ?t (x @ b) = 0"
  proof -
    have "\<not> startsWith b a" using a ab by (cases a; cases b) (auto simp: startsWith_iff)
    then show ?thesis by (simp add: find_shift find_other)
  qed
  moreover have "radix_find ?t' s = (if s = x @ b then p else radix_find ?t s)" for s
  proof (cases "startsWith s x")
    case True
    then obtain u where u: "s = x @ u" by (auto simp: startsWith_iff)
    have au: "u \<noteq> [] \<Longrightarrow> u ! 0 \<noteq> a ! 0 \<Longrightarrow> radix_find (RadixTree a q cs) u = 0"
      "radix_find (RadixTree a q cs) [] = 0"
      using a by (intro find_other; cases a; cases u; auto simp: startsWith_iff)+
    show ?thesis unfolding u using au ab find_shift [of x a q cs "[]"] find_step [of x p "[(a ! 0, RadixTree a q cs)]" u]
        find_step [of x 0 "set_child (b ! 0) (RadixTree b p []) [(a ! 0, RadixTree a q cs)]" u]
      by (cases "b = []"; cases "u = []") (auto simp: find_shift find_leaf)
  next
    case False
    then have "\<not> startsWith s (x @ a)" "s \<noteq> x @ b" by (auto simp: startsWith_iff)
    with False show ?thesis by (simp add: find_other)
  qed
  ultimately show ?thesis by (simp add: added_def)
qed

lemma radix_add_loop_spec:
  assumes "radix_wf t" "p \<noteq> 0"
  shows "added t seq p (radix_add_loop t seq p) \<and>
    (\<forall>k. child_ok k t \<and> seq \<noteq> [] \<and> seq ! 0 = k \<longrightarrow> child_ok k (snd (radix_add_loop t seq p)))"
  using assms
proof (induction t seq p rule: radix_add_loop.induct)
  case (1 pre q cs seq p)
  let ?t = "RadixTree pre q cs"
  obtain a b where ab: "pre = findCommonPrefix pre seq @ a" "seq = findCommonPrefix pre seq @ b"
    "a = [] \<or> b = [] \<or> a ! 0 \<noteq> b ! 0"
    using common_prefix by blast
  define x where "x = findCommonPrefix pre seq"
  have pre: "pre = x @ a" and seq: "seq = x @ b" using ab x_def by auto
  have d: "drop (length x) seq = b" "drop (length x) pre = a" using pre seq by auto
  note unf = radix_add_loop.simps [of pre q cs seq p, folded x_def, unfolded Let_def d]
  have lx: "length x = length pre \<longleftrightarrow> a = []" using pre by simp
  show ?case
  proof (cases "a = []")
    case False
    have "added (RadixTree (x @ a) q cs) (x @ b) p
      (OK, if b = [] then RadixTree x p [(a ! 0, RadixTree a q cs)]
       else RadixTree x 0 (set_child (b ! 0) (RadixTree b p []) [(a ! 0, RadixTree a q cs)]))"
      using "1.prems" False ab(3) pre by (intro add_split) auto
    moreover have "radix_add_loop ?t seq p = (OK, if b = [] then RadixTree x p [(a ! 0, RadixTree a q cs)]
       else RadixTree x 0 (set_child (b ! 0) (RadixTree b p []) [(a ! 0, RadixTree a q cs)]))"
      unfolding unf lx using False by simp
    moreover have "x \<noteq> []" "x ! 0 = k" if "child_ok k ?t" "seq \<noteq> []" "seq ! 0 = k" for k
      using that pre seq ab(3) False by (cases x; cases a; cases b; auto simp: child_ok_def)+
    ultimately show ?thesis by (auto simp: added_def child_ok_def pre seq)
  next
    case True
    then have p': "pre = x" "seq = pre @ b" using pre seq by auto
    show ?thesis
    proof (cases "b = [] \<or> (pre = [] \<and> cs = [] \<and> q = 0)")
      case True
      then consider "b = []" | "b \<noteq> []" "pre = []" "cs = []" "q = 0" by blast
      then show ?thesis
      proof cases
        case 1
        have "radix_find (RadixTree pre p cs) s = (if s = pre then p else radix_find ?t s)" for s
          by (rule find_set_property)
        moreover have "radix_wf (RadixTree pre p cs)" using "1.prems"(1) by (simp add: wf_children)
        moreover have "radix_find ?t pre = q" using find_step [of pre q cs "[]"] by simp
        moreover have "radix_add_loop ?t seq p = (if q = 0 then (OK, RadixTree pre p cs) else (ADDED, ?t))"
          unfolding unf lx using \<open>a = []\<close> 1 by simp
        ultimately show ?thesis using "1.prems" p' 1 by (auto simp: added_def child_ok_def)
      next
        case 2
        then have "radix_add_loop ?t seq p = (OK, RadixTree b p [])"
          unfolding unf lx using \<open>a = []\<close> by simp
        moreover have "radix_wf (RadixTree b p [])" by (simp add: wf_children)
        ultimately show ?thesis using 2 p' by (auto simp: added_def find_leaf child_ok_def)
      qed
    next
      case False
      define res where "res = (case map_of cs (b ! 0) of Some c \<Rightarrow> radix_add_loop c b p
        | None \<Rightarrow> (OK, RadixTree b p []))"
      have e: "radix_add_loop ?t seq p = (fst res, RadixTree pre q (set_child (b ! 0) (snd res) cs))"
        unfolding unf lx res_def using \<open>a = []\<close> False by (auto split: option.splits prod.splits)
      have IH: "added c b p (radix_add_loop c b p) \<and>
          (\<forall>k. child_ok k c \<and> b \<noteq> [] \<and> b ! 0 = k \<longrightarrow> child_ok k (snd (radix_add_loop c b p)))"
        if "map_of cs (b ! 0) = Some c" for c
      proof -
        have "radix_wf c" using wf_child [OF "1.prems"(1) that] by (simp add: child_ok_def)
        from "1.IH" [OF refl refl _ _ _ _ this] show ?thesis
          using that False \<open>a = []\<close> lx d "1.prems"(2) unfolding x_def by simp
      qed
      have c: "child_ok (b ! 0) (snd res)"
        using wf_child [OF "1.prems"(1)] IH False
        by (auto simp: res_def child_ok_def wf_children split: option.splits)
      have "added ?t (pre @ b) p (fst res, RadixTree pre q (set_child (b ! 0) (snd res) cs))"
        using "1.prems"(1) False c IH by (intro add_child) (auto simp: res_def split: option.splits)
      moreover have "child_ok k (RadixTree pre q (set_child (b ! 0) (snd res) cs))" if "child_ok k ?t" for k
        using that wf_set_child [OF "1.prems"(1) c] by (simp add: child_ok_def)
      ultimately show ?thesis using e [unfolded p'(2)] unfolding p'(2) by simp
    qed
  qed
qed

section \<open>Removal\<close>

lemma find_only_child:
  assumes "radix_prefix c \<noteq> []" "radix_prefix c ! 0 = k"
  shows "radix_find (RadixTree pre 0 [(k, c)]) s =
    radix_find (RadixTree (pre @ radix_prefix c) (radix_property c) (radix_children c)) s"
proof (cases "startsWith s pre")
  case True
  then obtain u where u: "s = pre @ u" by (auto simp: startsWith_iff)
  have c: "c = RadixTree (radix_prefix c) (radix_property c) (radix_children c)" by simp
  have "\<not> startsWith u (radix_prefix c)" if "u = [] \<or> u ! 0 \<noteq> k"
    using that assms by (cases u; cases "radix_prefix c") (auto simp: startsWith_iff)
  then have "u = [] \<or> u ! 0 \<noteq> k \<Longrightarrow> radix_find c u = 0" using find_other c by metis
  then show ?thesis unfolding u find_shift using find_step [of pre 0 "[(k, c)]" u] by auto
next
  case False
  then have "\<not> startsWith s (pre @ radix_prefix c)" by (auto simp: startsWith_iff)
  with False show ?thesis by (simp add: find_other)
qed

lemma merge_child_find:
  assumes "radix_wf (RadixTree pre 0 cs)"
  shows "radix_find (merge_child pre 0 cs) s = radix_find (RadixTree pre 0 cs) s"
    and "radix_wf (merge_child pre 0 cs)"
    and "pre \<noteq> [] \<Longrightarrow> radix_prefix (merge_child pre 0 cs) \<noteq> [] \<and> radix_prefix (merge_child pre 0 cs) ! 0 = pre ! 0"
    and "cs \<noteq> [] \<Longrightarrow> \<not> radix_empty (merge_child pre 0 cs)"
proof -
  have one: "\<And>k c. cs = [(k, c)] \<Longrightarrow> child_ok k c" using assms by (simp add: wf_children)
  show "radix_find (merge_child pre 0 cs) s = radix_find (RadixTree pre 0 cs) s"
    using one by (auto simp: merge_child_def child_ok_def find_only_child split: list.splits)
  show "radix_wf (merge_child pre 0 cs)"
  proof (cases "\<exists>k c. cs = [(k, c)]")
    case True
    then obtain k c where cs: "cs = [(k, c)]" by blast
    then have "radix_wf c" using one by (simp add: child_ok_def)
    with cs show ?thesis by (cases c) (simp add: merge_child_def wf_children)
  qed (use assms in \<open>auto simp: merge_child_def split: list.splits\<close>)
  show "pre \<noteq> [] \<Longrightarrow> radix_prefix (merge_child pre 0 cs) \<noteq> [] \<and> radix_prefix (merge_child pre 0 cs) ! 0 = pre ! 0"
    by (auto simp: merge_child_def nth_append split: list.splits)
  show "cs \<noteq> [] \<Longrightarrow> \<not> radix_empty (merge_child pre 0 cs)"
    using one by (auto simp: merge_child_def radix_empty_def child_ok_def split: list.splits)
qed

definition removed_from :: "RadixTree \<Rightarrow> bytes \<Rightarrow> bool \<times> RadixTree \<Rightarrow> bool" where
  "removed_from t seq res \<longleftrightarrow>
     (if fst res then radix_wf (snd res) \<and> radix_find t seq \<noteq> 0 \<and>
        (\<forall>s. radix_find (snd res) s = (if s = seq then 0 else radix_find t s)) \<and>
        (radix_prefix t \<noteq> [] \<and> radix_empty (snd res) \<longrightarrow> (\<forall>s. radix_find (snd res) s = 0)) \<and>
        (\<forall>k. child_ok k t \<and> \<not> radix_empty (snd res) \<longrightarrow> child_ok k (snd res))
      else snd res = t \<and> radix_find t seq = 0)"

lemma remove_child_find:
  assumes wf: "radix_wf (RadixTree pre q cs)" and b: "b \<noteq> []" and c: "map_of cs (b ! 0) = Some c"
    and r: "removed_from c b (True, c')"
    and cs': "cs' = (if radix_empty c' then del_child (b ! 0) cs else set_child (b ! 0) c' cs)"
  shows "radix_wf (RadixTree pre q cs') \<and> radix_find (RadixTree pre q cs) (pre @ b) \<noteq> 0 \<and>
    radix_find (RadixTree pre q cs') s = (if s = pre @ b then 0 else radix_find (RadixTree pre q cs) s)"
proof -
  have ck: "child_ok (b ! 0) c" using wf_child [OF wf c] .
  have "radix_wf (RadixTree pre q cs')"
    using wf_del_child [OF wf] wf_set_child [OF wf] r ck unfolding cs' by (simp add: removed_from_def)
  moreover have "radix_find (RadixTree pre q cs) (pre @ b) \<noteq> 0"
    using find_step [of pre q cs b] b c r by (simp add: removed_from_def)
  moreover have "radix_find (RadixTree pre q cs') s =
      (if s = pre @ b then 0 else radix_find (RadixTree pre q cs) s)"
  proof (cases "startsWith s pre")
    case True
    then obtain u where u: "s = pre @ u" by (auto simp: startsWith_iff)
    have m: "map_of cs' = (map_of cs)(b ! 0 := (if radix_empty c' then None else Some c'))"
      using wf unfolding cs' by (simp add: wf_children map_of_del_child)
    have f: "radix_find c' u = (if u = b then 0 else radix_find c u)" using r by (simp add: removed_from_def)
    have "radix_empty c' \<longrightarrow> (\<forall>s. radix_find c' s = 0)"
      using r ck unfolding child_ok_def removed_from_def fst_conv snd_conv if_True by blast
    then have z: "radix_empty c' \<Longrightarrow> radix_find c' u = 0" by blast
    show ?thesis
      unfolding u find_step m using f z c b by (auto split: if_splits)
  next
    case False
    then have "s \<noteq> pre @ b" by (auto simp: startsWith_iff)
    with False show ?thesis by (simp add: find_other)
  qed
  ultimately show ?thesis by blast
qed

lemma radix_remove_spec:
  assumes "radix_wf t"
  shows "removed_from t seq (radix_remove seq t)"
  using assms
proof (induction seq t rule: radix_remove.induct)
  case (1 seq pre q cs)
  let ?t = "RadixTree pre q cs"
  note unf = radix_remove.simps [of seq pre q cs, unfolded Let_def]
  have noop: "radix_find ?t seq = 0 \<Longrightarrow> removed_from ?t seq (False, ?t)" by (simp add: removed_from_def)
  show ?case
  proof (cases "startsWith seq pre")
    case False
    then show ?thesis unfolding unf using noop by (simp add: find_other)
  next
    case True
    then obtain b where b: "seq = pre @ b" by (auto simp: startsWith_iff)
    have d: "drop (length pre) seq = b" using b by simp
    note unf = unf [unfolded d]
    consider "b = []" "q = 0" | "b = []" "q \<noteq> 0" | "b \<noteq> []" "map_of cs (b ! 0) = None"
      | c where "b \<noteq> []" "map_of cs (b ! 0) = Some c"
      by (cases "map_of cs (b ! 0)") auto
    then show ?thesis
    proof cases
      case 1
      then show ?thesis unfolding unf using True noop b find_step [of pre q cs b] by simp
    next
      case 3
      then show ?thesis unfolding unf using True noop b find_step [of pre q cs b] by simp
    next
      case 2
      let ?pre = "if cs = [] then [] else pre"
      have w: "radix_wf (RadixTree ?pre 0 cs)" using "1.prems" by (simp add: wf_children)
      have "radix_find (RadixTree ?pre 0 cs) s = (if s = seq then 0 else radix_find ?t s)" for s
        using 2 b find_set_property [of pre 0 cs s q] by (auto simp: find_leaf)
      moreover have "radix_find ?t seq \<noteq> 0" using 2 b find_step [of pre q cs "[]"] by simp
      moreover have "radix_remove seq ?t = (True, merge_child ?pre 0 cs)"
        unfolding unf using True 2 by simp
      moreover have "child_ok k ?t \<and> \<not> radix_empty (merge_child ?pre 0 cs) \<longrightarrow>
          child_ok k (merge_child ?pre 0 cs)" for k
      proof (cases "cs = []")
        case False
        then show ?thesis using merge_child_find(2,3) [OF w] by (auto simp: child_ok_def)
      qed (simp add: merge_child_def radix_empty_def)
      moreover have "radix_empty (merge_child ?pre 0 cs) \<longrightarrow> (\<forall>s. radix_find (merge_child ?pre 0 cs) s = 0)"
        using merge_child_find(4) [OF w] by (cases "cs = []") (simp_all add: merge_child_def find_leaf)
      ultimately show ?thesis using merge_child_find [OF w] by (simp add: removed_from_def)
    next
      case (4 c)
      have ck: "child_ok (b ! 0) c" using wf_child [OF "1.prems" 4(2)] .
      obtain r c' where rc: "radix_remove b c = (r, c')" by fastforce
      have IH: "removed_from c b (r, c')"
        using "1.IH" [OF _ refl] True 4 d ck rc by (simp add: child_ok_def)
      show ?thesis
      proof (cases r)
        case False
        then have "radix_find c b = 0" using IH by (simp add: removed_from_def)
        with False show ?thesis unfolding unf
          using True noop 4 rc b find_step [of pre q cs b] by simp
      next
        case r: True
        define cs' where "cs' = (if radix_empty c' then del_child (b ! 0) cs else set_child (b ! 0) c' cs)"
        define pre' where "pre' = (if cs' = [] \<and> q = 0 then [] else pre)"
        have "removed_from c b (True, c')" using IH r by simp
        note f = remove_child_find [OF "1.prems" 4 this cs'_def]
        then have f': "radix_wf (RadixTree pre q cs')" "radix_find ?t seq \<noteq> 0"
          "\<And>s. radix_find (RadixTree pre q cs') s = (if s = seq then 0 else radix_find ?t s)"
          unfolding b by blast+
        have w: "radix_wf (RadixTree pre' q cs')" using f'(1) by (simp add: wf_children)
        have same: "radix_find (RadixTree pre' q cs') s = radix_find (RadixTree pre q cs') s" for s
          by (auto simp: pre'_def find_leaf)
        have res: "radix_remove seq ?t =
            (True, if q = 0 then merge_child pre' q cs' else RadixTree pre' q cs')"
          unfolding unf using True 4 rc r by (simp add: cs'_def pre'_def)
        have pz: "pre' = [] \<longrightarrow> pre = [] \<or> cs' = [] \<and> q = 0" by (simp add: pre'_def)
        show ?thesis
        proof (cases "q = 0")
          case True
          note m = merge_child_find [OF w [unfolded True]]
          have "radix_empty (merge_child pre' 0 cs') \<longrightarrow> (\<forall>s. radix_find (merge_child pre' 0 cs') s = 0)"
            using m(4) by (cases "cs' = []") (simp_all add: merge_child_def find_leaf)
          moreover have "child_ok k ?t \<and> \<not> radix_empty (merge_child pre' 0 cs') \<longrightarrow>
              child_ok k (merge_child pre' 0 cs')" for k
          proof (cases "cs' = []")
            case False
            then show ?thesis using m(2,3) pz by (auto simp: child_ok_def pre'_def)
          qed (simp add: merge_child_def radix_empty_def pre'_def True)
          ultimately show ?thesis
            unfolding res using True m f' same by (simp add: removed_from_def)
        next
          case False
          then show ?thesis unfolding res using f' same w
            by (auto simp: removed_from_def pre'_def child_ok_def radix_empty_def)
        qed
      qed
    qed
  qed
qed

section \<open>Interface\<close>

text \<open>A finite map from strings to non-zero bytes, as its clients use it.\<close>

locale byte_map =
  fixes ok :: "'t \<Rightarrow> bool" and lookup :: "'t \<Rightarrow> bytes \<Rightarrow> byte"
    and empty :: 't and add :: "'t \<Rightarrow> bytes \<Rightarrow> byte \<Rightarrow> 't" and remove :: "'t \<Rightarrow> bytes \<Rightarrow> 't"
    and key :: "bytes \<Rightarrow> bool"
  assumes empty: "ok empty" "lookup empty s = 0"
    and add: "ok t \<Longrightarrow> key k \<Longrightarrow> p \<noteq> 0 \<Longrightarrow> ok (add t k p) \<and>
      lookup (add t k p) s = (if s = k \<and> lookup t k = 0 then p else lookup t s)"
    and remove: "ok t \<Longrightarrow> ok (remove t k) \<and> lookup (remove t k) s = (if s = k then 0 else lookup t s)"
begin

lemma add_commute:
  assumes "ok t" "key k" "key l" "k \<noteq> l" "p \<noteq> 0" "q \<noteq> 0"
  shows "lookup (add (add t k p) l q) s = lookup (add (add t l q) k p) s"
  using assms add by simp

lemma remove_add: "ok t \<Longrightarrow> key k \<Longrightarrow> p \<noteq> 0 \<Longrightarrow> lookup t k = 0 \<Longrightarrow> lookup (remove (add t k p) k) s = lookup t s"
  using add remove by simp

end

lemma radix_add_spec:
  assumes "radix_wf t" "seq \<noteq> []" "p \<noteq> 0" "length seq \<le> RADIX_MAX_STRING_SIZE"
  shows "added t seq p (radix_add t seq p)"
  using assms radix_add_loop_spec by (simp add: radix_add_def)

interpretation radix: byte_map radix_wf radix_find empty_radix "\<lambda>t s p. snd (radix_add t s p)"
  "\<lambda>t s. snd (radix_remove s t)" "\<lambda>s. s \<noteq> [] \<and> length s \<le> RADIX_MAX_STRING_SIZE"
proof unfold_locales
  fix t :: RadixTree and k s :: bytes and p :: byte
  assume "radix_wf t" "k \<noteq> [] \<and> length k \<le> RADIX_MAX_STRING_SIZE" "p \<noteq> 0"
  then have "added t k p (radix_add t k p)" using radix_add_spec by simp
  then show "radix_wf (snd (radix_add t k p)) \<and>
      radix_find (snd (radix_add t k p)) s = (if s = k \<and> radix_find t k = 0 then p else radix_find t s)"
    by (auto simp: added_def)
next
  fix t :: RadixTree and k s :: bytes
  assume "radix_wf t"
  then show "radix_wf (snd (radix_remove k t)) \<and>
      radix_find (snd (radix_remove k t)) s = (if s = k then 0 else radix_find t s)"
    using radix_remove_spec [of t k] by (auto simp: removed_from_def split: if_splits)
qed (simp_all add: empty_radix_def find_leaf wf_children)

text \<open>C33. The radix tree is a finite map: adding a string (not empty, not too long, with a non-zero
  property) keeps the tree well formed, reports \<open>OK\<close> exactly when the string was absent, and then
  changes the result of \<open>find\<close> for this string only; a string that is present is left alone and
  reported as \<open>ADDED\<close>.\<close>

theorem radix_add_find:
  assumes "radix_wf t" "seq \<noteq> []" "p \<noteq> 0" "length seq \<le> RADIX_MAX_STRING_SIZE"
  shows "radix_wf (snd (radix_add t seq p)) \<and>
    fst (radix_add t seq p) = (if radix_find t seq = 0 then OK else ADDED) \<and>
    radix_find (snd (radix_add t seq p)) s =
      (if s = seq \<and> radix_find t seq = 0 then p else radix_find t s)"
  using radix_add_spec [OF assms] by (auto simp: added_def)

theorem radix_add_find_witness:
  "radix_find (snd (radix_add (RadixTree [1, 2, 3] 7 []) [1, 2, 4] 9)) [1, 2, 3] = 7"
proof -
  have w: "radix_wf (RadixTree [1, 2, 3] 7 [])" by (simp add: wf_children)
  from radix_add_find [OF w, of "[1, 2, 4]" 9 "[1, 2, 3]"] show ?thesis
    by (simp add: find_leaf RADIX_MAX_STRING_SIZE_def)
qed

text \<open>C34. Removing a string from the tree succeeds exactly when it was present; afterwards it is
  absent, every other string keeps its property, whatever nodes were dropped or merged, and the tree
  is well formed.\<close>

theorem radix_remove_find:
  assumes "radix_wf t"
  shows "radix_wf (snd (radix_remove seq t)) \<and> (fst (radix_remove seq t) \<longleftrightarrow> radix_find t seq \<noteq> 0) \<and>
    radix_find (snd (radix_remove seq t)) s = (if s = seq then 0 else radix_find t s)"
  using radix_remove_spec [OF assms, of seq] assms by (auto simp: removed_from_def split: if_splits)

theorem radix_remove_find_witness:
  "radix_find (snd (radix_remove [1, 2, 4] (RadixTree [1, 2] 0 [(3, RadixTree [3] 7 []), (4, RadixTree [4] 9 [])])))
     [1, 2, 3] = 7"
proof -
  have w: "radix_wf (RadixTree [1, 2] 0 [(3, RadixTree [3] 7 []), (4, RadixTree [4] 9 [])])"
    by (simp add: wf_children child_ok_def)
  from radix_remove_find [OF w, of "[1, 2, 4]" "[1, 2, 3]"] show ?thesis
    using find_step [of "[1, 2]" 0 "[(3, RadixTree [3] 7 []), (4, RadixTree [4] 9 [])]" "[3]"]
    by (simp add: find_leaf)
qed

end
