(* ===== verification/Regex_Node.thy ===== *)
theory Regex_Node
  imports Regex_Flag Regex_Matcher Radix_Tree
begin

text \<open>
  \<open>regex/node.h\<close> with the lowered nodes of \<open>regex/transform.h\<close>: the syntax tree of a pattern.
  Tokens, which only serve error messages, are left out; the packed \<open>u8\<close>/\<open>u16\<close>/\<open>u32\<close> fields of
  the C++ nodes are the named fields their accessors give. The group numbers a repetition covers
  (\<open>countGroups\<close> of \<open>parser.cpp\<close>) are computed when it is built.
\<close>

section \<open>Kinds of leaves\<close>

datatype PropertyType =
    P_RANGE | P_INTERSECT | P_SUBTRACT | P_DIGIT | P_NOT_DIGIT | P_WORD | P_NOT_WORD
  | P_SPACE | P_NOT_SPACE | P_UNICODE | P_NOT_UNICODE | P_EMOJI | P_GRAPHEME

fun property_isInvert :: "PropertyType \<Rightarrow> bool" where
  "property_isInvert P_NOT_DIGIT = True"
| "property_isInvert P_NOT_WORD = True"
| "property_isInvert P_NOT_SPACE = True"
| "property_isInvert P_NOT_UNICODE = True"
| "property_isInvert _ = False"

fun getNormalizedType :: "PropertyType \<Rightarrow> PropertyType" where
  "getNormalizedType P_NOT_DIGIT = P_DIGIT"
| "getNormalizedType P_NOT_WORD = P_WORD"
| "getNormalizedType P_NOT_SPACE = P_SPACE"
| "getNormalizedType P_NOT_UNICODE = P_UNICODE"
| "getNormalizedType t = t"

fun property_isCharClassOp :: "PropertyType \<Rightarrow> bool" where
  "property_isCharClassOp P_RANGE = True"
| "property_isCharClassOp P_INTERSECT = True"
| "property_isCharClassOp P_SUBTRACT = True"
| "property_isCharClassOp _ = False"

definition mayContainString :: "PropertyType \<Rightarrow> bool" where
  "mayContainString t \<longleftrightarrow> getNormalizedType t = P_EMOJI \<or> getNormalizedType t = P_GRAPHEME"

fun onlyAscii :: "PropertyType \<Rightarrow> bool" where
  "onlyAscii P_DIGIT = True"
| "onlyAscii P_WORD = True"
| "onlyAscii _ = False"

datatype CharClassType = C_UNION | C_RANGE | C_INTERSECT | C_SUBTRACT

datatype BoundaryType = B_START | B_END | B_WORD | B_NOT_WORD

datatype LookAroundType = LOOK_AHEAD | LOOK_AHEAD_NOT | LOOK_BEHIND | LOOK_BEHIND_NOT

fun isLookAhead :: "LookAroundType \<Rightarrow> bool" where
  "isLookAhead LOOK_AHEAD = True"
| "isLookAhead LOOK_AHEAD_NOT = True"
| "isLookAhead LOOK_BEHIND = False"
| "isLookAhead LOOK_BEHIND_NOT = False"

fun isNegate :: "LookAroundType \<Rightarrow> bool" where
  "isNegate LOOK_AHEAD_NOT = True"
| "isNegate LOOK_BEHIND_NOT = True"
| "isNegate LOOK_AHEAD = False"
| "isNegate LOOK_BEHIND = False"

datatype GroupType = G_CAPTURE | G_NON_CAPTURE | G_MODIFIER

section \<open>Nodes\<close>

text \<open>\<open>PropertyNode\<close> keeps a Unicode property or an emoji sequence in 16 bits. The name of a
  \<open>BackRefNode\<close> is empty for a numbered reference. \<open>RepeatNode\<close> has the loop index, the bounds
  (\<open>UNLIMIT\<close> is \<open>UINT32_MAX\<close>), the greediness and the first and last group inside.\<close>

datatype node =
    EmptyNode
  | AnyNode (any_modifier: byte)
  | CharNode (node_codePoint: int)
  | CharClassNode (class_invert: bool) (class_type: CharClassType) (class_mayContainStrings: bool)
      (class_chars: "node list")
  | PropertyNode (property_type: PropertyType) (property_data: u16)
  | BoundaryNode (boundary_type: BoundaryType) (boundary_modifier: byte)
  | BackRefNode (backref_name: bytes) (backref_node_index: nat) (backref_node_ignoreCase: bool)
  | RepeatNode (repeat_loopIndex: u16) (repeat_min: u16) (repeat_max: u32) (repeat_greedy: bool)
      (repeat_firstGroupIndex: u16) (repeat_lastGroupIndex: u16) (repeat_pattern: node)
  | SeqNode (seq_patterns: "node list")
  | AltNode (alt_patterns: "node list")
  | LookAroundNode (lookaround_type: LookAroundType) (lookaround_pattern: node)
  | GroupNode (group_type: GroupType) (group_index: nat) (group_set: byte) (group_unset: byte)
      (group_pattern: node)
  | FoldCharNode (fold_codePoint: int)
  | CharSetNode (charset_node_invert: bool) (charset_node_ignoreCase: bool) (charset_owned: bool)
      (charset_set: CodePointSetRef)
  | StrSetNode (strset_emoji: byte) (strset_radix: RadixTree) (strset_chars: "node option")

definition REPEAT_UNLIMIT :: u32 where
  "REPEAT_UNLIMIT = 0xFFFFFFFF"

definition isNamed :: "bytes \<Rightarrow> bool" where
  "isNamed name \<longleftrightarrow> name \<noteq> []"

definition RGI_CASE_IGNORE :: byte where
  "RGI_CASE_IGNORE = 0x80"

definition strset_isIgnoreCase :: "byte \<Rightarrow> bool" where
  "strset_isIgnoreCase raw \<longleftrightarrow> hasFlag raw RGI_CASE_IGNORE"

definition strset_getEmojiSeq :: "byte \<Rightarrow> byte" where
  "strset_getEmojiSeq raw = raw AND NOT RGI_CASE_IGNORE"

definition isa_CharNode :: "node \<Rightarrow> bool" where
  "isa_CharNode n = (case n of CharNode _ \<Rightarrow> True | _ \<Rightarrow> False)"

definition isa_EmptyNode :: "node \<Rightarrow> bool" where
  "isa_EmptyNode n = (case n of EmptyNode \<Rightarrow> True | _ \<Rightarrow> False)"

definition isCharClassOp :: "node \<Rightarrow> bool" where
  "isCharClassOp n = (case n of PropertyNode t _ \<Rightarrow> property_isCharClassOp t | _ \<Rightarrow> False)"

section \<open>Char classes\<close>

definition hasUnterminatedCharOp :: "node list \<Rightarrow> bool" where
  "hasUnterminatedCharOp chars \<longleftrightarrow> chars \<noteq> [] \<and> isCharClassOp (last chars)"

definition isCompatible :: "CharClassType \<Rightarrow> node list \<Rightarrow> CharClassType \<Rightarrow> bool" where
  "isCompatible t chars other \<longleftrightarrow>
     length chars = 1 \<or> t = other \<or> (t = C_UNION \<and> other = C_RANGE) \<or> (t = C_RANGE \<and> other = C_UNION)"

definition mayContainStringsImpl :: "node \<Rightarrow> bool" where
  "mayContainStringsImpl n =
     (case n of
        PropertyNode t _ \<Rightarrow> mayContainString t
      | CharClassNode _ _ may _ \<Rightarrow> may
      | AltNode ps \<Rightarrow> list_ex (\<lambda>e. case e of EmptyNode \<Rightarrow> True | SeqNode _ \<Rightarrow> True | _ \<Rightarrow> False) ps
      | _ \<Rightarrow> False)"

text \<open>\<open>CharClassNode::finalize\<close>: whether the class may contain strings, and whether it is
  acceptable (an inverted class must not contain strings).\<close>

definition class_finalize :: "bool \<Rightarrow> CharClassType \<Rightarrow> node list \<Rightarrow> bool \<times> node" where
  "class_finalize invert t chars =
     (let may = (case t of
          C_UNION \<Rightarrow> list_ex mayContainStringsImpl chars
        | C_RANGE \<Rightarrow> list_ex mayContainStringsImpl chars
        | C_INTERSECT \<Rightarrow> list_all (\<lambda>e. isCharClassOp e \<or> mayContainStringsImpl e) chars
        | C_SUBTRACT \<Rightarrow> chars \<noteq> [] \<and> mayContainStringsImpl (hd chars))
      in (if invert then \<not> may else True, CharClassNode invert t may chars))"

section \<open>Group numbers of a repetition\<close>

fun countGroupsImpl :: "u16 \<times> u16 \<Rightarrow> node \<Rightarrow> u16 \<times> u16" where
  "countGroupsImpl count (RepeatNode _ _ _ _ fi la _) =
     (if fi \<noteq> 0 then (if fst count = 0 then fi else fst count, la) else count)"
| "countGroupsImpl count (SeqNode ps) = foldl countGroupsImpl count ps"
| "countGroupsImpl count (AltNode ps) = foldl countGroupsImpl count ps"
| "countGroupsImpl count (LookAroundNode _ p) = countGroupsImpl count p"
| "countGroupsImpl count (GroupNode t i _ _ p) =
     countGroupsImpl (if t = G_CAPTURE then (if fst count = 0 then of_nat i else fst count, of_nat i)
                      else count) p"
| "countGroupsImpl count _ = count"

definition countGroups :: "node \<Rightarrow> u16 \<times> u16" where
  "countGroups n = countGroupsImpl (0, 0) n"

text \<open>The constructor of \<open>RepeatNode\<close> and its three named forms.\<close>

definition mkRepeat :: "u16 \<Rightarrow> node \<Rightarrow> u16 \<Rightarrow> u32 \<Rightarrow> bool \<Rightarrow> node" where
  "mkRepeat loopIndex pattern mn mx greedy =
     RepeatNode loopIndex mn mx greedy (fst (countGroups pattern)) (snd (countGroups pattern)) pattern"

definition repeat_option :: "u16 \<Rightarrow> node \<Rightarrow> bool \<Rightarrow> node" where
  "repeat_option loopIndex pattern greedy = mkRepeat loopIndex pattern 0 1 greedy"

definition repeat_zeroOrMore :: "u16 \<Rightarrow> node \<Rightarrow> bool \<Rightarrow> node" where
  "repeat_zeroOrMore loopIndex pattern greedy = mkRepeat loopIndex pattern 0 REPEAT_UNLIMIT greedy"

definition repeat_oneOrMore :: "u16 \<Rightarrow> node \<Rightarrow> bool \<Rightarrow> node" where
  "repeat_oneOrMore loopIndex pattern greedy = mkRepeat loopIndex pattern 1 REPEAT_UNLIMIT greedy"

section \<open>Syntax trees\<close>

record SyntaxTree =
  tree_flag :: Flag
  tree_loopCount :: u16
  tree_captureGroupCount :: nat
  tree_pattern :: node
  tree_namedCaptureGroups :: NamedCaptureGroups

section \<open>Groups and loops of a tree\<close>

text \<open>The capture groups and the loops that occur in a tree, in the order of the text.\<close>

fun node_groups :: "node \<Rightarrow> nat list" where
  "node_groups (RepeatNode _ _ _ _ _ _ p) = node_groups p"
| "node_groups (SeqNode ps) = concat (map node_groups ps)"
| "node_groups (AltNode ps) = concat (map node_groups ps)"
| "node_groups (LookAroundNode _ p) = node_groups p"
| "node_groups (GroupNode t i _ _ p) = (if t = G_CAPTURE then [i] else []) @ node_groups p"
| "node_groups _ = []"

fun node_loops :: "node \<Rightarrow> u16 list" where
  "node_loops (RepeatNode l _ _ _ _ _ p) = l # node_loops p"
| "node_loops (SeqNode ps) = concat (map node_loops ps)"
| "node_loops (AltNode ps) = concat (map node_loops ps)"
| "node_loops (LookAroundNode _ p) = node_loops p"
| "node_loops (GroupNode _ _ _ _ p) = node_loops p"
| "node_loops _ = []"

text \<open>Trees as the parser numbers them: groups count up from \<open>next\<close> in the order of the text, and
  every repetition carries the numbers of its body.\<close>

fun repeats_counted :: "node \<Rightarrow> bool" where
  "repeats_counted (RepeatNode _ _ _ _ fi la p) \<longleftrightarrow> (fi, la) = countGroups p \<and> repeats_counted p"
| "repeats_counted (SeqNode ps) \<longleftrightarrow> list_all repeats_counted ps"
| "repeats_counted (AltNode ps) \<longleftrightarrow> list_all repeats_counted ps"
| "repeats_counted (LookAroundNode _ p) \<longleftrightarrow> repeats_counted p"
| "repeats_counted (GroupNode _ _ _ _ p) \<longleftrightarrow> repeats_counted p"
| "repeats_counted _ \<longleftrightarrow> True"

definition numbered_from :: "nat \<Rightarrow> node \<Rightarrow> bool" where
  "numbered_from nxt n \<longleftrightarrow> node_groups n = [nxt..<nxt + length (node_groups n)]"

text \<open>What the scan has after a stretch of group numbers.\<close>

definition scan :: "u16 \<times> u16 \<Rightarrow> nat list \<Rightarrow> u16 \<times> u16" where
  "scan count gs = (if gs = [] then count
     else (if fst count = 0 then of_nat (hd gs) else fst count, of_nat (last gs)))"

lemma of_nat_u16_nonzero: "0 < g \<Longrightarrow> g < 2 ^ 16 \<Longrightarrow> (of_nat g :: u16) \<noteq> 0"
  by (simp add: word_unat_eq_iff unat_of_nat)

lemma scan_append:
  assumes "\<forall>g\<in>set xs. 0 < g \<and> g < 2 ^ 16"
  shows "scan (scan count xs) ys = scan count (xs @ ys)"
  using assms of_nat_u16_nonzero by (cases xs) (auto simp: scan_def)

lemma foldl_scan:
  assumes "\<And>n count. n \<in> set ps \<Longrightarrow> f count n = scan count (node_groups n)"
    "\<forall>g\<in>set (concat (map node_groups ps)). 0 < g \<and> g < 2 ^ 16"
  shows "foldl f count ps = scan count (concat (map node_groups ps))"
  using assms
proof (induction ps arbitrary: count)
  case (Cons n ps)
  have "foldl f (scan count (node_groups n)) ps =
      scan (scan count (node_groups n)) (concat (map node_groups ps))"
    using Cons.prems by (intro Cons.IH) auto
  with Cons.prems scan_append [of "node_groups n"] show ?case by simp
qed (simp add: scan_def)

lemma countGroupsImpl_scan:
  assumes "repeats_counted n" "\<forall>g\<in>set (node_groups n). 0 < g \<and> g < 2 ^ 16"
  shows "countGroupsImpl count n = scan count (node_groups n)"
  using assms
proof (induction n arbitrary: count)
  case (RepeatNode l mn mx gr fi la p)
  have b: "\<forall>g\<in>set (node_groups p). 0 < g \<and> g < 2 ^ 16" using RepeatNode.prems by simp
  have e: "(fi, la) = scan (0, 0) (node_groups p)"
    using RepeatNode by (simp add: countGroups_def)
  show ?case
  proof (cases "node_groups p")
    case Nil
    with e show ?thesis by (simp add: scan_def)
  next
    case (Cons g gs)
    with e have "fi = of_nat g" "la = of_nat (last (node_groups p))" by (auto simp: scan_def)
    moreover have "(of_nat g :: u16) \<noteq> 0" using b Cons of_nat_u16_nonzero by simp
    ultimately show ?thesis using Cons by (simp add: scan_def)
  qed
next
  case (SeqNode ps)
  then show ?case by (auto simp: list_all_iff intro!: foldl_scan)
next
  case (AltNode ps)
  then show ?case by (auto simp: list_all_iff intro!: foldl_scan)
next
  case (GroupNode t i st un p)
  have "countGroupsImpl (scan count (if t = G_CAPTURE then [i] else [])) p =
      scan (scan count (if t = G_CAPTURE then [i] else [])) (node_groups p)"
    using GroupNode by auto
  with GroupNode.prems scan_append [of "if t = G_CAPTURE then [i] else []"] show ?case
    by (auto simp: scan_def split: if_splits)
qed (auto simp: scan_def)

text \<open>C35. The group range a repetition resets is exact: in a tree whose groups are numbered from
  left to right (from a positive number, within 16 bits), the first and last index computed by
  \<open>countGroups\<close> delimit exactly the groups inside the pattern, and both are 0 when it has none.\<close>

theorem countGroups_exact:
  assumes "repeats_counted n" "numbered_from nxt n" "0 < nxt" "nxt + length (node_groups n) \<le> 2 ^ 16"
  shows "{g. unat (fst (countGroups n)) \<le> g \<and> g \<le> unat (snd (countGroups n)) \<and> 0 < g} = set (node_groups n)
    \<and> (fst (countGroups n) = 0 \<longleftrightarrow> node_groups n = [])"
proof -
  let ?k = "length (node_groups n)"
  have g: "node_groups n = [nxt..<nxt + ?k]" using assms(2) by (simp add: numbered_from_def)
  have b: "\<forall>g\<in>set (node_groups n). 0 < g \<and> g < 2 ^ 16" using assms(3,4) by (subst g) auto
  have c: "countGroups n = scan (0, 0) (node_groups n)"
    unfolding countGroups_def using countGroupsImpl_scan [OF assms(1) b] .
  show ?thesis
  proof (cases "?k = 0")
    case True
    then show ?thesis using c by (auto simp: scan_def)
  next
    case False
    then have "hd (node_groups n) = nxt" "last (node_groups n) = nxt + ?k - 1"
      using g by (metis hd_upt less_add_same_cancel1 neq0_conv,
        metis last_upt less_add_same_cancel1 neq0_conv)
    then have f: "fst (countGroups n) = of_nat nxt" "snd (countGroups n) = of_nat (nxt + ?k - 1)"
      using c False by (auto simp: scan_def)
    have "unat (of_nat nxt :: u16) = nxt" "unat (of_nat (nxt + ?k - 1) :: u16) = nxt + ?k - 1"
      using False assms(3,4) unfolding unat_of_nat by (intro mod_less; simp; linarith)+
    then have "unat (fst (countGroups n)) = nxt" "unat (snd (countGroups n)) = nxt + ?k - 1"
      unfolding f by blast+
    moreover have "set (node_groups n) = {nxt..<nxt + ?k}" by (subst g) simp
    ultimately show ?thesis using False assms(3) by (auto simp: word_unat_eq_iff)
  qed
qed

theorem countGroups_exact_witness:
  "(let n = SeqNode [CharNode 97, GroupNode G_CAPTURE 2 0 0 (GroupNode G_CAPTURE 3 0 0 EmptyNode)] in
    numbered_from 2 n \<and> {g. unat (fst (countGroups n)) \<le> g \<and> g \<le> unat (snd (countGroups n)) \<and> 0 < g} = {2, 3})"
proof -
  let ?n = "SeqNode [CharNode 97, GroupNode G_CAPTURE 2 0 0 (GroupNode G_CAPTURE 3 0 0 EmptyNode)]"
  have "numbered_from 2 ?n" by (simp add: numbered_from_def upt_rec)
  with countGroups_exact [of ?n 2] show ?thesis by (simp add: Let_def)
qed

end
