(* ===== verification/Regex_Inst.thy ===== *)
theory Regex_Inst
  imports Prelude
begin

text \<open>
  \<open>regex/instruction.h\<close>: the instruction set of the matching engine. An instruction is its opcode
  byte followed by its operands; multi-byte operands are stored with \<open>memcpy\<close> in the byte order
  of the host, which is taken to be little endian. Encoding follows the constructors, decoding the
  accessors; the code of a pattern is the concatenation of encoded instructions, addressed by byte.
\<close>

section \<open>Operands\<close>

definition bytes_of_bool :: "bool \<Rightarrow> bytes" where
  "bytes_of_bool b = [if b then 1 else 0]"

definition bytes_of_u16 :: "u16 \<Rightarrow> bytes" where
  "bytes_of_u16 w = [ucast w, ucast (drop_bit 8 w)]"

definition bytes_of_u32 :: "u32 \<Rightarrow> bytes" where
  "bytes_of_u32 w = [ucast w, ucast (drop_bit 8 w), ucast (drop_bit 16 w), ucast (drop_bit 24 w)]"

text \<open>\<open>READ_FROM_INS_FIELD\<close> at an offset from the opcode byte.\<close>

definition read_bool :: "bytes \<Rightarrow> nat \<Rightarrow> bool" where
  "read_bool s i \<longleftrightarrow> s ! i \<noteq> 0"

definition read_u16 :: "bytes \<Rightarrow> nat \<Rightarrow> u16" where
  "read_u16 s i = ucast (s ! i) OR push_bit 8 (ucast (s ! (i + 1)))"

definition read_u32 :: "bytes \<Rightarrow> nat \<Rightarrow> u32" where
  "read_u32 s i = ucast (s ! i) OR push_bit 8 (ucast (s ! (i + 1))) OR
     push_bit 16 (ucast (s ! (i + 2))) OR push_bit 24 (ucast (s ! (i + 3)))"

section \<open>Instructions\<close>

text \<open>\<open>EACH_RE_OPCODE\<close> and the instruction structs, with the fields in the order of the structs.\<close>

datatype inst =
    NopIns
  | MatchIns
  | JumpIns (jump_target: u32)
  | AltIns (alt_second: u32)
  | StartIns (start_multiline: bool)
  | EndIns (end_multiline: bool)
  | WordIns (word_invert: bool)
  | IWordIns (iword_invert: bool)
  | AnyIns
  | AnyExceptNLIns
  | LBAnyIns (lbany_dotAll: bool)
  | GraphemeIns
  | CharIns (char_code: u32)
  | ICharIns (ichar_code: u32)
  | LBCharIns (lbchar_ignoreCase: bool) (lbchar_code: u32)
  | CharSetIns (charset_invert: bool) (charset_index: u16)
  | ICharSetIns (icharset_invert: bool) (icharset_index: u16)
  | LBCharSetIns (lbcharset_invert: bool) (lbcharset_ignoreCase: bool) (lbcharset_index: u16)
  | PrepareRadixIns
  | RadixOrEmojiIns (radix_emoji: byte) (radix_hasRadix: bool) (radix_index: u16) (radix_nextOffset: byte)
  | PrepareLBRadixIns
  | LBRadixOrEmojiIns (lbradix_emoji: byte) (lbradix_hasRadix: bool) (lbradix_index: u16)
      (lbradix_nextOffset: byte)
  | StringIns (string_index: u16)
  | LBStringIns (lbstring_index: u16)
  | BeginCaptureIns (begin_captureIndex: u16)
  | EndCaptureIns (end_captureIndex: u16)
  | LBEndCaptureIns (lbend_captureIndex: u16)
  | ResetCapturesIns (reset_firstIndex: u16) (reset_lastIndex: u16)
  | BackRefIns (backref_named: bool) (backref_index: u16)
  | IBackRefIns (ibackref_named: bool) (ibackref_index: u16)
  | LBBackRefIns (lbbackref_named: bool) (lbbackref_ignoreCase: bool) (lbbackref_index: u16)
  | BeginLoopIns (loop_greedy: bool) (loop_index: u16) (loop_min: u16) (loop_max: u32) (loop_outer: u32)
  | EndLoopIns (endloop_target: u32)
  | BeginLookAroundIns (look_negate: bool) (look_target: u32)
  | EndLookAroundIns

fun opcode :: "inst \<Rightarrow> byte" where
  "opcode NopIns = 0"
| "opcode MatchIns = 1"
| "opcode (JumpIns _) = 2"
| "opcode (AltIns _) = 3"
| "opcode (StartIns _) = 4"
| "opcode (EndIns _) = 5"
| "opcode (WordIns _) = 6"
| "opcode (IWordIns _) = 7"
| "opcode AnyIns = 8"
| "opcode AnyExceptNLIns = 9"
| "opcode (LBAnyIns _) = 10"
| "opcode GraphemeIns = 11"
| "opcode (CharIns _) = 12"
| "opcode (ICharIns _) = 13"
| "opcode (LBCharIns _ _) = 14"
| "opcode (CharSetIns _ _) = 15"
| "opcode (ICharSetIns _ _) = 16"
| "opcode (LBCharSetIns _ _ _) = 17"
| "opcode PrepareRadixIns = 18"
| "opcode (RadixOrEmojiIns _ _ _ _) = 19"
| "opcode PrepareLBRadixIns = 20"
| "opcode (LBRadixOrEmojiIns _ _ _ _) = 21"
| "opcode (StringIns _) = 22"
| "opcode (LBStringIns _) = 23"
| "opcode (BeginCaptureIns _) = 24"
| "opcode (EndCaptureIns _) = 25"
| "opcode (LBEndCaptureIns _) = 26"
| "opcode (ResetCapturesIns _ _) = 27"
| "opcode (BackRefIns _ _) = 28"
| "opcode (IBackRefIns _ _) = 29"
| "opcode (LBBackRefIns _ _ _) = 30"
| "opcode (BeginLoopIns _ _ _ _ _) = 31"
| "opcode (EndLoopIns _) = 32"
| "opcode (BeginLookAroundIns _ _) = 33"
| "opcode EndLookAroundIns = 34"

text \<open>What the constructor of each struct stores after the opcode.\<close>

fun operands :: "inst \<Rightarrow> bytes" where
  "operands (JumpIns t) = bytes_of_u32 t"
| "operands (AltIns t) = bytes_of_u32 t"
| "operands (StartIns b) = bytes_of_bool b"
| "operands (EndIns b) = bytes_of_bool b"
| "operands (WordIns b) = bytes_of_bool b"
| "operands (IWordIns b) = bytes_of_bool b"
| "operands (LBAnyIns b) = bytes_of_bool b"
| "operands (CharIns c) = bytes_of_u32 c"
| "operands (ICharIns c) = bytes_of_u32 c"
| "operands (LBCharIns b c) = bytes_of_bool b @ bytes_of_u32 c"
| "operands (CharSetIns b i) = bytes_of_bool b @ bytes_of_u16 i"
| "operands (ICharSetIns b i) = bytes_of_bool b @ bytes_of_u16 i"
| "operands (LBCharSetIns b c i) = bytes_of_bool b @ bytes_of_bool c @ bytes_of_u16 i"
| "operands (RadixOrEmojiIns e r i n) = [e] @ bytes_of_bool r @ bytes_of_u16 i @ [n]"
| "operands (LBRadixOrEmojiIns e r i n) = [e] @ bytes_of_bool r @ bytes_of_u16 i @ [n]"
| "operands (StringIns i) = bytes_of_u16 i"
| "operands (LBStringIns i) = bytes_of_u16 i"
| "operands (BeginCaptureIns i) = bytes_of_u16 i"
| "operands (EndCaptureIns i) = bytes_of_u16 i"
| "operands (LBEndCaptureIns i) = bytes_of_u16 i"
| "operands (ResetCapturesIns i j) = bytes_of_u16 i @ bytes_of_u16 j"
| "operands (BackRefIns b i) = bytes_of_bool b @ bytes_of_u16 i"
| "operands (IBackRefIns b i) = bytes_of_bool b @ bytes_of_u16 i"
| "operands (LBBackRefIns b c i) = bytes_of_bool b @ bytes_of_bool c @ bytes_of_u16 i"
| "operands (BeginLoopIns g i mn mx t) =
     bytes_of_bool g @ bytes_of_u16 i @ bytes_of_u16 mn @ bytes_of_u32 mx @ bytes_of_u32 t"
| "operands (EndLoopIns t) = bytes_of_u32 t"
| "operands (BeginLookAroundIns b t) = bytes_of_bool b @ bytes_of_u32 t"
| "operands _ = []"

definition encode :: "inst \<Rightarrow> bytes" where
  "encode i = opcode i # operands i"

text \<open>\<open>sizeof\<close> of the instruction structs.\<close>

definition inst_size :: "inst \<Rightarrow> nat" where
  "inst_size i = length (encode i)"

section \<open>Decoding\<close>

text \<open>The accessors of the structs, by group; the argument starts at the opcode byte.\<close>

definition decode_branch :: "bytes \<Rightarrow> inst" where
  "decode_branch s = (if s ! 0 = 2 then JumpIns (read_u32 s 1) else AltIns (read_u32 s 1))"

definition decode_assertion :: "bytes \<Rightarrow> inst" where
  "decode_assertion s =
     (if s ! 0 = 4 then StartIns (read_bool s 1)
      else if s ! 0 = 5 then EndIns (read_bool s 1)
      else if s ! 0 = 6 then WordIns (read_bool s 1)
      else IWordIns (read_bool s 1))"

definition decode_any :: "bytes \<Rightarrow> inst" where
  "decode_any s =
     (if s ! 0 = 8 then AnyIns else if s ! 0 = 9 then AnyExceptNLIns
      else if s ! 0 = 10 then LBAnyIns (read_bool s 1) else GraphemeIns)"

definition decode_char :: "bytes \<Rightarrow> inst" where
  "decode_char s =
     (if s ! 0 = 12 then CharIns (read_u32 s 1)
      else if s ! 0 = 13 then ICharIns (read_u32 s 1)
      else LBCharIns (read_bool s 1) (read_u32 s 2))"

definition decode_charset :: "bytes \<Rightarrow> inst" where
  "decode_charset s =
     (if s ! 0 = 15 then CharSetIns (read_bool s 1) (read_u16 s 2)
      else if s ! 0 = 16 then ICharSetIns (read_bool s 1) (read_u16 s 2)
      else LBCharSetIns (read_bool s 1) (read_bool s 2) (read_u16 s 3))"

definition decode_radix :: "bytes \<Rightarrow> inst" where
  "decode_radix s =
     (if s ! 0 = 18 then PrepareRadixIns
      else if s ! 0 = 19 then RadixOrEmojiIns (s ! 1) (read_bool s 2) (read_u16 s 3) (s ! 5)
      else if s ! 0 = 20 then PrepareLBRadixIns
      else LBRadixOrEmojiIns (s ! 1) (read_bool s 2) (read_u16 s 3) (s ! 5))"

definition decode_string :: "bytes \<Rightarrow> inst" where
  "decode_string s = (if s ! 0 = 22 then StringIns (read_u16 s 1) else LBStringIns (read_u16 s 1))"

definition decode_capture :: "bytes \<Rightarrow> inst" where
  "decode_capture s =
     (if s ! 0 = 24 then BeginCaptureIns (read_u16 s 1)
      else if s ! 0 = 25 then EndCaptureIns (read_u16 s 1)
      else if s ! 0 = 26 then LBEndCaptureIns (read_u16 s 1)
      else ResetCapturesIns (read_u16 s 1) (read_u16 s 3))"

definition decode_backref :: "bytes \<Rightarrow> inst" where
  "decode_backref s =
     (if s ! 0 = 28 then BackRefIns (read_bool s 1) (read_u16 s 2)
      else if s ! 0 = 29 then IBackRefIns (read_bool s 1) (read_u16 s 2)
      else LBBackRefIns (read_bool s 1) (read_bool s 2) (read_u16 s 3))"

definition decode_loop :: "bytes \<Rightarrow> inst" where
  "decode_loop s =
     (if s ! 0 = 31
      then BeginLoopIns (read_bool s 1) (read_u16 s 2) (read_u16 s 4) (read_u32 s 6) (read_u32 s 10)
      else EndLoopIns (read_u32 s 1))"

definition decode_look :: "bytes \<Rightarrow> inst" where
  "decode_look s = (if s ! 0 = 33 then BeginLookAroundIns (read_bool s 1) (read_u32 s 2)
     else EndLookAroundIns)"

text \<open>The dispatch on the opcode, \<open>None\<close> where the byte is no opcode or the code ends inside the
  instruction (the program would read out of bounds).\<close>

definition decode :: "bytes \<Rightarrow> inst option" where
  "decode s =
     (if s = [] then None
      else (let op = s ! 0;
                i = (if op = 0 then NopIns else if op = 1 then MatchIns
                     else if op \<le> 3 then decode_branch s
                     else if op \<le> 7 then decode_assertion s
                     else if op \<le> 11 then decode_any s
                     else if op \<le> 14 then decode_char s
                     else if op \<le> 17 then decode_charset s
                     else if op \<le> 21 then decode_radix s
                     else if op \<le> 23 then decode_string s
                     else if op \<le> 27 then decode_capture s
                     else if op \<le> 30 then decode_backref s
                     else if op \<le> 32 then decode_loop s
                     else decode_look s)
            in if op \<le> 34 \<and> inst_size i \<le> length s then Some i else None))"

definition fetch :: "bytes \<Rightarrow> nat \<Rightarrow> inst option" where
  "fetch code pc = decode (drop pc code)"

definition encode_all :: "inst list \<Rightarrow> bytes" where
  "encode_all is = concat (map encode is)"

section \<open>Round trip\<close>

lemma length_bytes [simp]:
  "length (bytes_of_bool b) = 1" "length (bytes_of_u16 w) = 2" "length (bytes_of_u32 v) = 4"
  by (simp_all add: bytes_of_bool_def bytes_of_u16_def bytes_of_u32_def)

lemma read_u16_bytes [simp]: "read_u16 (bytes_of_u16 w @ ys) 0 = w"
proof -
  have "ucast (ucast w :: byte) OR push_bit 8 (ucast (ucast (drop_bit 8 w) :: byte)) = w"
    by (rule bit_word_eqI) (auto simp: bit_simps)
  then show ?thesis by (simp add: read_u16_def bytes_of_u16_def)
qed

lemma read_u32_bytes [simp]: "read_u32 (bytes_of_u32 w @ ys) 0 = w"
proof -
  have "ucast (ucast w :: byte) OR push_bit 8 (ucast (ucast (drop_bit 8 w) :: byte)) OR
      push_bit 16 (ucast (ucast (drop_bit 16 w) :: byte)) OR
      push_bit 24 (ucast (ucast (drop_bit 24 w) :: byte)) = w"
  proof (rule bit_word_eqI)
    fix n :: nat
    consider "n < 8" | "8 \<le> n" "n < 16" | "16 \<le> n" "n < 24" | "24 \<le> n" by linarith
    then show "bit ((ucast (ucast w :: byte) :: u32) OR push_bit 8 (ucast (ucast (drop_bit 8 w) :: byte)) OR
      push_bit 16 (ucast (ucast (drop_bit 16 w) :: byte)) OR
      push_bit 24 (ucast (ucast (drop_bit 24 w) :: byte))) n = bit w n" if "n < LENGTH(32)"
      using that by cases (auto simp: bit_simps)
  qed
  then show ?thesis by (simp add: read_u32_def bytes_of_u32_def)
qed

lemma read_bool_bytes [simp]: "read_bool (bytes_of_bool b @ ys) 0 = b"
  by (simp add: read_bool_def bytes_of_bool_def)

text \<open>Reading past a prefix of known length.\<close>

lemma read_skip:
  assumes "length xs \<le> n"
  shows "read_bool (xs @ ys) n = read_bool ys (n - length xs)"
    "read_u16 (xs @ ys) n = read_u16 ys (n - length xs)"
    "read_u32 (xs @ ys) n = read_u32 ys (n - length xs)"
  using assms by (simp_all add: read_bool_def read_u16_def read_u32_def nth_append Suc_diff_le)

lemma read_skip_cons [simp]:
  assumes "0 < n"
  shows "read_bool (x # ys) n = read_bool ys (n - 1)"
    "read_u16 (x # ys) n = read_u16 ys (n - 1)"
    "read_u32 (x # ys) n = read_u32 ys (n - 1)"
  using read_skip [of "[x]" n ys] assms by simp_all

lemma read_skip_field [simp]:
  "1 \<le> n \<Longrightarrow> read_bool (bytes_of_bool b @ ys) n = read_bool ys (n - 1)"
  "1 \<le> n \<Longrightarrow> read_u16 (bytes_of_bool b @ ys) n = read_u16 ys (n - 1)"
  "1 \<le> n \<Longrightarrow> read_u32 (bytes_of_bool b @ ys) n = read_u32 ys (n - 1)"
  "2 \<le> n \<Longrightarrow> read_u16 (bytes_of_u16 w @ ys) n = read_u16 ys (n - 2)"
  "2 \<le> n \<Longrightarrow> read_u32 (bytes_of_u16 w @ ys) n = read_u32 ys (n - 2)"
  "4 \<le> n \<Longrightarrow> read_u32 (bytes_of_u32 v @ ys) n = read_u32 ys (n - 4)"
  using read_skip [of "bytes_of_bool b" n ys] read_skip [of "bytes_of_u16 w" n ys]
    read_skip [of "bytes_of_u32 v" n ys] by simp_all

lemma nth_fields [simp]: "(bytes_of_bool b @ bytes_of_u16 w @ x # ys) ! 3 = x"
  by (simp add: bytes_of_bool_def bytes_of_u16_def)

lemmas decode_groups = decode_branch_def decode_assertion_def decode_any_def decode_char_def
  decode_charset_def decode_radix_def decode_string_def decode_capture_def decode_backref_def
  decode_loop_def decode_look_def

lemma decode_encode_inst: "decode (encode i @ rest) = Some i"
  by (cases i) (simp_all add: decode_def encode_def inst_size_def decode_groups Let_def)

lemma fetch_at: "length pre = pc \<Longrightarrow> fetch (pre @ encode i @ rest) pc = Some i"
  by (simp add: fetch_def decode_encode_inst)

text \<open>C30. The instruction format is unambiguous: an instruction encoded anywhere in the code is
  fetched back from its address with every operand intact, whatever surrounds it, and the next
  address is the first byte after its encoding.\<close>

theorem inst_roundtrip:
  "fetch (pre @ encode i @ rest) (length pre) = Some i \<and>
   drop (length pre + inst_size i) (pre @ encode i @ rest) = rest"
  by (simp add: fetch_at inst_size_def)

end
