(* ===== verification/Regex_Prefilter.thy ===== *)
theory Regex_Prefilter
  imports Regex_Inst Regex_Matcher Radix_Tree
begin

text \<open>
  \<open>regex/prefilter.cpp\<close> and \<open>regex/prefilter.h\<close>: the set of bytes a match can start with, collected
  from the code of a pattern, and the order of prefilters. The tables of case unfolding and the
  emoji trie are generated files; they are fields of \<open>unicode_env\<close>.
\<close>

section \<open>Generated Unicode data\<close>

text \<open>\<open>doSimpleCaseFolding\<close>, \<open>doSimpleCaseUnfold\<close>, the property \<open>ESRegexClassExtendWord\<close>, the emoji
  trie, and the byte size of the first grapheme cluster of a text.\<close>

record unicode_env =
  simpleFold :: "int \<Rightarrow> int"
  simpleUnfold :: "int \<Rightarrow> int list"
  isExtendWord :: "int \<Rightarrow> bool"
  emojiTrie :: PackedRadixTree
  firstGrapheme :: "bytes \<Rightarrow> nat"

section \<open>First bytes\<close>

text \<open>\<open>std::bitset<256>\<close>.\<close>

type_synonym FirstBitSet = "bool list"

definition empty_bitset :: FirstBitSet where
  "empty_bitset = replicate 256 False"

definition bitset_set :: "FirstBitSet \<Rightarrow> byte \<Rightarrow> FirstBitSet" where
  "bitset_set s b = s[unat b := True]"

definition bitset_test :: "FirstBitSet \<Rightarrow> byte \<Rightarrow> bool" where
  "bitset_test s b = s ! unat b"

definition bitset_any :: "FirstBitSet \<Rightarrow> bool" where
  "bitset_any s \<longleftrightarrow> True \<in> set s"

definition first_byte :: "int \<Rightarrow> byte" where
  "first_byte codePoint = codePointToUtf8 codePoint ! 0"

definition fill_codePoint :: "unicode_env \<Rightarrow> int \<Rightarrow> FirstBitSet \<Rightarrow> bool \<Rightarrow> FirstBitSet" where
  "fill_codePoint env codePoint s fld =
     foldl (\<lambda>s e. bitset_set s (first_byte e)) (bitset_set s (first_byte codePoint))
       (if fld then simpleUnfold env codePoint else [])"

definition fill_range :: "unicode_env \<Rightarrow> bool \<Rightarrow> FirstBitSet \<Rightarrow> int \<times> int \<Rightarrow> FirstBitSet" where
  "fill_range env fld s r = foldl (\<lambda>s c. fill_codePoint env c s fld) s [fst r..snd r]"

definition fill_set :: "unicode_env \<Rightarrow> CodePointSetRef \<Rightarrow> FirstBitSet \<Rightarrow> bool \<Rightarrow> FirstBitSet" where
  "fill_set env ref s fld =
     foldl (fill_range env fld) s
       (map (\<lambda>e. (uint (firstBMP e), uint (lastBMP e))) (getBMPRanges ref) @
        map (\<lambda>e. (firstNonBMP e, lastNonBMP e)) (getNonBMPRanges ref) @
        map (\<lambda>e. (packedFirst e, packedLast e)) (getPackedNonBMPRanges ref))"

definition fill_ascii :: "unicode_env \<Rightarrow> AsciiSet \<Rightarrow> FirstBitSet \<Rightarrow> bool \<Rightarrow> FirstBitSet" where
  "fill_ascii env a s fld =
     foldl (\<lambda>s c. fill_codePoint env c s fld) s (filter (ascii_contains a) [0..127])"

definition fill_string :: "unicode_env \<Rightarrow> bytes \<Rightarrow> FirstBitSet \<Rightarrow> bool \<Rightarrow> FirstBitSet" where
  "fill_string env ref s fld = fill_codePoint env (snd (wtf8ToCodePoint ref)) s fld"

definition fill_emoji :: "unicode_env \<Rightarrow> byte \<Rightarrow> FirstBitSet \<Rightarrow> bool \<Rightarrow> FirstBitSet" where
  "fill_emoji env emoji s fld =
     foldl (\<lambda>s (ref, p). if hasFlag emoji p then fill_string env ref s fld else s) s
       (packed_strings (emojiTrie env))"

definition fill_radix :: "unicode_env \<Rightarrow> PackedRadixTree \<Rightarrow> FirstBitSet \<Rightarrow> bool \<Rightarrow> FirstBitSet" where
  "fill_radix env radix s fld = foldl (\<lambda>s (ref, p). fill_string env ref s fld) s (packed_strings radix)"

text \<open>\<open>hasEmoji\<close> and \<open>ignoreCase\<close> of the radix instructions.\<close>

definition emoji_hasEmoji :: "byte \<Rightarrow> bool" where
  "emoji_hasEmoji e \<longleftrightarrow> e AND NOT 0x80 \<noteq> 0"

definition emoji_ignoreCase :: "byte \<Rightarrow> bool" where
  "emoji_ignoreCase e \<longleftrightarrow> hasFlag e 0x80"

definition matcher_radix :: "Matcher \<Rightarrow> PackedRadixTree" where
  "matcher_radix m = \<lparr>packed_ptr = snd (asRadixTree m), packed_maxCodePointCount = fst (asRadixTree m)\<rparr>"

definition fill_matcher :: "unicode_env \<Rightarrow> Matcher \<Rightarrow> FirstBitSet \<Rightarrow> bool \<Rightarrow> FirstBitSet" where
  "fill_matcher env m s fld =
     (if matcher_type m = Some ASCII then fill_ascii env (asAsciiSet m) s fld
      else fill_set env (asCodePointSetRef m) s fld)"

text \<open>How \<open>collect\<close> treats an instruction: it is passed over, it ends the scan with a result, it
  continues at another address, or a branch or a loop body is scanned by itself.\<close>

datatype collect_step =
    CPass
  | CDone bool FirstBitSet
  | CGoto nat FirstBitSet
  | CBranch nat
  | CBody nat

definition collect_inst :: "unicode_env \<Rightarrow> Matcher list \<Rightarrow> nat \<Rightarrow> FirstBitSet \<Rightarrow> inst \<Rightarrow> collect_step" where
  "collect_inst env matchers pc s i =
     (case i of
        NopIns \<Rightarrow> CPass | MatchIns \<Rightarrow> CPass | JumpIns _ \<Rightarrow> CPass | WordIns _ \<Rightarrow> CPass | IWordIns _ \<Rightarrow> CPass
      | PrepareRadixIns \<Rightarrow> CPass | BeginCaptureIns _ \<Rightarrow> CPass | EndCaptureIns _ \<Rightarrow> CPass
      | ResetCapturesIns _ _ \<Rightarrow> CPass | EndLoopIns _ \<Rightarrow> CPass | EndLookAroundIns \<Rightarrow> CPass
      | AltIns second \<Rightarrow> CBranch (unat second)
      | CharIns c \<Rightarrow> CDone True (fill_codePoint env (sint c) s False)
      | ICharIns c \<Rightarrow> CDone True (fill_codePoint env (sint c) s True)
      | CharSetIns invert index \<Rightarrow>
          if invert then CDone False s else CDone True (fill_matcher env (matchers ! unat index) s False)
      | ICharSetIns invert index \<Rightarrow>
          if invert then CDone False s else CDone True (fill_matcher env (matchers ! unat index) s True)
      | RadixOrEmojiIns emoji hasRadix index nextOffset \<Rightarrow>
          (let s1 = (if emoji_hasEmoji emoji then fill_emoji env emoji s (emoji_ignoreCase emoji) else s);
               s2 = (if hasRadix then fill_radix env (matcher_radix (matchers ! unat index)) s1
                                        (emoji_ignoreCase emoji) else s1)
           in if nextOffset \<noteq> 0 then CGoto (pc + inst_size i) s2 else CDone True s2)
      | StringIns index \<Rightarrow> CDone True (fill_string env (asStrRef (matchers ! unat index)) s False)
      | BeginLoopIns greedy loopIndex mn mx outer \<Rightarrow> if mn > 0 then CBody (unat outer) else CDone False s
      | BeginLookAroundIns negate target \<Rightarrow> CGoto (unat target) s
      | _ \<Rightarrow> CDone False s)"

text \<open>\<open>FirstBytesCollector::collect\<close>. Addresses only grow, so the length of the code is enough fuel;
  \<open>None\<close> stands for code that is no instruction or for running out.\<close>

primrec collect :: "nat \<Rightarrow> unicode_env \<Rightarrow> bytes \<Rightarrow> Matcher list \<Rightarrow> nat \<Rightarrow> nat \<Rightarrow> FirstBitSet
    \<Rightarrow> (bool \<times> FirstBitSet) option" where
  "collect 0 env code matchers begin_pc end_pc s = None"
| "collect (Suc fuel) env code matchers begin_pc end_pc s =
     (if begin_pc = end_pc then Some (False, s)
      else case fetch code begin_pc of
        None \<Rightarrow> None
      | Some i \<Rightarrow>
          (case collect_inst env matchers begin_pc s i of
             CPass \<Rightarrow> collect fuel env code matchers (begin_pc + inst_size i) end_pc s
           | CDone r s' \<Rightarrow> Some (r, s')
           | CGoto pc s' \<Rightarrow> collect fuel env code matchers pc end_pc s'
           | CBranch second \<Rightarrow>
               (case collect fuel env code matchers (begin_pc + inst_size i) second s of
                  Some (True, s') \<Rightarrow> collect fuel env code matchers second end_pc s'
                | r \<Rightarrow> r)
           | CBody outer \<Rightarrow> collect fuel env code matchers (begin_pc + inst_size i) outer s))"

definition createFirstBitSet :: "unicode_env \<Rightarrow> bytes \<Rightarrow> Matcher list \<Rightarrow> FirstBitSet" where
  "createFirstBitSet env instSeq matchers =
     (case collect (Suc (length instSeq)) env instSeq matchers 0 (length instSeq) empty_bitset of
        Some (True, s) \<Rightarrow> s
      | _ \<Rightarrow> empty_bitset)"

end
