(* ===== verification/Set_Builder.thy ===== *)
theory Set_Builder
  imports Codepoint_Set
begin

text \<open>
  \<open>unicode/set_builder.cpp\<close>: \<open>CodePointSetBuilder\<close>, a set of code points kept as a vector of
  inclusive ranges that is sorted and compacted only when it is read (\<open>dirty\<close>). Each operation
  is a function on the record; the abstraction is the set of code points the ranges cover.
\<close>

section \<open>The builder\<close>

type_synonym ranges = "(int \<times> int) list"

record CodePointSetBuilder =
  dirty :: bool
  codePointRanges :: ranges

definition empty_builder :: CodePointSetBuilder where
  "empty_builder = \<lparr>dirty = False, codePointRanges = []\<rparr>"

text \<open>\<open>Compare\<close> orders pairs lexicographically; \<open>std::sort\<close> by it is insertion of each element
  in order (equal pairs are indistinguishable).\<close>

definition range_less :: "int \<times> int \<Rightarrow> int \<times> int \<Rightarrow> bool" where
  "range_less x y \<longleftrightarrow> fst x < fst y \<or> (fst x = fst y \<and> snd x < snd y)"

fun insert_range :: "int \<times> int \<Rightarrow> ranges \<Rightarrow> ranges" where
  "insert_range x [] = [x]"
| "insert_range x (y # ys) = (if range_less y x then y # insert_range x ys else x # y # ys)"

definition sort_ranges :: "ranges \<Rightarrow> ranges" where
  "sort_ranges rs = foldr insert_range rs []"

text \<open>The merging pass of \<open>sortAndCompact\<close>: \<open>last\<close> is the range under construction, the rest of
  the vector follows.\<close>

fun compact_from :: "int \<times> int \<Rightarrow> ranges \<Rightarrow> ranges" where
  "compact_from lst [] = [lst]"
| "compact_from lst (iter # rest) =
     (if snd lst + 1 \<ge> fst iter then compact_from (fst lst, max (snd lst) (snd iter)) rest
      else lst # compact_from iter rest)"

definition sortAndCompact :: "ranges \<Rightarrow> ranges" where
  "sortAndCompact rs =
     (if length rs < 2 then rs
      else case sort_ranges rs of [] \<Rightarrow> [] | x # xs \<Rightarrow> compact_from x xs)"

definition tryToSortAndCompact :: "CodePointSetBuilder \<Rightarrow> CodePointSetBuilder" where
  "tryToSortAndCompact b =
     (if dirty b then \<lparr>dirty = False, codePointRanges = sortAndCompact (codePointRanges b)\<rparr> else b)"

definition toCompactArrayRef :: "CodePointSetBuilder \<Rightarrow> ranges \<times> CodePointSetBuilder" where
  "toCompactArrayRef b = (let b' = tryToSortAndCompact b in (codePointRanges b', b'))"

section \<open>Union\<close>

definition addSet :: "CodePointSetBuilder \<Rightarrow> CodePointSetRef \<Rightarrow> CodePointSetBuilder" where
  "addSet b ref =
     \<lparr>dirty = True,
      codePointRanges = codePointRanges b
        @ map (\<lambda>e. (uint (firstBMP e), uint (lastBMP e))) (getBMPRanges ref)
        @ map (\<lambda>e. (packedFirst e, packedLast e)) (getPackedNonBMPRanges ref)
        @ map (\<lambda>e. (firstNonBMP e, lastNonBMP e)) (getNonBMPRanges ref)\<rparr>"

definition addBuilder :: "CodePointSetBuilder \<Rightarrow> CodePointSetBuilder \<Rightarrow> CodePointSetBuilder" where
  "addBuilder b other =
     \<lparr>dirty = True, codePointRanges = codePointRanges b @ codePointRanges other\<rparr>"

text \<open>\<open>addRange\<close>; \<open>doSimpleCaseFolding\<close> is the argument \<open>fold\<close>.\<close>

definition addRange :: "(int \<Rightarrow> int) \<Rightarrow> CodePointSetBuilder \<Rightarrow> int \<Rightarrow> int \<Rightarrow> bool
    \<Rightarrow> CodePointSetBuilder" where
  "addRange foldc b fst_cp lst_cp caseFold =
     (let actualFirst = max 0 (min fst_cp lst_cp);
          actualLast = min CODE_POINT_MAX (max fst_cp lst_cp) in
      \<lparr>dirty = True,
       codePointRanges = codePointRanges b @
         (if caseFold then map (\<lambda>c. (foldc c, foldc c)) [actualFirst..actualLast]
          else [(actualFirst, actualLast)])\<rparr>)"

definition addCodes :: "CodePointSetBuilder \<Rightarrow> int list \<Rightarrow> CodePointSetBuilder" where
  "addCodes b data =
     \<lparr>dirty = True,
      codePointRanges = codePointRanges b @ map (\<lambda>c. (c, c)) (filter isCodePoint data)\<rparr>"

section \<open>Complement\<close>

text \<open>The loop of \<open>complement\<close> after its first iteration: \<open>prev\<close> is
  \<open>codePointRanges[i - 1].second\<close>.\<close>

fun gaps_from :: "int \<Rightarrow> ranges \<Rightarrow> ranges" where
  "gaps_from prev [] = (if prev \<noteq> CODE_POINT_MAX then [(prev + 1, CODE_POINT_MAX)] else [])"
| "gaps_from prev ((f, l) # rest) = (prev + 1, f - 1) # gaps_from l rest"

definition complement_ranges :: "ranges \<Rightarrow> ranges" where
  "complement_ranges rs =
     (case rs of [] \<Rightarrow> [(0, CODE_POINT_MAX)]
      | (f, l) # rest \<Rightarrow> (if f = 0 then [] else [(0, f - 1)]) @ gaps_from l rest)"

definition complement :: "CodePointSetBuilder \<Rightarrow> CodePointSetBuilder" where
  "complement b = (let b' = tryToSortAndCompact b in
     b'\<lparr>codePointRanges := complement_ranges (codePointRanges b')\<rparr>)"

section \<open>Difference and intersection\<close>

text \<open>One iteration of the outer loop of \<open>remove\<close> for the range from \<open>cur\<close> to \<open>last\<close>; \<open>ts\<close> is
  the part of \<open>targetRanges\<close> from \<open>index\<close> on. The result is what the iteration appends to
  \<open>newRanges\<close> and the targets that are left.\<close>

function remove_range :: "bool \<Rightarrow> int \<Rightarrow> int \<Rightarrow> ranges \<Rightarrow> ranges \<times> ranges" where
  "remove_range invert cur lst ts =
     (if cur > lst then ([], ts)
      else case dropWhile (\<lambda>t. cur > snd t) ts of
        [] \<Rightarrow> (if invert then [] else [(cur, lst)], [])
      | (tb, te) # ts' \<Rightarrow>
          if lst < tb then (if invert then [] else [(cur, lst)], (tb, te) # ts')
          else (let overlapFirst = max cur tb;
                    overlapLast = min lst te;
                    out = (if invert then [(overlapFirst, overlapLast)]
                           else if cur < overlapFirst then [(cur, overlapFirst - 1)] else []);
                    (rest, ts'') = remove_range invert (overlapLast + 1) lst
                                     (if te \<le> lst then ts' else (tb, te) # ts')
                in (out @ rest, ts'')))"
  by pat_completeness auto
termination
  by (relation "measure (\<lambda>(invert, cur, lst, ts). nat (lst + 1 - cur))")
    (auto simp: dropWhile_eq_Cons_conv)

declare remove_range.simps [simp del]

fun remove_ranges :: "bool \<Rightarrow> ranges \<Rightarrow> ranges \<Rightarrow> ranges" where
  "remove_ranges invert [] ts = []"
| "remove_ranges invert ((f, l) # rs) ts =
     (let (out, ts') = remove_range invert f l ts in out @ remove_ranges invert rs ts')"

text \<open>\<open>remove\<close> also sorts and compacts its argument, so the result is both builders.\<close>

definition removeBuilder :: "CodePointSetBuilder \<Rightarrow> CodePointSetBuilder \<Rightarrow> bool
    \<Rightarrow> CodePointSetBuilder \<times> CodePointSetBuilder" where
  "removeBuilder b other invert =
     (let b' = tryToSortAndCompact b; (targetRanges, other') = toCompactArrayRef other in
      (b'\<lparr>codePointRanges := remove_ranges invert (codePointRanges b') targetRanges\<rparr>, other'))"

definition removeSet :: "CodePointSetBuilder \<Rightarrow> CodePointSetRef \<Rightarrow> bool \<Rightarrow> CodePointSetBuilder" where
  "removeSet b ref invert = fst (removeBuilder b (addSet empty_builder ref) invert)"

abbreviation sub :: "CodePointSetBuilder \<Rightarrow> CodePointSetBuilder \<Rightarrow> CodePointSetBuilder" where
  "sub b other \<equiv> fst (removeBuilder b other False)"

abbreviation intersect :: "CodePointSetBuilder \<Rightarrow> CodePointSetBuilder \<Rightarrow> CodePointSetBuilder" where
  "intersect b other \<equiv> fst (removeBuilder b other True)"

section \<open>Case folding\<close>

text \<open>\<open>foldCase\<close>: the code points of the compacted ranges that folding changes are removed and
  their images added.\<close>

definition range_codes :: "ranges \<Rightarrow> int list" where
  "range_codes rs = concat (map (\<lambda>(f, l). [f..l]) rs)"

definition foldCase :: "(int \<Rightarrow> int) \<Rightarrow> CodePointSetBuilder \<Rightarrow> CodePointSetBuilder" where
  "foldCase foldc b =
     (let (rs, b1) = toCompactArrayRef b;
          befores = filter (\<lambda>c. c \<noteq> foldc c) (range_codes rs);
          folds = map foldc befores;
          oldBuilder = foldl (\<lambda>o' c. addRange foldc o' c c False) empty_builder befores
      in if folds \<noteq> [] then addCodes (sub b1 oldBuilder) folds else b1)"

definition complementWithFoldCase :: "(int \<Rightarrow> int) \<Rightarrow> CodePointSetBuilder \<Rightarrow> CodePointSetBuilder" where
  "complementWithFoldCase foldc b =
     sub (foldCase foldc (addRange foldc empty_builder 0 CODE_POINT_MAX False)) b"

section \<open>Building\<close>

text \<open>\<open>build\<close>: the BMP ranges packed in one word each, a range across the BMP border split, the
  others in two words.\<close>

fun build_nonbmp :: "ranges \<Rightarrow> u32 list" where
  "build_nonbmp [] = []"
| "build_nonbmp ((f, l) # rest) = word_of_int f # word_of_int l # build_nonbmp rest"

fun build_words :: "ranges \<Rightarrow> u32 list \<times> nat" where
  "build_words [] = ([], 0)"
| "build_words ((f, l) # rest) =
     (if isBmpCodePoint f then
        (if isBmpCodePoint l then
           (let (ws, n) = build_words rest
            in (mkBMPCodePointRange (word_of_int f) (word_of_int l) # ws, Suc n))
         else (mkBMPCodePointRange (word_of_int f) 0xFFFF # 0x10000 # word_of_int l
                 # build_nonbmp rest, 1))
      else (build_nonbmp ((f, l) # rest), 0))"

text \<open>\<open>bmpSize\<close> is an \<open>unsigned short\<close>.\<close>

definition build :: "CodePointSetBuilder \<Rightarrow> CodePointSetRef \<times> CodePointSetBuilder" where
  "build b = (let b' = tryToSortAndCompact b; (ws, n) = build_words (codePointRanges b') in
     (\<lparr>set_ptr = ws, set_bmpSize = n mod 2 ^ 16, set_packedNonBmpSize = 0\<rparr>, b'))"

definition clear_builder :: "CodePointSetBuilder \<Rightarrow> CodePointSetBuilder" where
  "clear_builder b = b\<lparr>codePointRanges := []\<rparr>"

section \<open>Abstraction and invariant\<close>

definition cover :: "ranges \<Rightarrow> int set" where
  "cover rs = (\<Union>(f, l)\<in>set rs. {f..l})"

definition valid_ranges :: "ranges \<Rightarrow> bool" where
  "valid_ranges rs \<longleftrightarrow> list_all (\<lambda>(f, l). 0 \<le> f \<and> f \<le> l \<and> l \<le> CODE_POINT_MAX) rs"

text \<open>Sorted, disjoint and with no two ranges that touch.\<close>

definition canonical :: "ranges \<Rightarrow> bool" where
  "canonical rs \<longleftrightarrow> valid_ranges rs \<and> sorted_wrt (\<lambda>a b. snd a + 1 < fst b) rs"

definition builder_points :: "CodePointSetBuilder \<Rightarrow> int set" where
  "builder_points b = cover (codePointRanges b)"

definition builder_ok :: "CodePointSetBuilder \<Rightarrow> bool" where
  "builder_ok b \<longleftrightarrow> valid_ranges (codePointRanges b) \<and> (\<not> dirty b \<longrightarrow> canonical (codePointRanges b))"

lemma cover_simps [simp]:
  "cover [] = {}" "cover ((f, l) # rs) = {f..l} \<union> cover rs" "cover (xs @ ys) = cover xs \<union> cover ys"
  by (auto simp: cover_def)

lemma valid_simps [simp]:
  "valid_ranges []"
  "valid_ranges ((f, l) # rs) \<longleftrightarrow> 0 \<le> f \<and> f \<le> l \<and> l \<le> CODE_POINT_MAX \<and> valid_ranges rs"
  "valid_ranges (xs @ ys) \<longleftrightarrow> valid_ranges xs \<and> valid_ranges ys"
  by (auto simp: valid_ranges_def)

lemma canonical_simps [simp]:
  "canonical []"
  "canonical ((f, l) # rs) \<longleftrightarrow>
     0 \<le> f \<and> f \<le> l \<and> l \<le> CODE_POINT_MAX \<and> (\<forall>(f', l')\<in>set rs. l + 1 < f') \<and> canonical rs"
  by (auto simp: canonical_def)

lemma canonical_valid: "canonical rs \<Longrightarrow> valid_ranges rs"
  by (simp add: canonical_def)

section \<open>Sorting and compacting\<close>

lemma set_insert_range [simp]: "set (insert_range x ys) = insert x (set ys)"
  by (induction ys) auto

lemma set_sort_ranges [simp]: "set (sort_ranges rs) = set rs"
  unfolding sort_ranges_def by (induction rs) auto

lemma cover_cong: "set xs = set ys \<Longrightarrow> cover xs = cover ys"
  by (simp add: cover_def)

lemma valid_cong: "set xs = set ys \<Longrightarrow> valid_ranges xs = valid_ranges ys"
  by (simp add: valid_ranges_def list_all_iff)

lemma sorted_insert_range:
  "sorted_wrt (\<lambda>a b. \<not> range_less b a) ys \<Longrightarrow> sorted_wrt (\<lambda>a b. \<not> range_less b a) (insert_range x ys)"
  by (induction ys) (auto simp: range_less_def)

lemma sorted_sort_ranges: "sorted_wrt (\<lambda>a b. fst a \<le> fst b) (sort_ranges rs)"
proof -
  have "sorted_wrt (\<lambda>a b. \<not> range_less b a) (sort_ranges rs)"
    unfolding sort_ranges_def by (induction rs) (auto simp: sorted_insert_range)
  then show ?thesis
    by (rule sorted_wrt_mono_rel [rotated]) (auto simp: range_less_def)
qed

lemma compact_from_spec:
  assumes "sorted_wrt (\<lambda>a b. fst a \<le> fst b) (x # rs)" and "valid_ranges (x # rs)"
  shows "cover (compact_from x rs) = cover (x # rs) \<and> canonical (compact_from x rs) \<and>
    (\<forall>r\<in>set (compact_from x rs). fst x \<le> fst r)"
  using assms
proof (induction x rs rule: compact_from.induct)
  case (1 x)
  then show ?case by (cases x) auto
next
  case (2 x y rest)
  obtain xf xl yf yl where xy: "x = (xf, xl)" "y = (yf, yl)" by (cases x, cases y) auto
  show ?case
  proof (cases "xl + 1 \<ge> yf")
    case True
    from 2 xy True show ?thesis by (auto simp: le_max_iff_disj)
  next
    case False
    from 2 xy False have IH: "cover (compact_from y rest) = cover (y # rest)"
      "canonical (compact_from y rest)" "\<forall>r\<in>set (compact_from y rest). yf \<le> fst r" by auto
    have "\<forall>(f', l')\<in>set (compact_from y rest). xl + 1 < f'" using IH(3) False by fastforce
    with IH 2(3,4) xy False show ?thesis by fastforce
  qed
qed

lemma sortAndCompact_spec:
  assumes "valid_ranges rs"
  shows "cover (sortAndCompact rs) = cover rs \<and> canonical (sortAndCompact rs)"
proof (cases "length rs < 2")
  case True
  then consider "rs = []" | f l where "rs = [(f, l)]"
    by (metis One_nat_def Suc_1 length_0_conv length_Suc_conv less_Suc0 less_antisym old.prod.exhaust)
  then show ?thesis using assms True by cases (auto simp: sortAndCompact_def)
next
  case False
  then obtain x xs where x: "sort_ranges rs = x # xs"
    by (metis list.exhaust list.set(1) list.size(3) set_empty set_sort_ranges zero_less_numeral)
  have "set (x # xs) = set rs" using x by (metis set_sort_ranges)
  then have "cover (x # xs) = cover rs" "valid_ranges (x # xs)"
    using assms cover_cong valid_cong by blast+
  moreover have "sorted_wrt (\<lambda>a b. fst a \<le> fst b) (x # xs)" using sorted_sort_ranges [of rs] x by simp
  ultimately show ?thesis
    using False x compact_from_spec [of x xs] by (simp add: sortAndCompact_def)
qed

lemma tryToSortAndCompact_spec:
  assumes "builder_ok b"
  shows "builder_points (tryToSortAndCompact b) = builder_points b"
    "canonical (codePointRanges (tryToSortAndCompact b))" "\<not> dirty (tryToSortAndCompact b)"
  using assms sortAndCompact_spec [of "codePointRanges b"]
  by (auto simp: tryToSortAndCompact_def builder_ok_def builder_points_def)

section \<open>Complement\<close>

lemma gaps_from_spec:
  assumes "canonical rs" "\<forall>(f, l)\<in>set rs. prev + 1 < f" "0 \<le> prev" "prev \<le> CODE_POINT_MAX"
  shows "cover (gaps_from prev rs) = {prev + 1..CODE_POINT_MAX} - cover rs \<and>
    canonical (gaps_from prev rs) \<and> (\<forall>(f, l)\<in>set (gaps_from prev rs). prev < f)"
  using assms
proof (induction prev rs rule: gaps_from.induct)
  case (1 prev)
  then show ?case by auto
next
  case (2 prev f l rest)
  then have IH: "cover (gaps_from l rest) = {l + 1..CODE_POINT_MAX} - cover rest"
    "canonical (gaps_from l rest)" "\<forall>(f, l')\<in>set (gaps_from l rest). l < f" by auto
  have r: "\<And>c. c \<in> cover rest \<Longrightarrow> l + 1 < c" using 2(2) by (fastforce simp: cover_def)
  have "cover (gaps_from prev ((f, l) # rest)) = {prev + 1..CODE_POINT_MAX} - cover ((f, l) # rest)"
    using 2(2,3) IH(1) by (auto dest: r)
  moreover have "canonical (gaps_from prev ((f, l) # rest))"
    using 2(2-5) IH(2,3) by fastforce
  moreover have "\<forall>(f', l')\<in>set (gaps_from prev ((f, l) # rest)). prev < f'"
    using 2(2,3) IH(3) by fastforce
  ultimately show ?case by blast
qed

lemma complement_ranges_spec:
  assumes "canonical rs"
  shows "cover (complement_ranges rs) = {0..CODE_POINT_MAX} - cover rs \<and> canonical (complement_ranges rs)"
proof (cases rs)
  case Nil
  then show ?thesis by (simp add: complement_ranges_def CODE_POINT_MAX_def)
next
  case (Cons r rest)
  obtain f l where r: "r = (f, l)" by (cases r)
  have g: "cover (gaps_from l rest) = {l + 1..CODE_POINT_MAX} - cover rest"
    "canonical (gaps_from l rest)" "\<forall>(f, l')\<in>set (gaps_from l rest). l < f"
    using gaps_from_spec [of rest l] assms Cons r by auto
  have rr: "\<And>c. c \<in> cover rest \<Longrightarrow> l + 1 < c" using assms Cons r by (fastforce simp: cover_def)
  have "cover (complement_ranges rs) = {0..CODE_POINT_MAX} - cover rs"
    using assms Cons r g(1) by (auto simp: complement_ranges_def dest: rr)
  moreover have "canonical (complement_ranges rs)"
    using assms Cons r g(2,3) by (fastforce simp: complement_ranges_def)
  ultimately show ?thesis by blast
qed

section \<open>Difference and intersection\<close>

lemma canonical_append:
  "canonical (xs @ ys) \<longleftrightarrow>
     canonical xs \<and> canonical ys \<and> (\<forall>(f, l)\<in>set xs. \<forall>(f', l')\<in>set ys. l + 1 < f')"
  by (auto simp: canonical_def sorted_wrt_append case_prod_beta)

lemma canonical_dropWhile:
  assumes "canonical ts"
  shows "canonical (dropWhile (\<lambda>t. cur > snd t) ts)"
    "{c \<in> cover (dropWhile (\<lambda>t. cur > snd t) ts). cur \<le> c} = {c \<in> cover ts. cur \<le> c}"
  using assms by (induction ts) auto

lemma canonical_nonempty: "canonical rs \<Longrightarrow> (f, l) \<in> set rs \<Longrightarrow> f \<in> cover rs"
  by (induction rs) auto

lemma canonical_cover_gt:
  assumes "canonical ((f, l) # rs)" "c \<in> cover rs"
  shows "l + 1 < c"
  using assms by (fastforce simp: cover_def)

text \<open>What one range leaves behind: the part of it inside or outside the targets, in order, and
  targets that still cover everything beyond the range.\<close>

definition removed :: "bool \<Rightarrow> int \<Rightarrow> int \<Rightarrow> ranges \<Rightarrow> ranges \<times> ranges \<Rightarrow> bool" where
  "removed invert cur lst ts res \<longleftrightarrow>
     cover (fst res) = (if invert then {cur..lst} \<inter> cover ts else {cur..lst} - cover ts) \<and>
     canonical (fst res) \<and> canonical (snd res) \<and>
     (\<forall>(f, l)\<in>set (fst res). cur \<le> f \<and> l \<le> lst) \<and>
     {c \<in> cover (snd res). lst < c} = {c \<in> cover ts. lst < c}"

lemma removed_no_overlap:
  assumes "canonical ds" "{c \<in> cover ds. cur \<le> c} = {c \<in> cover ts. cur \<le> c}"
    "\<forall>c\<in>cover ds. lst < c" "0 \<le> cur" "cur \<le> lst" "lst \<le> CODE_POINT_MAX"
  shows "removed invert cur lst ts (if invert then [] else [(cur, lst)], ds)"
proof -
  have d: "c \<in> cover ts \<longleftrightarrow> c \<in> cover ds" if "cur \<le> c" for c using assms(2) that by blast
  have "c \<notin> cover ts" if "cur \<le> c" "c \<le> lst" for c using d [OF that(1)] assms(3) that by fastforce
  then show ?thesis using assms d by (auto simp: removed_def)
qed

lemma removed_overlap:
  assumes c: "canonical ((tb, te) # ds)"
    and eq: "{c \<in> cover ((tb, te) # ds). cur \<le> c} = {c \<in> cover ts. cur \<le> c}"
    and cur: "0 \<le> cur" "cur \<le> lst" "lst \<le> CODE_POINT_MAX" "cur \<le> te" "tb \<le> lst"
    and rest: "removed invert (min lst te + 1) lst (if te \<le> lst then ds else (tb, te) # ds) res"
  shows "removed invert cur lst ts
    ((if invert then [(max cur tb, min lst te)]
      else if cur < max cur tb then [(cur, max cur tb - 1)] else []) @ fst res, snd res)"
proof -
  define out where "out = (if invert then [(max cur tb, min lst te)]
      else if cur < max cur tb then [(cur, max cur tb - 1)] else [])"
  let ?ds = "if te \<le> lst then ds else (tb, te) # ds"
  have d: "x \<in> cover ts \<longleftrightarrow> x \<in> {tb..te} \<or> x \<in> cover ds" if "cur \<le> x" for x
    using eq that by auto
  have ds: "\<And>x. x \<in> cover ds \<Longrightarrow> te + 1 < x" using canonical_cover_gt [OF c] .
  have tbe: "tb \<le> te" "0 \<le> tb" using c by auto
  note r = rest [unfolded removed_def]
  have out: "x \<in> cover out \<longleftrightarrow> cur \<le> x \<and> (if invert then tb \<le> x \<and> x \<le> lst \<and> x \<le> te else x < tb)" for x
    using cur tbe by (auto simp: out_def)
  have more: "x \<in> cover (fst res) \<longleftrightarrow> te < x \<and> x \<le> lst \<and> (if invert then x \<in> cover ds else x \<notin> cover ds)"
    for x
    using r by (cases "te \<le> lst") auto
  have 1: "cover (out @ fst res) = (if invert then {cur..lst} \<inter> cover ts else {cur..lst} - cover ts)"
  proof (rule set_eqI)
    fix x
    have "x \<in> cover (out @ fst res) \<longleftrightarrow> x \<in> cover out \<or> x \<in> cover (fst res)" by simp
    then show "x \<in> cover (out @ fst res) \<longleftrightarrow>
        x \<in> (if invert then {cur..lst} \<inter> cover ts else {cur..lst} - cover ts)"
      unfolding out more using cur tbe d [of x] ds [of x] by (cases "cur \<le> x") auto
  qed
  have low: "max cur tb < f" if "(f, l) \<in> set (fst res)" for f l
    using r that cur tbe by fastforce
  have far: "min lst te + 1 < f" if "(f, l) \<in> set (fst res)" invert for f l
  proof -
    have f: "f \<in> cover (fst res)" using r that canonical_nonempty by blast
    then have "f \<in> {min lst te + 1..lst} \<inter> cover ?ds" using r that(2) by simp
    then show ?thesis using ds by (auto split: if_splits)
  qed
  have 2: "canonical (out @ fst res)"
    unfolding canonical_append
  proof (intro conjI)
    show "canonical out" using cur tbe by (auto simp: out_def CODE_POINT_MAX_def)
    show "canonical (fst res)" using r by simp
    show "\<forall>(f, l)\<in>set out. \<forall>(f', l')\<in>set (fst res). l + 1 < f'"
    proof (cases invert)
      case True
      with far [OF _ True] show ?thesis by (auto simp: out_def)
    next
      case False
      with low show ?thesis by (auto simp: out_def)
    qed
  qed
  have 3: "\<forall>(f, l)\<in>set (out @ fst res). cur \<le> f \<and> l \<le> lst"
  proof -
    have "\<forall>(f, l)\<in>set out. cur \<le> f \<and> l \<le> lst" using cur tbe by (auto simp: out_def)
    moreover have "\<forall>(f, l)\<in>set (fst res). min lst te + 1 \<le> f \<and> l \<le> lst" using r by blast
    then have "\<forall>(f, l)\<in>set (fst res). cur \<le> f \<and> l \<le> lst" using cur by force
    ultimately show ?thesis by auto
  qed
  have 4: "{c \<in> cover (snd res). lst < c} = {c \<in> cover ts. lst < c}"
    using r cur d ds by (auto split: if_splits)
  from 1 2 3 4 r show ?thesis unfolding removed_def out_def by simp
qed

lemma remove_range_spec:
  assumes "canonical ts" "0 \<le> cur" "lst \<le> CODE_POINT_MAX"
  shows "removed invert cur lst ts (remove_range invert cur lst ts)"
  using assms
proof (induction invert cur lst ts rule: remove_range.induct)
  case (1 invert cur lst ts)
  let ?ds = "dropWhile (\<lambda>t. cur > snd t) ts"
  note dw = canonical_dropWhile [OF "1.prems"(1), of cur]
  show ?case
  proof (cases "cur > lst")
    case True
    with "1.prems" show ?thesis by (subst remove_range.simps) (auto simp: removed_def)
  next
    case False
    then have cl: "cur \<le> lst" by simp
    show ?thesis
    proof (cases ?ds)
      case Nil
      have "removed invert cur lst ts (if invert then [] else [(cur, lst)], [])"
        using dw Nil "1.prems" cl by (intro removed_no_overlap) auto
      then show ?thesis
        unfolding remove_range.simps [of invert cur lst ts] Nil using False by simp
    next
      case (Cons t ds)
      obtain tb te where t: "t = (tb, te)" by (cases t)
      have te: "cur \<le> te" using Cons t by (simp add: dropWhile_eq_Cons_conv)
      have can: "canonical ((tb, te) # ds)" using dw(1) unfolding Cons t .
      have eq: "{c \<in> cover ((tb, te) # ds). cur \<le> c} = {c \<in> cover ts. cur \<le> c}"
        using dw(2) unfolding Cons t .
      show ?thesis
      proof (cases "lst < tb")
        case True
        have "\<forall>c\<in>cover ((tb, te) # ds). lst < c"
          using True can canonical_cover_gt [OF can] by fastforce
        then have "removed invert cur lst ts (if invert then [] else [(cur, lst)], (tb, te) # ds)"
          by (rule removed_no_overlap [OF can eq _ "1.prems"(2) cl "1.prems"(3)])
        then show ?thesis
          unfolding remove_range.simps [of invert cur lst ts] Cons t using False True by simp
      next
        case ov: False
        let ?ds' = "if te \<le> lst then ds else (tb, te) # ds"
        have "canonical ?ds'" using can by auto
        moreover have "0 \<le> min lst te + 1" using te cl "1.prems"(2) by simp
        ultimately have r: "removed invert (min lst te + 1) lst ?ds'
            (remove_range invert (min lst te + 1) lst ?ds')"
          using "1.prems"(3) by (intro "1.IH" [OF False Cons t [symmetric] ov refl refl refl])
        have "removed invert cur lst ts
          ((if invert then [(max cur tb, min lst te)]
            else if cur < max cur tb then [(cur, max cur tb - 1)] else [])
            @ fst (remove_range invert (min lst te + 1) lst ?ds'),
           snd (remove_range invert (min lst te + 1) lst ?ds'))"
          using ov by (intro removed_overlap [OF can eq "1.prems"(2) cl "1.prems"(3) te _ r]) simp
        then show ?thesis
          unfolding remove_range.simps [of invert cur lst ts] Cons t using False ov
          by (simp add: Let_def split_beta cong: if_cong split del: if_split)
      qed
    qed
  qed
qed

lemma remove_ranges_spec:
  assumes "canonical rs" "canonical ts"
  shows "cover (remove_ranges invert rs ts) =
      (if invert then cover rs \<inter> cover ts else cover rs - cover ts) \<and>
    canonical (remove_ranges invert rs ts) \<and>
    (\<forall>(f, l)\<in>set (remove_ranges invert rs ts). f \<in> cover rs)"
  using assms
proof (induction invert rs ts rule: remove_ranges.induct)
  case (1 invert ts)
  then show ?case by simp
next
  case (2 invert f l rs ts)
  obtain out ts' where o: "remove_range invert f l ts = (out, ts')" by fastforce
  from 2 have fl: "0 \<le> f" "l \<le> CODE_POINT_MAX" "canonical rs" by auto
  have r: "removed invert f l ts (out, ts')"
    using remove_range_spec [OF "2.prems"(2) fl(1,2)] by (metis o)
  have far: "\<And>c. c \<in> cover rs \<Longrightarrow> l + 1 < c" using canonical_cover_gt 2(2) by blast
  have IH: "cover (remove_ranges invert rs ts') =
      (if invert then cover rs \<inter> cover ts' else cover rs - cover ts')"
    "canonical (remove_ranges invert rs ts')"
    "\<forall>(f, l)\<in>set (remove_ranges invert rs ts'). f \<in> cover rs"
    using 2(1) [OF o [symmetric] refl fl(3)] r by (auto simp: removed_def)
  have same: "c \<in> cover ts' \<longleftrightarrow> c \<in> cover ts" if "c \<in> cover rs" for c
    using r far [OF that] unfolding removed_def by auto
  have "cover (remove_ranges invert rs ts') =
      (if invert then cover rs \<inter> cover ts else cover rs - cover ts)"
    unfolding IH(1) using same by auto
  moreover have "canonical (out @ remove_ranges invert rs ts')"
    unfolding canonical_append using r IH(2,3) far by (fastforce simp: removed_def)
  moreover have "\<forall>(f', l')\<in>set out. f' \<in> {f..l}"
    using r canonical_nonempty [of out] unfolding removed_def by (fastforce split: if_splits)
  ultimately show ?case using o r IH(3) by (auto simp: removed_def)
qed

section \<open>The builder as a set\<close>

text \<open>The contract of a set of code points: every operation keeps the invariant and acts on the
  abstract set like the operation of the same name, within the code points.\<close>

locale code_point_set =
  fixes ok :: "'b \<Rightarrow> bool" and points :: "'b \<Rightarrow> int set"
    and empty :: 'b and union diff inter :: "'b \<Rightarrow> 'b \<Rightarrow> 'b" and compl :: "'b \<Rightarrow> 'b"
  assumes empty: "ok empty" "points empty = {}"
    and union: "ok a \<Longrightarrow> ok b \<Longrightarrow> ok (union a b) \<and> points (union a b) = points a \<union> points b"
    and diff: "ok a \<Longrightarrow> ok b \<Longrightarrow> ok (diff a b) \<and> points (diff a b) = points a - points b"
    and inter: "ok a \<Longrightarrow> ok b \<Longrightarrow> ok (inter a b) \<and> points (inter a b) = points a \<inter> points b"
    and compl: "ok a \<Longrightarrow> ok (compl a) \<and> points (compl a) = {0..CODE_POINT_MAX} - points a"
    and bounded: "ok a \<Longrightarrow> points a \<subseteq> {0..CODE_POINT_MAX}"
begin

lemma compl_compl: "ok a \<Longrightarrow> points (compl (compl a)) = points a"
  using compl bounded by blast

lemma de_morgan:
  "ok a \<Longrightarrow> ok b \<Longrightarrow> points (compl (union a b)) = points (inter (compl a) (compl b))"
  using compl union inter by auto

lemma diff_by_inter: "ok a \<Longrightarrow> ok b \<Longrightarrow> points (diff a b) = points (inter a (compl b))"
  using compl diff inter bounded by (metis Diff_Diff_Int Diff_Int2 Int_Diff inf.absorb1)

end

lemma valid_cover_bound: "valid_ranges rs \<Longrightarrow> cover rs \<subseteq> {0..CODE_POINT_MAX}"
  by (fastforce simp: cover_def valid_ranges_def list_all_iff)

lemma builder_canonical_ok:
  "canonical rs \<Longrightarrow> builder_ok (b\<lparr>codePointRanges := rs\<rparr>)"
  by (simp add: builder_ok_def canonical_valid)

lemma toCompact_spec:
  "builder_ok b \<Longrightarrow> cover (fst (toCompactArrayRef b)) = builder_points b \<and>
     canonical (fst (toCompactArrayRef b))"
  using tryToSortAndCompact_spec [of b] by (simp add: toCompactArrayRef_def Let_def builder_points_def)

lemma removeBuilder_spec:
  assumes "builder_ok a" "builder_ok b"
  shows "builder_ok (fst (removeBuilder a b invert))"
    and "builder_points (fst (removeBuilder a b invert)) =
      (if invert then builder_points a \<inter> builder_points b else builder_points a - builder_points b)"
    and "builder_points (snd (removeBuilder a b invert)) = builder_points b"
proof -
  note t = tryToSortAndCompact_spec [OF assms(1)] and c = toCompact_spec [OF assms(2)]
  note r = remove_ranges_spec [OF t(2) conjunct2 [OF c], of invert]
  show "builder_ok (fst (removeBuilder a b invert))"
    using r by (simp add: removeBuilder_def Let_def split_beta builder_canonical_ok)
  show "builder_points (fst (removeBuilder a b invert)) =
      (if invert then builder_points a \<inter> builder_points b else builder_points a - builder_points b)"
    using r t(1) c by (simp add: removeBuilder_def Let_def split_beta builder_points_def)
  show "builder_points (snd (removeBuilder a b invert)) = builder_points b"
    using tryToSortAndCompact_spec(1) [OF assms(2)]
    by (simp add: removeBuilder_def toCompactArrayRef_def Let_def)
qed

lemma complement_spec:
  assumes "builder_ok a"
  shows "builder_ok (complement a) \<and> builder_points (complement a) = {0..CODE_POINT_MAX} - builder_points a"
  using tryToSortAndCompact_spec [OF assms]
    complement_ranges_spec [of "codePointRanges (tryToSortAndCompact a)"]
  by (simp add: complement_def Let_def builder_canonical_ok builder_points_def)

lemma addBuilder_spec:
  "builder_ok a \<Longrightarrow> builder_ok b \<Longrightarrow>
     builder_ok (addBuilder a b) \<and> builder_points (addBuilder a b) = builder_points a \<union> builder_points b"
  by (simp add: addBuilder_def builder_ok_def builder_points_def)

interpretation builder: code_point_set builder_ok builder_points empty_builder addBuilder sub intersect
  complement
proof unfold_locales
  show "builder_ok a \<Longrightarrow> builder_points a \<subseteq> {0..CODE_POINT_MAX}" for a
    using valid_cover_bound by (simp add: builder_ok_def builder_points_def)
qed (simp_all add: removeBuilder_spec complement_spec addBuilder_spec,
     simp_all add: builder_ok_def builder_points_def empty_builder_def)

lemma addRange_spec:
  assumes "builder_ok b" "0 \<le> f" "f \<le> l" "l \<le> CODE_POINT_MAX"
    "caseFold \<Longrightarrow> \<forall>c\<in>{f..l}. isCodePoint (foldc c)"
  shows "builder_ok (addRange foldc b f l caseFold) \<and> builder_points (addRange foldc b f l caseFold) =
     builder_points b \<union> (if caseFold then foldc ` {f..l} else {f..l})"
proof -
  have e: "max 0 (min f l) = f" "min CODE_POINT_MAX (max f l) = l" using assms by auto
  have c: "cover (map (\<lambda>c. (foldc c, foldc c)) [f..l]) = foldc ` {f..l}"
    by (auto simp: cover_def)
  have v: "caseFold \<Longrightarrow> valid_ranges (map (\<lambda>c. (foldc c, foldc c)) [f..l])"
    using assms(5) by (auto simp: valid_ranges_def list_all_iff isCodePoint_def)
  show ?thesis
    using assms c v by (auto simp: addRange_def Let_def e builder_ok_def builder_points_def)
qed

lemma addCodes_spec:
  "builder_ok b \<Longrightarrow> builder_ok (addCodes b cs) \<and>
     builder_points (addCodes b cs) = builder_points b \<union> {c \<in> set cs. isCodePoint c}"
  by (auto simp: addCodes_def builder_ok_def builder_points_def cover_def valid_ranges_def
      list_all_iff isCodePoint_def)

lemma addSet_spec:
  assumes "builder_ok b" "set_wf ref" "set_points ref \<subseteq> {..CODE_POINT_MAX}"
  shows "builder_ok (addSet b ref) \<and> builder_points (addSet b ref) = builder_points b \<union> set_points ref"
proof -
  let ?rs = "map (\<lambda>e. (uint (firstBMP e), uint (lastBMP e))) (getBMPRanges ref)
        @ map (\<lambda>e. (packedFirst e, packedLast e)) (getPackedNonBMPRanges ref)
        @ map (\<lambda>e. (firstNonBMP e, lastNonBMP e)) (getNonBMPRanges ref)"
  have c: "cover ?rs = set_points ref"
    by (auto simp: cover_def set_points_def)
  have o: "\<forall>(f, l)\<in>set ?rs. 0 \<le> f \<and> f \<le> l"
    using assms(2) by (auto simp: set_wf_def list_all_iff word_le_def)
  have m: "l \<le> CODE_POINT_MAX" if fl: "(f, l) \<in> set ?rs" for f l
  proof -
    have "f \<le> l" using bspec [OF o fl] by simp
    then have "l \<in> cover ?rs" unfolding cover_def using fl by (intro UN_I [OF fl]) simp
    then show ?thesis using c assms(3) by (metis atMost_iff subsetD)
  qed
  have "valid_ranges ?rs" unfolding valid_ranges_def list_all_iff
    using o m by (intro ballI) (metis (no_types, lifting) case_prod_beta prod.collapse)
  with assms(1) c show ?thesis by (simp add: addSet_def builder_ok_def builder_points_def Un_assoc)
qed

section \<open>Case folding\<close>

lemma set_range_codes [simp]: "set (range_codes rs) = cover rs"
  by (auto simp: range_codes_def cover_def)

lemma add_singles_spec:
  assumes "builder_ok o'" "\<forall>c\<in>set cs. isCodePoint c"
  shows "builder_ok (foldl (\<lambda>o' c. addRange foldc o' c c False) o' cs) \<and>
    builder_points (foldl (\<lambda>o' c. addRange foldc o' c c False) o' cs) = builder_points o' \<union> set cs"
  using assms
proof (induction cs arbitrary: o')
  case (Cons c cs)
  then have "builder_ok (addRange foldc o' c c False) \<and>
      builder_points (addRange foldc o' c c False) = builder_points o' \<union> {c}"
    using addRange_spec [of o' c c False foldc] by (simp add: isCodePoint_def)
  with Cons show ?case by simp
qed simp

lemma foldCase_spec:
  assumes "builder_ok b" and "\<forall>c. isCodePoint c \<longrightarrow> isCodePoint (foldc c)"
  shows "builder_ok (foldCase foldc b) \<and> builder_points (foldCase foldc b) = foldc ` builder_points b"
proof -
  let ?b1 = "tryToSortAndCompact b"
  note t = tryToSortAndCompact_spec [OF assms(1)]
  have b1: "builder_ok ?b1" using t by (simp add: builder_ok_def canonical_valid)
  let ?bef = "filter (\<lambda>c. c \<noteq> foldc c) (range_codes (codePointRanges ?b1))"
  let ?old = "foldl (\<lambda>o' c. addRange foldc o' c c False) empty_builder ?bef"
  have S: "set ?bef = {c \<in> builder_points b. c \<noteq> foldc c}"
    using t(1) by (auto simp: builder_points_def)
  have cp: "c \<in> builder_points b \<Longrightarrow> isCodePoint c" for c
    using builder.bounded [OF assms(1)] by (auto simp: isCodePoint_def)
  have old: "builder_ok ?old" "builder_points ?old = set ?bef"
    using add_singles_spec [of empty_builder ?bef foldc] builder.empty S cp by auto
  have sub: "builder_ok (sub ?b1 ?old)" "builder_points (sub ?b1 ?old) = builder_points b - set ?bef"
    using removeBuilder_spec [OF b1 old(1), of False] old(2) t(1) by auto
  have res: "builder_ok (addCodes (sub ?b1 ?old) (map foldc ?bef)) \<and>
    builder_points (addCodes (sub ?b1 ?old) (map foldc ?bef)) =
      (builder_points b - set ?bef) \<union> {c \<in> foldc ` set ?bef. isCodePoint c}"
    using addCodes_spec [OF sub(1), of "map foldc ?bef"] sub(2) by simp
  have img: "{c \<in> foldc ` set ?bef. isCodePoint c} = foldc ` set ?bef"
    using assms(2) cp S by auto
  have all: "(builder_points b - set ?bef) \<union> foldc ` set ?bef = foldc ` builder_points b"
    unfolding S by force
  show ?thesis
  proof (cases "?bef = []")
    case True
    have "builder_points b = foldc ` builder_points b"
      using all unfolding True by (simp only: list.set image_empty Un_empty_right Diff_empty)
    moreover have "foldCase foldc b = ?b1"
      unfolding foldCase_def toCompactArrayRef_def Let_def prod.case True by simp
    ultimately show ?thesis using b1 t(1) by simp
  next
    case False
    then have "foldCase foldc b = addCodes (sub ?b1 ?old) (map foldc ?bef)"
      by (simp add: foldCase_def toCompactArrayRef_def Let_def)
    with res img all show ?thesis by simp
  qed
qed

text \<open>C25. \<open>foldCase\<close> replaces a set by its image under simple case folding: the invariant is kept
  and the code points are exactly the folded ones, whatever the folding function, as long as it
  maps code points to code points.\<close>

theorem foldCase_image:
  assumes "builder_ok b" and "\<forall>c. isCodePoint c \<longrightarrow> isCodePoint (foldc c)"
  shows "builder_ok (foldCase foldc b) \<and> builder_points (foldCase foldc b) = foldc ` builder_points b"
  using assms by (rule foldCase_spec)

theorem foldCase_image_witness:
  "builder_ok \<lparr>dirty = True, codePointRanges = [(65, 67), (66, 70)]\<rparr> \<and>
   builder_points (foldCase (\<lambda>c. if 65 \<le> c \<and> c \<le> 90 then c + 32 else c)
      \<lparr>dirty = True, codePointRanges = [(65, 67), (66, 70)]\<rparr>) =
    (\<lambda>c. if 65 \<le> c \<and> c \<le> 90 then c + 32 else c) ` {65..70}"
proof -
  let ?b = "\<lparr>dirty = True, codePointRanges = [(65, 67), (66, 70)]\<rparr>"
  let ?f = "\<lambda>c::int. if 65 \<le> c \<and> c \<le> 90 then c + 32 else c"
  have o: "builder_ok ?b" by (simp add: builder_ok_def CODE_POINT_MAX_def)
  have c: "\<forall>c. isCodePoint c \<longrightarrow> isCodePoint (?f c)" by (auto simp: code_point_defs)
  have "builder_points ?b = {65..70}" by (auto simp: builder_points_def)
  with o foldCase_image [OF o c] show ?thesis by simp
qed

section \<open>Building\<close>

text \<open>The ranges of the built set, as the builder had them: the one across the border split.\<close>

fun split_bmp :: "ranges \<Rightarrow> ranges \<times> ranges" where
  "split_bmp [] = ([], [])"
| "split_bmp ((f, l) # rest) =
     (if f \<le> 0xFFFF then
        (if l \<le> 0xFFFF then (let (xs, ys) = split_bmp rest in ((f, l) # xs, ys))
         else ([(f, 0xFFFF)], (0x10000, l) # rest))
      else ([], (f, l) # rest))"

lemma split_bmp_cover: "cover (fst (split_bmp rs)) \<union> cover (snd (split_bmp rs)) = cover rs"
  by (induction rs rule: split_bmp.induct) (auto simp: split_beta)

lemma split_bmp_canonical:
  assumes "canonical rs"
  shows "canonical (fst (split_bmp rs)) \<and> canonical (snd (split_bmp rs)) \<and>
    (\<forall>(f, l)\<in>set (fst (split_bmp rs)). f \<in> cover rs \<and> l \<le> 0xFFFF) \<and>
    (\<forall>(f, l)\<in>set (snd (split_bmp rs)). 0x10000 \<le> f)"
  using assms
proof (induction rs rule: split_bmp.induct)
  case (2 f l rest)
  have r: "\<forall>(f', l')\<in>set rest. l + 1 < f'" "canonical rest" using 2(2) by auto
  consider "0xFFFF < f" | "f \<le> 0xFFFF" "0xFFFF < l" | "f \<le> 0xFFFF" "l \<le> 0xFFFF" by linarith
  then show ?case
  proof cases
    case 3
    with 2 have IH: "canonical (fst (split_bmp rest))" "canonical (snd (split_bmp rest))"
      "\<forall>(f, l)\<in>set (fst (split_bmp rest)). f \<in> cover rest \<and> l \<le> 0xFFFF"
      "\<forall>(f, l)\<in>set (snd (split_bmp rest)). 0x10000 \<le> f" by auto
    then have "\<forall>(f', l')\<in>set (fst (split_bmp rest)). l + 1 < f'"
      using canonical_cover_gt [OF 2(2)] by blast
    with IH 3 2(2) show ?thesis by (auto simp: split_beta)
  next
    case 2
    with r \<open>canonical ((f, l) # rest)\<close> show ?thesis by (fastforce simp: CODE_POINT_MAX_def)
  next
    case 1
    with r \<open>canonical ((f, l) # rest)\<close> show ?thesis by fastforce
  qed
qed simp

lemma canonical_length:
  assumes "canonical rs" "\<forall>(f, l)\<in>set rs. int lo \<le> f \<and> l \<le> int hi" "rs \<noteq> []"
  shows "2 * length rs + lo \<le> hi + 2"
  using assms
proof (induction rs arbitrary: lo)
  case (Cons r rs)
  obtain f l where r: "r = (f, l)" by (cases r)
  have fl: "int lo \<le> f" "f \<le> l" "l \<le> int hi" using Cons.prems r by auto
  show ?case
  proof (cases "rs = []")
    case False
    have "\<forall>(f', l')\<in>set rs. int (lo + 2) \<le> f' \<and> l' \<le> int hi"
      using Cons.prems r fl by fastforce
    with Cons.IH [of "lo + 2"] Cons.prems r False show ?thesis by simp
  qed (use fl in simp)
qed simp

lemma build_nonbmp_pairs:
  assumes "valid_ranges rs"
  shows "map (\<lambda>e. (firstNonBMP e, lastNonBMP e)) (word_pairs (build_nonbmp rs)) = rs"
  using assms
proof (induction rs rule: build_nonbmp.induct)
  case (2 f l rest)
  then have "sint (word_of_int f :: u32) = f" "sint (word_of_int l :: u32) = l"
    by (auto simp: signed_of_int CODE_POINT_MAX_def signed_take_bit_int_eq_self)
  with 2 show ?case by (simp add: firstNonBMP_def lastNonBMP_def)
qed simp

lemma build_words_split:
  assumes "valid_ranges rs"
  shows "build_words rs =
    (map (\<lambda>(f, l). mkBMPCodePointRange (word_of_int f) (word_of_int l)) (fst (split_bmp rs))
       @ build_nonbmp (snd (split_bmp rs)), length (fst (split_bmp rs)))"
  using assms
  by (induction rs rule: build_words.induct) (auto simp: isBmpCodePoint_def split_beta Let_def)

lemma uint_u16_of_int: "0 \<le> c \<Longrightarrow> c \<le> 0xFFFF \<Longrightarrow> uint (word_of_int c :: u16) = c"
  by (simp add: unsigned_of_int take_bit_int_eq_self)

lemma build_parts:
  assumes "canonical rs" and s: "split_bmp rs = (bs, ns)"
  defines "ref \<equiv> \<lparr>set_ptr = fst (build_words rs), set_bmpSize = snd (build_words rs) mod 2 ^ 16,
    set_packedNonBmpSize = 0\<rparr>"
  shows "map (\<lambda>e. (uint (firstBMP e), uint (lastBMP e))) (getBMPRanges ref) = bs"
    and "getPackedNonBMPRanges ref = []"
    and "map (\<lambda>e. (firstNonBMP e, lastNonBMP e)) (getNonBMPRanges ref) = ns"
proof -
  note sp = split_bmp_canonical [OF assms(1), unfolded s fst_conv snd_conv]
  have f0: "\<forall>(f, l)\<in>set bs. 0 \<le> f \<and> f \<le> l \<and> l \<le> 0xFFFF"
    using sp canonical_valid [of bs] by (auto simp: valid_ranges_def list_all_iff)
  have "bs \<noteq> [] \<Longrightarrow> 2 * length bs + 0 \<le> 0xFFFF + 2"
    by (rule canonical_length) (use sp f0 in auto)
  then have len: "length bs < 2 ^ 16" by (cases "bs = []") auto
  have w: "build_words rs = (map (\<lambda>(f, l). mkBMPCodePointRange (word_of_int f) (word_of_int l)) bs
       @ build_nonbmp ns, length bs)"
    using build_words_split [OF canonical_valid [OF assms(1)]] s by simp
  show "getPackedNonBMPRanges ref = []" by (simp add: ref_def getPackedNonBMPRanges_def)
  have "map (\<lambda>x. (uint (word_of_int (fst x) :: u16), uint (word_of_int (snd x) :: u16))) bs = bs"
    by (rule map_idI) (use f0 in \<open>auto simp: uint_u16_of_int\<close>)
  then show "map (\<lambda>e. (uint (firstBMP e), uint (lastBMP e))) (getBMPRanges ref) = bs"
    using len by (simp add: ref_def getBMPRanges_def w bmp_pack_roundtrip case_prod_beta comp_def)
  show "map (\<lambda>e. (firstNonBMP e, lastNonBMP e)) (getNonBMPRanges ref) = ns"
    using len build_nonbmp_pairs [of ns] sp by (simp add: ref_def getNonBMPRanges_def w canonical_valid)
qed

lemma set_points_ranges:
  "set_points ref = cover (map (\<lambda>e. (uint (firstBMP e), uint (lastBMP e))) (getBMPRanges ref)) \<union>
     cover (map (\<lambda>e. (packedFirst e, packedLast e)) (getPackedNonBMPRanges ref)) \<union>
     cover (map (\<lambda>e. (firstNonBMP e, lastNonBMP e)) (getNonBMPRanges ref))"
  by (simp add: set_points_def cover_def)

lemma canonical_map:
  "canonical (map (\<lambda>e. (lo e, hi e)) rs) \<Longrightarrow>
     sorted_wrt (\<lambda>a b. hi a < lo b) rs \<and> list_all (\<lambda>r. lo r \<le> hi r) rs"
proof (induction rs)
  case (Cons e rs)
  then have "\<forall>x\<in>set rs. hi e + 1 < lo x" by auto
  then have "\<forall>x\<in>set rs. hi e < lo x" by (meson less_add_one less_trans)
  with Cons show ?case by simp
qed simp

lemma build_spec:
  assumes "builder_ok b"
  shows "set_wf (fst (build b)) \<and> set_points (fst (build b)) = builder_points b"
proof -
  let ?rs = "codePointRanges (tryToSortAndCompact b)"
  note t = tryToSortAndCompact_spec [OF assms]
  obtain bs ns where s: "split_bmp ?rs = (bs, ns)" by fastforce
  have e: "fst (build b) = \<lparr>set_ptr = fst (build_words ?rs),
      set_bmpSize = snd (build_words ?rs) mod 2 ^ 16, set_packedNonBmpSize = 0\<rparr>"
    by (simp add: build_def Let_def split_beta)
  note p = build_parts [OF t(2) s, folded e]
  note sp = split_bmp_canonical [OF t(2), unfolded s fst_conv snd_conv]
  have "builder_points b = cover bs \<union> cover ns"
    using split_bmp_cover [of ?rs] s t(1) by (simp add: builder_points_def)
  then have "set_points (fst (build b)) = builder_points b"
    unfolding set_points_ranges p by simp
  moreover have "\<forall>e\<in>set (getNonBMPRanges (fst (build b))). 0xFFFF < firstNonBMP e"
    using sp unfolding p(3) [symmetric] by fastforce
  ultimately show ?thesis
    using canonical_map [of "\<lambda>e. uint (firstBMP e)" "\<lambda>e. uint (lastBMP e)" "getBMPRanges (fst (build b))"]
      canonical_map [of firstNonBMP lastNonBMP "getNonBMPRanges (fst (build b))"] sp p
    by (simp add: set_wf_def word_le_def word_less_def list_all_iff)
qed


section \<open>Properties\<close>

text \<open>C26. The builder implements set algebra on the code points: union, difference, intersection and
  complement keep the representation invariant and act on the denoted set as they should, the
  difference being the intersection with the complement; the argument of a removal, which is
  compacted on the way, denotes the same set afterwards.\<close>

theorem builder_algebra:
  assumes a: "builder_ok a" and b: "builder_ok b"
  shows "(builder_ok (addBuilder a b) \<and> builder_points (addBuilder a b) = builder_points a \<union> builder_points b)
    \<and> (builder_ok (sub a b) \<and> builder_points (sub a b) = builder_points a - builder_points b)
    \<and> (builder_ok (intersect a b) \<and> builder_points (intersect a b) = builder_points a \<inter> builder_points b)
    \<and> (builder_ok (complement a) \<and> builder_points (complement a) = {0..CODE_POINT_MAX} - builder_points a)
    \<and> builder_points (complement (complement a)) = builder_points a
    \<and> builder_points (sub a b) = builder_points (intersect a (complement b))
    \<and> builder_points (snd (removeBuilder a b invert)) = builder_points b"
  by (intro conjI builder.compl_compl [OF a] builder.diff_by_inter [OF a b] removeBuilder_spec(3) [OF a b]
      conjunct1 [OF builder.union [OF a b]] conjunct2 [OF builder.union [OF a b]]
      conjunct1 [OF builder.diff [OF a b]] conjunct2 [OF builder.diff [OF a b]]
      conjunct1 [OF builder.inter [OF a b]] conjunct2 [OF builder.inter [OF a b]]
      conjunct1 [OF builder.compl [OF a]] conjunct2 [OF builder.compl [OF a]])

theorem builder_algebra_witness:
  "builder_ok \<lparr>dirty = True, codePointRanges = [(12, 50), (3, 8)]\<rparr> \<and>
   builder_ok \<lparr>dirty = False, codePointRanges = [(10, 30)]\<rparr> \<and>
   builder_points (sub \<lparr>dirty = True, codePointRanges = [(12, 50), (3, 8)]\<rparr>
      \<lparr>dirty = False, codePointRanges = [(10, 30)]\<rparr>) = {31..50} \<union> {3..8}"
proof -
  let ?a = "\<lparr>dirty = True, codePointRanges = [(12, 50), (3, 8)]\<rparr>"
  let ?b = "\<lparr>dirty = False, codePointRanges = [(10, 30)]\<rparr>"
  have o: "builder_ok ?a" "builder_ok ?b" by (simp_all add: builder_ok_def CODE_POINT_MAX_def)
  have "builder_points ?a - builder_points ?b = {31..50} \<union> {3..8}"
    by (auto simp: builder_points_def)
  with o builder_algebra [OF o] show ?thesis by simp
qed

text \<open>C27. \<open>build\<close> followed by \<open>contains\<close>: the packed set answers membership of exactly the code
  points the builder denotes. In particular the 16-bit count of BMP ranges never wraps and a range
  that crosses the BMP border is not lost.\<close>

theorem build_contains:
  assumes "builder_ok b"
  shows "set_contains (fst (build b)) cp \<longleftrightarrow> cp \<in> builder_points b"
  using build_spec [OF assms] builder.bounded [OF assms] set_contains_iff_aux [of "fst (build b)" cp]
  by auto

theorem build_contains_witness:
  "set_contains (fst (build \<lparr>dirty = True, codePointRanges = [(0xFFF0, 0x1000F), (0x41, 0x5A)]\<rparr>)) 0x10003"
proof -
  have "builder_ok \<lparr>dirty = True, codePointRanges = [(0xFFF0, 0x1000F), (0x41, 0x5A)]\<rparr>"
    by (simp add: builder_ok_def CODE_POINT_MAX_def)
  from build_contains [OF this] show ?thesis by (simp add: builder_points_def)
qed

text \<open>\<open>complementWithFoldCase\<close> of a set is the set of the folded code points outside it.\<close>

theorem complementWithFoldCase_spec:
  assumes "builder_ok b" and "\<forall>c. isCodePoint c \<longrightarrow> isCodePoint (foldc c)"
  shows "builder_ok (complementWithFoldCase foldc b) \<and>
    builder_points (complementWithFoldCase foldc b) = foldc ` {0..CODE_POINT_MAX} - builder_points b"
proof -
  let ?all = "addRange foldc empty_builder 0 CODE_POINT_MAX False"
  have "builder_ok ?all \<and> builder_points ?all = {0..CODE_POINT_MAX}"
    using addRange_spec [of empty_builder 0 CODE_POINT_MAX False foldc] builder.empty
    by (simp add: CODE_POINT_MAX_def)
  with assms foldCase_spec [of ?all foldc] builder.diff [of "foldCase foldc ?all" b] show ?thesis
    by (simp add: complementWithFoldCase_def)
qed

theorem complementWithFoldCase_spec_witness:
  "builder_points (complementWithFoldCase (\<lambda>c. c) \<lparr>dirty = False, codePointRanges = [(10, 30)]\<rparr>) =
    {0..CODE_POINT_MAX} - {10..30}"
proof -
  have "builder_ok \<lparr>dirty = False, codePointRanges = [(10, 30)]\<rparr>"
    by (simp add: builder_ok_def CODE_POINT_MAX_def)
  from complementWithFoldCase_spec [OF this, of "\<lambda>c. c"] show ?thesis by (simp add: builder_points_def)
qed

end
