(* ===== verification/Regex_Emit.thy ===== *)
theory Regex_Emit
  imports Regex_Node Regex_Prefilter Set_Builder
begin

text \<open>
  \<open>regex/emit.h\<close> and \<open>regex/emit.cpp\<close>: the code generator. It appends instructions to a buffer,
  reserves the place of a forward branch and patches it when the target is known. \<open>layout\<close> is the
  reference, a relation between a node, its address and its instruction list; the main lemma is that
  patching yields exactly the encoding of such a list.
\<close>

section \<open>Instruction builder\<close>

record CodeGen =
  gen_buf :: bytes
  gen_matchers :: "Matcher list"
  gen_directions :: "bool list"

datatype gen_error = GenError string | GenFatal

type_synonym gen_result = "gen_error + CodeGen"

definition currentAddr :: "CodeGen \<Rightarrow> nat" where
  "currentAddr g = length (gen_buf g)"

text \<open>\<open>emitReservedPoint\<close>: \<open>resize\<close> fills with zero bytes; a point is the offset it returns.\<close>

definition emitReservedPoint :: "nat \<Rightarrow> CodeGen \<Rightarrow> nat \<times> CodeGen" where
  "emitReservedPoint instSize g =
     (let oldSize = length (gen_buf g) in (oldSize, g\<lparr>gen_buf := gen_buf g @ replicate instSize 0\<rparr>))"

definition emitAt :: "nat \<Rightarrow> inst \<Rightarrow> CodeGen \<Rightarrow> CodeGen" where
  "emitAt point i g =
     g\<lparr>gen_buf := take point (gen_buf g) @ encode i @ drop (point + inst_size i) (gen_buf g)\<rparr>"

definition emit :: "inst \<Rightarrow> CodeGen \<Rightarrow> CodeGen" where
  "emit i g = (let (point, g') = emitReservedPoint (inst_size i) g in emitAt point i g')"

text \<open>The sizes of the instructions that are reserved before their operands are known.\<close>

definition sizeof_Alt :: nat where "sizeof_Alt = inst_size (AltIns 0)"
definition sizeof_Jump :: nat where "sizeof_Jump = inst_size (JumpIns 0)"
definition sizeof_BeginLoop :: nat where "sizeof_BeginLoop = inst_size (BeginLoopIns False 0 0 0 0)"
definition sizeof_BeginLookAround :: nat where
  "sizeof_BeginLookAround = inst_size (BeginLookAroundIns False 0)"
definition sizeof_RadixOrEmoji :: nat where
  "sizeof_RadixOrEmoji = inst_size (RadixOrEmojiIns 0 False 0 0)"

definition direction :: "CodeGen \<Rightarrow> bool" where
  "direction g = last (gen_directions g)"

definition inLookBehind :: "CodeGen \<Rightarrow> bool" where
  "inLookBehind g \<longleftrightarrow> \<not> direction g"

definition emitMatcher :: "Matcher \<Rightarrow> CodeGen \<Rightarrow> gen_error + (u16 \<times> CodeGen)" where
  "emitMatcher m g =
     (let index = length (gen_matchers g) in
      if index > 0xFFFF then Inl (GenError ''number of matcher index reaches limit'')
      else Inr (of_nat index, g\<lparr>gen_matchers := gen_matchers g @ [m]\<rparr>))"

definition tryToGenerateAsciiSet :: "CodePointSetRef \<Rightarrow> AsciiSet option" where
  "tryToGenerateAsciiSet ref =
     (if getSize ref \<noteq> set_bmpSize ref then None
      else foldl (\<lambda>r e.
        case r of None \<Rightarrow> None
        | Some s \<Rightarrow>
            if withinAsciiSet (uint (firstBMP e)) \<and> withinAsciiSet (uint (lastBMP e))
            then Some (foldl ascii_add s [uint (firstBMP e)..uint (lastBMP e)])
            else None) (Some empty_ascii) (getBMPRanges ref))"

section \<open>Generation\<close>

text \<open>The methods for composite nodes take \<open>gen\<close>, the method for a node, as an argument.\<close>

definition then_gen :: "gen_result \<Rightarrow> (CodeGen \<Rightarrow> gen_result) \<Rightarrow> gen_result" where
  "then_gen r f = (case r of Inl e \<Rightarrow> Inl e | Inr g \<Rightarrow> f g)"

definition generateString :: "bytes \<Rightarrow> CodeGen \<Rightarrow> gen_result" where
  "generateString buf g =
     (case emitMatcher (mkStringMatcher buf) g of
        Inl e \<Rightarrow> Inl e
      | Inr (index, g') \<Rightarrow>
          Inr (emit (if direction g then StringIns index else LBStringIns index) g'))"

text \<open>\<open>generateSeq\<close> over the patterns in the order of the walk: from the first one forward, from the
  last one in a look-behind. Two or more characters in a row become one string, in text order.\<close>

function generateSeq_walk :: "(node \<Rightarrow> CodeGen \<Rightarrow> gen_result) \<Rightarrow> node list \<Rightarrow> CodeGen \<Rightarrow> gen_result" where
  "generateSeq_walk gen ps g =
     (case ps of
        [] \<Rightarrow> Inr g
      | p # rest \<Rightarrow>
          if isa_CharNode p \<and> rest \<noteq> [] \<and> isa_CharNode (hd rest)
          then (let chars = takeWhile isa_CharNode ps;
                    run = map node_codePoint (if direction g then chars else rev chars) in
                then_gen (generateString (concat (map codePointToUtf8 run)) g)
                  (generateSeq_walk gen (dropWhile isa_CharNode ps)))
          else then_gen (gen p g) (generateSeq_walk gen rest))"
  by pat_completeness auto
termination
  by (relation "measure (\<lambda>(gen, ps, g). length ps)") (auto simp: le_imp_less_Suc length_dropWhile_le)

declare generateSeq_walk.simps [simp del]

definition generateSeq :: "(node \<Rightarrow> CodeGen \<Rightarrow> gen_result) \<Rightarrow> node list \<Rightarrow> CodeGen \<Rightarrow> gen_result" where
  "generateSeq gen ps g = generateSeq_walk gen (if direction g then ps else rev ps) g"

text \<open>The loop of \<open>generateAlt\<close>; \<open>jumps\<close> are the reserved jumps to the end.\<close>

fun generateAlt_loop :: "(node \<Rightarrow> CodeGen \<Rightarrow> gen_result) \<Rightarrow> node list \<Rightarrow> nat list \<Rightarrow> CodeGen
    \<Rightarrow> gen_error + (nat list \<times> CodeGen)" where
  "generateAlt_loop gen [] jumps g = Inr (jumps, g)"
| "generateAlt_loop gen [p] jumps g = (case gen p g of Inl e \<Rightarrow> Inl e | Inr g' \<Rightarrow> Inr (jumps, g'))"
| "generateAlt_loop gen (p # q # rest) jumps g =
     (let (point, g1) = emitReservedPoint sizeof_Alt g in
      case gen p g1 of
        Inl e \<Rightarrow> Inl e
      | Inr g2 \<Rightarrow>
          (let (jumps', g3) =
             (if rest \<noteq> [] \<or> \<not> isa_EmptyNode q
              then (let (jp, g') = emitReservedPoint sizeof_Jump g2 in (jumps @ [jp], g'))
              else (jumps, g2))
           in generateAlt_loop gen (q # rest) jumps' (emitAt point (AltIns (of_nat (currentAddr g3))) g3)))"

definition generateAlt :: "(node \<Rightarrow> CodeGen \<Rightarrow> gen_result) \<Rightarrow> node list \<Rightarrow> CodeGen \<Rightarrow> gen_result" where
  "generateAlt gen ps g =
     (if length ps = 1 then
        (let (point, g1) = emitReservedPoint sizeof_Alt g in
         then_gen (gen (hd ps) g1) (\<lambda>g2. Inr (emitAt point (AltIns (of_nat (currentAddr g2))) g2)))
      else case generateAlt_loop gen ps [] g of
        Inl e \<Rightarrow> Inl e
      | Inr (jumps, g') \<Rightarrow>
          Inr (foldl (\<lambda>g'' e. emitAt e (JumpIns (of_nat (currentAddr g'))) g'') g' jumps))"

definition generateGroup :: "(node \<Rightarrow> CodeGen \<Rightarrow> gen_result) \<Rightarrow> GroupType \<Rightarrow> nat \<Rightarrow> node \<Rightarrow> CodeGen
    \<Rightarrow> gen_result" where
  "generateGroup gen t index pattern g =
     (case t of
        G_CAPTURE \<Rightarrow>
          then_gen (gen pattern (emit (BeginCaptureIns (of_nat index)) g))
            (\<lambda>g'. Inr (emit (if inLookBehind g' then LBEndCaptureIns (of_nat index)
                             else EndCaptureIns (of_nat index)) g'))
      | _ \<Rightarrow> Inl GenFatal)"

definition generateRepeat :: "(node \<Rightarrow> CodeGen \<Rightarrow> gen_result) \<Rightarrow> u16 \<Rightarrow> u16 \<Rightarrow> u32 \<Rightarrow> bool \<Rightarrow> u16 \<Rightarrow> u16
    \<Rightarrow> node \<Rightarrow> CodeGen \<Rightarrow> gen_result" where
  "generateRepeat gen loopIndex mn mx greedy firstIndex lastIndex pattern g =
     (let beginAddr = currentAddr g;
          (p, g1) = emitReservedPoint sizeof_BeginLoop g;
          g2 = (if firstIndex \<noteq> 0 then emit (ResetCapturesIns firstIndex lastIndex) g1 else g1) in
      then_gen (gen pattern g2) (\<lambda>g3.
        (let g4 = emit (EndLoopIns (of_nat beginAddr)) g3;
             outerAddr = currentAddr g4 in
         Inr (emitAt p (BeginLoopIns greedy loopIndex mn mx (of_nat outerAddr)) g4))))"

definition generateLookAround :: "(node \<Rightarrow> CodeGen \<Rightarrow> gen_result) \<Rightarrow> LookAroundType \<Rightarrow> node \<Rightarrow> CodeGen
    \<Rightarrow> gen_result" where
  "generateLookAround gen t pattern g =
     (let (p, g1) = emitReservedPoint sizeof_BeginLookAround g in
      then_gen (gen pattern (g1\<lparr>gen_directions := gen_directions g1 @ [isLookAhead t]\<rparr>)) (\<lambda>g2.
        (let g3 = g2\<lparr>gen_directions := butlast (gen_directions g2)\<rparr>;
             endAddr = currentAddr g3;
             g4 = emit EndLookAroundIns g3 in
         Inr (emitAt p (BeginLookAroundIns (isNegate t) (of_nat endAddr)) g4))))"

definition generateStrSet :: "(node \<Rightarrow> CodeGen \<Rightarrow> gen_result) \<Rightarrow> byte \<Rightarrow> RadixTree \<Rightarrow> node option \<Rightarrow> CodeGen
    \<Rightarrow> gen_result" where
  "generateStrSet gen raw radix chars g =
     (let emoji = (if strset_isIgnoreCase raw then setFlag (strset_getEmojiSeq raw) RGI_CASE_IGNORE
                   else strset_getEmojiSeq raw);
          prep =
            (if radix_empty radix then Inr (None, g)
             else case radix_serialize radix of
               None \<Rightarrow> Inl (GenError ''too large string set'')
             | Some buf \<Rightarrow>
                 (case emitMatcher (mkRadixMatcher buf (of_nat (maxCodePointCount radix))) g of
                    Inl e \<Rightarrow> Inl e
                  | Inr (index, g') \<Rightarrow> Inr (Some index, g')))
      in case prep of
        Inl e \<Rightarrow> Inl e
      | Inr (radixIndex, g1) \<Rightarrow>
          (let g2 = emit (if inLookBehind g1 then PrepareLBRadixIns else PrepareRadixIns) g1;
               (reservedPoint, g3) = emitReservedPoint sizeof_RadixOrEmoji g2;
               oldAddr = currentAddr g3 in
           then_gen (case chars of None \<Rightarrow> Inr g3 | Some c \<Rightarrow> gen c g3) (\<lambda>g4.
             (let nextOffset = currentAddr g4 - oldAddr;
                  index = (case radixIndex of Some i \<Rightarrow> i | None \<Rightarrow> 0) in
              Inr (emitAt reservedPoint
                ((if inLookBehind g4 then LBRadixOrEmojiIns else RadixOrEmojiIns) emoji
                   (radixIndex \<noteq> None) index (of_nat nextOffset)) g4)))))"

definition generateCharSet :: "bool \<Rightarrow> bool \<Rightarrow> bool \<Rightarrow> CodePointSetRef \<Rightarrow> CodeGen \<Rightarrow> gen_result" where
  "generateCharSet invert ignoreCase owned s g =
     (let m = (case tryToGenerateAsciiSet s of Some a \<Rightarrow> mkAsciiMatcher a | None \<Rightarrow> mkSetMatcher owned s) in
      case emitMatcher m g of
        Inl e \<Rightarrow> Inl e
      | Inr (index, g') \<Rightarrow>
          Inr (emit (if inLookBehind g' then LBCharSetIns invert ignoreCase index
                     else if ignoreCase then ICharSetIns invert index
                     else CharSetIns invert index) g'))"

text \<open>The instruction of a leaf.\<close>

definition boundary_inst :: "BoundaryType \<Rightarrow> byte \<Rightarrow> inst" where
  "boundary_inst t m =
     (case t of
        B_START \<Rightarrow> StartIns (hasFlag m (modifier_bit MULTILINE))
      | B_END \<Rightarrow> EndIns (hasFlag m (modifier_bit MULTILINE))
      | _ \<Rightarrow> (if hasFlag m (modifier_bit IGNORE_CASE) then IWordIns (t = B_NOT_WORD)
              else WordIns (t = B_NOT_WORD)))"

definition any_inst :: "bool \<Rightarrow> byte \<Rightarrow> inst" where
  "any_inst fwd m =
     (let dotAll = hasFlag m (modifier_bit DOT_ALL) in
      if \<not> fwd then LBAnyIns dotAll else if dotAll then AnyIns else AnyExceptNLIns)"

definition char_inst :: "bool \<Rightarrow> int \<Rightarrow> inst" where
  "char_inst fwd c = (if fwd then CharIns (word_of_int c) else LBCharIns False (word_of_int c))"

definition foldchar_inst :: "bool \<Rightarrow> int \<Rightarrow> inst" where
  "foldchar_inst fwd c = (if fwd then ICharIns (word_of_int c) else LBCharIns True (word_of_int c))"

definition backref_inst :: "bool \<Rightarrow> bytes \<Rightarrow> nat \<Rightarrow> bool \<Rightarrow> inst" where
  "backref_inst fwd name index ignoreCase =
     (if \<not> fwd then LBBackRefIns (isNamed name) ignoreCase (of_nat index)
      else if ignoreCase then IBackRefIns (isNamed name) (of_nat index)
      else BackRefIns (isNamed name) (of_nat index))"

text \<open>The instruction of a node that compiles to a single one and needs no matcher. A property other
  than the grapheme cluster has been lowered; the assertion in the code is a branch here.\<close>

fun leaf_inst :: "bool \<Rightarrow> node \<Rightarrow> inst option" where
  "leaf_inst fwd (AnyNode m) = Some (any_inst fwd m)"
| "leaf_inst fwd (CharNode c) = Some (char_inst fwd c)"
| "leaf_inst fwd (PropertyNode t d) = (if getNormalizedType t = P_GRAPHEME then Some GraphemeIns else None)"
| "leaf_inst fwd (BoundaryNode t m) = Some (boundary_inst t m)"
| "leaf_inst fwd (BackRefNode name index ic) = Some (backref_inst fwd name index ic)"
| "leaf_inst fwd (FoldCharNode c) = Some (foldchar_inst fwd c)"
| "leaf_inst fwd _ = None"

definition generateLeaf :: "node \<Rightarrow> CodeGen \<Rightarrow> gen_result" where
  "generateLeaf n g = (case leaf_inst (direction g) n of Some i \<Rightarrow> Inr (emit i g) | None \<Rightarrow> Inl GenFatal)"

text \<open>The methods only call \<open>gen\<close> on the children of their node.\<close>

lemma generateSeq_walk_cong:
  "(\<And>p g. p \<in> set ps \<Longrightarrow> gen p g = gen' p g) \<Longrightarrow> generateSeq_walk gen ps g = generateSeq_walk gen' ps g"
proof (induction gen ps g rule: generateSeq_walk.induct)
  case (1 gen ps g)
  show ?case
  proof (cases ps)
    case Nil
    then show ?thesis by (simp add: generateSeq_walk.simps)
  next
    case (Cons p rest)
    have "generateSeq_walk gen (dropWhile isa_CharNode ps) g' = generateSeq_walk gen' (dropWhile isa_CharNode ps) g'"
      if "isa_CharNode p \<and> rest \<noteq> [] \<and> isa_CharNode (hd rest)" for g'
      using 1(1) [OF Cons that refl refl] 1(3) set_dropWhileD by metis
    moreover have "generateSeq_walk gen rest g' = generateSeq_walk gen' rest g'"
      if "\<not> (isa_CharNode p \<and> rest \<noteq> [] \<and> isa_CharNode (hd rest))" for g'
      using 1(2) [OF Cons that] 1(3) Cons by simp
    moreover have "gen p g = gen' p g" using 1(3) Cons by simp
    ultimately show ?thesis
      unfolding Cons
      by (simp add: generateSeq_walk.simps [of gen "p # rest"] generateSeq_walk.simps [of gen' "p # rest"]
          Let_def then_gen_def split: sum.splits)
  qed
qed

lemma generateSeq_cong [fundef_cong]:
  "ps = qs \<Longrightarrow> g = h \<Longrightarrow> (\<And>p g. p \<in> set qs \<Longrightarrow> gen p g = gen' p g) \<Longrightarrow> generateSeq gen ps g = generateSeq gen' qs h"
  using generateSeq_walk_cong [of qs gen gen' h] generateSeq_walk_cong [of "rev qs" gen gen' h]
  unfolding generateSeq_def by simp

lemma generateAlt_loop_cong:
  "(\<And>p g. p \<in> set ps \<Longrightarrow> gen p g = gen' p g) \<Longrightarrow> generateAlt_loop gen ps js g = generateAlt_loop gen' ps js g"
proof (induction ps arbitrary: js g rule: induct_list012)
  case (3 p q rest)
  then have "generateAlt_loop gen (q # rest) js' g' = generateAlt_loop gen' (q # rest) js' g'" for js' g'
    by simp
  with "3.prems" show ?case by (simp add: split_beta Let_def split: sum.split)
qed simp_all

lemma generateAlt_cong [fundef_cong]:
  assumes "ps = qs" "g = h" "\<And>p g. p \<in> set qs \<Longrightarrow> gen p g = gen' p g"
  shows "generateAlt gen ps g = generateAlt gen' qs h"
proof -
  have "gen (hd qs) x = gen' (hd qs) x" if "length qs = 1" for x
    using assms(3) [of "hd qs"] that by (cases qs) auto
  moreover have "generateAlt_loop gen qs [] h = generateAlt_loop gen' qs [] h"
    by (rule generateAlt_loop_cong) (rule assms(3))
  ultimately show ?thesis unfolding generateAlt_def assms(1,2) by (simp add: split_beta Let_def)
qed

lemma generateGroup_cong [fundef_cong]:
  "t = t' \<Longrightarrow> i = j \<Longrightarrow> p = q \<Longrightarrow> g = h \<Longrightarrow> (\<And>g. gen q g = gen' q g) \<Longrightarrow>
     generateGroup gen t i p g = generateGroup gen' t' j q h"
  by (simp add: generateGroup_def split: GroupType.split)

lemma generateRepeat_cong [fundef_cong]:
  "l = l' \<Longrightarrow> mn = mn' \<Longrightarrow> mx = mx' \<Longrightarrow> gr = gr' \<Longrightarrow> fi = fi' \<Longrightarrow> la = la' \<Longrightarrow> p = q \<Longrightarrow> g = h \<Longrightarrow>
     (\<And>g. gen q g = gen' q g) \<Longrightarrow>
     generateRepeat gen l mn mx gr fi la p g = generateRepeat gen' l' mn' mx' gr' fi' la' q h"
  by (simp add: generateRepeat_def split_beta Let_def)

lemma generateLookAround_cong [fundef_cong]:
  "t = t' \<Longrightarrow> p = q \<Longrightarrow> g = h \<Longrightarrow> (\<And>g. gen q g = gen' q g) \<Longrightarrow>
     generateLookAround gen t p g = generateLookAround gen' t' q h"
  by (simp add: generateLookAround_def split_beta Let_def)

lemma generateStrSet_cong [fundef_cong]:
  assumes "e = e'" "r = r'" "c = c'" "g = h" "\<And>p g. c' = Some p \<Longrightarrow> gen p g = gen' p g"
  shows "generateStrSet gen e r c g = generateStrSet gen' e' r' c' h"
proof -
  have "(case c' of None \<Rightarrow> Inr x | Some p \<Rightarrow> gen p x) = (case c' of None \<Rightarrow> Inr x | Some p \<Rightarrow> gen' p x)" for x
    using assms(5) by (simp split: option.split)
  then show ?thesis unfolding generateStrSet_def assms(1-4) by simp
qed

text \<open>\<open>CodeGen::generate\<close>.\<close>

function generate :: "node \<Rightarrow> CodeGen \<Rightarrow> gen_result" where
  "generate EmptyNode g = Inr g"
| "generate (AnyNode m) g = generateLeaf (AnyNode m) g"
| "generate (CharNode c) g = generateLeaf (CharNode c) g"
| "generate (CharClassNode invert ty may cs) g = Inl GenFatal"
| "generate (PropertyNode ty d) g = generateLeaf (PropertyNode ty d) g"
| "generate (BoundaryNode ty m) g = generateLeaf (BoundaryNode ty m) g"
| "generate (BackRefNode name index ic) g = generateLeaf (BackRefNode name index ic) g"
| "generate (RepeatNode l mn mx greedy fi la p) g = generateRepeat generate l mn mx greedy fi la p g"
| "generate (SeqNode ps) g = generateSeq generate ps g"
| "generate (AltNode ps) g = generateAlt generate ps g"
| "generate (LookAroundNode ty p) g = generateLookAround generate ty p g"
| "generate (GroupNode ty index st us p) g = generateGroup generate ty index p g"
| "generate (FoldCharNode c) g = generateLeaf (FoldCharNode c) g"
| "generate (CharSetNode invert ic owned s) g = generateCharSet invert ic owned s g"
| "generate (StrSetNode raw radix chars) g = generateStrSet generate raw radix chars g"
  by pat_completeness auto
termination
  by (relation "measure (\<lambda>(n, g). size n)") (auto simp: less_Suc_eq_le size_list_estimation')

text \<open>The result of compilation (\<open>class Regex\<close> of \<open>regex/regex.h\<close>) and \<open>CodeGen::operator()\<close> after
  \<open>transform\<close> has lowered the tree.\<close>

record Regex =
  regex_flag :: Flag
  regex_loopCount :: u16
  regex_captureGroupCount :: nat
  regex_instSeq :: bytes
  regex_firstBitSet :: FirstBitSet
  regex_matchers :: "Matcher list"
  regex_named :: NamedCaptureGroups

definition codegen :: "unicode_env \<Rightarrow> SyntaxTree \<Rightarrow> gen_error + Regex" where
  "codegen env tree =
     (case generate (tree_pattern tree) \<lparr>gen_buf = [], gen_matchers = [], gen_directions = [True]\<rparr> of
        Inl e \<Rightarrow> Inl e
      | Inr g \<Rightarrow>
          (let instSeq = gen_buf (emit MatchIns g) in
           Inr \<lparr>regex_flag = tree_flag tree, regex_loopCount = tree_loopCount tree,
                regex_captureGroupCount = tree_captureGroupCount tree, regex_instSeq = instSeq,
                regex_firstBitSet = createFirstBitSet env instSeq (gen_matchers g),
                regex_matchers = gen_matchers g, regex_named = tree_namedCaptureGroups tree\<rparr>))"

section \<open>Layout\<close>

text \<open>The reference: \<open>layout fwd n pc mi is ms\<close> says that the code of \<open>n\<close>, placed at address \<open>pc\<close> and with
  its first matcher at index \<open>mi\<close>, is \<open>is\<close> with the matchers \<open>ms\<close>. Here every branch target is known
  from the sizes, and nothing is patched. \<open>layout_seq\<close> takes the patterns in the order of the walk.\<close>

definition isize :: "inst list \<Rightarrow> nat" where
  "isize is = length (encode_all is)"

definition charset_matcher :: "bool \<Rightarrow> CodePointSetRef \<Rightarrow> Matcher" where
  "charset_matcher owned s =
     (case tryToGenerateAsciiSet s of Some a \<Rightarrow> mkAsciiMatcher a | None \<Rightarrow> mkSetMatcher owned s)"

definition charset_inst :: "bool \<Rightarrow> bool \<Rightarrow> bool \<Rightarrow> u16 \<Rightarrow> inst" where
  "charset_inst fwd invert ic index =
     (if \<not> fwd then LBCharSetIns invert ic index else if ic then ICharSetIns invert index
      else CharSetIns invert index)"

definition string_inst :: "bool \<Rightarrow> u16 \<Rightarrow> inst" where
  "string_inst fwd index = (if fwd then StringIns index else LBStringIns index)"

definition endcapture_inst :: "bool \<Rightarrow> u16 \<Rightarrow> inst" where
  "endcapture_inst fwd index = (if fwd then EndCaptureIns index else LBEndCaptureIns index)"

definition reset_inst :: "u16 \<Rightarrow> u16 \<Rightarrow> inst list" where
  "reset_inst fi la = (if fi \<noteq> 0 then [ResetCapturesIns fi la] else [])"

definition strset_emoji_flags :: "byte \<Rightarrow> byte" where
  "strset_emoji_flags raw = (if strset_isIgnoreCase raw then setFlag (strset_getEmojiSeq raw) RGI_CASE_IGNORE
     else strset_getEmojiSeq raw)"

definition radix_inst :: "bool \<Rightarrow> byte \<Rightarrow> bool \<Rightarrow> u16 \<Rightarrow> byte \<Rightarrow> inst" where
  "radix_inst fwd e r i o' = (if fwd then RadixOrEmojiIns e r i o' else LBRadixOrEmojiIns e r i o')"

definition prepare_inst :: "bool \<Rightarrow> inst" where
  "prepare_inst fwd = (if fwd then PrepareRadixIns else PrepareLBRadixIns)"

definition strset_matchers :: "nat \<Rightarrow> RadixTree \<Rightarrow> Matcher list \<Rightarrow> u16 \<Rightarrow> bool" where
  "strset_matchers mi radix rms index =
     (if radix_empty radix then rms = [] \<and> index = 0
      else mi \<le> 0xFFFF \<and> index = of_nat mi \<and>
        (case radix_serialize radix of
           None \<Rightarrow> False
         | Some buf \<Rightarrow> rms = [mkRadixMatcher buf (of_nat (maxCodePointCount radix))]))"

inductive layout :: "bool \<Rightarrow> node \<Rightarrow> nat \<Rightarrow> nat \<Rightarrow> inst list \<Rightarrow> Matcher list \<Rightarrow> bool"
  and layout_seq :: "bool \<Rightarrow> node list \<Rightarrow> nat \<Rightarrow> nat \<Rightarrow> inst list \<Rightarrow> Matcher list \<Rightarrow> bool"
  and layout_alts :: "bool \<Rightarrow> node list \<Rightarrow> nat \<Rightarrow> nat \<Rightarrow> nat \<Rightarrow> inst list \<Rightarrow> Matcher list \<Rightarrow> bool"
where
  lay_empty: "layout fwd EmptyNode pc mi [] []"
| lay_leaf: "leaf_inst fwd n = Some i \<Longrightarrow> layout fwd n pc mi [i] []"
| lay_set: "mi \<le> 0xFFFF \<Longrightarrow>
    layout fwd (CharSetNode invert ic owned s) pc mi [charset_inst fwd invert ic (of_nat mi)]
      [charset_matcher owned s]"
| lay_seqnode: "layout_seq fwd (if fwd then ps else rev ps) pc mi is ms \<Longrightarrow> layout fwd (SeqNode ps) pc mi is ms"
| lay_alt1: "layout fwd p (pc + 5) mi is ms \<Longrightarrow>
    layout fwd (AltNode [p]) pc mi (AltIns (of_nat (pc + 5 + isize is)) # is) ms"
| lay_altn: "length ps \<noteq> 1 \<Longrightarrow> layout_alts fwd ps pc (pc + isize is) mi is ms \<Longrightarrow> layout fwd (AltNode ps) pc mi is ms"
| lay_group: "layout fwd p (pc + 3) mi is ms \<Longrightarrow>
    layout fwd (GroupNode G_CAPTURE index st us p) pc mi
      (BeginCaptureIns (of_nat index) # is @ [endcapture_inst fwd (of_nat index)]) ms"
| lay_repeat: "layout fwd p (pc + 14 + isize (reset_inst fi la)) mi is ms \<Longrightarrow>
    layout fwd (RepeatNode l mn mx greedy fi la p) pc mi
      (BeginLoopIns greedy l mn mx (of_nat (pc + 14 + isize (reset_inst fi la) + isize is + 5))
         # reset_inst fi la @ is @ [EndLoopIns (of_nat pc)]) ms"
| lay_look: "layout (isLookAhead t) p (pc + 6) mi is ms \<Longrightarrow>
    layout fwd (LookAroundNode t p) pc mi
      (BeginLookAroundIns (isNegate t) (of_nat (pc + 6 + isize is)) # is @ [EndLookAroundIns]) ms"
| lay_strings: "strset_matchers mi radix rms index \<Longrightarrow>
    layout fwd (StrSetNode raw radix None) pc mi
      [prepare_inst fwd, radix_inst fwd (strset_emoji_flags raw) (\<not> radix_empty radix) index 0] rms"
| lay_strset: "strset_matchers mi radix rms index \<Longrightarrow> layout fwd c (pc + 7) (mi + length rms) is ms \<Longrightarrow>
    layout fwd (StrSetNode raw radix (Some c)) pc mi
      (prepare_inst fwd # radix_inst fwd (strset_emoji_flags raw) (\<not> radix_empty radix) index
         (of_nat (isize is)) # is) (rms @ ms)"
| lay_seq_nil: "layout_seq fwd [] pc mi [] []"
| lay_seq_run: "mi \<le> 0xFFFF \<Longrightarrow> 2 \<le> length cs \<Longrightarrow> rest = [] \<or> \<not> isa_CharNode (hd rest) \<Longrightarrow>
    layout_seq fwd rest (pc + 3) (mi + 1) is ms \<Longrightarrow>
    layout_seq fwd (map CharNode cs @ rest) pc mi (string_inst fwd (of_nat mi) # is)
      (mkStringMatcher (concat (map codePointToUtf8 (if fwd then cs else rev cs))) # ms)"
| lay_seq_one: "\<not> (isa_CharNode p \<and> rest \<noteq> [] \<and> isa_CharNode (hd rest)) \<Longrightarrow> layout fwd p pc mi is ms \<Longrightarrow> layout_seq fwd rest (pc + isize is) (mi + length ms) is' ms' \<Longrightarrow>
    layout_seq fwd (p # rest) pc mi (is @ is') (ms @ ms')"
| lay_alts_nil: "layout_alts fwd [] pc e mi [] []"
| lay_alts_last: "layout fwd p pc mi is ms \<Longrightarrow> layout_alts fwd [p] pc e mi is ms"
| lay_alts_more: "js = (if rest \<noteq> [] \<or> \<not> isa_EmptyNode q then [JumpIns (of_nat e)] else []) \<Longrightarrow>
    layout fwd p (pc + 5) mi is ms \<Longrightarrow> a = pc + 5 + isize is + isize js \<Longrightarrow>
    layout_alts fwd (q # rest) a e (mi + length ms) is' ms' \<Longrightarrow>
    layout_alts fwd (p # q # rest) pc e mi (AltIns (of_nat a) # is @ js @ is') (ms @ ms')"

section \<open>The generator implements the layout\<close>

text \<open>What generating code does to the builder: instructions and matchers are appended.\<close>

definition append_code :: "inst list \<Rightarrow> Matcher list \<Rightarrow> CodeGen \<Rightarrow> CodeGen" where
  "append_code is ms g = g\<lparr>gen_buf := gen_buf g @ encode_all is, gen_matchers := gen_matchers g @ ms\<rparr>"

definition hole :: "nat \<Rightarrow> CodeGen \<Rightarrow> CodeGen" where
  "hole k g = g\<lparr>gen_buf := gen_buf g @ replicate k 0\<rparr>"

lemma isize_simps [simp]:
  "isize [] = 0" "isize (i # is) = inst_size i + isize is" "isize (is @ js) = isize is + isize js"
  by (simp_all add: isize_def encode_all_def inst_size_def)

lemma encode_all_simps [simp]:
  "encode_all [] = []" "encode_all (i # is) = encode i @ encode_all is"
  "encode_all (is @ js) = encode_all is @ encode_all js"
  by (simp_all add: encode_all_def)

lemma sizeof_simps [simp]:
  "inst_size (AltIns a) = 5" "inst_size (JumpIns a) = 5" "inst_size (BeginLoopIns x1 x2 x3 x4 x5) = 14"
  "inst_size (BeginLookAroundIns b a) = 6" "inst_size (RadixOrEmojiIns y1 y2 y3 y4) = 6"
  "inst_size (LBRadixOrEmojiIns y1 y2 y3 y4) = 6" "inst_size PrepareRadixIns = 1"
  "inst_size PrepareLBRadixIns = 1" "inst_size (BeginCaptureIns j) = 3" "inst_size (EndLoopIns a) = 5"
  "inst_size (StringIns j) = 3" "inst_size (LBStringIns j) = 3" "inst_size EndLookAroundIns = 1"
  "inst_size (EndCaptureIns j) = 3" "inst_size (LBEndCaptureIns j) = 3" "inst_size MatchIns = 1"
  "inst_size (ResetCapturesIns j j') = 5"
  by (simp_all add: inst_size_def encode_def)

lemma sizeof_reserved [simp]:
  "sizeof_Alt = 5" "sizeof_Jump = 5" "sizeof_BeginLoop = 14" "sizeof_BeginLookAround = 6"
  "sizeof_RadixOrEmoji = 6"
  by (simp_all add: sizeof_Alt_def sizeof_Jump_def sizeof_BeginLoop_def sizeof_BeginLookAround_def
      sizeof_RadixOrEmoji_def)

lemma string_inst_size [simp]: "inst_size (string_inst fwd j) = 3" "inst_size (prepare_inst fwd) = 1"
    "inst_size (radix_inst fwd y1 y2 y3 y4) = 6" "inst_size (endcapture_inst fwd j) = 3"
  by (simp_all add: string_inst_def prepare_inst_def radix_inst_def endcapture_inst_def)

lemma append_code_simps [simp]:
  "append_code is' ms' (append_code is ms g) = append_code (is @ is') (ms @ ms') g"
  "append_code [] [] g = g"
  "direction (append_code is ms g) = direction g"
  "gen_directions (append_code is ms g) = gen_directions g"
  "currentAddr (append_code is ms g) = currentAddr g + isize is"
  "gen_matchers (append_code is ms g) = gen_matchers g @ ms"
  "gen_buf (append_code is ms g) = gen_buf g @ encode_all is"
  by (simp_all add: append_code_def direction_def currentAddr_def isize_def encode_all_def)

lemma hole_simps [simp]:
  "direction (hole k g) = direction g" "currentAddr (hole k g) = currentAddr g + k"
  "gen_directions (hole k g) = gen_directions g" "gen_matchers (hole k g) = gen_matchers g"
  by (simp_all add: hole_def direction_def currentAddr_def)

lemma emitReservedPoint_hole [simp]: "emitReservedPoint k g = (currentAddr g, hole k g)"
  by (simp add: emitReservedPoint_def hole_def currentAddr_def)

lemma emitAt_patch:
  "inst_size i = k \<Longrightarrow> emitAt (currentAddr g) i (append_code is ms (hole k g)) = append_code (i # is) ms g"
  by (simp add: emitAt_def append_code_def hole_def currentAddr_def inst_size_def)

lemma emit_append [simp]: "emit i g = append_code [i] [] g"
  using emitAt_patch [of i "inst_size i" g "[]" "[]"] by (simp add: emit_def)

lemma emitMatcher_append:
  "emitMatcher m g = Inr (index, g') \<longleftrightarrow>
     length (gen_matchers g) \<le> 0xFFFF \<and> index = of_nat (length (gen_matchers g)) \<and> g' = append_code [] [m] g"
  by (auto simp: emitMatcher_def append_code_def Let_def)

text \<open>The contract of \<open>generate\<close> on a node.\<close>

definition generates :: "node \<Rightarrow> bool" where
  "generates n \<longleftrightarrow> (\<forall>g g'. generate n g = Inr g' \<longrightarrow>
     (\<exists>is ms. layout (direction g) n (currentAddr g) (length (gen_matchers g)) is ms \<and> g' = append_code is ms g))"

lemma generatesD:
  assumes "generates n" "generate n g = Inr g'"
  obtains "is" ms where "layout (direction g) n (currentAddr g) (length (gen_matchers g)) is ms"
    "g' = append_code is ms g"
  using assms unfolding generates_def by blast

lemma then_gen_Inr: "then_gen r f = Inr g' \<longleftrightarrow> (\<exists>g. r = Inr g \<and> f g = Inr g')"
  by (cases r) (auto simp: then_gen_def)

lemma run_of_chars:
  assumes "ps = p # rest" "isa_CharNode p" "rest \<noteq> []" "isa_CharNode (hd rest)"
  defines "cs \<equiv> map node_codePoint (takeWhile isa_CharNode ps)"
  shows "ps = map CharNode cs @ dropWhile isa_CharNode ps" "2 \<le> length cs"
    "dropWhile isa_CharNode ps = [] \<or> \<not> isa_CharNode (hd (dropWhile isa_CharNode ps))"
proof -
  have "map CharNode cs = takeWhile isa_CharNode ps"
    unfolding cs_def map_map
    by (rule map_idI) (auto dest!: set_takeWhileD simp: isa_CharNode_def split: node.splits)
  then show "ps = map CharNode cs @ dropWhile isa_CharNode ps" by simp
  show "2 \<le> length cs" using assms(1-4) unfolding cs_def by (cases rest) auto
  show "dropWhile isa_CharNode ps = [] \<or> \<not> isa_CharNode (hd (dropWhile isa_CharNode ps))"
    using hd_dropWhile by blast
qed

lemma generateSeq_walk_layout:
  assumes "\<forall>p\<in>set ps. generates p" "generateSeq_walk generate ps g = Inr g'"
  shows "\<exists>is ms. layout_seq (direction g) ps (currentAddr g) (length (gen_matchers g)) is ms \<and>
    g' = append_code is ms g"
  using assms
proof (induction "length ps" arbitrary: ps g rule: less_induct)
  case less
  show ?case
  proof (cases ps)
    case Nil
    with less.prems show ?thesis
      by (intro exI [of _ "[]"]) (auto simp: generateSeq_walk.simps intro: lay_seq_nil)
  next
    case (Cons p rest)
    show ?thesis
    proof (cases "isa_CharNode p \<and> rest \<noteq> [] \<and> isa_CharNode (hd rest)")
      case True
      define cs where "cs = map node_codePoint (takeWhile isa_CharNode ps)"
      let ?rest = "dropWhile isa_CharNode ps" and ?mi = "length (gen_matchers g)"
      let ?m = "mkStringMatcher (concat (map codePointToUtf8 (if direction g then cs else rev cs)))"
      have run: "ps = map CharNode cs @ ?rest" "2 \<le> length cs" "?rest = [] \<or> \<not> isa_CharNode (hd ?rest)"
        using run_of_chars [of ps p rest] True Cons unfolding cs_def by blast+
      from less.prems(2) True have "then_gen (generateString (concat (map codePointToUtf8
          (if direction g then cs else rev cs))) g) (generateSeq_walk generate ?rest) = Inr g'"
        unfolding Cons cs_def
        by (cases "direction g") (simp_all add: generateSeq_walk.simps [of _ "p # rest"] rev_map Let_def)
      then obtain g1 where g1: "generateString (concat (map codePointToUtf8
          (if direction g then cs else rev cs))) g = Inr g1" "generateSeq_walk generate ?rest g1 = Inr g'"
        unfolding then_gen_Inr by blast
      then have m: "?mi \<le> 0xFFFF" "g1 = append_code [string_inst (direction g) (of_nat ?mi)] [?m] g"
        by (auto simp: generateString_def emitMatcher_append string_inst_def split: sum.splits)
      have "length ?rest < length ps" using run(1,2) by (metis length_append length_map less_add_same_cancel2
          less_le_trans zero_less_numeral)
      moreover have "\<forall>p\<in>set ?rest. generates p" using less.prems(1) set_dropWhileD by metis
      ultimately obtain "is" ms where "layout_seq (direction g1) ?rest (currentAddr g1) (length (gen_matchers g1)) is ms"
          "g' = append_code is ms g1"
        using less.hyps [OF _ _ g1(2)] by blast
      then have "layout_seq (direction g) ?rest (currentAddr g + 3) (?mi + 1) is ms"
          "g' = append_code (string_inst (direction g) (of_nat ?mi) # is) (?m # ms) g"
        using m(2) by simp_all
      then show ?thesis using lay_seq_run [OF m(1) run(2,3)] run(1) by metis
    next
      case False
      with less.prems(2) obtain g1 where g1: "generate p g = Inr g1" "generateSeq_walk generate rest g1 = Inr g'"
        unfolding Cons by (auto simp: generateSeq_walk.simps [of _ "p # rest"] then_gen_Inr)
      have "generates p" using less.prems(1) Cons by simp
      from generatesD [OF this g1(1)] obtain is1 ms1
        where c1: "layout (direction g) p (currentAddr g) (length (gen_matchers g)) is1 ms1"
          "g1 = append_code is1 ms1 g" .
      obtain is2 ms2 where "layout_seq (direction g1) rest (currentAddr g1) (length (gen_matchers g1)) is2 ms2"
          "g' = append_code is2 ms2 g1"
        using less.hyps [OF _ _ g1(2)] less.prems(1) Cons by auto
      then show ?thesis unfolding Cons using c1 False
        by (intro exI [of _ "is1 @ is2"] exI [of _ "ms1 @ ms2"]) (auto intro: lay_seq_one)
    qed
  qed
qed

text \<open>Alternatives: the jumps over the remaining alternatives are patched after the last one, so the
  loop leaves a buffer \<open>B\<close> with holes; filling them gives the layout whatever the end address is.\<close>

definition patch_jumps :: "u32 \<Rightarrow> nat list \<Rightarrow> bytes \<Rightarrow> bytes" where
  "patch_jumps e js buf = foldl (\<lambda>b j. take j b @ encode (JumpIns e) @ drop (j + 5) b) buf js"

lemma patch_jumps_Cons:
  "length P = j \<Longrightarrow> patch_jumps e (j # js) (P @ replicate 5 0 @ B) = patch_jumps e js (P @ encode (JumpIns e) @ B)"
  by (auto simp: patch_jumps_def)

lemma foldl_emitAt:
  "foldl (\<lambda>g j. emitAt j (JumpIns e) g) g js = g\<lparr>gen_buf := patch_jumps e js (gen_buf g)\<rparr>"
  by (induction js arbitrary: g) (simp_all add: patch_jumps_def emitAt_def)

lemma generateAlt_loop_layout:
  assumes "\<forall>p\<in>set ps. generates p" "generateAlt_loop generate ps jumps g = Inr (jumps', g')"
  shows "\<exists>f ms js B. (\<forall>e. layout_alts (direction g) ps (currentAddr g) e (length (gen_matchers g)) (f e) ms) \<and>
    jumps' = jumps @ js \<and> g' = g\<lparr>gen_buf := gen_buf g @ B, gen_matchers := gen_matchers g @ ms\<rparr> \<and>
    (\<forall>e P. length P = currentAddr g \<longrightarrow> patch_jumps (of_nat e) js (P @ B) = P @ encode_all (f e)) \<and>
    (\<forall>e. isize (f e) = length B)"
  using assms
proof (induction ps arbitrary: jumps g rule: induct_list012)
  case 1
  then show ?case
    by (intro exI [of _ "\<lambda>_. []"] exI [of _ "[]"]) (auto simp: patch_jumps_def intro: lay_alts_nil)
next
  case (2 p)
  then have "generates p" "generate p g = Inr g'" "jumps' = jumps" by (auto split: sum.splits)
  then obtain "is" ms where "layout (direction g) p (currentAddr g) (length (gen_matchers g)) is ms"
      "g' = append_code is ms g" by (elim generatesD)
  then show ?case using \<open>jumps' = jumps\<close>
    by (intro exI [of _ "\<lambda>_. is"] exI [of _ ms] exI [of _ "[]"] exI [of _ "encode_all is"])
      (auto simp: patch_jumps_def append_code_def isize_def intro: lay_alts_last)
next
  case (3 p q rest)
  define j where "j \<longleftrightarrow> rest \<noteq> [] \<or> \<not> isa_EmptyNode q"
  define js where "js e = (if j then [JumpIns (of_nat e)] else [])" for e
  define h where "h = (if j then replicate 5 (0 :: byte) else [])"
  obtain g2 where g2: "generate p (hole 5 g) = Inr g2"
    using "3.prems"(2) by (cases "generate p (hole 5 g)") simp_all
  obtain is1 ms1 where c1: "layout (direction g) p (currentAddr g + 5) (length (gen_matchers g)) is1 ms1"
      "g2 = append_code is1 ms1 (hole 5 g)"
    by (rule generatesD [OF _ g2]) (use "3.prems"(1) in simp_all)
  let ?a = "currentAddr g + 5 + isize is1 + length h"
  let ?jp = "currentAddr g + 5 + isize is1"
  define g4 where "g4 = (append_code (AltIns (of_nat ?a) # is1) ms1 g)\<lparr>gen_buf :=
      gen_buf g @ encode (AltIns (of_nat ?a)) @ encode_all is1 @ h\<rparr>"
  have enc5: "length (encode (AltIns w)) = 5" "length (encode (JumpIns w)) = 5" for w
    using sizeof_simps(1,2) unfolding inst_size_def by blast+
  have "emitAt (currentAddr g) (AltIns (of_nat ?a)) (if j then hole 5 g2 else g2) = g4"
    unfolding g4_def c1(2) h_def
    by (cases j) (simp_all add: emitAt_def append_code_def hole_def currentAddr_def enc5 inst_size_def)
  moreover have "currentAddr (if j then hole 5 g2 else g2) = ?a" using c1(2) by (simp add: h_def)
  ultimately have loop: "generateAlt_loop generate (q # rest) (if j then jumps @ [?jp] else jumps) g4 = Inr (jumps', g')"
    using "3.prems"(2) g2 c1(2) unfolding generateAlt_loop.simps j_def [symmetric]
    by (cases j) (simp_all add: Let_def)
  have g4: "direction g4 = direction g" "currentAddr g4 = ?a" "gen_matchers g4 = gen_matchers g @ ms1"
    by (simp_all add: g4_def direction_def currentAddr_def append_code_def isize_def enc5)
  have al: "\<forall>p\<in>set (q # rest). generates p" using "3.prems"(1) by simp
  from "3.IH"(2) [OF al loop] obtain f ms js' B where ih:
    "\<forall>e. layout_alts (direction g) (q # rest) ?a e (length (gen_matchers g) + length ms1) (f e) ms"
    "jumps' = (if j then jumps @ [?jp] else jumps) @ js'"
    "g' = g4\<lparr>gen_buf := gen_buf g4 @ B, gen_matchers := gen_matchers g4 @ ms\<rparr>"
    "\<forall>e P. length P = ?a \<longrightarrow> patch_jumps (of_nat e) js' (P @ B) = P @ encode_all (f e)"
    "\<forall>e. isize (f e) = length B"
    unfolding g4 by auto
  let ?f = "\<lambda>e. AltIns (of_nat ?a) # is1 @ js e @ f e"
  have hj: "isize (js e) = length h" for e by (simp add: js_def h_def)
  have lay: "layout_alts (direction g) (p # q # rest) (currentAddr g) e (length (gen_matchers g)) (?f e) (ms1 @ ms)" for e
    using lay_alts_more [OF _ c1(1) _ ih(1) [rule_format, of e], of "js e"] hj [of e]
    by (simp add: js_def j_def)
  have patch: "patch_jumps (of_nat e) ((if j then [?jp] else []) @ js')
      (P @ encode (AltIns (of_nat ?a)) @ encode_all is1 @ h @ B) = P @ encode_all (?f e)"
    if "length P = currentAddr g" for e P
  proof -
    let ?P = "P @ encode (AltIns (of_nat ?a)) @ encode_all is1"
    have lp: "length ?P = ?jp" using that enc5 by (simp add: isize_def)
    show ?thesis
    proof (cases j)
      case True
      have "length (?P @ encode (JumpIns (of_nat e))) = ?a"
        using True lp enc5(2) [of "of_nat e"] by (simp only: length_append h_def if_True length_replicate)
      then have "patch_jumps (of_nat e) js' ((?P @ encode (JumpIns (of_nat e))) @ B) =
          (?P @ encode (JumpIns (of_nat e))) @ encode_all (f e)"
        using ih(4) by blast
      then have "patch_jumps (of_nat e) (?jp # js') (?P @ replicate 5 0 @ B) =
          ?P @ encode (JumpIns (of_nat e)) @ encode_all (f e)"
        unfolding patch_jumps_Cons [OF lp] by (simp only: append_assoc)
      with True show ?thesis by (simp add: js_def h_def)
    next
      case False
      then show ?thesis using ih(4) [rule_format, of ?P] lp by (simp add: h_def js_def)
    qed
  qed
  let ?B = "encode (AltIns (of_nat ?a)) @ encode_all is1 @ h @ B"
  have jumps: "jumps' = jumps @ ((if j then [?jp] else []) @ js')" using ih(2) by simp
  have built: "g' = g\<lparr>gen_buf := gen_buf g @ ?B, gen_matchers := gen_matchers g @ ms1 @ ms\<rparr>"
    using ih(3) by (simp add: g4_def append_code_def)
  have sizes: "isize (?f e) = length ?B" for e using ih(5) hj [of e] by (simp add: isize_def enc5)
  show ?case
    by (rule exI [of _ ?f], rule exI [of _ "ms1 @ ms"], rule exI [of _ "(if j then [?jp] else []) @ js'"],
        rule exI [of _ ?B], intro conjI allI impI)
      (fact lay, fact jumps, fact built, simp only: append_assoc patch, fact sizes)
qed

lemma generateAlt_layout:
  assumes "\<forall>p\<in>set ps. generates p" "generateAlt generate ps g = Inr g'"
  shows "\<exists>is ms. layout (direction g) (AltNode ps) (currentAddr g) (length (gen_matchers g)) is ms \<and>
    g' = append_code is ms g"
proof (cases "length ps = 1")
  case True
  then obtain p where ps: "ps = [p]" by (auto simp: length_Suc_conv)
  then obtain g2 where g2: "generate p (hole 5 g) = Inr g2"
      "g' = emitAt (currentAddr g) (AltIns (of_nat (currentAddr g2))) g2"
    using assms(2) by (auto simp: generateAlt_def then_gen_Inr)
  obtain "is" ms where c: "layout (direction g) p (currentAddr g + 5) (length (gen_matchers g)) is ms"
      "g2 = append_code is ms (hole 5 g)"
    by (rule generatesD [OF _ g2(1)]) (use assms(1) ps in simp_all)
  with g2(2) have "g' = append_code (AltIns (of_nat (currentAddr g + 5 + isize is)) # is) ms g"
    using emitAt_patch [of _ 5] by simp
  with lay_alt1 [OF c(1)] ps show ?thesis by blast
next
  case False
  with assms(2) obtain jumps g1 where l: "generateAlt_loop generate ps [] g = Inr (jumps, g1)"
      "g' = foldl (\<lambda>g'' e. emitAt e (JumpIns (of_nat (currentAddr g1))) g'') g1 jumps"
    by (auto simp: generateAlt_def split: sum.splits)
  from generateAlt_loop_layout [OF assms(1) l(1)] obtain f ms B where f:
    "\<forall>e. layout_alts (direction g) ps (currentAddr g) e (length (gen_matchers g)) (f e) ms"
    "g1 = g\<lparr>gen_buf := gen_buf g @ B, gen_matchers := gen_matchers g @ ms\<rparr>"
    "\<forall>e P. length P = currentAddr g \<longrightarrow> patch_jumps (of_nat e) jumps (P @ B) = P @ encode_all (f e)"
    "\<forall>e. isize (f e) = length B" by auto
  let ?e = "currentAddr g + length B"
  have e: "currentAddr g1 = ?e" using f(2) by (simp add: currentAddr_def)
  have "g' = append_code (f ?e) ms g"
    using l(2) f(2) f(3) [rule_format, of "gen_buf g" ?e] unfolding e foldl_emitAt
    by (simp add: append_code_def currentAddr_def)
  moreover have "layout (direction g) (AltNode ps) (currentAddr g) (length (gen_matchers g)) (f ?e) ms"
    using lay_altn [OF False, of "direction g" "currentAddr g" "f ?e"] f(1,4) by simp
  ultimately show ?thesis by blast
qed

text \<open>The remaining composite nodes.\<close>

lemma generateGroup_layout:
  assumes "generates p" "generateGroup generate ty index p g = Inr g'"
  shows "\<exists>is ms. layout (direction g) (GroupNode ty index st us p) (currentAddr g) (length (gen_matchers g)) is ms \<and>
    g' = append_code is ms g"
proof -
  let ?b = "append_code [BeginCaptureIns (of_nat index)] [] g"
  from assms(2) obtain g1 where ty: "ty = G_CAPTURE" and g1: "generate p ?b = Inr g1"
    "g' = append_code [if inLookBehind g1 then LBEndCaptureIns (of_nat index) else EndCaptureIns (of_nat index)] [] g1"
    by (auto simp: generateGroup_def then_gen_Inr split: GroupType.splits)
  obtain "is" ms where l: "layout (direction g) p (currentAddr g + 3) (length (gen_matchers g)) is ms"
      "g1 = append_code is ms ?b"
    by (rule generatesD [OF assms(1) g1(1)]) simp_all
  then have "g' = append_code (BeginCaptureIns (of_nat index) # is @ [endcapture_inst (direction g) (of_nat index)]) ms g"
    using g1(2) by (simp add: inLookBehind_def endcapture_inst_def)
  with lay_group [OF l(1)] ty show ?thesis by blast
qed

lemma generateRepeat_layout:
  assumes "generates p" "generateRepeat generate l mn mx greedy fi la p g = Inr g'"
  shows "\<exists>is ms. layout (direction g) (RepeatNode l mn mx greedy fi la p) (currentAddr g)
      (length (gen_matchers g)) is ms \<and> g' = append_code is ms g"
proof -
  let ?r = "reset_inst fi la" and ?h = "hole 14 g"
  have r: "(if fi \<noteq> 0 then emit (ResetCapturesIns fi la) ?h else ?h) = append_code ?r [] ?h"
    by (simp add: reset_inst_def)
  from assms(2) obtain g3 where g3: "generate p (append_code ?r [] ?h) = Inr g3"
    and g': "g' = emitAt (currentAddr g) (BeginLoopIns greedy l mn mx (of_nat (currentAddr g3 + 5)))
        (append_code [EndLoopIns (of_nat (currentAddr g))] [] g3)"
    unfolding generateRepeat_def by (auto simp: Let_def then_gen_Inr r)
  obtain "is" ms where c: "layout (direction g) p (currentAddr g + 14 + isize ?r) (length (gen_matchers g)) is ms"
      "g3 = append_code is ms (append_code ?r [] ?h)"
    by (rule generatesD [OF assms(1) g3]) simp_all
  have "g' = append_code (BeginLoopIns greedy l mn mx (of_nat (currentAddr g + 14 + isize ?r + isize is + 5))
      # ?r @ is @ [EndLoopIns (of_nat (currentAddr g))]) ms g"
    using g' c(2) emitAt_patch [of _ 14 g] by simp
  with lay_repeat [OF c(1)] show ?thesis by blast
qed

lemma append_code_directions:
  "append_code is ms (g\<lparr>gen_directions := ds\<rparr>) = (append_code is ms g)\<lparr>gen_directions := ds\<rparr>"
  by (simp add: append_code_def)

lemma generateLookAround_layout:
  assumes "generates p" "generateLookAround generate ty p g = Inr g'"
  shows "\<exists>is ms. layout (direction g) (LookAroundNode ty p) (currentAddr g) (length (gen_matchers g)) is ms \<and>
    g' = append_code is ms g"
proof -
  let ?h = "hole 6 g"
  let ?d = "?h\<lparr>gen_directions := gen_directions g @ [isLookAhead ty]\<rparr>"
  from assms(2) obtain g2 where g2: "generate p ?d = Inr g2"
    and g': "g' = emitAt (currentAddr g) (BeginLookAroundIns (isNegate ty)
        (of_nat (currentAddr (g2\<lparr>gen_directions := butlast (gen_directions g2)\<rparr>))))
        (append_code [EndLookAroundIns] [] (g2\<lparr>gen_directions := butlast (gen_directions g2)\<rparr>))"
    by (auto simp: generateLookAround_def Let_def then_gen_Inr)
  have d: "direction ?d = isLookAhead ty" "currentAddr ?d = currentAddr g + 6"
    by (simp_all add: direction_def currentAddr_def hole_def)
  obtain "is" ms where c: "layout (isLookAhead ty) p (currentAddr g + 6) (length (gen_matchers g)) is ms"
      "g2 = append_code is ms ?d"
    by (rule generatesD [OF assms(1) g2]) (simp_all add: d)
  have "g2\<lparr>gen_directions := butlast (gen_directions g2)\<rparr> = append_code is ms ?h"
    unfolding c(2) append_code_directions by (simp add: append_code_def hole_def)
  with g' have "g' = append_code (BeginLookAroundIns (isNegate ty) (of_nat (currentAddr g + 6 + isize is))
      # is @ [EndLookAroundIns]) ms g"
    using emitAt_patch [of _ 6 g] by simp
  with lay_look [OF c(1)] show ?thesis by blast
qed

lemma generateStrSet_layout:
  assumes "\<forall>c. chars = Some c \<longrightarrow> generates c" "generateStrSet generate raw radix chars g = Inr g'"
  shows "\<exists>is ms. layout (direction g) (StrSetNode raw radix chars) (currentAddr g) (length (gen_matchers g)) is ms \<and>
    g' = append_code is ms g"
proof -
  let ?mi = "length (gen_matchers g)" and ?e = "strset_emoji_flags raw" and ?fwd = "direction g"
  let ?prep = "if radix_empty radix then Inr (None, g)
     else case radix_serialize radix of
       None \<Rightarrow> Inl (GenError ''too large string set'')
     | Some buf \<Rightarrow>
         (case emitMatcher (mkRadixMatcher buf (of_nat (maxCodePointCount radix))) g of
            Inl e \<Rightarrow> Inl e
          | Inr (index, g') \<Rightarrow> Inr (Some index, g'))"
  obtain ri g1 where p: "?prep = Inr (ri, g1)"
    using assms(2) unfolding generateStrSet_def Let_def by (cases ?prep) auto
  define index where "index = (case ri of Some i \<Rightarrow> i | None \<Rightarrow> 0)"
  have "\<exists>rms. strset_matchers ?mi radix rms index \<and> g1 = append_code [] rms g \<and> (ri \<noteq> None \<longleftrightarrow> \<not> radix_empty radix)"
    using p by (auto simp: strset_matchers_def emitMatcher_append index_def split: if_splits option.splits sum.splits)
  then obtain rms where m: "strset_matchers ?mi radix rms index" "g1 = append_code [] rms g"
    and r: "ri \<noteq> None \<longleftrightarrow> \<not> radix_empty radix" by blast
  define g3 where "g3 = hole 6 (append_code [prepare_inst ?fwd] rms g)"
  have g3: "direction g3 = ?fwd" "currentAddr g3 = currentAddr g + 7" "length (gen_matchers g3) = ?mi + length rms"
    by (simp_all add: g3_def)
  have prep1: "emit (if inLookBehind g1 then PrepareLBRadixIns else PrepareRadixIns) g1 =
      append_code [prepare_inst ?fwd] rms g"
    by (simp add: m(2) inLookBehind_def prepare_inst_def)
  have "then_gen (case chars of None \<Rightarrow> Inr g3 | Some c \<Rightarrow> generate c g3) (\<lambda>g4.
      Inr (emitAt (currentAddr g + 1) ((if inLookBehind g4 then LBRadixOrEmojiIns else RadixOrEmojiIns) ?e
        (ri \<noteq> None) index (of_nat (currentAddr g4 - currentAddr g3))) g4)) = Inr g'"
    using assms(2) unfolding generateStrSet_def Let_def p sum.case prod.case prep1 index_def g3_def
      strset_emoji_flags_def [symmetric] by simp
  then obtain g4 where g4: "(case chars of None \<Rightarrow> Inr g3 | Some c \<Rightarrow> generate c g3) = Inr g4"
    and "g' = emitAt (currentAddr g + 1) ((if inLookBehind g4 then LBRadixOrEmojiIns else RadixOrEmojiIns) ?e
        (ri \<noteq> None) index (of_nat (currentAddr g4 - currentAddr g3))) g4"
    unfolding then_gen_Inr by blast
  then have g': "g' = emitAt (currentAddr g + 1) (radix_inst (direction g4) ?e (\<not> radix_empty radix) index
        (of_nat (currentAddr g4 - currentAddr g3))) g4"
    unfolding r by (simp add: inLookBehind_def radix_inst_def)
  have final: "g' = append_code (prepare_inst ?fwd # radix_inst ?fwd ?e (\<not> radix_empty radix) index
      (of_nat (isize is)) # is) (rms @ ms) g" if "g4 = append_code is ms g3" for "is" ms
    using g' that emitAt_patch [of _ 6 "append_code [prepare_inst ?fwd] rms g"] by (simp add: g3_def)
  show ?thesis
  proof (cases chars)
    case None
    with g4 final [of "[]" "[]"] have "g' = append_code [prepare_inst ?fwd,
        radix_inst ?fwd ?e (\<not> radix_empty radix) index 0] rms g" by simp
    with None lay_strings [OF m(1)] show ?thesis by blast
  next
    case (Some c)
    with g4 have gc: "generate c g3 = Inr g4" by simp
    obtain "is" ms where c: "layout ?fwd c (currentAddr g + 7) (?mi + length rms) is ms" "g4 = append_code is ms g3"
      by (rule generatesD [OF _ gc]) (use assms(1) Some g3 in simp_all)
    from lay_strset [OF m(1) c(1)] final [OF c(2)] Some show ?thesis by blast
  qed
qed

lemma generateLeaf_layout:
  assumes "generateLeaf n g = Inr g'"
  shows "\<exists>is ms. layout (direction g) n (currentAddr g) (length (gen_matchers g)) is ms \<and> g' = append_code is ms g"
proof -
  from assms obtain i where "leaf_inst (direction g) n = Some i" "g' = append_code [i] [] g"
    by (auto simp: generateLeaf_def split: option.splits)
  with lay_leaf show ?thesis by blast
qed

lemma generateCharSet_layout:
  assumes "generateCharSet invert ic owned s g = Inr g'"
  shows "\<exists>is ms. layout (direction g) (CharSetNode invert ic owned s) (currentAddr g) (length (gen_matchers g)) is ms \<and>
    g' = append_code is ms g"
proof -
  let ?mi = "length (gen_matchers g)"
  from assms have mi: "?mi \<le> 0xFFFF"
    and g': "g' = append_code [charset_inst (direction g) invert ic (of_nat ?mi)] [charset_matcher owned s] g"
    by (auto simp: generateCharSet_def emitMatcher_append charset_inst_def charset_matcher_def inLookBehind_def
        Let_def split: sum.splits)
  from lay_set [OF mi] g' show ?thesis by blast
qed

lemma generate_layout: "generates n"
proof (induction n)
  case EmptyNode
  have "layout (direction g) EmptyNode (currentAddr g) (length (gen_matchers g)) [] [] \<and> g = append_code [] [] g" for g
    by (simp add: lay_empty)
  then show ?case unfolding generates_def generate.simps by blast
next
  case (SeqNode ps)
  have "\<exists>is ms. layout (direction g) (SeqNode ps) (currentAddr g) (length (gen_matchers g)) is ms \<and>
      g' = append_code is ms g" if "generate (SeqNode ps) g = Inr g'" for g g'
  proof -
    let ?ps = "if direction g then ps else rev ps"
    have "\<forall>p\<in>set ?ps. generates p" "generateSeq_walk generate ?ps g = Inr g'"
      using SeqNode that by (simp_all add: generateSeq_def)
    from generateSeq_walk_layout [OF this] show ?thesis using lay_seqnode by blast
  qed
  then show ?case by (simp add: generates_def)
next
  case (StrSetNode raw radix chars)
  then have "\<forall>c. chars = Some c \<longrightarrow> generates c" by auto
  then show ?case unfolding generates_def [of "StrSetNode raw radix chars"] generate.simps
    using generateStrSet_layout by blast
qed (simp_all add: generates_def [of "AnyNode _"] generates_def [of "CharNode _"]
    generates_def [of "CharClassNode _ _ _ _"] generates_def [of "PropertyNode _ _"]
    generates_def [of "BoundaryNode _ _"] generates_def [of "BackRefNode _ _ _"]
    generates_def [of "RepeatNode _ _ _ _ _ _ _"] generates_def [of "AltNode _"]
    generates_def [of "LookAroundNode _ _"] generates_def [of "GroupNode _ _ _ _ _"]
    generates_def [of "FoldCharNode _"] generates_def [of "CharSetNode _ _ _ _"]
    generateLeaf_layout generateCharSet_layout generateRepeat_layout generateAlt_layout
    generateLookAround_layout generateGroup_layout)

section \<open>Properties\<close>

lemma codegen_layout_aux:
  assumes "codegen env tree = Inr r"
  shows "\<exists>is. layout True (tree_pattern tree) 0 0 is (regex_matchers r) \<and>
    regex_instSeq r = encode_all (is @ [MatchIns])"
proof -
  let ?g = "\<lparr>gen_buf = [], gen_matchers = [], gen_directions = [True]\<rparr>"
  from assms obtain g where g: "generate (tree_pattern tree) ?g = Inr g" "regex_matchers r = gen_matchers g"
      "regex_instSeq r = gen_buf (emit MatchIns g)"
    by (auto simp: codegen_def Let_def split: sum.splits)
  from generatesD [OF generate_layout g(1)] obtain "is" ms
    where "layout True (tree_pattern tree) 0 0 is ms" "g = append_code is ms ?g"
    by (auto simp: direction_def currentAddr_def)
  with g(2,3) show ?thesis by auto
qed

text \<open>C16. The code generator implements the layout: when it succeeds, the instruction sequence is the
  encoding of the layout of the pattern at address 0, with every forward branch (reserved first and
  patched later) pointing to where the layout says, followed by \<open>Match\<close>; the matchers are those of
  the layout, in order.\<close>

theorem codegen_layout:
  assumes "codegen env tree = Inr r"
  shows "\<exists>is. layout True (tree_pattern tree) 0 0 is (regex_matchers r) \<and>
    regex_instSeq r = encode_all (is @ [MatchIns])"
  using assms by (rule codegen_layout_aux)

text \<open>The pattern \<open>(ab|.)*\<close>, whose code has every kind of branch.\<close>

definition sample_node :: node where
  "sample_node = RepeatNode 0 0 REPEAT_UNLIMIT True 1 1
     (GroupNode G_CAPTURE 1 0 0 (AltNode [SeqNode [CharNode 97, CharNode 98], AnyNode 0]))"

definition sample_tree :: SyntaxTree where
  "sample_tree = \<lparr>tree_flag = \<lparr>flag_mode = UNICODE, flag_modifiers = 0\<rparr>, tree_loopCount = 1,
     tree_captureGroupCount = 1, tree_pattern = sample_node,
     tree_namedCaptureGroups = \<lparr>offsetMap = Map.empty, entries = []\<rparr>\<rparr>"

lemma generate_sample:
  "generate sample_node \<lparr>gen_buf = [], gen_matchers = [], gen_directions = [True]\<rparr> =
    Inr (append_code [BeginLoopIns True 0 0 REPEAT_UNLIMIT 44, ResetCapturesIns 1 1, BeginCaptureIns 1, AltIns 35,
      StringIns 0, JumpIns 36, AnyExceptNLIns, EndCaptureIns 1, EndLoopIns 0]
      [mkStringMatcher [97, 98]] \<lparr>gen_buf = [], gen_matchers = [], gen_directions = [True]\<rparr>)"
  by (simp add: sample_node_def generateRepeat_def generateGroup_def generateAlt_def generateSeq_def
      generateSeq_walk.simps generateString_def generateLeaf_def then_gen_def Let_def emitMatcher_def isa_CharNode_def
      isa_EmptyNode_def direction_def inLookBehind_def currentAddr_def emitAt_def append_code_def hole_def any_inst_def
      codePointToUtf8_def isCodePoint_def CODE_POINT_MAX_def hasFlag_def encode_def inst_size_def isize_def)

theorem codegen_layout_witness:
  "\<forall>env. \<exists>r is. codegen env sample_tree = Inr r \<and> layout True sample_node 0 0 is (regex_matchers r) \<and>
     regex_instSeq r = encode_all (is @ [MatchIns])"
proof
  fix env
  obtain r where "codegen env sample_tree = Inr r"
    using generate_sample by (simp add: codegen_def sample_tree_def Let_def)
  with codegen_layout [OF this]
  show "\<exists>r is. codegen env sample_tree = Inr r \<and> layout True sample_node 0 0 is (regex_matchers r) \<and>
     regex_instSeq r = encode_all (is @ [MatchIns])" by (auto simp: sample_tree_def)
qed

text \<open>Trees as \<open>transform\<close> leaves them.\<close>

fun lowered :: "node \<Rightarrow> bool" where
  "lowered (CharClassNode _ _ _ _) \<longleftrightarrow> False"
| "lowered (PropertyNode t _) \<longleftrightarrow> getNormalizedType t = P_GRAPHEME"
| "lowered (RepeatNode _ _ _ _ _ _ p) \<longleftrightarrow> lowered p"
| "lowered (SeqNode ps) \<longleftrightarrow> list_all lowered ps"
| "lowered (AltNode ps) \<longleftrightarrow> list_all lowered ps"
| "lowered (LookAroundNode _ p) \<longleftrightarrow> lowered p"
| "lowered (GroupNode t _ _ _ p) \<longleftrightarrow> t = G_CAPTURE \<and> lowered p"
| "lowered (StrSetNode _ _ c) \<longleftrightarrow> (case c of None \<Rightarrow> True | Some p \<Rightarrow> lowered p)"
| "lowered _ \<longleftrightarrow> True"

lemma generateSeq_walk_not_fatal:
  "(\<And>p g. p \<in> set ps \<Longrightarrow> gen p g \<noteq> Inl GenFatal) \<Longrightarrow> generateSeq_walk gen ps g \<noteq> Inl GenFatal"
proof (induction "length ps" arbitrary: ps g rule: less_induct)
  case less
  have str: "generateString buf g \<noteq> Inl GenFatal" for buf
    by (auto simp: generateString_def emitMatcher_def Let_def)
  show ?case
  proof (cases ps)
    case Nil
    then show ?thesis by (simp add: generateSeq_walk.simps)
  next
    case (Cons p rest)
    let ?d = "dropWhile isa_CharNode rest"
    have d: "generateSeq_walk gen ?d g' \<noteq> Inl GenFatal" for g'
      using less Cons set_dropWhileD by (metis le_imp_less_Suc length_Cons length_dropWhile_le list.set_intros(2))
    have r: "generateSeq_walk gen rest g' \<noteq> Inl GenFatal" for g' using less Cons by simp
    show ?thesis unfolding Cons generateSeq_walk.simps [of gen "p # rest"]
      using d r str less.prems [of p] Cons
      by (auto simp: then_gen_def Let_def split: sum.splits)
  qed
qed

lemma generateAlt_loop_not_fatal:
  "(\<And>p g. p \<in> set ps \<Longrightarrow> gen p g \<noteq> Inl GenFatal) \<Longrightarrow> generateAlt_loop gen ps js g \<noteq> Inl GenFatal"
proof (induction ps arbitrary: js g rule: induct_list012)
  case (3 p q rest)
  then have "generateAlt_loop gen (q # rest) js' g' \<noteq> Inl GenFatal" for js' g' by simp
  with "3.prems" [of p] show ?case by (auto simp: split_beta Let_def split: sum.split)
qed (auto split: sum.split)

text \<open>The branches marked unreachable in the generator are: on a lowered tree (no character class, no
  property but the grapheme cluster, only capturing groups) generation never ends in \<open>fatal\<close>.\<close>

lemma generate_not_fatal:
  assumes "lowered n"
  shows "generate n g \<noteq> Inl GenFatal"
  using assms
proof (induction n arbitrary: g)
  case (SeqNode ps)
  then have "\<And>p g. p \<in> set ps \<Longrightarrow> generate p g \<noteq> Inl GenFatal" by (auto simp: list_all_iff)
  then show ?case
    using generateSeq_walk_not_fatal [of ps generate g] generateSeq_walk_not_fatal [of "rev ps" generate g]
    by (simp add: generateSeq_def)
next
  case (AltNode ps)
  then have "generateAlt_loop generate ps [] g \<noteq> Inl GenFatal"
    by (intro generateAlt_loop_not_fatal) (auto simp: list_all_iff)
  moreover have "generate (hd ps) g' \<noteq> Inl GenFatal" if "length ps = 1" for g'
    using AltNode that by (cases ps) (auto simp: list_all_iff)
  ultimately show ?case by (auto simp: generateAlt_def then_gen_def split: sum.splits)
next
  case (StrSetNode raw radix chars)
  then have "\<forall>c g. chars = Some c \<longrightarrow> generate c g \<noteq> Inl GenFatal" by (auto split: option.splits)
  then show ?case
    by (auto simp: generateStrSet_def emitMatcher_def then_gen_def Let_def split: option.splits sum.splits if_splits)
qed (auto simp: generateLeaf_def generateCharSet_def emitMatcher_def generateRepeat_def then_gen_def Let_def
    generateLookAround_def generateGroup_def split: option.splits sum.splits GroupType.splits)

text \<open>Small sets become bit sets without changing membership.\<close>

lemma foldl_ascii_add:
  "0 \<le> f \<Longrightarrow> l \<le> 127 \<Longrightarrow> ascii_contains (foldl ascii_add a [f..l]) c \<longleftrightarrow> ascii_contains a c \<or> (f \<le> c \<and> c \<le> l)"
proof (induction "nat (l + 1 - f)" arbitrary: f a)
  case 0
  then show ?case by auto
next
  case (Suc n)
  then have "[f..l] = f # [f + 1..l]" by (simp add: upto_rec1)
  with Suc ascii_contains_add [of f a c] Suc.hyps(1) [of "f + 1" "ascii_add a f"] show ?case by auto
qed

lemma tryToGenerateAsciiSet_fold:
  fixes rs :: "BMPCodePointRange list"
  defines "stp \<equiv> (\<lambda>r e. case r of None \<Rightarrow> None
        | Some s \<Rightarrow>
            if withinAsciiSet (uint (firstBMP e)) \<and> withinAsciiSet (uint (lastBMP e))
            then Some (foldl ascii_add s [uint (firstBMP e)..uint (lastBMP e)])
            else None)"
  assumes "foldl stp (Some s) rs = Some a"
  shows "(ascii_contains a c \<longleftrightarrow> ascii_contains s c \<or> (\<exists>r\<in>set rs. uint (firstBMP r) \<le> c \<and> c \<le> uint (lastBMP r)))
    \<and> (\<forall>r\<in>set rs. 8 \<le> uint (firstBMP r))"
  using assms(2)
proof (induction rs arbitrary: s)
  case (Cons r rs)
  have none: "foldl stp None xs = None" for xs by (induction xs) (simp_all add: stp_def)
  have w: "8 \<le> uint (firstBMP r)" "uint (lastBMP r) \<le> 127"
    using Cons.prems none by (auto simp: stp_def withinAsciiSet_def split: if_splits)
  then have "foldl stp (Some (foldl ascii_add s [uint (firstBMP r)..uint (lastBMP r)])) rs = Some a"
    using Cons.prems none by (auto simp: stp_def split: if_splits)
  from Cons.IH [OF this] foldl_ascii_add [of "uint (firstBMP r)" "uint (lastBMP r)" s c] w show ?case by auto
qed simp

lemma charset_contains_aux:
  assumes "set_wf s" "set_fits s"
  shows "matcher_contains (charset_matcher owned s) c \<longleftrightarrow> set_contains s c"
proof (cases "tryToGenerateAsciiSet s")
  case None
  then show ?thesis
    using mkSetMatcher_ref [OF assms(2)] by (simp add: charset_matcher_def matcher_contains_def)
next
  case (Some a)
  then have sz: "getSize s = set_bmpSize s" by (simp add: tryToGenerateAsciiSet_def split: if_splits)
  then have p: "set_points s = (\<Union>r\<in>set (getBMPRanges s). {uint (firstBMP r)..uint (lastBMP r)})"
    by (simp add: set_points_def getPackedNonBMPRanges_def getNonBMPRanges_def getSize_def)
  have "(ascii_contains a c \<longleftrightarrow> (\<exists>r\<in>set (getBMPRanges s). uint (firstBMP r) \<le> c \<and> c \<le> uint (lastBMP r)))
    \<and> (\<forall>r\<in>set (getBMPRanges s). 8 \<le> uint (firstBMP r))"
    using tryToGenerateAsciiSet_fold [of empty_ascii "getBMPRanges s" a c] Some sz
    by (simp add: tryToGenerateAsciiSet_def)
  with p set_contains_iff_aux [OF assms(1), of c] Some show ?thesis
    unfolding charset_matcher_def by (fastforce simp: mkAsciiMatcher_contains)
qed

text \<open>C17. The choice of the matcher for a character set does not change what it matches: whether the
  set is packed as a bit set of ASCII characters or kept as ranges, membership is that of the set.\<close>

theorem charset_matcher_contains:
  assumes "set_wf s" "set_fits s"
  shows "matcher_contains (charset_matcher owned s) c \<longleftrightarrow> set_contains s c"
  using assms by (rule charset_contains_aux)

theorem charset_matcher_contains_witness:
  "matcher_contains (charset_matcher True \<lparr>set_ptr = [mkBMPCodePointRange 0x61 0x7A], set_bmpSize = 1,
      set_packedNonBmpSize = 0\<rparr>) 0x6B"
proof -
  let ?s = "\<lparr>set_ptr = [mkBMPCodePointRange 0x61 0x7A], set_bmpSize = 1, set_packedNonBmpSize = 0\<rparr>"
  have wf: "set_wf ?s" by (simp add: set_wf_def getBMPRanges_def getPackedNonBMPRanges_def getNonBMPRanges_def
      mkBMPCodePointRange_def firstBMP_def lastBMP_def)
  have "set_contains ?s 0x6B"
    by (subst set_contains_iff_aux [OF wf]) (simp add: set_points_def getBMPRanges_def getPackedNonBMPRanges_def
      getNonBMPRanges_def mkBMPCodePointRange_def firstBMP_def lastBMP_def)
  with charset_matcher_contains [OF wf] show ?thesis by (simp add: set_fits_def getSize_def)
qed

end
