(* ===== verification/Regex_Input.thy ===== *)
theory Regex_Input
  imports Utf8
begin

text \<open>
  \<open>regex/input.h\<close>: the cursor over the text that is matched. A pointer into the text is its byte
  offset. Forward and backward reading skip validation, which \<open>Input::create\<close> has done once; the
  lemmas relate both to a list of code points of which the text is the encoding.
\<close>

section \<open>Reading without validation\<close>

definition unsafeNextUtf8 :: "bytes \<Rightarrow> nat \<Rightarrow> int \<times> nat" where
  "unsafeNextUtf8 text iter =
     (let b = text ! iter in
      if b < 128 then (uint b, iter + 1)
      else (let len = utf8ByteSize b;
                codePoint =
                  (if len = 2 then decode2 (text ! iter) (text ! (iter + 1))
                   else if len = 3 then decode3 (text ! iter) (text ! (iter + 1)) (text ! (iter + 2))
                   else decode4 (text ! iter) (text ! (iter + 1)) (text ! (iter + 2)) (text ! (iter + 3)))
            in (uint codePoint, iter + len)))"

definition unsafeNextUtf8Noreturn :: "bytes \<Rightarrow> nat \<Rightarrow> nat" where
  "unsafeNextUtf8Noreturn text iter = iter + utf8ByteSize (text ! iter)"

text \<open>The loop of \<open>unsafePrevUtf8\<close>; the masks take the payload of the leading byte. The first
  equation is never reached on valid text.\<close>

definition prev_masks :: "u32 list" where
  "prev_masks = [0xFF, 0x1F, 0x0F, 0x07]"

fun prev_loop :: "bytes \<Rightarrow> nat \<Rightarrow> u32 \<Rightarrow> nat \<Rightarrow> u32 \<times> nat" where
  "prev_loop text 0 codePoint shift = (codePoint, 0)"
| "prev_loop text (Suc iter) codePoint shift =
     (let b = text ! iter; len = utf8ByteSize b in
      if len = 0
      then prev_loop text iter (codePoint OR push_bit shift (u32_of b AND 0x3F)) (shift + 6)
      else (codePoint OR push_bit shift (u32_of b AND prev_masks ! (len - 1)), iter))"

definition unsafePrevUtf8 :: "bytes \<Rightarrow> nat \<Rightarrow> int \<times> nat" where
  "unsafePrevUtf8 text iter = (let (codePoint, iter') = prev_loop text iter 0 0 in (sint codePoint, iter'))"

definition unsafeRemovePrefixUtf8 :: "bytes \<Rightarrow> bytes" where
  "unsafeRemovePrefixUtf8 ref = drop (utf8ByteSize (ref ! 0)) ref"

definition unsafeRemoveSuffixUtf8 :: "bytes \<Rightarrow> bytes" where
  "unsafeRemoveSuffixUtf8 ref = take (snd (unsafePrevUtf8 ref (length ref))) ref"

section \<open>Input\<close>

record Input =
  input_text :: bytes
  input_iter :: nat

definition INPUT_MAX :: nat where
  "INPUT_MAX = 2 ^ 32 - 1"

datatype InputError = TOO_LARGE | INVALID_UTF8

text \<open>The loop of \<open>Input::create\<close> from \<open>iter\<close> to the end; the result is \<open>offset\<close>.\<close>

function create_loop :: "bytes \<Rightarrow> nat \<Rightarrow> nat \<Rightarrow> nat \<Rightarrow> nat option" where
  "create_loop s count offset codePointOffset =
     (if s = [] then Some offset
      else (let len = wtf8ValidateChar s in
            if len \<noteq> 0
            then create_loop (drop len s) (count + 1)
                   (if count < codePointOffset then offset + len else offset) codePointOffset
            else None))"
  by pat_completeness auto
termination
  by (relation "measure (\<lambda>(s, count, offset, codePointOffset). length s)") auto

declare create_loop.simps [simp del]

definition input_create :: "bytes \<Rightarrow> nat \<Rightarrow> InputError + Input" where
  "input_create text codePointOffset =
     (if length text > INPUT_MAX then Inl TOO_LARGE
      else case create_loop text 0 0 codePointOffset of
        None \<Rightarrow> Inl INVALID_UTF8
      | Some offset \<Rightarrow> Inr \<lparr>input_text = text, input_iter = offset\<rparr>)"

definition input_available :: "Input \<Rightarrow> bool" where
  "input_available i \<longleftrightarrow> input_iter i \<noteq> length (input_text i)"

definition availableBackward :: "Input \<Rightarrow> bool" where
  "availableBackward i \<longleftrightarrow> input_iter i \<noteq> 0"

definition isBegin :: "Input \<Rightarrow> bool" where
  "isBegin i \<longleftrightarrow> input_iter i = 0"

definition isEnd :: "Input \<Rightarrow> bool" where
  "isEnd i \<longleftrightarrow> input_iter i = length (input_text i)"

definition setIter :: "Input \<Rightarrow> nat \<Rightarrow> Input" where
  "setIter i old = i\<lparr>input_iter := old\<rparr>"

text \<open>\<open>getOffset\<close> is an \<open>unsigned int\<close>.\<close>

definition getOffset :: "Input \<Rightarrow> u32" where
  "getOffset i = of_nat (input_iter i)"

definition input_cur :: "Input \<Rightarrow> int" where
  "input_cur i = fst (unsafeNextUtf8 (input_text i) (input_iter i))"

definition consumeForward :: "Input \<Rightarrow> int \<times> Input" where
  "consumeForward i = (let (cp, it) = unsafeNextUtf8 (input_text i) (input_iter i) in (cp, setIter i it))"

definition input_prev :: "Input \<Rightarrow> int" where
  "input_prev i = fst (unsafePrevUtf8 (input_text i) (input_iter i))"

definition consumeBackward :: "Input \<Rightarrow> int \<times> Input" where
  "consumeBackward i = (let (cp, it) = unsafePrevUtf8 (input_text i) (input_iter i) in (cp, setIter i it))"

definition remainForward :: "Input \<Rightarrow> bytes" where
  "remainForward i = drop (input_iter i) (input_text i)"

fun skip_forward :: "bytes \<Rightarrow> nat \<Rightarrow> nat \<Rightarrow> nat" where
  "skip_forward text 0 cur = cur"
| "skip_forward text (Suc n) cur =
     (if cur < length text then skip_forward text n (cur + utf8ByteSize (text ! cur)) else cur)"

definition remainForwardOfCodePoints :: "Input \<Rightarrow> nat \<Rightarrow> bytes" where
  "remainForwardOfCodePoints i codePointCount =
     slice (input_text i) (input_iter i) (skip_forward (input_text i) codePointCount (input_iter i))"

definition expectForward :: "Input \<Rightarrow> bytes \<Rightarrow> Input option" where
  "expectForward i needle =
     (if startsWith (remainForward i) needle then Some (setIter i (input_iter i + length needle)) else None)"

definition remainBackward :: "Input \<Rightarrow> bytes" where
  "remainBackward i = take (input_iter i) (input_text i)"

fun skip_backward :: "bytes \<Rightarrow> nat \<Rightarrow> nat \<Rightarrow> nat" where
  "skip_backward text 0 cur = cur"
| "skip_backward text (Suc n) cur =
     (if cur > 0 then skip_backward text n (snd (unsafePrevUtf8 text cur)) else cur)"

definition remainBackwardOfCodePoints :: "Input \<Rightarrow> nat \<Rightarrow> bytes" where
  "remainBackwardOfCodePoints i codePointCount =
     slice (input_text i) (skip_backward (input_text i) codePointCount (input_iter i)) (input_iter i)"

definition expectBackward :: "Input \<Rightarrow> bytes \<Rightarrow> Input option" where
  "expectBackward i needle =
     (if endsWith (remainBackward i) needle then Some (setIter i (input_iter i - length needle)) else None)"

section \<open>Text as code points\<close>

text \<open>The encoding of a list of code points, and the byte offset of a position in it.\<close>

definition text_of :: "int list \<Rightarrow> bytes" where
  "text_of cps = concat (map codePointToUtf8 cps)"

definition offset_of :: "int list \<Rightarrow> nat \<Rightarrow> nat" where
  "offset_of cps k = length (text_of (take k cps))"

lemma text_of_simps [simp]:
  "text_of [] = []" "text_of (c # cs) = codePointToUtf8 c @ text_of cs"
  "text_of (cs @ ds) = text_of cs @ text_of ds"
  by (simp_all add: text_of_def)

lemma encode_nonempty: "isCodePoint c \<Longrightarrow> codePointToUtf8 c \<noteq> []"
  using encode_validate(2) [of c True] by auto

lemma decode_at:
  assumes "isCodePoint c"
  shows "wtf8ToCodePoint (codePointToUtf8 c @ rest) = (length (codePointToUtf8 c), c)"
  using encode_decode [OF assms, of True] by simp

text \<open>The leading byte tells the length, the others are continuation bytes.\<close>

lemma byteSize_encoded:
  assumes "isCodePoint c"
  shows "utf8ByteSize (codePointToUtf8 c ! 0) = length (codePointToUtf8 c)"
    "\<And>i. 0 < i \<Longrightarrow> i < length (codePointToUtf8 c) \<Longrightarrow> utf8ByteSize (codePointToUtf8 c ! i) = 0"
proof -
  have v: "wtf8ValidateChar (codePointToUtf8 c) = length (codePointToUtf8 c)"
    using encode_validate(1) [OF assms, of True "[]"] by simp
  have n: "length (codePointToUtf8 c) \<noteq> 0" using encode_nonempty [OF assms] by simp
  show "utf8ByteSize (codePointToUtf8 c ! 0) = length (codePointToUtf8 c)"
    "\<And>i. 0 < i \<Longrightarrow> i < length (codePointToUtf8 c) \<Longrightarrow> utf8ByteSize (codePointToUtf8 c ! i) = 0"
    using validate_byteSize(2,4) [OF v n] by blast+
qed

lemma next_decode:
  assumes "wtf8ToCodePoint (drop i text) = (k, cp)" "k \<noteq> 0"
  shows "unsafeNextUtf8 text i = (cp, i + k)"
proof -
  have v: "wtf8ValidateChar (drop i text) = k" using assms(1) by (simp add: utf8ToCodePoint_def Let_def)
  note b = validate_byteSize [OF v assms(2)]
  have i: "i < length text" using b(1) by simp
  have n: "drop i text ! j = text ! (i + j)" if "j < k" for j using b(3) that i by simp
  have bs: "utf8ByteSize (text ! i) = k" using b(2) n [of 0] assms(2) by simp
  have k4: "k \<in> {1, 2, 3, 4}" using bs assms(2) by (auto simp: utf8ByteSize_nat split: if_splits)
  have lt: "text ! i < 128 \<longleftrightarrow> k = 1"
    using bs assms(2) unfolding utf8ByteSize_nat word_less_nat_alt by (auto split: if_splits)
  have "cp = snd (wtf8ToCodePoint (drop i text))" using assms(1) by simp
  then show ?thesis using k4 lt bs n v
    by (auto simp: unsafeNextUtf8_def Let_def utf8ToCodePoint_def)
qed

lemma next_encoded:
  assumes "isCodePoint c"
  shows "unsafeNextUtf8 (pre @ codePointToUtf8 c @ post) (length pre) =
    (c, length pre + length (codePointToUtf8 c))"
  using next_decode [of "length pre" "pre @ codePointToUtf8 c @ post"] decode_at [OF assms, of post]
    encode_nonempty [OF assms] by simp

lemma prev_encoded_word:
  assumes "isCodePoint c"
  shows "prev_loop (pre @ codePointToUtf8 c @ post) (length pre + length (codePointToUtf8 c)) 0 0 =
    (word_of_int c, length pre)"
proof -
  define e where "e = codePointToUtf8 c"
  define tx where "tx = pre @ e @ post"
  note bs = byteSize_encoded [OF assms, folded e_def]
  have n: "tx ! (length pre + j) = e ! j" if "j < length e" for j
    using that by (simp add: tx_def nth_append)
  have k: "length e \<in> {1, 2, 3, 4}" using encode_validate(2) [OF assms, of True] by (auto simp: e_def)
  have d: "wtf8ToCodePoint e = (length e, c)" using decode_at [OF assms, of "[]"] by (simp add: e_def)
  then have c: "c = (if length e = 1 then uint (e ! 0)
      else if length e = 2 then uint (decode2 (e ! 0) (e ! 1))
      else if length e = 3 then uint (decode3 (e ! 0) (e ! 1) (e ! 2))
      else uint (decode4 (e ! 0) (e ! 1) (e ! 2) (e ! 3)))"
    using k by (auto simp: utf8ToCodePoint_def Let_def)
  have z: "utf8ByteSize (tx ! (length pre + j)) = 0" if "0 < j" "j < length e" for j
    using bs(2) that n by simp
  have f: "utf8ByteSize (tx ! length pre) = length e" using bs(1) n [of 0] k by (cases "e = []") auto
  have m8: "(0xFF :: u32) = mask 8" by code_simp
  have b255: "u32_of b AND 0xFF = u32_of b" for b :: byte
    unfolding m8 by (rule bit_word_eqI) (auto simp: bit_and_iff bit_mask_iff bit_ucast_iff dest: bit_imp_le_length)
  have L: "length pre + 2 = Suc (Suc (length pre))" "length pre + 3 = Suc (Suc (Suc (length pre)))"
    "length pre + 4 = Suc (Suc (Suc (Suc (length pre))))" by simp_all
  have z1: "1 < length e \<Longrightarrow> utf8ByteSize (tx ! Suc (length pre)) = 0"
    and z2: "2 < length e \<Longrightarrow> utf8ByteSize (tx ! Suc (Suc (length pre))) = 0"
    and z3: "3 < length e \<Longrightarrow> utf8ByteSize (tx ! Suc (Suc (Suc (length pre)))) = 0"
    using z [of 1] z [of 2] z [of 3] by (simp_all add: L)
  have n1: "1 < length e \<Longrightarrow> tx ! Suc (length pre) = e ! 1"
    and n2: "2 < length e \<Longrightarrow> tx ! Suc (Suc (length pre)) = e ! 2"
    and n3: "3 < length e \<Longrightarrow> tx ! Suc (Suc (Suc (length pre))) = e ! 3"
    using n [of 1] n [of 2] n [of 3] by (simp_all add: L)
  have n0: "0 < length e \<Longrightarrow> tx ! length pre = e ! 0" using n [of 0] by simp
  have "prev_loop tx (length pre + length e) 0 0 = (word_of_int c, length pre)"
  proof -
    consider "length e = 1" | "length e = 2" | "length e = 3" | "length e = 4" using k by auto
    then show ?thesis
    proof cases
      case 1
      with f n0 c show ?thesis by (simp add: Let_def prev_masks_def b255)
    next
      case 2
      with f z1 n0 n1 c show ?thesis
        by (simp add: L Let_def prev_masks_def decode2_def ac_simps)
    next
      case 3
      with f z1 z2 n0 n1 n2 c show ?thesis
        by (simp add: L Let_def prev_masks_def decode3_def ac_simps)
    next
      case 4
      with f z1 z2 z3 n0 n1 n2 n3 c show ?thesis
        by (simp add: L Let_def prev_masks_def decode4_def ac_simps)
    qed
  qed
  then show ?thesis unfolding tx_def e_def .
qed

lemma prev_encoded:
  assumes "isCodePoint c"
  shows "unsafePrevUtf8 (pre @ codePointToUtf8 c @ post) (length pre + length (codePointToUtf8 c)) =
    (c, length pre)"
  using assms unfolding unsafePrevUtf8_def prev_encoded_word [OF assms]
  by (simp add: code_point_defs signed_of_int signed_take_bit_int_eq_self)

section \<open>Positions\<close>

text \<open>Lists of code points that have an encoding (surrogates are allowed, as in WTF-8).\<close>

abbreviation code_points :: "int list \<Rightarrow> bool" where
  "code_points cps \<equiv> list_all isCodePoint cps"

lemma text_at:
  assumes "k < length cps"
  shows "text_of cps = text_of (take k cps) @ codePointToUtf8 (cps ! k) @ text_of (drop (Suc k) cps)"
  by (subst id_take_nth_drop [OF assms]) simp

lemma offset_Suc:
  assumes "k < length cps"
  shows "offset_of cps (Suc k) = offset_of cps k + length (codePointToUtf8 (cps ! k))"
  unfolding offset_of_def take_Suc_conv_app_nth [OF assms] by simp

lemma offset_zero [simp]: "offset_of cps 0 = 0"
  by (simp add: offset_of_def)

lemma offset_all [simp]: "offset_of cps (length cps) = length (text_of cps)"
  by (simp add: offset_of_def)

lemma offset_less:
  assumes "code_points cps" "j < k" "k \<le> length cps"
  shows "offset_of cps j < offset_of cps k"
  using assms(2,3)
proof (induction k)
  case (Suc k)
  have "codePointToUtf8 (cps ! k) \<noteq> []"
    using encode_nonempty assms(1) Suc.prems by (simp add: list_all_length)
  then have "offset_of cps k < offset_of cps (Suc k)" using offset_Suc [of k cps] Suc.prems by simp
  with Suc show ?case by (cases "j = k") auto
qed simp

lemma offset_eq:
  assumes "code_points cps" "j \<le> length cps" "k \<le> length cps"
  shows "offset_of cps j = offset_of cps k \<longleftrightarrow> j = k"
  using offset_less [OF assms(1)] assms(2,3) by (metis less_irrefl nat_neq_iff)

lemma offset_le:
  assumes "code_points cps" "j \<le> k" "k \<le> length cps"
  shows "offset_of cps j \<le> offset_of cps k"
  using offset_less [OF assms(1), of j k] assms by (cases "j = k") auto

lemma offset_le_text:
  "code_points cps \<Longrightarrow> k \<le> length cps \<Longrightarrow> offset_of cps k \<le> length (text_of cps)"
  using offset_le [of cps k "length cps"] by simp

lemma next_at:
  assumes "code_points cps" "k < length cps"
  shows "unsafeNextUtf8 (text_of cps) (offset_of cps k) = (cps ! k, offset_of cps (Suc k))"
proof -
  have "isCodePoint (cps ! k)" using assms by (simp add: list_all_length)
  from next_encoded [OF this, of "text_of (take k cps)" "text_of (drop (Suc k) cps)"] show ?thesis
    unfolding text_at [OF assms(2), symmetric] offset_Suc [OF assms(2)] by (simp add: offset_of_def)
qed

lemma prev_at:
  assumes "code_points cps" "k < length cps"
  shows "unsafePrevUtf8 (text_of cps) (offset_of cps (Suc k)) = (cps ! k, offset_of cps k)"
proof -
  have "isCodePoint (cps ! k)" using assms by (simp add: list_all_length)
  from prev_encoded [OF this, of "text_of (take k cps)" "text_of (drop (Suc k) cps)"] show ?thesis
    unfolding text_at [OF assms(2), symmetric] offset_Suc [OF assms(2)] by (simp add: offset_of_def)
qed

lemma text_drop: "k \<le> length cps \<Longrightarrow> drop (offset_of cps k) (text_of cps) = text_of (drop k cps)"
  unfolding offset_of_def
  by (subst append_take_drop_id [of k cps, symmetric], subst text_of_simps(3)) simp

lemma text_take: "k \<le> length cps \<Longrightarrow> take (offset_of cps k) (text_of cps) = text_of (take k cps)"
  unfolding offset_of_def
  by (subst (2) append_take_drop_id [of k cps, symmetric], subst text_of_simps(3)) simp

text \<open>A byte-wise prefix of encoded text is a prefix of the code points.\<close>

lemma text_prefix:
  assumes "code_points ns" "code_points cps"
  shows "startsWith (text_of cps) (text_of ns) \<longleftrightarrow> startsWith cps ns"
proof
  show "startsWith (text_of cps) (text_of ns) \<Longrightarrow> startsWith cps ns"
    using assms
  proof (induction ns arbitrary: cps)
    case (Cons n ns)
    then obtain t where t: "text_of cps = codePointToUtf8 n @ text_of ns @ t"
      by (auto simp: startsWith_iff)
    have n: "isCodePoint n" using Cons.prems by simp
    obtain c cs where c: "cps = c # cs"
      using t encode_nonempty [OF n] by (cases cps) auto
    have cc: "isCodePoint c" using Cons.prems c by simp
    have "wtf8ToCodePoint (text_of cps) = (length (codePointToUtf8 n), n)"
      using decode_at [OF n] t by simp
    moreover have "wtf8ToCodePoint (text_of cps) = (length (codePointToUtf8 c), c)"
      using decode_at [OF cc] c by simp
    ultimately have "n = c" by simp
    then have "startsWith (text_of cs) (text_of ns)" using t c by (auto simp: startsWith_iff)
    with Cons.IH [of cs] Cons.prems c have "startsWith cs ns" by simp
    with c \<open>n = c\<close> show ?case by (auto simp: startsWith_iff)
  qed simp
next
  assume "startsWith cps ns"
  then show "startsWith (text_of cps) (text_of ns)" by (auto simp: startsWith_iff)
qed

lemma text_suffix_snoc:
  assumes "isCodePoint n" "isCodePoint c" "text_of (cs @ [c]) = t @ codePointToUtf8 n"
  shows "n = c \<and> text_of cs = t"
proof -
  have "unsafePrevUtf8 (text_of (cs @ [c])) (length (text_of (cs @ [c]))) = (n, length t)"
    using prev_encoded [OF assms(1), of t "[]"] unfolding assms(3) by simp
  moreover have "unsafePrevUtf8 (text_of (cs @ [c])) (length (text_of (cs @ [c]))) = (c, length (text_of cs))"
    using prev_encoded [OF assms(2), of "text_of cs" "[]"] by simp
  ultimately have "(n, length t) = (c, length (text_of cs))" by (metis (no_types))
  then have "n = c" "length t = length (text_of cs)" by blast+
  moreover have "text_of cs @ codePointToUtf8 c = t @ codePointToUtf8 n" using assms(3) by simp
  ultimately show ?thesis by (metis append_eq_append_conv)
qed

lemma text_suffix_imp:
  "endsWith (text_of cps) (text_of ns) \<Longrightarrow> code_points ns \<Longrightarrow> code_points cps \<Longrightarrow> endsWith cps ns"
proof (induction ns arbitrary: cps rule: rev_induct)
  case Nil
  show ?case by (simp add: endsWith_def)
next
  case (snoc n ns)
  obtain t where t: "text_of cps = t @ text_of (ns @ [n])"
    using snoc.prems(1) unfolding endsWith_iff by blast
  have n: "isCodePoint n" "code_points ns" using snoc.prems(2) by simp_all
  show ?case
  proof (cases cps rule: rev_cases)
    case Nil
    with t encode_nonempty [OF n(1)] show ?thesis by simp
  next
    case (snoc cs c)
    have c: "isCodePoint c" "code_points cs" using snoc snoc.prems(3) by simp_all
    have "text_of (cs @ [c]) = (t @ text_of ns) @ codePointToUtf8 n" using t snoc by simp
    then have e: "n = c" "text_of cs = t @ text_of ns"
      using text_suffix_snoc [OF n(1) c(1)] by blast+
    have "endsWith (text_of cs) (text_of ns)" unfolding endsWith_iff using e(2) by blast
    then have "endsWith cs ns" using snoc.IH n(2) c(2) by blast
    then obtain u where "cs = u @ ns" unfolding endsWith_iff by blast
    then have "cps = u @ (ns @ [n])" using snoc e(1) by simp
    then show ?thesis unfolding endsWith_iff by blast
  qed
qed

lemma text_suffix:
  assumes "code_points ns" "code_points cps"
  shows "endsWith (text_of cps) (text_of ns) \<longleftrightarrow> endsWith cps ns"
  using text_suffix_imp [OF _ assms] unfolding endsWith_iff by (metis text_of_simps(3))

section \<open>Validation\<close>

lemma create_loop_sound:
  assumes "create_loop s count offset off = Some r"
  shows "\<exists>cps. code_points cps \<and> s = text_of cps \<and> r = offset + offset_of cps (off - count)"
  using assms
proof (induction s count offset off rule: create_loop.induct)
  case (1 s count offset off)
  show ?case
  proof (cases "s = []")
    case True
    with "1.prems" show ?thesis
      by (intro exI [of _ "[]"]) (simp add: create_loop.simps offset_of_def)
  next
    case False
    let ?len = "wtf8ValidateChar s"
    from "1.prems" False have len: "?len \<noteq> 0"
      and r: "create_loop (drop ?len s) (count + 1) (if count < off then offset + ?len else offset) off = Some r"
      by (auto simp: create_loop.simps [of s] Let_def split: if_splits)
    obtain cps where cps: "code_points cps" "drop ?len s = text_of cps"
      "r = (if count < off then offset + ?len else offset) + offset_of cps (off - (count + 1))"
      using "1.IH" [OF False refl len r] by blast
    obtain cp where d: "wtf8ToCodePoint s = (?len, cp)" by (simp add: utf8ToCodePoint_def Let_def)
    have e: "isCodePoint cp" "codePointToUtf8 cp = take ?len s" "?len \<le> length s"
      using decode_encode [OF d len] by auto
    have "s = text_of (cp # cps)" using e(2) cps(2) by (simp flip: cps(2))
    moreover have "r = offset + offset_of (cp # cps) (off - count)"
    proof (cases "count < off")
      case True
      then have "offset_of (cp # cps) (off - count) = ?len + offset_of cps (off - (count + 1))"
        using e by (cases "off - count") (auto simp: offset_of_def diff_Suc min_def split: nat.splits)
      with True cps(3) show ?thesis by simp
    qed (use cps(3) in \<open>simp add: offset_of_def\<close>)
    ultimately show ?thesis using cps(1) e(1) by (intro exI [of _ "cp # cps"]) auto
  qed
qed

lemma create_loop_complete:
  "code_points cps \<Longrightarrow> create_loop (text_of cps) count offset off \<noteq> None"
proof (induction cps arbitrary: count offset)
  case Nil
  then show ?case by (simp add: create_loop.simps)
next
  case (Cons c cps)
  have c: "isCodePoint c" using Cons.prems by simp
  have v: "wtf8ValidateChar (text_of (c # cps)) = length (codePointToUtf8 c)"
    using encode_validate(1) [OF c, of True] by simp
  have ne: "text_of (c # cps) \<noteq> []" "length (codePointToUtf8 c) \<noteq> 0"
    using encode_nonempty [OF c] by auto
  have "drop (length (codePointToUtf8 c)) (text_of (c # cps)) = text_of cps" by simp
  with Cons ne v show ?case
    unfolding create_loop.simps [of "text_of (c # cps)"] by (simp add: Let_def del: text_of_simps)
qed

lemma text_of_inj:
  assumes "code_points cps" "code_points ds" "text_of cps = text_of ds"
  shows "cps = ds"
proof -
  have "startsWith cps ds" "startsWith ds cps"
    using text_prefix [OF assms(2,1)] text_prefix [OF assms(1,2)] assms(3)
    by (auto simp: startsWith_iff)
  then show ?thesis by (auto simp: startsWith_iff)
qed

lemma input_create_aux:
  "(input_create s off = Inr i \<longleftrightarrow> length s \<le> INPUT_MAX \<and>
      (\<exists>cps. code_points cps \<and> s = text_of cps \<and> i = \<lparr>input_text = s, input_iter = offset_of cps off\<rparr>)) \<and>
   (input_create s off = Inl TOO_LARGE \<longleftrightarrow> length s > INPUT_MAX) \<and>
   (input_create s off = Inl INVALID_UTF8 \<longleftrightarrow>
      length s \<le> INPUT_MAX \<and> (\<nexists>cps. code_points cps \<and> s = text_of cps))"
proof (cases "\<exists>cps. code_points cps \<and> s = text_of cps")
  case True
  then obtain cps where cps: "code_points cps" "s = text_of cps" by blast
  obtain r where r: "create_loop s 0 0 off = Some r"
    using create_loop_complete [OF cps(1)] cps(2) by blast
  obtain cps' where c': "code_points cps'" "s = text_of cps'" "r = offset_of cps' off"
    using create_loop_sound [OF r, unfolded add_0 diff_zero] by blast
  have u: "code_points ds \<and> s = text_of ds \<longleftrightarrow> ds = cps'" for ds
    using c'(1,2) text_of_inj [of ds cps'] by metis
  have key: "input_create s off = (if length s > INPUT_MAX then Inl TOO_LARGE
      else Inr \<lparr>input_text = s, input_iter = offset_of cps' off\<rparr>)"
    using r c'(3) by (simp add: input_create_def)
  have q: "(\<exists>cps. code_points cps \<and> s = text_of cps \<and> i = \<lparr>input_text = s, input_iter = offset_of cps off\<rparr>)
      \<longleftrightarrow> i = \<lparr>input_text = s, input_iter = offset_of cps' off\<rparr>"
    using u by metis
  show ?thesis unfolding key q using True by (cases "length s > INPUT_MAX") (simp_all, metis)
next
  case False
  then have "create_loop s 0 0 off = None"
    using create_loop_sound [of s 0 0 off] by (metis not_Some_eq)
  then have "input_create s off = (if length s > INPUT_MAX then Inl TOO_LARGE else Inl INVALID_UTF8)"
    by (simp add: input_create_def)
  then show ?thesis using False by (cases "length s > INPUT_MAX") (simp_all, metis)
qed

text \<open>C31. \<open>Input::create\<close> accepts a text exactly when it is the WTF-8 encoding of a list of code
  points and not longer than the limit, and places the cursor behind the requested number of code
  points (at the end when there are fewer); every other text is refused with the error of its
  kind.\<close>

theorem input_create_spec:
  "(input_create s off = Inr i \<longleftrightarrow> length s \<le> INPUT_MAX \<and>
      (\<exists>cps. code_points cps \<and> s = text_of cps \<and> i = \<lparr>input_text = s, input_iter = offset_of cps off\<rparr>)) \<and>
   (input_create s off = Inl TOO_LARGE \<longleftrightarrow> length s > INPUT_MAX) \<and>
   (input_create s off = Inl INVALID_UTF8 \<longleftrightarrow>
      length s \<le> INPUT_MAX \<and> (\<nexists>cps. code_points cps \<and> s = text_of cps))"
  by (rule input_create_aux)

text \<open>C32. The unchecked readers are exact on validated text: at every position between two code
  points, forward reading returns the next code point and backward reading the previous one, and
  each moves the cursor by exactly one code point, so they undo each other.\<close>

theorem unsafe_readers_inverse:
  assumes "code_points cps" "k < length cps"
  shows "unsafeNextUtf8 (text_of cps) (offset_of cps k) = (cps ! k, offset_of cps (Suc k)) \<and>
    unsafePrevUtf8 (text_of cps) (offset_of cps (Suc k)) = (cps ! k, offset_of cps k)"
  using next_at [OF assms] prev_at [OF assms] by simp

theorem unsafe_readers_inverse_witness:
  "unsafeNextUtf8 (text_of [0x3042, 0x1F600]) (offset_of [0x3042, 0x1F600] 1) =
     (0x1F600, offset_of [0x3042, 0x1F600] 2)"
  using unsafe_readers_inverse [of "[0x3042, 0x1F600]" 1] by (simp add: code_point_defs numeral_2_eq_2)

end
