(* ===== verification/Regex_VM.thy ===== *)
theory Regex_VM
  imports Regex_Emit Regex_Input
begin

text \<open>
  \<open>regex/vm.cpp\<close> and \<open>regex/match_context.h\<close>: the backtracking matcher. Every instruction is a
  definition of its own over the state of the machine; \<open>vm_step\<close> dispatches, \<open>machine_step\<close> adds the
  backtracking, the timer and the search over the start positions, and \<open>machine_run\<close> iterates it.
  The tables of Unicode data are the fields of \<open>unicode_env\<close>, the timer is the sequence of the
  answers its checks give. Reads out of range, which C++ leaves undefined, are a fault of the machine.
\<close>

section \<open>State\<close>

datatype MatchStatus =
    MATCH_OK | MATCH_FAIL | MATCH_INVALID_UTF8 | MATCH_INPUT_LIMIT | MATCH_CANCEL | MATCH_TIMEOUT
  | MATCH_STACK_LIMIT | MATCH_CONSUMED_LIMIT | MATCH_INVALID_REPLACE_PATTERN

datatype TimerStatus = T_None | T_Canceled | T_Expired

record LoopState =
  loop_count :: u32
  loop_inputOffset :: u32

definition init_loop :: LoopState where
  "init_loop = \<lparr>loop_count = 0, loop_inputOffset = 0\<rparr>"

datatype Backtrack =
    SetIns u32 nat
  | SetCapture nat Capture
  | SetLoopState u16 LoopState
  | NonGreedyLoop u16 LoopState
  | LookAround bool bool u32 nat
  | RadixState nat

text \<open>The entries with the top of the stack first, and the allocated capacity.\<close>

record BacktrackStack =
  bts_entries :: "Backtrack list"
  bts_cap :: nat

definition INIT_CAP :: nat where "INIT_CAP = 6"
definition MAX_STACK_DEPTH :: nat where "MAX_STACK_DEPTH = 0xFFFFFF"
definition TIMER_CHECK_INTERVAL :: nat where "TIMER_CHECK_INTERVAL = 0x7FFF"

text \<open>The loop of \<open>computeMaxStackCap\<close>; a capacity below 2 would not grow, and the loop starts at 6.\<close>

function maxStackCap_loop :: "nat \<Rightarrow> nat \<Rightarrow> nat" where
  "maxStackCap_loop newCap cap =
     (if 2 \<le> newCap \<and> newCap \<le> MAX_STACK_DEPTH then maxStackCap_loop (newCap + newCap div 2) newCap else cap)"
  by pat_completeness auto
termination
  by (relation "measure (\<lambda>(newCap, cap). Suc MAX_STACK_DEPTH - newCap)") auto

declare maxStackCap_loop.simps [simp del]

definition computeMaxStackCap :: nat where
  "computeMaxStackCap = maxStackCap_loop INIT_CAP 0"

definition bts_push :: "Backtrack \<Rightarrow> BacktrackStack \<Rightarrow> BacktrackStack option" where
  "bts_push bt s =
     (if length (bts_entries s) = bts_cap s
      then (if length (bts_entries s) = computeMaxStackCap then None
            else Some (s\<lparr>bts_entries := bt # bts_entries s, bts_cap := bts_cap s + bts_cap s div 2\<rparr>))
      else Some (s\<lparr>bts_entries := bt # bts_entries s\<rparr>))"

record VM =
  vm_inst :: nat
  vm_input :: Input
  vm_captures :: "Capture list"
  vm_loops :: "LoopState list"
  vm_bts :: BacktrackStack

text \<open>How an instruction ends: with the next one (\<open>vmnext\<close>), at \<open>BACKTRACK\<close>, with a match, with
  \<open>STACK_LIMIT\<close>, or in undefined behaviour.\<close>

datatype vm_next = VNext VM | VBack VM | VMatch VM | VLimit VM | VFault

definition goto_addr :: "nat \<Rightarrow> VM \<Rightarrow> vm_next" where
  "goto_addr a vm = VNext (vm\<lparr>vm_inst := a\<rparr>)"

definition advance :: "inst \<Rightarrow> VM \<Rightarrow> vm_next" where
  "advance i vm = goto_addr (vm_inst vm + inst_size i) vm"

definition push_then :: "Backtrack \<Rightarrow> VM \<Rightarrow> (VM \<Rightarrow> vm_next) \<Rightarrow> vm_next" where
  "push_then bt vm k =
     (case bts_push bt (vm_bts vm) of None \<Rightarrow> VLimit vm | Some s \<Rightarrow> k (vm\<lparr>vm_bts := s\<rparr>))"

text \<open>\<open>advance\<close> when the test succeeded, with the input it left.\<close>

definition advance_if :: "bool \<Rightarrow> inst \<Rightarrow> VM \<Rightarrow> vm_next" where
  "advance_if b i vm = (if b then advance i vm else VBack vm)"

section \<open>Backtracking\<close>

definition prepareLoopBody :: "u16 \<Rightarrow> VM \<Rightarrow> VM option" where
  "prepareLoopBody l vm =
     (let loop = vm_loops vm ! unat l in
      case bts_push (SetLoopState l loop) (vm_bts vm) of
        None \<Rightarrow> None
      | Some s \<Rightarrow> Some (vm\<lparr>vm_bts := s,
          vm_loops := (vm_loops vm)[unat l := \<lparr>loop_count = loop_count loop + 1,
                                             loop_inputOffset = getOffset (vm_input vm)\<rparr>]\<rparr>))"

datatype bt_result = Resumed VM | Exhausted VM | BtFault

definition with_entries :: "Backtrack list \<Rightarrow> VM \<Rightarrow> VM" where
  "with_entries es vm = vm\<lparr>vm_bts := (vm_bts vm)\<lparr>bts_entries := es\<rparr>\<rparr>"

text \<open>\<open>BacktrackStack::backtrack\<close>: the first argument are the entries that are left.\<close>

fun backtrack :: "Backtrack list \<Rightarrow> VM \<Rightarrow> bt_result" where
  "backtrack [] vm = Exhausted (with_entries [] vm)"
| "backtrack (SetIns target it # s) vm =
     Resumed (with_entries s (vm\<lparr>vm_inst := unat target, vm_input := setIter (vm_input vm) it\<rparr>))"
| "backtrack (SetCapture index c # s) vm =
     (if index < length (vm_captures vm) then backtrack s (vm\<lparr>vm_captures := (vm_captures vm)[index := c]\<rparr>)
      else BtFault)"
| "backtrack (SetLoopState l st # s) vm =
     (if unat l < length (vm_loops vm) then backtrack s (vm\<lparr>vm_loops := (vm_loops vm)[unat l := st]\<rparr>)
      else BtFault)"
| "backtrack (NonGreedyLoop l st # s) vm =
     (if unat l < length (vm_loops vm)
      then (case s of
              SetIns target it # s' \<Rightarrow>
                (let vm' = with_entries s' (vm\<lparr>vm_loops := (vm_loops vm)[unat l := st],
                       vm_inst := unat target + sizeof_BeginLoop, vm_input := setIter (vm_input vm) it\<rparr>)
                 in Resumed (case prepareLoopBody l vm' of Some vm'' \<Rightarrow> vm'' | None \<Rightarrow> vm'))
            | _ \<Rightarrow> BtFault)
      else BtFault)"
| "backtrack (LookAround negate matched target it # s) vm =
     Resumed (with_entries (LookAround negate negate target it # s) (vm\<lparr>vm_inst := unat target\<rparr>))"
| "backtrack (RadixState n # s) vm = backtrack s vm"

text \<open>\<open>cleanupLookAround\<close>: the state after it and \<open>matched\<close>; \<open>None\<close> when there is no look-around entry.\<close>

fun is_LookAround :: "Backtrack \<Rightarrow> bool" where
  "is_LookAround (LookAround _ _ _ _) = True"
| "is_LookAround _ = False"

definition lookAround_negate :: "Backtrack list \<Rightarrow> bool" where
  "lookAround_negate s =
     (case List.find is_LookAround s of Some (LookAround negate _ _ _) \<Rightarrow> negate | _ \<Rightarrow> False)"

fun cleanup_loop :: "bool \<Rightarrow> Backtrack list \<Rightarrow> VM \<Rightarrow> (bool \<times> VM) option" where
  "cleanup_loop negate [] vm = None"
| "cleanup_loop negate (LookAround _ matched _ it # s) vm =
     Some (matched, with_entries s (vm\<lparr>vm_input := setIter (vm_input vm) it\<rparr>))"
| "cleanup_loop negate (SetCapture index c # s) vm =
     cleanup_loop negate s (if negate then vm\<lparr>vm_captures := (vm_captures vm)[index := c]\<rparr> else vm)"
| "cleanup_loop negate (_ # s) vm = cleanup_loop negate s vm"

definition cleanupLookAround :: "VM \<Rightarrow> (bool \<times> VM) option" where
  "cleanupLookAround vm =
     cleanup_loop (lookAround_negate (bts_entries (vm_bts vm))) (bts_entries (vm_bts vm)) vm"

section \<open>String sets\<close>

text \<open>The case folded text; the fuel is one more than the number of bytes.\<close>

primrec fold_text_loop :: "nat \<Rightarrow> unicode_env \<Rightarrow> bytes \<Rightarrow> nat \<Rightarrow> bytes" where
  "fold_text_loop 0 env s it = []"
| "fold_text_loop (Suc fuel) env s it =
     (if it = length s then []
      else (let (cp, it') = unsafeNextUtf8 s it in
            codePointToUtf8 (simpleFold env cp) @ fold_text_loop fuel env s it'))"

definition fold_text :: "unicode_env \<Rightarrow> bytes \<Rightarrow> bytes" where
  "fold_text env s = fold_text_loop (Suc (length s)) env s 0"

text \<open>The size in the original text of what took \<open>n\<close> bytes in the folded one.\<close>

primrec remap_loop :: "nat \<Rightarrow> bytes \<Rightarrow> nat \<Rightarrow> bytes \<Rightarrow> nat \<Rightarrow> nat" where
  "remap_loop 0 s it old oldIt = oldIt"
| "remap_loop (Suc fuel) s it old oldIt =
     (if it \<noteq> length s \<and> oldIt \<noteq> length old
      then remap_loop fuel s (unsafeNextUtf8Noreturn s it) old (unsafeNextUtf8Noreturn old oldIt)
      else oldIt)"

definition remap :: "bytes \<Rightarrow> nat \<Rightarrow> bytes \<Rightarrow> nat" where
  "remap ref s old = remap_loop (Suc s) (take s ref) 0 old 0"

definition findLongestMatched :: "unicode_env \<Rightarrow> PackedRadixTree \<Rightarrow> bytes \<Rightarrow> bool \<Rightarrow> (nat \<times> byte) option" where
  "findLongestMatched env tree old caseFold =
     (let ref = (if caseFold then fold_text env old else old) in
      case packed_findLongestMatched tree ref of
        None \<Rightarrow> None
      | Some (s, p) \<Rightarrow> Some (if caseFold \<and> p \<noteq> 0 then remap ref s old else s, p))"

primrec findBackward_loop :: "nat \<Rightarrow> PackedRadixTree \<Rightarrow> bytes \<Rightarrow> bytes \<Rightarrow> bool \<Rightarrow> (nat \<times> byte) option" where
  "findBackward_loop 0 tree ref old caseFold = Some (0, 0)"
| "findBackward_loop (Suc fuel) tree ref old caseFold =
     (if ref = [] then Some (0, 0)
      else case packed_findLongestMatched tree ref of
        None \<Rightarrow> None
      | Some (s, p) \<Rightarrow>
          (let s' = (if caseFold \<and> p \<noteq> 0 then remap ref s old else s) in
           if s' = length old then Some (s', p)
           else (let ref' = unsafeRemovePrefixUtf8 ref in
                 findBackward_loop fuel tree ref' (if caseFold then unsafeRemovePrefixUtf8 old else ref') caseFold)))"

definition findBackwardLongestMatched :: "unicode_env \<Rightarrow> PackedRadixTree \<Rightarrow> bytes \<Rightarrow> bool \<Rightarrow> (nat \<times> byte) option" where
  "findBackwardLongestMatched env tree old caseFold =
     (let ref = (if caseFold then fold_text env old else old) in
      findBackward_loop (Suc (length ref)) tree ref old caseFold)"

section \<open>Instructions\<close>

definition step_branch :: "inst \<Rightarrow> VM \<Rightarrow> vm_next" where
  "step_branch i vm =
     (case i of
        NopIns \<Rightarrow> advance i vm
      | MatchIns \<Rightarrow> VMatch vm
      | JumpIns target \<Rightarrow> goto_addr (unat target) vm
      | AltIns second \<Rightarrow> push_then (SetIns second (input_iter (vm_input vm))) vm (advance i)
      | _ \<Rightarrow> VFault)"

definition step_start :: "inst \<Rightarrow> VM \<Rightarrow> vm_next" where
  "step_start i vm =
     (let input = vm_input vm in
      advance_if (isBegin input \<or> (start_multiline i \<and> isLineTerminator (input_prev input))) i vm)"

definition step_end :: "inst \<Rightarrow> VM \<Rightarrow> vm_next" where
  "step_end i vm =
     (let input = vm_input vm in
      advance_if (isEnd input \<or> (end_multiline i \<and> isLineTerminator (input_cur input))) i vm)"

definition step_word :: "inst \<Rightarrow> VM \<Rightarrow> vm_next" where
  "step_word i vm =
     (let input = vm_input vm;
          prevIsWord = (\<not> isBegin input \<and> isWord (input_prev input));
          curIsWord = (\<not> isEnd input \<and> isWord (input_cur input)) in
      advance_if (if word_invert i then prevIsWord = curIsWord else prevIsWord \<noteq> curIsWord) i vm)"

definition step_iword :: "unicode_env \<Rightarrow> inst \<Rightarrow> VM \<Rightarrow> vm_next" where
  "step_iword env i vm =
     (let input = vm_input vm;
          prevIsWord = (\<not> isBegin input \<and> isExtendWord env (input_prev input));
          curIsWord = (\<not> isEnd input \<and> isExtendWord env (input_cur input)) in
      advance_if (if iword_invert i then prevIsWord = curIsWord else prevIsWord \<noteq> curIsWord) i vm)"

text \<open>The instructions that consume one code point forward or backward and test it.\<close>

definition consume_if :: "(int \<Rightarrow> bool) \<Rightarrow> inst \<Rightarrow> VM \<Rightarrow> vm_next" where
  "consume_if f i vm =
     (if input_available (vm_input vm)
      then (let (cp, input) = consumeForward (vm_input vm) in advance_if (f cp) i (vm\<lparr>vm_input := input\<rparr>))
      else VBack vm)"

definition consume_back_if :: "(int \<Rightarrow> bool) \<Rightarrow> inst \<Rightarrow> VM \<Rightarrow> vm_next" where
  "consume_back_if f i vm =
     (if availableBackward (vm_input vm)
      then (let (cp, input) = consumeBackward (vm_input vm) in advance_if (f cp) i (vm\<lparr>vm_input := input\<rparr>))
      else VBack vm)"

definition step_any :: "inst \<Rightarrow> VM \<Rightarrow> vm_next" where
  "step_any i vm =
     (case i of
        AnyIns \<Rightarrow> consume_if (\<lambda>cp. True) i vm
      | AnyExceptNLIns \<Rightarrow> consume_if (\<lambda>cp. \<not> isLineTerminator cp) i vm
      | LBAnyIns dotAll \<Rightarrow> consume_back_if (\<lambda>cp. dotAll \<or> \<not> isLineTerminator cp) i vm
      | _ \<Rightarrow> VFault)"

definition step_grapheme :: "unicode_env \<Rightarrow> inst \<Rightarrow> VM \<Rightarrow> vm_next" where
  "step_grapheme env i vm =
     (let input = vm_input vm in
      if input_available input
      then advance i (vm\<lparr>vm_input := setIter input (input_iter input + firstGrapheme env (remainForward input))\<rparr>)
      else VBack vm)"

text \<open>\<open>getCodePoint\<close> of the instruction is an \<open>int\<close>.\<close>

definition step_char :: "unicode_env \<Rightarrow> inst \<Rightarrow> VM \<Rightarrow> vm_next" where
  "step_char env i vm =
     (case i of
        CharIns c \<Rightarrow> consume_if (\<lambda>cp. cp = sint c) i vm
      | ICharIns c \<Rightarrow> consume_if (\<lambda>cp. simpleFold env cp = sint c) i vm
      | LBCharIns ic c \<Rightarrow> consume_back_if (\<lambda>cp. (if ic then simpleFold env cp else cp) = sint c) i vm
      | _ \<Rightarrow> VFault)"

definition step_charset :: "unicode_env \<Rightarrow> Matcher list \<Rightarrow> inst \<Rightarrow> VM \<Rightarrow> vm_next" where
  "step_charset env matchers i vm =
     (case i of
        CharSetIns invert index \<Rightarrow>
          if unat index < length matchers
          then consume_if (\<lambda>cp. matcher_contains (matchers ! unat index) cp \<noteq> invert) i vm else VFault
      | ICharSetIns invert index \<Rightarrow>
          if unat index < length matchers
          then consume_if (\<lambda>cp. matcher_contains (matchers ! unat index) (simpleFold env cp) \<noteq> invert) i vm
          else VFault
      | LBCharSetIns invert ic index \<Rightarrow>
          if unat index < length matchers
          then consume_back_if (\<lambda>cp. matcher_contains (matchers ! unat index)
                 (if ic then simpleFold env cp else cp) \<noteq> invert) i vm
          else VFault
      | _ \<Rightarrow> VFault)"

definition step_string :: "Matcher list \<Rightarrow> inst \<Rightarrow> VM \<Rightarrow> vm_next" where
  "step_string matchers i vm =
     (case i of
        StringIns index \<Rightarrow>
          if unat index < length matchers
          then (case expectForward (vm_input vm) (asStrRef (matchers ! unat index)) of
                  Some input \<Rightarrow> advance i (vm\<lparr>vm_input := input\<rparr>) | None \<Rightarrow> VBack vm)
          else VFault
      | LBStringIns index \<Rightarrow>
          if unat index < length matchers
          then (case expectBackward (vm_input vm) (asStrRef (matchers ! unat index)) of
                  Some input \<Rightarrow> advance i (vm\<lparr>vm_input := input\<rparr>) | None \<Rightarrow> VBack vm)
          else VFault
      | _ \<Rightarrow> VFault)"

text \<open>The number of code points a string set may need to look at, and the longest of its strings that
  starts (or, backward, ends) at the cursor within \<open>ref\<close>, 0 for none.\<close>

definition radix_codePointCount :: "unicode_env \<Rightarrow> Matcher list \<Rightarrow> byte \<Rightarrow> bool \<Rightarrow> u16 \<Rightarrow> nat" where
  "radix_codePointCount env matchers emoji hasRadix index =
     (let n = (if emoji_hasEmoji emoji then unat (packed_maxCodePointCount (emojiTrie env)) else 0) in
      if hasRadix then max n (unat (packed_maxCodePointCount (matcher_radix (matchers ! unat index)))) else n)"

definition radix_consumedSize :: "(PackedRadixTree \<Rightarrow> bytes \<Rightarrow> bool \<Rightarrow> (nat \<times> byte) option) \<Rightarrow>
    unicode_env \<Rightarrow> Matcher list \<Rightarrow> byte \<Rightarrow> bool \<Rightarrow> u16 \<Rightarrow> bytes \<Rightarrow> nat option" where
  "radix_consumedSize finder env matchers emoji hasRadix index ref =
     (let c1 = (if emoji_hasEmoji emoji
                then (case finder (emojiTrie env) ref (emoji_ignoreCase emoji) of
                        None \<Rightarrow> None
                      | Some (s, p) \<Rightarrow> Some (if p \<noteq> 0 \<and> hasFlag emoji p then s else 0))
                else Some 0)
      in case c1 of
        None \<Rightarrow> None
      | Some consumedSize \<Rightarrow>
          if hasRadix
          then (case finder (matcher_radix (matchers ! unat index)) ref (emoji_ignoreCase emoji) of
                  None \<Rightarrow> None
                | Some (s, p) \<Rightarrow> Some (if p \<noteq> 0 then max consumedSize s else consumedSize))
          else Some consumedSize)"

text \<open>\<open>RADIX_OR_EMOJI\<close> and \<open>LBRADIX_OR_EMOJI\<close>, with \<open>strSize\<close> from the entry on the top of the stack.\<close>

definition radix_or_emoji :: "unicode_env \<Rightarrow> Matcher list \<Rightarrow> inst \<Rightarrow> VM \<Rightarrow> vm_next" where
  "radix_or_emoji env matchers i vm =
     (case (i, bts_entries (vm_bts vm)) of
        (RadixOrEmojiIns emoji hasRadix index nextOffset, RadixState strSize # s) \<Rightarrow>
          if strSize \<noteq> 0 \<and> input_available (vm_input vm) then
            if hasRadix \<and> length matchers \<le> unat index then VFault
            else (case radix_consumedSize (findLongestMatched env) env matchers emoji hasRadix index
                   (take strSize (remainForward (vm_input vm))) of
               None \<Rightarrow> VFault
             | Some consumedSize \<Rightarrow>
                 if consumedSize \<noteq> 0 then
                   push_then (SetIns (of_nat (vm_inst vm)) (input_iter (vm_input vm)))
                     (with_entries (RadixState consumedSize # s) vm)
                     (\<lambda>vm'. goto_addr (vm_inst vm + inst_size i + unat nextOffset)
                        (vm'\<lparr>vm_input := setIter (vm_input vm) (input_iter (vm_input vm) + consumedSize)\<rparr>))
                 else if nextOffset \<noteq> 0 then advance i vm
                 else VBack vm)
          else VBack vm
      | _ \<Rightarrow> VFault)"

definition lbradix_or_emoji :: "unicode_env \<Rightarrow> Matcher list \<Rightarrow> inst \<Rightarrow> VM \<Rightarrow> vm_next" where
  "lbradix_or_emoji env matchers i vm =
     (case (i, bts_entries (vm_bts vm)) of
        (LBRadixOrEmojiIns emoji hasRadix index nextOffset, RadixState strSize # s) \<Rightarrow>
          if strSize \<noteq> 0 \<and> availableBackward (vm_input vm) then
            if hasRadix \<and> length matchers \<le> unat index then VFault
            else (case radix_consumedSize (findBackwardLongestMatched env) env matchers emoji hasRadix index
                   (slice (input_text (vm_input vm)) (input_iter (vm_input vm) - strSize) (input_iter (vm_input vm))) of
               None \<Rightarrow> VFault
             | Some consumedSize \<Rightarrow>
                 if consumedSize \<noteq> 0 then
                   push_then (SetIns (of_nat (vm_inst vm)) (input_iter (vm_input vm)))
                     (with_entries (RadixState consumedSize # s) vm)
                     (\<lambda>vm'. goto_addr (vm_inst vm + inst_size i + unat nextOffset)
                        (vm'\<lparr>vm_input := setIter (vm_input vm) (input_iter (vm_input vm) - consumedSize)\<rparr>))
                 else if nextOffset \<noteq> 0 then advance i vm
                 else VBack vm)
          else VBack vm
      | _ \<Rightarrow> VFault)"

text \<open>\<open>PrepareRadix\<close> and \<open>PrepareLBRadix\<close> continue at the instruction behind them.\<close>

definition step_prepare_radix :: "unicode_env \<Rightarrow> bytes \<Rightarrow> Matcher list \<Rightarrow> VM \<Rightarrow> vm_next" where
  "step_prepare_radix env code matchers vm =
     (let vm1 = vm\<lparr>vm_inst := vm_inst vm + inst_size PrepareRadixIns\<rparr> in
      case fetch code (vm_inst vm1) of
        Some (RadixOrEmojiIns emoji hasRadix index nextOffset) \<Rightarrow>
          if hasRadix \<and> length matchers \<le> unat index then VFault
          else push_then (RadixState (length (remainForwardOfCodePoints (vm_input vm)
                   (radix_codePointCount env matchers emoji hasRadix index)))) vm1
                 (radix_or_emoji env matchers (RadixOrEmojiIns emoji hasRadix index nextOffset))
      | _ \<Rightarrow> VFault)"

definition step_prepare_lbradix :: "unicode_env \<Rightarrow> bytes \<Rightarrow> Matcher list \<Rightarrow> VM \<Rightarrow> vm_next" where
  "step_prepare_lbradix env code matchers vm =
     (let vm1 = vm\<lparr>vm_inst := vm_inst vm + inst_size PrepareLBRadixIns\<rparr> in
      case fetch code (vm_inst vm1) of
        Some (LBRadixOrEmojiIns emoji hasRadix index nextOffset) \<Rightarrow>
          if hasRadix \<and> length matchers \<le> unat index then VFault
          else push_then (RadixState (length (remainBackwardOfCodePoints (vm_input vm)
                   (radix_codePointCount env matchers emoji hasRadix index)))) vm1
                 (lbradix_or_emoji env matchers (LBRadixOrEmojiIns emoji hasRadix index nextOffset))
      | _ \<Rightarrow> VFault)"

text \<open>Arriving at the radix instructions by backtracking shortens the text by one code point first.\<close>

definition step_radix :: "unicode_env \<Rightarrow> Matcher list \<Rightarrow> inst \<Rightarrow> VM \<Rightarrow> vm_next" where
  "step_radix env matchers i vm =
     (case bts_entries (vm_bts vm) of
        RadixState n # s \<Rightarrow>
          (let ref = unsafeRemoveSuffixUtf8 (take n (remainForward (vm_input vm))) in
           radix_or_emoji env matchers i (with_entries (RadixState (length ref) # s) vm))
      | _ \<Rightarrow> VFault)"

definition step_lbradix :: "unicode_env \<Rightarrow> Matcher list \<Rightarrow> inst \<Rightarrow> VM \<Rightarrow> vm_next" where
  "step_lbradix env matchers i vm =
     (case bts_entries (vm_bts vm) of
        RadixState n # s \<Rightarrow>
          (let it = input_iter (vm_input vm);
               ref = unsafeRemovePrefixUtf8 (slice (input_text (vm_input vm)) (it - n) it) in
           lbradix_or_emoji env matchers i (with_entries (RadixState (length ref) # s) vm))
      | _ \<Rightarrow> VFault)"

text \<open>The loop of \<open>ResetCaptures\<close>, over the indices in order.\<close>

primrec reset_captures :: "nat list \<Rightarrow> VM \<Rightarrow> (VM \<Rightarrow> vm_next) \<Rightarrow> vm_next" where
  "reset_captures [] vm k = k vm"
| "reset_captures (j # js) vm k =
     (if j < length (vm_captures vm)
      then push_then (SetCapture j (vm_captures vm ! j)) vm
             (\<lambda>vm'. reset_captures js (vm'\<lparr>vm_captures := (vm_captures vm')[j := unset_capture]\<rparr>) k)
      else VFault)"

definition step_capture :: "inst \<Rightarrow> VM \<Rightarrow> vm_next" where
  "step_capture i vm =
     (let captures = vm_captures vm; offset = getOffset (vm_input vm) in
      case i of
        BeginCaptureIns index \<Rightarrow>
          if unat index < length captures
          then push_then (SetCapture (unat index) unset_capture)
                 (vm\<lparr>vm_captures := captures[unat index := \<lparr>cap_offset = offset, cap_size = 0\<rparr>]\<rparr>) (advance i)
          else VFault
      | EndCaptureIns index \<Rightarrow>
          if unat index < length captures
          then advance i (vm\<lparr>vm_captures := captures[unat index :=
                 (captures ! unat index)\<lparr>cap_size := offset - cap_offset (captures ! unat index)\<rparr>]\<rparr>)
          else VFault
      | LBEndCaptureIns index \<Rightarrow>
          if unat index < length captures
          then advance i (vm\<lparr>vm_captures := captures[unat index :=
                 \<lparr>cap_offset = offset, cap_size = endOffset (captures ! unat index) - offset\<rparr>]\<rparr>)
          else VFault
      | ResetCapturesIns firstIndex lastIndex \<Rightarrow>
          reset_captures [unat firstIndex..<Suc (unat lastIndex)] vm (advance i)
      | _ \<Rightarrow> VFault)"

definition resolveBackRef :: "NamedCaptureGroups \<Rightarrow> Capture list \<Rightarrow> nat \<Rightarrow> bool \<Rightarrow> Capture option" where
  "resolveBackRef named captures refIndex isnamed =
     (if isnamed then map_option (\<lambda>e. findValidNamedCapture e captures) (findByIndex named refIndex)
      else if refIndex < length captures then Some (captures ! refIndex) else None)"

text \<open>The comparison loops of \<open>IBackRef\<close> and \<open>LBBackRef\<close>; the fuel is the number of bytes of the
  captured range, each round consumes at least one.\<close>

primrec ibackref_loop :: "nat \<Rightarrow> unicode_env \<Rightarrow> nat \<Rightarrow> nat \<Rightarrow> Input \<Rightarrow> Input option" where
  "ibackref_loop 0 env it stop input = (if it = stop then Some input else None)"
| "ibackref_loop (Suc fuel) env it stop input =
     (if it = stop then Some input
      else if input_available input
      then (let (c, it') = unsafeNextUtf8 (input_text input) it;
                (d, input') = consumeForward input in
            if simpleFold env c = simpleFold env d then ibackref_loop fuel env it' stop input' else None)
      else None)"

primrec lbbackref_loop :: "nat \<Rightarrow> unicode_env \<Rightarrow> nat \<Rightarrow> nat \<Rightarrow> Input \<Rightarrow> Input option" where
  "lbbackref_loop 0 env it start input = (if it = start then Some input else None)"
| "lbbackref_loop (Suc fuel) env it start input =
     (if it = start then Some input
      else if availableBackward input
      then (let (c, it') = unsafePrevUtf8 (input_text input) it;
                (d, input') = consumeBackward input in
            if simpleFold env c = simpleFold env d then lbbackref_loop fuel env it' start input' else None)
      else None)"

definition captured_text :: "Input \<Rightarrow> Capture \<Rightarrow> bytes" where
  "captured_text input c = slice (input_text input) (unat (cap_offset c)) (unat (cap_offset c) + unat (cap_size c))"

definition backref_then :: "(Capture \<Rightarrow> Input option) \<Rightarrow> Regex \<Rightarrow> nat \<Rightarrow> bool \<Rightarrow> inst \<Rightarrow> VM \<Rightarrow> vm_next" where
  "backref_then f regex index isnamed i vm =
     (case resolveBackRef (regex_named regex) (vm_captures vm) index isnamed of
        None \<Rightarrow> VFault
      | Some capture \<Rightarrow>
          if isUnset capture then advance i vm
          else (case f capture of Some input \<Rightarrow> advance i (vm\<lparr>vm_input := input\<rparr>) | None \<Rightarrow> VBack vm))"

definition step_backref :: "unicode_env \<Rightarrow> Regex \<Rightarrow> inst \<Rightarrow> VM \<Rightarrow> vm_next" where
  "step_backref env regex i vm =
     (let input = vm_input vm in
      case i of
        BackRefIns isnamed index \<Rightarrow>
          backref_then (\<lambda>c. expectForward input (captured_text input c)) regex (unat index) isnamed i vm
      | IBackRefIns isnamed index \<Rightarrow>
          backref_then (\<lambda>c. ibackref_loop (unat (cap_size c)) env (unat (cap_offset c))
              (unat (cap_offset c) + unat (cap_size c)) input) regex (unat index) isnamed i vm
      | LBBackRefIns isnamed ic index \<Rightarrow>
          backref_then (\<lambda>c. if ic
              then lbbackref_loop (unat (cap_size c)) env (unat (cap_offset c) + unat (cap_size c))
                     (unat (cap_offset c)) input
              else expectBackward input (captured_text input c)) regex (unat index) isnamed i vm
      | _ \<Rightarrow> VFault)"

text \<open>\<open>LOOP\<close>: \<open>vm_inst\<close> is the address of \<open>BeginLoop\<close>.\<close>

definition loop_body :: "inst \<Rightarrow> u16 \<Rightarrow> VM \<Rightarrow> vm_next" where
  "loop_body i l vm = (case prepareLoopBody l vm of None \<Rightarrow> VLimit vm | Some vm' \<Rightarrow> advance i vm')"

definition step_LOOP :: "inst \<Rightarrow> VM \<Rightarrow> vm_next" where
  "step_LOOP i vm =
     (case i of
        BeginLoopIns greedy l mn mx outer \<Rightarrow>
          if unat l < length (vm_loops vm) then
            (let loop = vm_loops vm ! unat l; it = input_iter (vm_input vm) in
             if loop_inputOffset loop = getOffset (vm_input vm) \<and> loop_count loop > ucast mn then VBack vm
             else if loop_count loop < ucast mn then loop_body i l vm
             else if loop_count loop = mx then goto_addr (unat outer) vm
             else if greedy then push_then (SetIns outer it) vm (loop_body i l)
             else push_then (SetIns (of_nat (vm_inst vm)) it) vm
                    (\<lambda>vm1. push_then (NonGreedyLoop l loop) vm1 (goto_addr (unat outer))))
          else VFault
      | _ \<Rightarrow> VFault)"

definition step_begin_loop :: "inst \<Rightarrow> VM \<Rightarrow> vm_next" where
  "step_begin_loop i vm =
     (let l = loop_index i in
      if unat l < length (vm_loops vm)
      then push_then (SetLoopState l (vm_loops vm ! unat l)) vm
             (\<lambda>vm'. step_LOOP i (vm'\<lparr>vm_loops := (vm_loops vm')[unat l := init_loop]\<rparr>))
      else VFault)"

definition step_end_loop :: "bytes \<Rightarrow> inst \<Rightarrow> VM \<Rightarrow> vm_next" where
  "step_end_loop code i vm =
     (case fetch code (unat (endloop_target i)) of
        Some j \<Rightarrow> step_LOOP j (vm\<lparr>vm_inst := unat (endloop_target i)\<rparr>)
      | None \<Rightarrow> VFault)"

definition step_look :: "inst \<Rightarrow> VM \<Rightarrow> vm_next" where
  "step_look i vm =
     (case i of
        BeginLookAroundIns negate target \<Rightarrow>
          push_then (LookAround negate (\<not> negate) target (input_iter (vm_input vm))) vm (advance i)
      | EndLookAroundIns \<Rightarrow>
          (case cleanupLookAround vm of
             None \<Rightarrow> VFault
           | Some (matched, vm') \<Rightarrow> advance_if matched i vm')
      | _ \<Rightarrow> VFault)"

section \<open>Dispatch\<close>

definition exec_inst :: "unicode_env \<Rightarrow> Regex \<Rightarrow> inst \<Rightarrow> VM \<Rightarrow> vm_next" where
  "exec_inst env regex i vm =
     (case i of
        NopIns \<Rightarrow> step_branch i vm | MatchIns \<Rightarrow> step_branch i vm
      | JumpIns _ \<Rightarrow> step_branch i vm | AltIns _ \<Rightarrow> step_branch i vm
      | StartIns _ \<Rightarrow> step_start i vm | EndIns _ \<Rightarrow> step_end i vm
      | WordIns _ \<Rightarrow> step_word i vm | IWordIns _ \<Rightarrow> step_iword env i vm
      | AnyIns \<Rightarrow> step_any i vm | AnyExceptNLIns \<Rightarrow> step_any i vm | LBAnyIns _ \<Rightarrow> step_any i vm
      | GraphemeIns \<Rightarrow> step_grapheme env i vm
      | CharIns _ \<Rightarrow> step_char env i vm | ICharIns _ \<Rightarrow> step_char env i vm | LBCharIns _ _ \<Rightarrow> step_char env i vm
      | CharSetIns _ _ \<Rightarrow> step_charset env (regex_matchers regex) i vm
      | ICharSetIns _ _ \<Rightarrow> step_charset env (regex_matchers regex) i vm
      | LBCharSetIns _ _ _ \<Rightarrow> step_charset env (regex_matchers regex) i vm
      | PrepareRadixIns \<Rightarrow> step_prepare_radix env (regex_instSeq regex) (regex_matchers regex) vm
      | RadixOrEmojiIns _ _ _ _ \<Rightarrow> step_radix env (regex_matchers regex) i vm
      | PrepareLBRadixIns \<Rightarrow> step_prepare_lbradix env (regex_instSeq regex) (regex_matchers regex) vm
      | LBRadixOrEmojiIns _ _ _ _ \<Rightarrow> step_lbradix env (regex_matchers regex) i vm
      | StringIns _ \<Rightarrow> step_string (regex_matchers regex) i vm
      | LBStringIns _ \<Rightarrow> step_string (regex_matchers regex) i vm
      | BeginCaptureIns _ \<Rightarrow> step_capture i vm | EndCaptureIns _ \<Rightarrow> step_capture i vm
      | LBEndCaptureIns _ \<Rightarrow> step_capture i vm | ResetCapturesIns _ _ \<Rightarrow> step_capture i vm
      | BackRefIns _ _ \<Rightarrow> step_backref env regex i vm | IBackRefIns _ _ \<Rightarrow> step_backref env regex i vm
      | LBBackRefIns _ _ _ \<Rightarrow> step_backref env regex i vm
      | BeginLoopIns _ _ _ _ _ \<Rightarrow> step_begin_loop i vm
      | EndLoopIns _ \<Rightarrow> step_end_loop (regex_instSeq regex) i vm
      | BeginLookAroundIns _ _ \<Rightarrow> step_look i vm | EndLookAroundIns \<Rightarrow> step_look i vm)"

definition vm_step :: "unicode_env \<Rightarrow> Regex \<Rightarrow> VM \<Rightarrow> vm_next" where
  "vm_step env regex vm =
     (case fetch (regex_instSeq regex) (vm_inst vm) of None \<Rightarrow> VFault | Some i \<Rightarrow> exec_inst env regex i vm)"

section \<open>The search over the text\<close>

text \<open>\<open>searchPrefix\<close>: the new state, \<open>oldIter\<close> and the result.\<close>

fun search_first :: "FirstBitSet \<Rightarrow> bytes \<Rightarrow> nat \<Rightarrow> nat \<Rightarrow> nat \<times> bool" where
  "search_first firstSet s it 0 = (it, False)"
| "search_first firstSet s it (Suc n) =
     (if bitset_test firstSet (s ! it) then (it, True) else search_first firstSet s (Suc it) n)"

definition search_needle :: "bytes \<Rightarrow> inst \<Rightarrow> VM \<Rightarrow> VM \<times> nat \<times> bool" where
  "search_needle needle i vm =
     (let input = vm_input vm; vm' = vm\<lparr>vm_inst := vm_inst vm + inst_size i\<rparr> in
      case find_from (remainForward input) 0 needle of
        Some retPos \<Rightarrow>
          (let oldIter = input_iter input + retPos in
           (vm'\<lparr>vm_input := setIter input (oldIter + length needle)\<rparr>, oldIter, True))
      | None \<Rightarrow> (vm', length (input_text input), False))"

definition searchPrefix :: "Regex \<Rightarrow> VM \<Rightarrow> nat \<Rightarrow> (VM \<times> nat \<times> bool) option" where
  "searchPrefix regex vm oldIter =
     (case fetch (regex_instSeq regex) (vm_inst vm) of
        None \<Rightarrow> None
      | Some (CharIns c) \<Rightarrow> Some (search_needle (codePointToUtf8 (sint c)) (CharIns c) vm)
      | Some (StringIns index) \<Rightarrow>
          if unat index < length (regex_matchers regex)
          then Some (search_needle (asStrRef (regex_matchers regex ! unat index)) (StringIns index) vm)
          else None
      | _ \<Rightarrow>
          if bitset_any (regex_firstBitSet regex)
          then (let input = vm_input vm;
                    (it, matched) = search_first (regex_firstBitSet regex) (input_text input) (input_iter input)
                      (length (input_text input) - input_iter input) in
                Some (vm\<lparr>vm_input := setIter input it\<rparr>, it, matched))
          else Some (vm, oldIter, True))"

text \<open>\<open>MatchContext\<close> of \<open>match_context.h\<close>; the captures are the vector of the caller.\<close>

record MatchContext =
  ctx_input :: Input
  ctx_captureGroupCount :: nat
  ctx_prefilter :: bool
  ctx_captures :: "Capture list"
  ctx_loops :: "LoopState list"

definition newMatchContext :: "Regex \<Rightarrow> Input \<Rightarrow> Capture list \<Rightarrow> MatchContext" where
  "newMatchContext regex input captures =
     \<lparr>ctx_input = input, ctx_captureGroupCount = regex_captureGroupCount regex, ctx_prefilter = True,
      ctx_captures = captures, ctx_loops = replicate (unat (regex_loopCount regex)) init_loop\<rparr>"

definition resetState :: "MatchContext \<Rightarrow> Capture list \<times> LoopState list" where
  "resetState ctx =
     (replicate (ctx_captureGroupCount ctx + 1) unset_capture, replicate (length (ctx_loops ctx)) init_loop)"

definition tryToCreateMatchContext :: "Regex \<Rightarrow> bytes \<Rightarrow> nat \<Rightarrow> Capture list \<Rightarrow> MatchStatus + MatchContext" where
  "tryToCreateMatchContext regex text' codePointOffset captures =
     (case input_create text' codePointOffset of
        Inr input \<Rightarrow> Inr (newMatchContext regex input captures)
      | Inl TOO_LARGE \<Rightarrow> Inl MATCH_INPUT_LIMIT
      | Inl INVALID_UTF8 \<Rightarrow> Inl MATCH_INVALID_UTF8)"

text \<open>The locals of \<open>match\<close>: the state of the machine, \<open>oldIter\<close>, \<open>btCount\<close>, the number of timer
  checks so far, and whether control is at \<open>BACKTRACK\<close>.\<close>

record Machine =
  m_vm :: VM
  m_oldIter :: nat
  m_btCount :: nat
  m_checks :: nat
  m_back :: bool

datatype outcome = Running Machine | Finished MatchStatus VM | Crashed

definition start_at :: "Regex \<Rightarrow> MatchContext \<Rightarrow> Machine \<Rightarrow> outcome" where
  "start_at regex ctx m =
     (if ctx_prefilter ctx
      then (case searchPrefix regex (m_vm m) (m_oldIter m) of
              None \<Rightarrow> Crashed
            | Some (vm, oldIter, matched) \<Rightarrow>
                Running (m\<lparr>m_vm := vm, m_oldIter := oldIter, m_back := \<not> matched\<rparr>))
      else Running (m\<lparr>m_back := False\<rparr>))"

definition set_match :: "nat \<Rightarrow> VM \<Rightarrow> VM" where
  "set_match oldIter vm =
     vm\<lparr>vm_captures := (vm_captures vm)[0 := \<lparr>cap_offset = of_nat oldIter,
          cap_size = of_nat (input_iter (vm_input vm) - oldIter)\<rparr>]\<rparr>"

definition step_run :: "unicode_env \<Rightarrow> Regex \<Rightarrow> Machine \<Rightarrow> outcome" where
  "step_run env regex m =
     (case vm_step env regex (m_vm m) of
        VNext vm \<Rightarrow> Running (m\<lparr>m_vm := vm\<rparr>)
      | VBack vm \<Rightarrow> Running (m\<lparr>m_vm := vm, m_back := True\<rparr>)
      | VMatch vm \<Rightarrow> Finished MATCH_OK (set_match (m_oldIter m) vm)
      | VLimit vm \<Rightarrow> Finished MATCH_STACK_LIMIT vm
      | VFault \<Rightarrow> Crashed)"

definition check_timer :: "(nat \<Rightarrow> TimerStatus) option \<Rightarrow> Machine \<Rightarrow> outcome" where
  "check_timer timer m =
     (if m_btCount m + 1 = TIMER_CHECK_INTERVAL
      then (case timer of
              None \<Rightarrow> Running (m\<lparr>m_btCount := 0\<rparr>)
            | Some check \<Rightarrow>
                (case check (m_checks m) of
                   T_None \<Rightarrow> Running (m\<lparr>m_btCount := 0, m_checks := m_checks m + 1\<rparr>)
                 | T_Canceled \<Rightarrow> Finished MATCH_CANCEL (m_vm m)
                 | T_Expired \<Rightarrow> Finished MATCH_TIMEOUT (m_vm m)))
      else Running (m\<lparr>m_btCount := m_btCount m + 1\<rparr>))"

text \<open>What follows the loop: the next start position, or failure at the end of the text.\<close>

definition next_start :: "Regex \<Rightarrow> MatchContext \<Rightarrow> Machine \<Rightarrow> VM \<Rightarrow> outcome" where
  "next_start regex ctx m vm =
     (let input = setIter (vm_input vm) (m_oldIter m) in
      if input_available input
      then (let input' = snd (consumeForward input); (captures, loops) = resetState ctx in
            start_at regex ctx (m\<lparr>m_vm := vm\<lparr>vm_inst := 0, vm_input := input', vm_captures := captures,
              vm_loops := loops\<rparr>, m_oldIter := input_iter input'\<rparr>))
      else Finished MATCH_FAIL (vm\<lparr>vm_input := input\<rparr>))"

definition step_back :: "Regex \<Rightarrow> MatchContext \<Rightarrow> (nat \<Rightarrow> TimerStatus) option \<Rightarrow> Machine \<Rightarrow> outcome" where
  "step_back regex ctx timer m =
     (case backtrack (bts_entries (vm_bts (m_vm m))) (m_vm m) of
        BtFault \<Rightarrow> Crashed
      | Resumed vm \<Rightarrow> check_timer timer (m\<lparr>m_vm := vm, m_back := False\<rparr>)
      | Exhausted vm \<Rightarrow> next_start regex ctx m vm)"

definition machine_step :: "unicode_env \<Rightarrow> Regex \<Rightarrow> MatchContext \<Rightarrow> (nat \<Rightarrow> TimerStatus) option \<Rightarrow> Machine \<Rightarrow> outcome" where
  "machine_step env regex ctx timer m =
     (if m_back m then step_back regex ctx timer m else step_run env regex m)"

primrec machine_run :: "nat \<Rightarrow> unicode_env \<Rightarrow> Regex \<Rightarrow> MatchContext \<Rightarrow> (nat \<Rightarrow> TimerStatus) option \<Rightarrow> outcome \<Rightarrow> outcome" where
  "machine_run 0 env regex ctx timer out = out"
| "machine_run (Suc fuel) env regex ctx timer out =
     (case out of
        Running m \<Rightarrow> machine_run fuel env regex ctx timer (machine_step env regex ctx timer m)
      | _ \<Rightarrow> out)"

definition match_start :: "Regex \<Rightarrow> MatchContext \<Rightarrow> outcome" where
  "match_start regex ctx =
     (let (captures, loops) = resetState ctx in
      start_at regex ctx
        \<lparr>m_vm = \<lparr>vm_inst = 0, vm_input = ctx_input ctx, vm_captures = captures, vm_loops = loops,
                 vm_bts = \<lparr>bts_entries = [], bts_cap = INIT_CAP\<rparr>\<rparr>,
         m_oldIter = input_iter (ctx_input ctx), m_btCount = 0, m_checks = 0, m_back = False\<rparr>)"

text \<open>\<open>match\<close>: with the context it leaves. \<open>None\<close> when the fuel runs out or the machine crashes.\<close>

definition vm_match :: "nat \<Rightarrow> unicode_env \<Rightarrow> Regex \<Rightarrow> MatchContext \<Rightarrow> (nat \<Rightarrow> TimerStatus) option
    \<Rightarrow> (MatchStatus \<times> MatchContext) option" where
  "vm_match fuel env regex ctx timer =
     (case machine_run fuel env regex ctx timer (match_start regex ctx) of
        Finished st vm \<Rightarrow>
          Some (st, ctx\<lparr>ctx_captures := vm_captures vm, ctx_loops := vm_loops vm,
            ctx_input := (if st = MATCH_OK \<or> st = MATCH_FAIL then vm_input vm else ctx_input ctx)\<rparr>)
      | _ \<Rightarrow> None)"

end
