(* ===== verification/Num_Util.thy ===== *)
theory Num_Util
  imports Prelude
begin

text \<open>
  Conversion of digit strings to integers (\<open>misc/num_util.hpp\<close>), for every width of the integer type:
  the builtins that report overflow, the detection of the radix, the unsigned and the signed parser.
  A conversion succeeds exactly when the digits are legal in the radix and the number fits the type,
  and then it yields that number.
\<close>

section \<open>Overflow\<close>

text \<open>\<open>__builtin_uadd_overflow\<close>, \<open>__builtin_umul_overflow\<close>: the wrapped result and whether it differs from the
  mathematical one.\<close>

definition add_overflow :: "'a::len word \<Rightarrow> 'a word \<Rightarrow> 'a word \<times> bool" where
  "add_overflow x y = (x + y, uint (x + y) \<noteq> uint x + uint y)"

definition mul_overflow :: "'a::len word \<Rightarrow> 'a word \<Rightarrow> 'a word \<times> bool" where
  "mul_overflow x y = (x * y, uint (x * y) \<noteq> uint x * uint y)"

definition dropSign :: "'a::len word \<Rightarrow> 'a word" where
  "dropSign v = NOT v + 1"

definition putSign :: "'a::len word \<Rightarrow> 'a word" where
  "putSign v = NOT v + 1"

section \<open>Results\<close>

datatype IntConversionStatus = CONV_OK | ILLEGAL_CHAR | ILLEGAL_RADIX | RADIX_OVERFLOW | OUT_OF_RANGE

text \<open>The value of an integer type is a word with its bits, for the signed types too.\<close>

record 't IntConversionResult =
  conv_kind :: IntConversionStatus
  conv_consumedSize :: nat
  conv_value :: 't

text \<open>\<open>numeric_limits<T>::min\<close> and \<open>max\<close> of the signed type.\<close>

definition signed_min :: "'a::len word" where
  "signed_min = push_bit (LENGTH('a) - 1) 1"

definition signed_max :: "'a::len word" where
  "signed_max = signed_min - 1"

definition makeSigned :: "'a::len word \<Rightarrow> bool \<Rightarrow> 'a word \<times> bool" where
  "makeSigned v negate =
     (if negate then (if v \<le> dropSign signed_min then (putSign v, True) else (v, False))
      else (if v \<le> signed_max then (v, True) else (v, False)))"

section \<open>Parsers\<close>

text \<open>\<open>parseBase\<close>: the radix and the number of characters it skips.\<close>

definition parseBase :: "bytes \<Rightarrow> nat \<times> nat" where
  "parseBase s =
     (case s of
        [] \<Rightarrow> (0, 0)
      | c # rest \<Rightarrow>
          if c = 48 then
            (case rest of
               [] \<Rightarrow> (8, 0)
             | d # _ \<Rightarrow>
                 if d = 120 \<or> d = 88 then (16, 2)
                 else if d = 111 \<or> d = 79 then (8, 2)
                 else (8, 1))
          else (10, 0))"

definition digit_of :: "byte \<Rightarrow> nat option" where
  "digit_of ch =
     (if 48 \<le> ch \<and> ch \<le> 57 then Some (unat (ch - 48))
      else if 97 \<le> ch \<and> ch \<le> 122 then Some (10 + unat (ch - 97))
      else if 65 \<le> ch \<and> ch \<le> 90 then Some (10 + unat (ch - 65))
      else None)"

text \<open>The loop over the digits: the status, the value and the number of characters consumed.\<close>

primrec digit_loop :: "nat \<Rightarrow> 'a::len word \<Rightarrow> nat \<Rightarrow> bytes \<Rightarrow> IntConversionStatus \<times> 'a word \<times> nat" where
  "digit_loop base val n [] = (CONV_OK, val, n)"
| "digit_loop base val n (ch # s) =
     (case digit_of ch of
        None \<Rightarrow> (ILLEGAL_CHAR, val, n)
      | Some v \<Rightarrow>
          if v \<ge> base then (RADIX_OVERFLOW, val, n)
          else (let (m, mo) = mul_overflow val (of_nat base) in
                if mo then (OUT_OF_RANGE, m, n)
                else (let (a, ao) = add_overflow m (of_nat v) in
                      if ao then (OUT_OF_RANGE, a, n) else digit_loop base a (n + 1) s)))"

definition plus_size :: "bytes \<Rightarrow> nat" where
  "plus_size s = (case s of c # _ \<Rightarrow> if c = 43 then 1 else 0 | [] \<Rightarrow> 0)"

definition parseInteger :: "bytes \<Rightarrow> nat \<Rightarrow> 'a::len word IntConversionResult" where
  "parseInteger s base0 =
     (let plus = plus_size s;
          (base, skip) = (if base0 = 0 then parseBase (drop plus s) else (base0, 0));
          begin' = plus + skip;
          rest = drop begin' s in
      if rest = [] then \<lparr>conv_kind = ILLEGAL_CHAR, conv_consumedSize = begin', conv_value = 0\<rparr>
      else if base < 2 \<or> base > 36 then \<lparr>conv_kind = ILLEGAL_RADIX, conv_consumedSize = begin', conv_value = 0\<rparr>
      else (let (kind, val, n) = digit_loop base 0 begin' rest in
            \<lparr>conv_kind = kind, conv_consumedSize = n, conv_value = val\<rparr>))"

text \<open>The signed parser. It looks at the character behind a leading minus sign, which is the terminator
  of the string when the sign ends it.\<close>

definition parseInteger_signed :: "bytes \<Rightarrow> nat \<Rightarrow> 'a::len word IntConversionResult" where
  "parseInteger_signed s base =
     (let sign = (case s of c # rest \<Rightarrow> c = 45 \<and> \<not> (rest \<noteq> [] \<and> hd rest = 43) | [] \<Rightarrow> False);
          off = (if sign then 1 else 0);
          ret = parseInteger (drop off s) base :: 'a word IntConversionResult;
          ret2 = ret\<lparr>conv_consumedSize := off + conv_consumedSize ret\<rparr> in
      if conv_kind ret = CONV_OK
      then (let (v, ok) = makeSigned (conv_value ret) sign in
            ret2\<lparr>conv_value := v, conv_kind := (if ok then CONV_OK else OUT_OF_RANGE)\<rparr>)
      else ret2)"

definition convertToNum :: "bytes \<Rightarrow> nat \<Rightarrow> 'a::len word IntConversionResult" where
  "convertToNum s base = parseInteger s base"

definition convertToNum10 :: "bytes \<Rightarrow> 'a::len word IntConversionResult" where
  "convertToNum10 s = convertToNum s 10"

section \<open>The number a digit string denotes\<close>

definition legal :: "nat \<Rightarrow> bytes \<Rightarrow> bool" where
  "legal base s \<longleftrightarrow> list_all (\<lambda>ch. case digit_of ch of None \<Rightarrow> False | Some v \<Rightarrow> v < base) s"

definition number :: "nat \<Rightarrow> bytes \<Rightarrow> nat" where
  "number base s = foldl (\<lambda>n ch. n * base + the (digit_of ch)) 0 s"

text \<open>The text behind an optional plus sign.\<close>

definition unsigned_part :: "bytes \<Rightarrow> bytes" where
  "unsigned_part s = (if s \<noteq> [] \<and> hd s = 43 then tl s else s)"

lemma number_acc: "foldl (\<lambda>n ch. n * base + the (digit_of ch)) acc s = acc * base ^ length s + number base s"
proof (induction s arbitrary: acc)
  case (Cons ch s)
  show ?case using Cons [of "acc * base + the (digit_of ch)"] Cons [of "the (digit_of ch)"]
    by (simp add: number_def algebra_simps)
qed (simp add: number_def)

lemma number_simps [simp]:
  "number base [] = 0" "number base (ch # s) = the (digit_of ch) * base ^ length s + number base s"
  using number_acc [of base "the (digit_of ch)" s] by (simp_all add: number_def)

lemma digit_of_bound: "digit_of ch = Some v \<Longrightarrow> v < 36"
  by (auto simp: digit_of_def word_le_nat_alt unat_sub_if_size split: if_splits)

lemma wraps_iff:
  fixes z :: "'a::len word"
  assumes "unat z = n mod 2 ^ LENGTH('a)"
  shows "uint z = int n \<longleftrightarrow> n < 2 ^ LENGTH('a)" "n < 2 ^ LENGTH('a) \<Longrightarrow> unat z = n"
proof -
  have "uint z = int n \<longleftrightarrow> unat z = n" by (simp add: uint_nat del: of_nat_unat)
  also have "\<dots> \<longleftrightarrow> n < 2 ^ LENGTH('a)" using assms by (metis mod_less unsigned_less)
  finally show "uint z = int n \<longleftrightarrow> n < 2 ^ LENGTH('a)" .
  show "n < 2 ^ LENGTH('a) \<Longrightarrow> unat z = n" using assms by simp
qed

lemma unat_add_overflow:
  fixes x y :: "'a::len word"
  shows "add_overflow x y = (x + y, \<not> unat x + unat y < 2 ^ LENGTH('a))"
    "unat x + unat y < 2 ^ LENGTH('a) \<Longrightarrow> unat (x + y) = unat x + unat y"
proof -
  have m: "unat (x + y) = (unat x + unat y) mod 2 ^ LENGTH('a)" by (rule unat_word_ariths)
  show "add_overflow x y = (x + y, \<not> unat x + unat y < 2 ^ LENGTH('a))"
    using wraps_iff(1) [OF m] by (simp add: add_overflow_def)
  show "unat x + unat y < 2 ^ LENGTH('a) \<Longrightarrow> unat (x + y) = unat x + unat y" by (rule wraps_iff(2) [OF m])
qed

lemma unat_mul_overflow:
  fixes x y :: "'a::len word"
  shows "mul_overflow x y = (x * y, \<not> unat x * unat y < 2 ^ LENGTH('a))"
    "unat x * unat y < 2 ^ LENGTH('a) \<Longrightarrow> unat (x * y) = unat x * unat y"
proof -
  have m: "unat (x * y) = (unat x * unat y) mod 2 ^ LENGTH('a)" by (rule unat_word_ariths)
  show "mul_overflow x y = (x * y, \<not> unat x * unat y < 2 ^ LENGTH('a))"
    using wraps_iff(1) [OF m] by (simp add: mul_overflow_def)
  show "unat x * unat y < 2 ^ LENGTH('a) \<Longrightarrow> unat (x * y) = unat x * unat y" by (rule wraps_iff(2) [OF m])
qed

text \<open>The loop keeps the number read so far, and fails as soon as it no longer fits.\<close>

lemma digit_loop_value:
  fixes val :: "'a::len word"
  assumes "2 \<le> base" "base < 2 ^ LENGTH('a)"
  shows "digit_loop base val n s = (CONV_OK, w, m) \<longleftrightarrow>
    legal base s \<and> unat val * base ^ length s + number base s < 2 ^ LENGTH('a) \<and> m = n + length s \<and>
    unat w = unat val * base ^ length s + number base s"
proof (induction s arbitrary: val n)
  case Nil
  then show ?case by (auto simp: legal_def word_unat_eq_iff)
next
  case (Cons ch s)
  have base: "unat (of_nat base :: 'a word) = base" using assms by (simp add: unsigned_of_nat take_bit_nat_eq_self)
  show ?case
  proof (cases "digit_of ch")
    case (Some v)
    show ?thesis
    proof (cases "v < base")
      case v: True
      then have uv: "unat (of_nat v :: 'a word) = v" using assms by (simp add: unsigned_of_nat take_bit_nat_eq_self)
      have le: "unat val * base + v \<le> (unat val * base + v) * base ^ length s" using assms by simp
      have eq: "unat val * base ^ length (ch # s) + number base (ch # s) = (unat val * base + v) * base ^ length s + number base s"
        using Some by (simp add: algebra_simps)
      show ?thesis
      proof (cases "unat val * base + v < 2 ^ LENGTH('a)")
        case fits: True
        then have "unat val * base < 2 ^ LENGTH('a)" by simp
        with fits have m: "unat (val * of_nat base) = unat val * base" "unat (val * of_nat base + of_nat v) = unat val * base + v"
          using unat_mul_overflow(2) [of val "of_nat base"] unat_add_overflow(2) [of "val * of_nat base" "of_nat v"] base uv by simp_all
        have "digit_loop base val n (ch # s) = digit_loop base (val * of_nat base + of_nat v) (n + 1) s"
          using Some v fits base uv m by (simp add: unat_mul_overflow(1) unat_add_overflow(1))
        then show ?thesis using Cons [of "val * of_nat base + of_nat v" "n + 1"] m(2) eq Some v by (auto simp: legal_def)
      next
        case False
        have "fst (digit_loop base val n (ch # s)) = OUT_OF_RANGE"
        proof (cases "unat val * base < 2 ^ LENGTH('a)")
          case True
          then have "unat (val * of_nat base) = unat val * base" using unat_mul_overflow(2) [of val "of_nat base"] base by simp
          with Some v False True base uv show ?thesis by (simp add: unat_mul_overflow(1) unat_add_overflow(1))
        qed (use Some v base in \<open>simp add: unat_mul_overflow(1)\<close>)
        then have "digit_loop base val n (ch # s) \<noteq> (CONV_OK, w, m)" by auto
        moreover have "\<not> unat val * base ^ length (ch # s) + number base (ch # s) < 2 ^ LENGTH('a)"
          using False le eq by linarith
        ultimately show ?thesis by blast
      qed
    qed (use Some in \<open>simp add: legal_def\<close>)
  qed (simp add: legal_def)
qed

lemma parseInteger_spec:
  fixes base :: nat and s :: bytes
  assumes "2 \<le> base" "base \<le> 36" "36 < (2 :: nat) ^ LENGTH('a::len)"
  defines "r \<equiv> parseInteger s base :: 'a word IntConversionResult" and "ds \<equiv> unsigned_part s"
  shows "conv_kind r = CONV_OK \<longleftrightarrow> ds \<noteq> [] \<and> legal base ds \<and> number base ds < 2 ^ LENGTH('a)"
    "conv_kind r = CONV_OK \<Longrightarrow> conv_consumedSize r = length s \<and> unat (conv_value r) = number base ds"
proof -
  let ?p = "plus_size s"
  have s: "drop ?p s = ds" "length s = ?p + length ds"
    by (cases s; auto simp: ds_def unsigned_part_def plus_size_def)+
  have base: "base < 2 ^ LENGTH('a)" using assms by simp
  obtain k w m where loop: "digit_loop base (0 :: 'a word) ?p ds = (k, w, m)" by (cases "digit_loop base (0 :: 'a word) ?p ds") auto
  note v = digit_loop_value [OF assms(1) base, of 0 ?p ds, unfolded unsigned_0 mult_zero_left add_0, unfolded loop]
  have r: "r = (if ds = [] then \<lparr>conv_kind = ILLEGAL_CHAR, conv_consumedSize = ?p, conv_value = 0\<rparr>
       else \<lparr>conv_kind = k, conv_consumedSize = m, conv_value = w\<rparr>)"
    using assms(1,2) loop by (simp add: r_def parseInteger_def s(1) del: drop_eq_Nil)
  have "k = CONV_OK" if "legal base ds" "number base ds < 2 ^ LENGTH('a)"
    using v [of "of_nat (number base ds)" "?p + length ds"] that by (simp add: unsigned_of_nat take_bit_nat_eq_self)
  with v [of w m] show "conv_kind r = CONV_OK \<longleftrightarrow> ds \<noteq> [] \<and> legal base ds \<and> number base ds < 2 ^ LENGTH('a)"
    unfolding r by auto
  show "conv_kind r = CONV_OK \<Longrightarrow> conv_consumedSize r = length s \<and> unat (conv_value r) = number base ds"
    using v [of w m] s(2) unfolding r by (auto split: if_splits)
qed

section \<open>Signed numbers\<close>

lemma signed_limits:
  "unat (signed_min :: 'a::len word) = 2 ^ (LENGTH('a) - 1)" "unat (signed_max :: 'a::len word) = 2 ^ (LENGTH('a) - 1) - 1"
  "dropSign (signed_min :: 'a::len word) = signed_min"
proof -
  have lt: "(2 :: nat) ^ (LENGTH('a) - 1) < 2 ^ LENGTH('a)" by (simp add: power_strict_increasing)
  have e: "signed_min = (of_nat (2 ^ (LENGTH('a) - 1)) :: 'a word)" by (simp add: signed_min_def push_bit_eq_mult)
  show m: "unat (signed_min :: 'a::len word) = 2 ^ (LENGTH('a) - 1)"
    unfolding e using take_bit_nat_eq_self [OF lt] by (simp only: unsigned_of_nat) simp
  show "unat (signed_max :: 'a::len word) = 2 ^ (LENGTH('a) - 1) - 1"
    by (simp add: signed_max_def unat_sub_if_size m)
  have "signed_min + signed_min = (of_nat (2 ^ LENGTH('a)) :: 'a word)"
    unfolding e by (simp flip: mult_2 power_Suc)
  then have "signed_min + signed_min = (0 :: 'a word)" by simp
  then show "dropSign (signed_min :: 'a::len word) = signed_min"
    by (simp add: dropSign_def not_eq_complement eq_neg_iff_add_eq_0 [symmetric])
qed

text \<open>The sign and the digits of a signed number.\<close>

definition signed_parts :: "bytes \<Rightarrow> bool \<times> bytes" where
  "signed_parts s = (if s \<noteq> [] \<and> hd s = 45 then (True, tl s) else (False, unsigned_part s))"

definition signed_number :: "nat \<Rightarrow> bytes \<Rightarrow> int" where
  "signed_number base s =
     (let (neg, ds) = signed_parts s in if neg then - int (number base ds) else int (number base ds))"

lemma makeSigned_spec:
  fixes v :: "'a::len word" and neg :: bool
  defines "n \<equiv> if neg then - int (unat v) else int (unat v)"
  shows "snd (makeSigned v neg) \<longleftrightarrow> - (2 ^ (LENGTH('a) - 1)) \<le> n \<and> n < 2 ^ (LENGTH('a) - 1)"
    "snd (makeSigned v neg) \<Longrightarrow> sint (fst (makeSigned v neg)) = n"
proof -
  have pow: "int (2 ^ (LENGTH('a) - 1)) = 2 ^ (LENGTH('a) - 1)" "(0 :: nat) < 2 ^ (LENGTH('a) - 1)" by simp_all
  have le: "v \<le> dropSign signed_min \<longleftrightarrow> unat v \<le> 2 ^ (LENGTH('a) - 1)" "v \<le> signed_max \<longleftrightarrow> unat v < 2 ^ (LENGTH('a) - 1)"
    unfolding word_le_nat_alt signed_limits using pow(2) by linarith+
  have int: "unat v \<le> 2 ^ (LENGTH('a) - 1) \<longleftrightarrow> int (unat v) \<le> 2 ^ (LENGTH('a) - 1)"
      "unat v < 2 ^ (LENGTH('a) - 1) \<longleftrightarrow> int (unat v) < 2 ^ (LENGTH('a) - 1)"
    unfolding pow(1) [symmetric] by (simp_all only: of_nat_le_iff of_nat_less_iff)
  have z: "0 \<le> int (unat v)" "(0 :: int) < 2 ^ (LENGTH('a) - 1)" by simp_all
  show iff: "snd (makeSigned v neg) \<longleftrightarrow> - (2 ^ (LENGTH('a) - 1)) \<le> n \<and> n < 2 ^ (LENGTH('a) - 1)"
  proof (cases neg)
    case True
    have "- int (unat v) < 2 ^ (LENGTH('a) - 1)" using z by linarith
    with True show ?thesis unfolding n_def makeSigned_def le int by (simp del: of_nat_unat)
  next
    case False
    have "- (2 ^ (LENGTH('a) - 1)) \<le> int (unat v)" using z by linarith
    with False show ?thesis unfolding n_def makeSigned_def le int by (simp del: of_nat_unat)
  qed
  have fst: "snd (makeSigned v neg) \<Longrightarrow> fst (makeSigned v neg) = of_int n"
    by (auto simp: makeSigned_def n_def putSign_def not_eq_complement split: if_splits)
  show "snd (makeSigned v neg) \<Longrightarrow> sint (fst (makeSigned v neg)) = n"
    using iff fst by (simp add: signed_of_int signed_take_bit_int_eq_self)
qed

section \<open>Properties\<close>

text \<open>C21. Parsing an unsigned integer in a given radix: it succeeds exactly when, behind an optional plus
  sign, there is a non-empty string of digits of the radix whose number is below \<open>2 ^ w\<close> for the width \<open>w\<close>
  of the type; it then has consumed the whole string and yields that number, never a wrapped one.\<close>

theorem parseInteger_ok:
  assumes "2 \<le> base" "base \<le> 36" "36 < (2 :: nat) ^ LENGTH('a::len)"
  shows "if unsigned_part s \<noteq> [] \<and> legal base (unsigned_part s) \<and> number base (unsigned_part s) < 2 ^ LENGTH('a)
    then parseInteger s base = \<lparr>conv_kind = CONV_OK, conv_consumedSize = length s,
           conv_value = (of_nat (number base (unsigned_part s)) :: 'a word)\<rparr>
    else conv_kind (parseInteger s base :: 'a word IntConversionResult) \<noteq> CONV_OK"
  using parseInteger_spec [OF assms, of s] by (auto intro!: IntConversionResult.equality simp: word_unat_eq_iff unsigned_of_nat take_bit_nat_eq_self)

theorem parseInteger_ok_witness:
  "parseInteger [43, 52, 50] 10 = \<lparr>conv_kind = CONV_OK, conv_consumedSize = 3, conv_value = (42 :: 32 word)\<rparr>"
  using parseInteger_ok [of 10 "[43, 52, 50]", where ?'a = 32] by (simp add: legal_def digit_of_def unsigned_part_def)

text \<open>C22. Parsing a signed integer: it succeeds exactly when the digits behind the sign are legal and the
  number is between \<open>- 2 ^ (w - 1)\<close> and \<open>2 ^ (w - 1) - 1\<close>, the smallest negative number included, and then
  yields the number with its sign; \<open>-+\<close> is not a sign.\<close>

theorem parseInteger_signed_ok:
  assumes "2 \<le> base" "base \<le> 36" "36 < (2 :: nat) ^ LENGTH('a::len)"
  shows "let r = parseInteger_signed s base :: 'a word IntConversionResult; ds = snd (signed_parts s); n = signed_number base s in
    if ds \<noteq> [] \<and> legal base ds \<and> - (2 ^ (LENGTH('a) - 1)) \<le> n \<and> n < 2 ^ (LENGTH('a) - 1)
    then conv_kind r = CONV_OK \<and> conv_consumedSize r = length s \<and> sint (conv_value r) = n
    else conv_kind r \<noteq> CONV_OK"
proof -
  define sign where "sign = (case s of c # rest \<Rightarrow> c = 45 \<and> \<not> (rest \<noteq> [] \<and> hd rest = 43) | [] \<Rightarrow> False)"
  define u where "u = drop (if sign then 1 else 0) s"
  define q where "q = (parseInteger u base :: 'a word IntConversionResult)"
  note p = parseInteger_spec [OF assms, of u, folded q_def]
  note m = makeSigned_spec [of "conv_value q" sign]
  have bad: "\<not> legal base (43 # r)" "\<not> legal base (45 # r)" for r by (simp_all add: legal_def digit_of_def)
  have parts: "signed_parts s = (sign, unsigned_part u) \<or> (\<exists>r. s = 45 # 43 # r)"
    by (cases s; cases "tl s") (auto simp: signed_parts_def sign_def u_def unsigned_part_def)
  have r: "parseInteger_signed s base = (if conv_kind q = CONV_OK
      then q\<lparr>conv_consumedSize := (if sign then 1 else 0) + conv_consumedSize q, conv_value := fst (makeSigned (conv_value q) sign),
        conv_kind := (if snd (makeSigned (conv_value q) sign) then CONV_OK else OUT_OF_RANGE)\<rparr>
      else q\<lparr>conv_consumedSize := (if sign then 1 else 0) + conv_consumedSize q\<rparr>)"
    unfolding parseInteger_signed_def sign_def [symmetric] u_def [symmetric] q_def [symmetric] Let_def by (simp add: split_beta)
  show ?thesis
  proof (cases "\<exists>r. s = 45 # 43 # r")
    case True
    then have "signed_parts s = (True, tl s)" "\<not> legal base (tl s)" "\<not> sign" "u = s" "unsigned_part s = s" "\<not> legal base s"
      using bad by (auto simp: signed_parts_def sign_def u_def unsigned_part_def)
    with p(1) r show ?thesis by (simp add: Let_def)
  next
    case False
    then have parts: "signed_parts s = (sign, unsigned_part u)" using parts by blast
    have len: "length s = (if sign then 1 else 0) + length u" by (auto simp: u_def sign_def split: list.splits)
    let ?n = "if sign then - int (number base (unsigned_part u)) else int (number base (unsigned_part u))"
    have fits: "number base (unsigned_part u) < 2 ^ LENGTH('a)" if "- (2 ^ (LENGTH('a) - 1)) \<le> ?n" "?n < 2 ^ (LENGTH('a) - 1)"
    proof -
      have "int (number base (unsigned_part u)) \<le> 2 ^ (LENGTH('a) - 1)" using that by (auto split: if_splits)
      moreover have "(2 :: int) ^ (LENGTH('a) - 1) < 2 ^ LENGTH('a)" by (simp add: power_strict_increasing)
      ultimately have "int (number base (unsigned_part u)) < int (2 ^ LENGTH('a))" unfolding of_nat_power of_nat_numeral by linarith
      then show ?thesis by (simp only: of_nat_less_iff)
    qed
    have n: "signed_number base s = ?n" by (simp add: signed_number_def parts)
    show ?thesis
    proof (cases "conv_kind q = CONV_OK")
      case True
      with p(2) have "unat (conv_value q) = number base (unsigned_part u)" by simp
      with m p r True n parts len show ?thesis by (simp add: Let_def)
    next
      case False
      with p(1) fits n parts r show ?thesis by (auto simp: Let_def)
    qed
  qed
qed

theorem parseInteger_signed_ok_witness:
  "sint (conv_value (parseInteger_signed [45, 50, 49, 52, 55, 52, 56, 51, 54, 52, 56] 10 :: 32 word IntConversionResult)) = - 2147483648"
  using parseInteger_signed_ok [of 10 "[45, 50, 49, 52, 55, 52, 56, 51, 54, 52, 56]", where ?'a = 32]
  by (simp add: legal_def digit_of_def signed_parts_def signed_number_def Let_def)

end
