(* ===== verification/Regex_Api.thy ===== *)
theory Regex_Api
  imports Regex_VM Num_Util
begin

text \<open>
  The entry points of \<open>regex/regex.cpp\<close>: \<open>match\<close> on a text, \<open>replace\<close> with its replacement patterns,
  \<open>split\<close>, \<open>matchAll\<close> and \<open>escape\<close>. A consumer is a function with a state of its own that may refuse to
  go on. The calls of the machine are numbered, because the answers of the timer differ from call to
  call; \<open>None\<close> means that a call did not return.
\<close>

type_synonym ('x, 's) consumer = "'x \<Rightarrow> 's \<Rightarrow> bool \<times> 's"
type_synonym engine = "nat \<Rightarrow> MatchContext \<Rightarrow> (MatchStatus \<times> MatchContext) option"

text \<open>The numbered calls of \<open>match(regex, ctx, timer)\<close>.\<close>

definition vm_engine :: "nat \<Rightarrow> unicode_env \<Rightarrow> Regex \<Rightarrow> (nat \<Rightarrow> (nat \<Rightarrow> TimerStatus) option) \<Rightarrow> engine" where
  "vm_engine fuel env regex timers = (\<lambda>i ctx. vm_match fuel env regex ctx (timers i))"

section \<open>match\<close>

definition match_status_text :: "MatchStatus \<Rightarrow> string" where
  "match_status_text s =
     (case s of
        MATCH_FAIL \<Rightarrow> ''failed''
      | MATCH_INVALID_UTF8 \<Rightarrow> ''input string is invalid UTF-8''
      | MATCH_INPUT_LIMIT \<Rightarrow> ''size of input string is too large''
      | MATCH_CANCEL \<Rightarrow> ''canceled''
      | MATCH_TIMEOUT \<Rightarrow> ''match timeout''
      | MATCH_STACK_LIMIT \<Rightarrow> ''stack depth reaches limit''
      | _ \<Rightarrow> '''')"

definition api_match :: "engine \<Rightarrow> Regex \<Rightarrow> bytes \<Rightarrow> nat \<Rightarrow> Capture list \<Rightarrow> (MatchStatus \<times> Capture list) option" where
  "api_match eng regex txt codePointOffset captures =
     (case tryToCreateMatchContext regex txt codePointOffset captures of
        Inl s \<Rightarrow> Some (s, captures)
      | Inr ctx \<Rightarrow> map_option (\<lambda>(s, ctx'). (s, ctx_captures ctx')) (eng 0 ctx))"

section \<open>Replacement patterns\<close>

definition substr :: "bytes \<Rightarrow> nat \<Rightarrow> nat \<Rightarrow> bytes" where
  "substr s pos size' = take size' (drop pos s)"

definition isDecimal :: "byte \<Rightarrow> bool" where
  "isDecimal ch \<longleftrightarrow> 48 \<le> ch \<and> ch \<le> 57"

definition capture_text :: "bytes \<Rightarrow> Capture \<Rightarrow> bytes" where
  "capture_text txt cap = (if isUnset cap then [] else substr txt (unat (cap_offset cap)) (unat (cap_size cap)))"

text \<open>The errors of a replacement pattern, and the messages \<open>interpretReplacePattern\<close> appends for them.\<close>

datatype replace_error = InvalidDollar | UndefinedIndex bytes | UnclosedName | UndefinedName bytes

fun replace_error_text :: "replace_error \<Rightarrow> bytes" where
  "replace_error_text InvalidDollar = map of_char ''invalid replace pattern: `$'' @ [39]"
| "replace_error_text (UndefinedIndex num) = map of_char ''undefined capture group index: `'' @ num @ [39]"
| "replace_error_text UnclosedName = map of_char ''replace pattern `$<'' @ [39] @ map of_char '' must end with `>'' @ [39]"
| "replace_error_text (UndefinedName name) = map of_char ''undefined capture group name: `'' @ name @ [39]"

text \<open>\<open>$\<close> followed by a number or by a name; \<open>retPos\<close> is behind the first digit, or behind \<open><\<close>.\<close>

definition replace_index :: "Regex \<Rightarrow> Capture list \<Rightarrow> bytes \<Rightarrow> bytes \<Rightarrow> nat \<Rightarrow> replace_error + (bytes \<times> nat)" where
  "replace_index regex caps txt rep startPos =
     (let num = takeWhile isDecimal (drop startPos rep);
          ret = convertToNum10 num :: u32 IntConversionResult in
      if conv_kind ret = CONV_OK \<and> unat (conv_value ret) \<le> regex_captureGroupCount regex \<and> conv_value ret > 0
      then Inr (capture_text txt (caps ! unat (conv_value ret)), startPos + length num)
      else Inl (UndefinedIndex num))"

definition replace_name :: "Regex \<Rightarrow> Capture list \<Rightarrow> bytes \<Rightarrow> bytes \<Rightarrow> nat \<Rightarrow> replace_error + (bytes \<times> nat)" where
  "replace_name regex caps txt rep retPos =
     (case find_from rep retPos [62] of
        None \<Rightarrow> Inl UnclosedName
      | Some p \<Rightarrow>
          (let name = slice rep retPos p in
           case groups_find (regex_named regex) name of
             Some e \<Rightarrow> Inr (capture_text txt (findValidNamedCapture e caps), p + 1)
           | None \<Rightarrow> Inl (UndefinedName name)))"

text \<open>What follows a \<open>$\<close>: the text to insert and the position behind it.\<close>

definition replace_item :: "Regex \<Rightarrow> Capture list \<Rightarrow> bytes \<Rightarrow> bytes \<Rightarrow> nat \<Rightarrow> replace_error + (bytes \<times> nat)" where
  "replace_item regex caps txt rep retPos =
     (if retPos = length rep then Inl InvalidDollar
      else (let ch = rep ! retPos; c = caps ! 0 in
            if ch = 36 then Inr ([36], retPos + 1)
            else if ch = 38 then Inr (substr txt (unat (cap_offset c)) (unat (cap_size c)), retPos + 1)
            else if ch = 96 then Inr (substr txt 0 (unat (cap_offset c)), retPos + 1)
            else if ch = 39 then Inr (drop (unat (endOffset c)) txt, retPos + 1)
            else if isDecimal ch then replace_index regex caps txt rep retPos
            else if ch = 60 then replace_name regex caps txt rep (retPos + 1)
            else Inl InvalidDollar))"

lemma replace_item_progress:
  assumes "replace_item regex caps txt rep p = Inr (ins, pos)" "p \<le> length rep"
  shows "p < pos"
proof -
  have "0 < length (takeWhile isDecimal (drop p rep))" if "isDecimal (rep ! p)" "p < length rep"
    using that by (simp add: Cons_nth_drop_Suc [symmetric])
  with assms show ?thesis
    by (auto simp: replace_item_def replace_index_def replace_name_def Let_def dest!: find_from_Some split: if_splits option.splits)
qed

lemma find_char_bound: "find_from s pos [c] = Some p \<Longrightarrow> pos \<le> p \<and> p < length s"
  using find_from_Some [of s pos "[c]" p] by (auto simp: startsWith_def)

text \<open>The loop of \<open>interpretReplacePattern\<close> from \<open>pos\<close> on.\<close>

function interpretReplacePattern :: "Regex \<Rightarrow> Capture list \<Rightarrow> bytes \<Rightarrow> bytes \<Rightarrow> (bytes, 's) consumer \<Rightarrow> nat \<Rightarrow> 's
    \<Rightarrow> MatchStatus \<times> 's \<times> bytes" where
  "interpretReplacePattern regex caps txt rep consumer pos st =
     (case find_from rep pos [36] of
        None \<Rightarrow>
          (case consumer (drop pos rep) st of
             (False, st1) \<Rightarrow> (MATCH_CONSUMED_LIMIT, st1, [])
           | (True, st1) \<Rightarrow> (MATCH_OK, st1, []))
      | Some p \<Rightarrow>
          (case consumer (slice rep pos p) st of
             (False, st1) \<Rightarrow> (MATCH_CONSUMED_LIMIT, st1, [])
           | (True, st1) \<Rightarrow>
               (case replace_item regex caps txt rep (p + 1) of
                  Inl e \<Rightarrow> (MATCH_INVALID_REPLACE_PATTERN, st1, replace_error_text e)
                | Inr (inserting, pos') \<Rightarrow>
                    (case consumer inserting st1 of
                       (False, st2) \<Rightarrow> (MATCH_CONSUMED_LIMIT, st2, [])
                     | (True, st2) \<Rightarrow> interpretReplacePattern regex caps txt rep consumer pos' st2))))"
  by pat_completeness auto
termination
  by (relation "measure (\<lambda>(regex, caps, txt, rep, consumer, pos, st). Suc (length rep) - pos)")
    (auto dest!: find_char_bound replace_item_progress)

declare interpretReplacePattern.simps [simp del]

section \<open>replace\<close>

text \<open>\<open>input.consumeForward()\<close> on the context.\<close>

definition ctx_consume :: "MatchContext \<Rightarrow> MatchContext" where
  "ctx_consume ctx = ctx\<lparr>ctx_input := snd (consumeForward (ctx_input ctx))\<rparr>"

definition ctx_setIter :: "MatchContext \<Rightarrow> u32 \<Rightarrow> MatchContext" where
  "ctx_setIter ctx offset = ctx\<lparr>ctx_input := setIter (ctx_input ctx) (unat offset)\<rparr>"

text \<open>What follows the loop of \<open>replace\<close> and \<open>split\<close>: the remaining text.\<close>

definition consume_remain :: "(bytes, 's) consumer \<Rightarrow> MatchContext \<Rightarrow> 's \<Rightarrow> MatchStatus \<times> 's \<times> bytes" where
  "consume_remain consumer ctx st =
     (case consumer (remainForward (ctx_input ctx)) st of
        (False, st') \<Rightarrow> (MATCH_CONSUMED_LIMIT, st', [])
      | (True, st') \<Rightarrow> (MATCH_OK, st', []))"

record ReplaceParam =
  param_text :: bytes
  param_replacement :: bytes
  param_global :: bool

text \<open>The rest of an iteration after a match: what the match leaves of the text before it, the replacement,
  and one code point when the match consumed nothing. \<open>Inl\<close> leaves the function.\<close>

definition replace_matched :: "Regex \<Rightarrow> ReplaceParam \<Rightarrow> (bytes, 's) consumer \<Rightarrow> u32 \<Rightarrow> MatchContext \<Rightarrow> 's
    \<Rightarrow> (MatchStatus \<times> 's \<times> bytes) + (MatchContext \<times> 's)" where
  "replace_matched regex param consumer matchStartOffset ctx st =
     (let txt = param_text param; caps = ctx_captures ctx in
      case consumer (slice txt (unat matchStartOffset) (unat (cap_offset (caps ! 0)))) st of
        (False, st1) \<Rightarrow> Inl (MATCH_CONSUMED_LIMIT, st1, [])
      | (True, st1) \<Rightarrow>
          (case interpretReplacePattern regex caps txt (param_replacement param) consumer 0 st1 of
             (s2, st2, err) \<Rightarrow>
               if s2 \<noteq> MATCH_OK then Inl (s2, st2, err)
               else if input_available (ctx_input ctx) \<and> matchStartOffset = getOffset (ctx_input ctx)
               then (let ctx' = ctx_consume ctx in
                     case consumer (slice (input_text (ctx_input ctx')) (unat matchStartOffset) (unat (getOffset (ctx_input ctx')))) st2 of
                       (False, st3) \<Rightarrow> Inl (MATCH_CONSUMED_LIMIT, st3, [])
                     | (True, st3) \<Rightarrow> Inr (ctx', st3))
               else Inr (ctx, st2)))"

text \<open>The loop; the first argument bounds the iterations and \<open>i\<close> counts the calls of \<open>match\<close>.\<close>

fun replace_loop :: "nat \<Rightarrow> engine \<Rightarrow> Regex \<Rightarrow> ReplaceParam \<Rightarrow> (bytes, 's) consumer \<Rightarrow> nat \<Rightarrow> MatchContext \<Rightarrow> 's
    \<Rightarrow> (MatchStatus \<times> 's \<times> bytes) option" where
  "replace_loop 0 eng regex param consumer i ctx st = None"
| "replace_loop (Suc n) eng regex param consumer i ctx st =
     (let matchStartOffset = getOffset (ctx_input ctx) in
      case eng i ctx of
        None \<Rightarrow> None
      | Some (s, ctx1) \<Rightarrow>
          if s = MATCH_FAIL then Some (consume_remain consumer (ctx_setIter ctx1 matchStartOffset) st)
          else if s \<noteq> MATCH_OK then Some (s, st, [])
          else (case replace_matched regex param consumer matchStartOffset ctx1 st of
                  Inl r \<Rightarrow> Some r
                | Inr (ctx2, st2) \<Rightarrow>
                    if param_global param \<and> getOffset (ctx_input ctx2) \<noteq> matchStartOffset
                    then replace_loop n eng regex param consumer (i + 1) ctx2 st2
                    else Some (consume_remain consumer ctx2 st2)))"

definition replace :: "engine \<Rightarrow> Regex \<Rightarrow> ReplaceParam \<Rightarrow> (bytes, 's) consumer \<Rightarrow> 's
    \<Rightarrow> (MatchStatus \<times> 's \<times> bytes) option" where
  "replace eng regex param consumer st =
     (case tryToCreateMatchContext regex (param_text param) 0 [] of
        Inl s \<Rightarrow> Some (s, st, [])
      | Inr ctx \<Rightarrow> replace_loop (length (param_text param) + 2) eng regex param consumer 0 ctx st)"

section \<open>split\<close>

text \<open>The loop counts down from \<open>limit - 1\<close>.\<close>

fun split_loop :: "nat \<Rightarrow> engine \<Rightarrow> bytes \<Rightarrow> (bytes, 's) consumer \<Rightarrow> nat \<Rightarrow> MatchContext \<Rightarrow> 's
    \<Rightarrow> (MatchStatus \<times> 's) option" where
  "split_loop 0 eng txt consumer i ctx st =
     (case consume_remain consumer ctx st of (s, st', _) \<Rightarrow> Some (s, st'))"
| "split_loop (Suc n) eng txt consumer i ctx st =
     (let matchStartOffset = getOffset (ctx_input ctx) in
      case eng i ctx of
        None \<Rightarrow> None
      | Some (s, ctx1) \<Rightarrow>
          if s = MATCH_FAIL
          then (case consume_remain consumer (ctx_setIter ctx1 matchStartOffset) st of (s', st', _) \<Rightarrow> Some (s', st'))
          else if s \<noteq> MATCH_OK then Some (s, st)
          else if matchStartOffset \<noteq> getOffset (ctx_input ctx1)
          then (case consumer (slice txt (unat matchStartOffset) (unat (cap_offset (ctx_captures ctx1 ! 0)))) st of
                  (False, st') \<Rightarrow> Some (MATCH_CONSUMED_LIMIT, st')
                | (True, st') \<Rightarrow> split_loop n eng txt consumer (i + 1) ctx1 st')
          else if input_available (ctx_input ctx1)
          then (let ctx2 = ctx_consume ctx1 in
                case consumer (slice (input_text (ctx_input ctx2)) (unat matchStartOffset) (unat (getOffset (ctx_input ctx2)))) st of
                  (False, st') \<Rightarrow> Some (MATCH_CONSUMED_LIMIT, st')
                | (True, st') \<Rightarrow> split_loop n eng txt consumer (i + 1) ctx2 st')
          else Some (MATCH_OK, st))"

definition split :: "engine \<Rightarrow> Regex \<Rightarrow> bytes \<Rightarrow> nat \<Rightarrow> (bytes, 's) consumer \<Rightarrow> 's \<Rightarrow> (MatchStatus \<times> 's) option" where
  "split eng regex txt limit consumer st =
     (if limit = 0 then Some (MATCH_OK, st)
      else if limit = 1 then
        (case consumer txt st of (False, st') \<Rightarrow> Some (MATCH_CONSUMED_LIMIT, st') | (True, st') \<Rightarrow> Some (MATCH_OK, st'))
      else (case tryToCreateMatchContext regex txt 0 [] of
              Inl s \<Rightarrow> Some (s, st)
            | Inr ctx \<Rightarrow> split_loop (limit - 1) eng txt consumer 0 ctx st))"

section \<open>matchAll\<close>

fun matchAll_loop :: "nat \<Rightarrow> engine \<Rightarrow> (Capture list, 's) consumer \<Rightarrow> nat \<Rightarrow> MatchContext \<Rightarrow> 's
    \<Rightarrow> (MatchStatus \<times> 's) option" where
  "matchAll_loop 0 eng consumer i ctx st = None"
| "matchAll_loop (Suc n) eng consumer i ctx st =
     (let matchStartOffset = getOffset (ctx_input ctx) in
      case eng i ctx of
        None \<Rightarrow> None
      | Some (s, ctx1) \<Rightarrow>
          if s = MATCH_FAIL then Some (MATCH_OK, st)
          else if s \<noteq> MATCH_OK then Some (s, st)
          else (case consumer (ctx_captures ctx1) st of
                  (False, st') \<Rightarrow> Some (MATCH_CONSUMED_LIMIT, st')
                | (True, st') \<Rightarrow>
                    (let ctx2 = (if input_available (ctx_input ctx1) \<and> matchStartOffset = getOffset (ctx_input ctx1)
                                 then ctx_consume ctx1 else ctx1) in
                     if getOffset (ctx_input ctx2) \<noteq> matchStartOffset
                     then matchAll_loop n eng consumer (i + 1) ctx2 st'
                     else Some (MATCH_OK, st'))))"

definition matchAll :: "engine \<Rightarrow> Regex \<Rightarrow> bytes \<Rightarrow> nat \<Rightarrow> (Capture list, 's) consumer \<Rightarrow> 's \<Rightarrow> (MatchStatus \<times> 's) option" where
  "matchAll eng regex txt codePointOffset consumer st =
     (case tryToCreateMatchContext regex txt codePointOffset [] of
        Inl s \<Rightarrow> Some (s, st)
      | Inr ctx \<Rightarrow> matchAll_loop (length txt + 2) eng consumer 0 ctx st)"

section \<open>escape\<close>

text \<open>\<open>isAppendable\<close>, \<open>checkedAppend\<close> of \<open>misc/string_ref.hpp\<close>.\<close>

definition isAppendable :: "nat \<Rightarrow> nat \<Rightarrow> bytes \<Rightarrow> bool" where
  "isAppendable srcSize maxSize out \<longleftrightarrow> length out \<le> maxSize \<and> srcSize \<le> maxSize - length out"

definition checkedAppend :: "bytes \<Rightarrow> nat \<Rightarrow> bytes \<Rightarrow> bool \<times> bytes" where
  "checkedAppend ref maxSize out =
     (if isAppendable (length ref) maxSize out then (True, out @ ref) else (False, out))"

definition isLetterOrDigit :: "byte \<Rightarrow> bool" where
  "isLetterOrDigit ch \<longleftrightarrow> (97 \<le> ch \<and> ch \<le> 122) \<or> (65 \<le> ch \<and> ch \<le> 90) \<or> (48 \<le> ch \<and> ch \<le> 57)"

definition hex_digit :: "nat \<Rightarrow> byte" where
  "hex_digit n = (if n < 10 then of_nat (48 + n) else of_nat (87 + n))"

text \<open>\<open>%x\<close>, padded with zeros to a width.\<close>

function hex_string :: "nat \<Rightarrow> bytes" where
  "hex_string n = (if n < 16 then [hex_digit n] else hex_string (n div 16) @ [hex_digit (n mod 16)])"
  by pat_completeness auto
termination
  by (relation "measure id") auto

declare hex_string.simps [simp del]

definition hex_padded :: "nat \<Rightarrow> nat \<Rightarrow> bytes" where
  "hex_padded w n = replicate (w - length (hex_string n)) 48 @ hex_string n"

definition escape_x :: "nat \<Rightarrow> bytes" where
  "escape_x n = [92, 120] @ hex_padded 2 n"

definition escape_u :: "nat \<Rightarrow> bytes" where
  "escape_u n = [92, 117] @ hex_padded 4 n"

text \<open>The characters of the syntax, written with a backslash, and those written as a hexadecimal escape.\<close>

definition syntax_chars :: bytes where
  "syntax_chars = map of_char ''^$'' @ [92] @ map of_char ''.*+?()[]{}|/''"

definition hex_chars :: bytes where
  "hex_chars = map of_char '',-=<>#&!%:;@~'' @ [39, 96, 34]"

definition control_letter :: "byte \<Rightarrow> byte option" where
  "control_letter ch = (if ch = 12 then Some 102 else if ch = 10 then Some 110 else if ch = 13 then Some 114
     else if ch = 9 then Some 116 else if ch = 11 then Some 118 else None)"

text \<open>One turn of the loop of \<open>escape\<close> at the non-empty rest \<open>s\<close>: what it appends and how many bytes it reads.
  \<open>isSpace\<close> is the property \<open>ESRegexClassSpace\<close>.\<close>

definition escape_step :: "(int \<Rightarrow> bool) \<Rightarrow> bytes \<Rightarrow> bytes \<times> nat" where
  "escape_step isSpace s =
     (let ch = s ! 0 in
      if ch \<in> set syntax_chars then ([92, ch], 1)
      else if ch \<in> set hex_chars then ([92, 120, hex_digit (unat ch div 16), hex_digit (unat ch mod 16)], 1)
      else (case control_letter ch of
              Some l \<Rightarrow> ([92, l], 1)
            | None \<Rightarrow>
                if ch = 32 then ([92, 120, 50, 48], 1)
                else (let (byteSize, codePoint) = wtf8ToCodePoint s in
                      if byteSize \<noteq> 0 then
                        (if isSpace codePoint \<or> isSurrogate codePoint
                         then (if codePoint \<le> 0xFF then escape_x (nat codePoint) else escape_u (nat codePoint), byteSize)
                         else (take byteSize s, byteSize))
                      else ([ch], 1))))"

lemma escape_step_progress: "s \<noteq> [] \<Longrightarrow> 0 < snd (escape_step isSpace s)"
  by (auto simp: escape_step_def Let_def split: option.splits prod.splits)

function escape_loop :: "(int \<Rightarrow> bool) \<Rightarrow> bytes \<Rightarrow> nat \<Rightarrow> bytes \<Rightarrow> bool \<times> bytes" where
  "escape_loop isSpace s maxSize out =
     (if s = [] then (True, out)
      else (let (buf, n) = escape_step isSpace s in
            case checkedAppend buf maxSize out of
              (False, out') \<Rightarrow> (False, out')
            | (True, out') \<Rightarrow> escape_loop isSpace (drop n s) maxSize out'))"
  by pat_completeness auto
termination
proof (relation "measure (\<lambda>(isSpace, s, maxSize, out). length s)", goal_cases)
  case (2 isSpace s maxSize out r buf n b out')
  then have "0 < n" using escape_step_progress [of s isSpace] by (metis snd_conv)
  with 2 show ?case by simp
qed simp

declare escape_loop.simps [simp del]

definition escape :: "(int \<Rightarrow> bool) \<Rightarrow> bytes \<Rightarrow> nat \<Rightarrow> bytes \<Rightarrow> bool \<times> bytes" where
  "escape isSpace ref maxSize out =
     (if ref \<noteq> [] \<and> isLetterOrDigit (ref ! 0)
      then (case checkedAppend (escape_x (unat (ref ! 0))) maxSize out of
              (False, out') \<Rightarrow> (False, out')
            | (True, out') \<Rightarrow> escape_loop isSpace (tl ref) maxSize out')
      else escape_loop isSpace ref maxSize out)"

end
