(* ===== verification/Regex_Semantics.thy ===== *)
theory Regex_Semantics
  imports Regex_VM
begin

text \<open>
  The specification of matching: the list of successes of a pattern at a position of the text, in the
  order in which a backtracking matcher must try them. Positions count code points, captures are
  pairs of positions. There is no stack, no byte offset and no instruction here; the virtual machine
  is shown to implement it. \<open>supported\<close> collects what the parser and the lowering guarantee of a tree.
\<close>

section \<open>Captured positions\<close>

type_synonym caps = "nat \<Rightarrow> (nat \<times> nat) option"
type_synonym mstate = "nat \<times> caps"

definition no_caps :: caps where
  "no_caps = (\<lambda>g. None)"

definition reset_caps :: "nat list \<Rightarrow> caps \<Rightarrow> caps" where
  "reset_caps gs c = (\<lambda>g. if g \<in> set gs then None else c g)"

section \<open>Leaves\<close>

text \<open>One code point in the direction of the match.\<close>

definition one_sem :: "int list \<Rightarrow> bool \<Rightarrow> (int \<Rightarrow> bool) \<Rightarrow> mstate \<Rightarrow> mstate list" where
  "one_sem cps fwd f = (\<lambda>(k, c).
     if fwd then (if k < length cps \<and> f (cps ! k) then [(k + 1, c)] else [])
     else (if 0 < k \<and> f (cps ! (k - 1)) then [(k - 1, c)] else []))"

definition word_at :: "(int \<Rightarrow> bool) \<Rightarrow> int list \<Rightarrow> nat \<Rightarrow> bool \<times> bool" where
  "word_at w cps k = (0 < k \<and> w (cps ! (k - 1)), k < length cps \<and> w (cps ! k))"

definition boundary_test :: "unicode_env \<Rightarrow> int list \<Rightarrow> BoundaryType \<Rightarrow> byte \<Rightarrow> nat \<Rightarrow> bool" where
  "boundary_test env cps t m k =
     (case t of
        B_START \<Rightarrow> k = 0 \<or> (hasFlag m (modifier_bit MULTILINE) \<and> isLineTerminator (cps ! (k - 1)))
      | B_END \<Rightarrow> k = length cps \<or> (hasFlag m (modifier_bit MULTILINE) \<and> isLineTerminator (cps ! k))
      | _ \<Rightarrow> (let (p, n) = word_at (if hasFlag m (modifier_bit IGNORE_CASE) then isExtendWord env else isWord) cps k
              in (p \<noteq> n) = (t = B_WORD)))"

text \<open>Back references: the captured range a reference denotes, and the comparison of its text.\<close>

definition ref_entry :: "NamedCaptureGroups \<Rightarrow> bytes \<Rightarrow> nat \<Rightarrow> NamedCaptureEntry option" where
  "ref_entry named name index = (if isNamed name then findByIndex named index else Some (SingleIndex index))"

fun entry_groups :: "NamedCaptureEntry \<Rightarrow> nat list" where
  "entry_groups (SingleIndex i) = [i]"
| "entry_groups (MultipleIndices is) = is"

definition ref_groups :: "NamedCaptureGroups \<Rightarrow> bytes \<Rightarrow> nat \<Rightarrow> nat list" where
  "ref_groups named name index =
     (case ref_entry named name index of None \<Rightarrow> [] | Some e \<Rightarrow> entry_groups e)"

definition resolve_caps :: "nat list \<Rightarrow> caps \<Rightarrow> (nat \<times> nat) option" where
  "resolve_caps gs c = (case List.find (\<lambda>g. c g \<noteq> None) gs of None \<Rightarrow> None | Some g \<Rightarrow> c g)"

definition backref_sem :: "int list \<Rightarrow> bool \<Rightarrow> (int \<Rightarrow> int) \<Rightarrow> nat list \<Rightarrow> mstate \<Rightarrow> mstate list" where
  "backref_sem cps fwd norm gs = (\<lambda>(k, c).
     case resolve_caps gs c of
       None \<Rightarrow> [(k, c)]
     | Some (s, e) \<Rightarrow>
         (let ref = map norm (slice cps s e) in
          if fwd then (if startsWith (map norm (drop k cps)) ref then [(k + length ref, c)] else [])
          else (if endsWith (map norm (take k cps)) ref then [(k - length ref, c)] else [])))"

section \<open>Composition\<close>

primrec seq_sem :: "(mstate \<Rightarrow> mstate list) list \<Rightarrow> mstate \<Rightarrow> mstate list" where
  "seq_sem [] st = [st]"
| "seq_sem (f # fs) st = concat (map (seq_sem fs) (f st))"

text \<open>A repetition that has done \<open>count\<close> rounds, the last of which started at \<open>st\<close>. A round beyond the
  minimum that consumed nothing is a failure. The fuel bounds the number of rounds; \<open>mn + length cps + 2\<close>
  is always enough, because rounds beyond the minimum consume.\<close>

primrec loop_sem :: "nat \<Rightarrow> (mstate \<Rightarrow> mstate list) \<Rightarrow> nat list \<Rightarrow> nat \<Rightarrow> nat \<Rightarrow> bool \<Rightarrow> nat \<Rightarrow> nat \<Rightarrow> mstate
    \<Rightarrow> mstate list" where
  "loop_sem 0 body gs mn mx greedy count st kc = []"
| "loop_sem (Suc fuel) body gs mn mx greedy count st kc =
     (let (k, c) = kc;
          rounds = concat (map (loop_sem fuel body gs mn mx greedy (count + 1) k) (body (k, reset_caps gs c))) in
      if count > mn \<and> st = k then []
      else if count < mn then rounds
      else if count = mx then [(k, c)]
      else if greedy then rounds @ [(k, c)]
      else (k, c) # rounds)"

lemma seq_sem_cong [fundef_cong]: "fs = gs \<Longrightarrow> st = st' \<Longrightarrow> seq_sem fs st = seq_sem gs st'"
  by simp

lemma loop_sem_cong:
  assumes "\<And>kc. body kc = body' kc"
  shows "loop_sem fuel body gs mn mx greedy count st kc = loop_sem fuel body' gs mn mx greedy count st kc"
proof -
  have "body = body'" using assms by blast
  then show ?thesis by simp
qed

section \<open>Patterns\<close>

text \<open>String sets and the grapheme cluster are outside this specification: they fail. An \<open>AltNode\<close> of
  a single pattern makes it optional.\<close>

function sem :: "unicode_env \<Rightarrow> NamedCaptureGroups \<Rightarrow> int list \<Rightarrow> bool \<Rightarrow> node \<Rightarrow> mstate \<Rightarrow> mstate list" where
  "sem env nm cps fwd EmptyNode st = [st]"
| "sem env nm cps fwd (AnyNode m) st =
     one_sem cps fwd (\<lambda>x. hasFlag m (modifier_bit DOT_ALL) \<or> \<not> isLineTerminator x) st"
| "sem env nm cps fwd (CharNode ch) st = one_sem cps fwd (\<lambda>x. x = ch) st"
| "sem env nm cps fwd (CharClassNode iv ty may cs) st = []"
| "sem env nm cps fwd (PropertyNode ty d) st = []"
| "sem env nm cps fwd (BoundaryNode ty m) st = (if boundary_test env cps ty m (fst st) then [st] else [])"
| "sem env nm cps fwd (BackRefNode name index ic) st =
     backref_sem cps fwd (if ic then simpleFold env else id) (ref_groups nm name index) st"
| "sem env nm cps fwd (RepeatNode l mn mx greedy fi la p) st =
     loop_sem (unat mn + length cps + 2) (\<lambda>kc. sem env nm cps fwd p kc) (node_groups p) (unat mn) (unat mx)
       greedy 0 0 st"
| "sem env nm cps fwd (SeqNode ps) st =
     seq_sem (map (\<lambda>p kc. sem env nm cps fwd p kc) (if fwd then ps else rev ps)) st"
| "sem env nm cps fwd (AltNode ps) st =
     concat (map (\<lambda>p. sem env nm cps fwd p st) ps) @ (if length ps = 1 then [st] else [])"
| "sem env nm cps fwd (LookAroundNode ty p) st =
     (let rs = sem env nm cps (isLookAhead ty) p st in
      if isNegate ty then (if rs = [] then [st] else [])
      else (if rs = [] then [] else [(fst st, snd (hd rs))]))"
| "sem env nm cps fwd (GroupNode ty g u v p) st =
     map (\<lambda>(k, c). (k, if ty = G_CAPTURE then c(g \<mapsto> (min (fst st) k, max (fst st) k)) else c))
       (sem env nm cps fwd p st)"
| "sem env nm cps fwd (FoldCharNode ch) st = one_sem cps fwd (\<lambda>x. simpleFold env x = ch) st"
| "sem env nm cps fwd (CharSetNode iv ic owned s) st =
     one_sem cps fwd (\<lambda>x. set_contains s (if ic then simpleFold env x else x) \<noteq> iv) st"
| "sem env nm cps fwd (StrSetNode raw radix chars) st = []"
  by pat_completeness auto
termination
  by (relation "measure (\<lambda>(env, nm, cps, fwd, n, st). size n)") (auto simp: less_Suc_eq_le size_list_estimation' split: if_splits)

text \<open>Search: the first start position from \<open>k\<close> on with a success gives the match; the number counts
  the positions left.\<close>

primrec search_sem :: "nat \<Rightarrow> unicode_env \<Rightarrow> NamedCaptureGroups \<Rightarrow> int list \<Rightarrow> node \<Rightarrow> nat
    \<Rightarrow> (nat \<times> mstate) option" where
  "search_sem 0 env nm cps n k = None"
| "search_sem (Suc fuel) env nm cps n k =
     (case sem env nm cps True n (k, no_caps) of
        r # _ \<Rightarrow> Some (k, r)
      | [] \<Rightarrow> search_sem fuel env nm cps n (k + 1))"

definition find_match :: "unicode_env \<Rightarrow> NamedCaptureGroups \<Rightarrow> int list \<Rightarrow> node \<Rightarrow> nat \<Rightarrow> (nat \<times> mstate) option" where
  "find_match env nm cps n k = search_sem (Suc (length cps) - k) env nm cps n k"

section \<open>Loops and references of a tree\<close>

text \<open>The loops outside every look-around, and those inside one.\<close>

fun main_loops :: "node \<Rightarrow> u16 list" where
  "main_loops (RepeatNode l _ _ _ _ _ p) = l # main_loops p"
| "main_loops (SeqNode ps) = concat (map main_loops ps)"
| "main_loops (AltNode ps) = concat (map main_loops ps)"
| "main_loops (GroupNode _ _ _ _ p) = main_loops p"
| "main_loops _ = []"

fun look_loops :: "node \<Rightarrow> u16 list" where
  "look_loops (RepeatNode _ _ _ _ _ _ p) = look_loops p"
| "look_loops (SeqNode ps) = concat (map look_loops ps)"
| "look_loops (AltNode ps) = concat (map look_loops ps)"
| "look_loops (GroupNode _ _ _ _ p) = look_loops p"
| "look_loops (LookAroundNode _ p) = node_loops p"
| "look_loops _ = []"

fun node_refs :: "NamedCaptureGroups \<Rightarrow> node \<Rightarrow> nat list" where
  "node_refs nm (RepeatNode _ _ _ _ _ _ p) = node_refs nm p"
| "node_refs nm (SeqNode ps) = concat (map (node_refs nm) ps)"
| "node_refs nm (AltNode ps) = concat (map (node_refs nm) ps)"
| "node_refs nm (GroupNode _ _ _ _ p) = node_refs nm p"
| "node_refs nm (LookAroundNode _ p) = node_refs nm p"
| "node_refs nm (BackRefNode name index _) = ref_groups nm name index"
| "node_refs nm _ = []"

section \<open>Supported trees\<close>

text \<open>Lowered trees without string sets and grapheme clusters, with valid code points and sets, groups
  and loops within the limits \<open>gc\<close> and \<open>lc\<close>, repetitions that carry their groups, no reference to a
  group from inside it (\<open>Lowering::checkBackRef\<close> removes those) and no group in a positive look-around.\<close>

definition set_in_range :: "CodePointSetRef \<Rightarrow> bool" where
  "set_in_range s \<longleftrightarrow> list_all (\<lambda>r. packedLast r \<le> CODE_POINT_MAX) (getPackedNonBMPRanges s) \<and>
     list_all (\<lambda>r. lastNonBMP r \<le> CODE_POINT_MAX) (getNonBMPRanges s)"

fun supported :: "NamedCaptureGroups \<Rightarrow> nat \<Rightarrow> nat \<Rightarrow> node \<Rightarrow> bool" where
  "supported nm gc lc EmptyNode \<longleftrightarrow> True"
| "supported nm gc lc (AnyNode m) \<longleftrightarrow> True"
| "supported nm gc lc (CharNode c) \<longleftrightarrow> isCodePoint c"
| "supported nm gc lc (CharClassNode _ _ _ _) \<longleftrightarrow> False"
| "supported nm gc lc (PropertyNode _ _) \<longleftrightarrow> False"
| "supported nm gc lc (BoundaryNode _ _) \<longleftrightarrow> True"
| "supported nm gc lc (BackRefNode name index _) \<longleftrightarrow>
     index < 2 ^ 16 \<and> ref_entry nm name index \<noteq> None \<and> list_all (\<lambda>g. 0 < g \<and> g \<le> gc) (ref_groups nm name index)"
| "supported nm gc lc (RepeatNode l mn mx greedy fi la p) \<longleftrightarrow>
     unat l < lc \<and> supported nm gc lc p \<and> l \<notin> set (node_loops p) \<and>
     (if node_groups p = [] then fi = 0 else fi \<noteq> 0 \<and> [unat fi..<Suc (unat la)] = node_groups p)"
| "supported nm gc lc (SeqNode ps) \<longleftrightarrow>
     length ps < 2 ^ 30 \<and> list_all (supported nm gc lc) ps \<and> distinct (concat (map node_groups ps)) \<and> distinct (concat (map node_loops ps))"
| "supported nm gc lc (AltNode ps) \<longleftrightarrow>
     ps \<noteq> [] \<and> list_all (supported nm gc lc) ps \<and> distinct (concat (map node_groups ps)) \<and>
     distinct (concat (map node_loops ps))"
| "supported nm gc lc (LookAroundNode ty p) \<longleftrightarrow> supported nm gc lc p \<and> (\<not> isNegate ty \<longrightarrow> node_groups p = [])"
| "supported nm gc lc (GroupNode ty g _ _ p) \<longleftrightarrow>
     ty = G_CAPTURE \<and> 0 < g \<and> g \<le> gc \<and> g < 2 ^ 16 \<and> supported nm gc lc p \<and> g \<notin> set (node_groups p) \<and>
     g \<notin> set (node_refs nm p)"
| "supported nm gc lc (FoldCharNode c) \<longleftrightarrow> isCodePoint c"
| "supported nm gc lc (CharSetNode _ _ _ s) \<longleftrightarrow> set_wf s \<and> set_fits s \<and> set_in_range s"
| "supported nm gc lc (StrSetNode _ _ _) \<longleftrightarrow> False"

lemma loops_split: "set (node_loops n) = set (main_loops n) \<union> set (look_loops n)"
  by (induction n) auto

lemma disjoint_concat:
  assumes "distinct (concat (map f xs))" "x \<in> set xs" "y \<in> set xs" "a \<in> set (f x)" "a \<in> set (f y)"
  shows "x = y"
  using assms by (induction xs) auto

lemma loops_disjoint:
  "supported nm gc lc n \<Longrightarrow> set (main_loops n) \<inter> set (look_loops n) = {}"
proof (induction n)
  case (RepeatNode l mn mx greedy fi la p)
  then show ?case using loops_split [of p] by auto
next
  case (SeqNode ps)
  have "x = y" if "x \<in> set ps" "y \<in> set ps" "a \<in> set (main_loops x)" "a \<in> set (look_loops y)" for x y a
    using disjoint_concat [of node_loops ps x y a] SeqNode.prems that loops_split by auto
  with SeqNode show ?case by (fastforce simp: list_all_iff)
next
  case (AltNode ps)
  have "x = y" if "x \<in> set ps" "y \<in> set ps" "a \<in> set (main_loops x)" "a \<in> set (look_loops y)" for x y a
    using disjoint_concat [of node_loops ps x y a] AltNode.prems that loops_split by auto
  with AltNode show ?case by (fastforce simp: list_all_iff)
qed auto

section \<open>What a success keeps\<close>

definition caps_wf :: "int list \<Rightarrow> caps \<Rightarrow> bool" where
  "caps_wf cps c \<longleftrightarrow> (\<forall>g s e. c g = Some (s, e) \<longrightarrow> s \<le> e \<and> e \<le> length cps)"

text \<open>A pattern moves in its direction, within the text, and touches only its own groups.\<close>

definition step_ok :: "int list \<Rightarrow> bool \<Rightarrow> nat list \<Rightarrow> (mstate \<Rightarrow> mstate list) \<Rightarrow> bool" where
  "step_ok cps fwd gs f \<longleftrightarrow> (\<forall>k c k' c'. k \<le> length cps \<longrightarrow> (k', c') \<in> set (f (k, c)) \<longrightarrow>
     k' \<le> length cps \<and> (if fwd then k \<le> k' else k' \<le> k) \<and> (\<forall>g. g \<notin> set gs \<longrightarrow> c' g = c g) \<and>
     (caps_wf cps c \<longrightarrow> caps_wf cps c'))"

lemma step_okD:
  assumes "step_ok cps fwd gs f" "k \<le> length cps" "(k', c') \<in> set (f (k, c))"
  shows "k' \<le> length cps" "if fwd then k \<le> k' else k' \<le> k" "\<And>g. g \<notin> set gs \<Longrightarrow> c' g = c g"
    "caps_wf cps c \<Longrightarrow> caps_wf cps c'"
proof -
  have "k' \<le> length cps \<and> (if fwd then k \<le> k' else k' \<le> k) \<and> (\<forall>g. g \<notin> set gs \<longrightarrow> c' g = c g) \<and>
     (caps_wf cps c \<longrightarrow> caps_wf cps c')"
    using assms unfolding step_ok_def by (elim allE impE) assumption+
  then show "k' \<le> length cps" "if fwd then k \<le> k' else k' \<le> k" "\<And>g. g \<notin> set gs \<Longrightarrow> c' g = c g"
    "caps_wf cps c \<Longrightarrow> caps_wf cps c'" by simp_all
qed

lemma step_okI:
  assumes "\<And>k c k' c'. k \<le> length cps \<Longrightarrow> (k', c') \<in> set (f (k, c)) \<Longrightarrow>
    k' \<le> length cps \<and> (if fwd then k \<le> k' else k' \<le> k) \<and> (\<forall>g. g \<notin> set gs \<longrightarrow> c' g = c g) \<and>
     (caps_wf cps c \<longrightarrow> caps_wf cps c')"
  shows "step_ok cps fwd gs f"
  unfolding step_ok_def by (intro allI impI) (rule assms)

lemma step_ok_set:
  assumes "step_ok cps fwd gs f" "set gs = set gs'"
  shows "step_ok cps fwd gs' f"
  using assms(1) unfolding step_ok_def assms(2) .

lemma step_ok_cong: "(\<And>st. f st = f' st) \<Longrightarrow> step_ok cps fwd gs f = step_ok cps fwd gs f'"
  by (simp add: step_ok_def)

lemma step_ok_same: "(\<And>st. set (f st) \<subseteq> {st}) \<Longrightarrow> step_ok cps fwd gs f"
  by (rule step_okI) (metis Pair_inject empty_iff in_mono le_refl singletonD)

lemma caps_wf_reset: "caps_wf cps c \<Longrightarrow> caps_wf cps (reset_caps gs c)"
  by (auto simp: caps_wf_def reset_caps_def)

lemma one_sem_ok: "step_ok cps fwd gs (one_sem cps fwd f)"
  by (rule step_okI) (auto simp: one_sem_def split: if_splits)

lemma backref_sem_ok: "step_ok cps fwd gs (backref_sem cps fwd norm rs)"
  by (rule step_okI)
    (auto simp: backref_sem_def Let_def startsWith_def endsWith_def split: option.splits if_splits)

lemma seq_sem_ok:
  assumes "list_all2 (\<lambda>f gs. step_ok cps fwd gs f) fs gss"
  shows "step_ok cps fwd (concat gss) (seq_sem fs)"
  using assms
proof (induction fs gss rule: list_all2_induct)
  case Nil
  then show ?case by (auto simp: step_ok_def)
next
  case (Cons f fs gs gss)
  show ?case
  proof (rule step_okI)
    fix k c k' c' assume k: "k \<le> length cps" and "(k', c') \<in> set (seq_sem (f # fs) (k, c))"
    then obtain k1 c1 where 1: "(k1, c1) \<in> set (f (k, c))" and 2: "(k', c') \<in> set (seq_sem fs (k1, c1))" by auto
    note a = step_okD [OF Cons(1) k 1]
    note b = step_okD [OF Cons(3) a(1) 2]
    show "k' \<le> length cps \<and> (if fwd then k \<le> k' else k' \<le> k) \<and>
        (\<forall>g. g \<notin> set (concat (gs # gss)) \<longrightarrow> c' g = c g) \<and> (caps_wf cps c \<longrightarrow> caps_wf cps c')"
      using a b by (auto split: if_splits)
  qed
qed

lemma loop_sem_ok:
  assumes "step_ok cps fwd gs body"
  shows "step_ok cps fwd gs (loop_sem fuel body gs mn mx greedy count st)"
proof (induction fuel arbitrary: count st)
  case 0
  then show ?case by (simp add: step_ok_def)
next
  case (Suc fuel)
  show ?case
  proof (rule step_okI)
    fix k c k' c' assume k: "k \<le> length cps" and r: "(k', c') \<in> set (loop_sem (Suc fuel) body gs mn mx greedy count st (k, c))"
    show "k' \<le> length cps \<and> (if fwd then k \<le> k' else k' \<le> k) \<and> (\<forall>g. g \<notin> set gs \<longrightarrow> c' g = c g) \<and>
        (caps_wf cps c \<longrightarrow> caps_wf cps c')"
    proof (cases "(k', c') = (k, c)")
      case False
      with r obtain k1 c1 where 1: "(k1, c1) \<in> set (body (k, reset_caps gs c))"
        and 2: "(k', c') \<in> set (loop_sem fuel body gs mn mx greedy (count + 1) k (k1, c1))"
        by (auto simp: Let_def split: if_splits)
      note a = step_okD [OF assms k 1]
      note b = step_okD [OF Suc.IH a(1) 2]
      have "c1 g = c g" if "g \<notin> set gs" for g using a(3) that by (simp add: reset_caps_def)
      then show ?thesis using a b caps_wf_reset [of cps c gs] by (auto split: if_splits)
    qed (use k in simp)
  qed
qed

lemma list_all2_map_same: "(\<And>x. x \<in> set xs \<Longrightarrow> P (f x) (g x)) \<Longrightarrow> list_all2 P (map f xs) (map g xs)"
  by (simp add: list_all2_conv_all_nth)

lemma sem_ok: "step_ok cps fwd (node_groups n) (sem env nm cps fwd n)"
proof (induction n arbitrary: fwd)
  case (SeqNode ps)
  let ?ps = "if fwd then ps else rev ps"
  have "step_ok cps fwd (concat (map node_groups ?ps)) (seq_sem (map (sem env nm cps fwd) ?ps))"
    by (intro seq_sem_ok list_all2_map_same SeqNode) (simp split: if_splits)
  then have "step_ok cps fwd (node_groups (SeqNode ps)) (seq_sem (map (sem env nm cps fwd) ?ps))"
    by (rule step_ok_set) simp
  moreover have "sem env nm cps fwd (SeqNode ps) = seq_sem (map (sem env nm cps fwd) ?ps)"
    by (rule ext) simp
  ultimately show ?case by simp
next
  case (AltNode ps)
  show ?case
  proof (rule step_okI)
    fix k c k' c' assume k: "k \<le> length cps" and "(k', c') \<in> set (sem env nm cps fwd (AltNode ps) (k, c))"
    then consider "(k', c') = (k, c)" | p where "p \<in> set ps" "(k', c') \<in> set (sem env nm cps fwd p (k, c))"
      by (auto split: if_splits)
    then show "k' \<le> length cps \<and> (if fwd then k \<le> k' else k' \<le> k) \<and>
        (\<forall>g. g \<notin> set (node_groups (AltNode ps)) \<longrightarrow> c' g = c g) \<and> (caps_wf cps c \<longrightarrow> caps_wf cps c')"
    proof cases
      case 2
      note a = step_okD [OF AltNode [OF 2(1)] k 2(2)]
      then show ?thesis using 2(1) by auto
    qed (use k in simp)
  qed
next
  case (LookAroundNode ty p)
  show ?case
  proof (rule step_okI)
    fix k c k' c' assume k: "k \<le> length cps" and r: "(k', c') \<in> set (sem env nm cps fwd (LookAroundNode ty p) (k, c))"
    show "k' \<le> length cps \<and> (if fwd then k \<le> k' else k' \<le> k) \<and>
        (\<forall>g. g \<notin> set (node_groups (LookAroundNode ty p)) \<longrightarrow> c' g = c g) \<and> (caps_wf cps c \<longrightarrow> caps_wf cps c')"
    proof (cases "sem env nm cps (isLookAhead ty) p (k, c)")
      case Nil
      with r k show ?thesis by (simp split: if_splits)
    next
      case (Cons r0 rs)
      then have "(fst r0, snd r0) \<in> set (sem env nm cps (isLookAhead ty) p (k, c))" by simp
      note a = step_okD [OF LookAroundNode k this]
      have "k' = k" "c' = snd r0" using r Cons by (simp_all add: Let_def split: if_splits)
      then show ?thesis using a(3,4) k by simp
    qed
  qed
next
  case (GroupNode ty g u v p)
  show ?case
  proof (rule step_okI)
    fix k c k' c' assume k: "k \<le> length cps" and r: "(k', c') \<in> set (sem env nm cps fwd (GroupNode ty g u v p) (k, c))"
    then obtain c1 where 1: "(k', c1) \<in> set (sem env nm cps fwd p (k, c))"
      and c': "c' = (if ty = G_CAPTURE then c1(g \<mapsto> (min k k', max k k')) else c1)" by auto
    note a = step_okD [OF GroupNode k 1]
    have w: "caps_wf cps (c1(g \<mapsto> (min k k', max k k')))" if "caps_wf cps c1"
      using that a(1) k by (simp add: caps_wf_def)
    have h: "c' h = c h" if "h \<notin> set (node_groups (GroupNode ty g u v p))" for h
      using a(3) [of h] that c' by (simp split: if_splits)
    show "k' \<le> length cps \<and> (if fwd then k \<le> k' else k' \<le> k) \<and>
        (\<forall>h. h \<notin> set (node_groups (GroupNode ty g u v p)) \<longrightarrow> c' h = c h) \<and> (caps_wf cps c \<longrightarrow> caps_wf cps c')"
    proof (intro conjI impI allI)
      show "caps_wf cps c'" if "caps_wf cps c" using a(4) [OF that] w c' by (simp split: if_splits)
    qed (use a(1,2) h in blast)+
  qed
next
  case (RepeatNode l mn mx greedy fi la p)
  have eq: "sem env nm cps fwd (RepeatNode l mn mx greedy fi la p) =
      loop_sem (unat mn + length cps + 2) (sem env nm cps fwd p) (node_groups p) (unat mn) (unat mx) greedy 0 0"
    by (rule ext) simp
  show ?case unfolding eq node_groups.simps by (rule loop_sem_ok [OF RepeatNode])
next
  case (AnyNode m)
  then show ?case using one_sem_ok by (simp add: fun_eq_iff cong: step_ok_cong)
next
  case (CharNode ch)
  then show ?case using one_sem_ok by (simp cong: step_ok_cong)
next
  case (BackRefNode name index ic)
  then show ?case using backref_sem_ok by (simp cong: step_ok_cong)
next
  case (FoldCharNode ch)
  then show ?case using one_sem_ok by (simp cong: step_ok_cong)
next
  case (CharSetNode iv ic owned s)
  then show ?case using one_sem_ok by (simp cong: step_ok_cong)
qed (rule step_ok_same; auto)+

end
