(* ===== verification/Regex_Template.thy ===== *)
theory Regex_Template
  imports Regex_Api Regex_Semantics
begin

text \<open>
  Replacement patterns as data: a template is literal text with items in between, each followed by
  literal text. \<open>interpretReplacePattern\<close> on the text of a template feeds the consumer with the literals
  and the values of the items, in order.
\<close>

datatype template_item = Dollar | Whole | Before | After | Group nat | Named bytes

type_synonym template = "bytes \<times> (template_item \<times> bytes) list"

section \<open>The text of a template\<close>

function dec_string :: "nat \<Rightarrow> bytes" where
  "dec_string n = (if n < 10 then [of_nat (48 + n)] else dec_string (n div 10) @ [of_nat (48 + n mod 10)])"
  by pat_completeness auto
termination
  by (relation "measure id") auto

declare dec_string.simps [simp del]

fun item_body :: "template_item \<Rightarrow> bytes" where
  "item_body Dollar = [36]"
| "item_body Whole = [38]"
| "item_body Before = [96]"
| "item_body After = [39]"
| "item_body (Group n) = dec_string n"
| "item_body (Named name) = [60] @ name @ [62]"

primrec items_text :: "(template_item \<times> bytes) list \<Rightarrow> bytes" where
  "items_text [] = []"
| "items_text (x # xs) = [36] @ item_body (fst x) @ snd x @ items_text xs"

definition template_text :: "template \<Rightarrow> bytes" where
  "template_text t = fst t @ items_text (snd t)"

text \<open>Literals have no \<open>$\<close>, names no \<open>>\<close>; groups and the groups of names exist, and the literal behind a number does not go on with a
  digit.\<close>

fun item_ok :: "Regex \<Rightarrow> template_item \<times> bytes \<Rightarrow> bool" where
  "item_ok regex (it, l) \<longleftrightarrow> 36 \<notin> set l \<and>
     (case it of
        Group n \<Rightarrow> 0 < n \<and> n \<le> regex_captureGroupCount regex \<and> n < 2 ^ 32 \<and> (l \<noteq> [] \<longrightarrow> \<not> isDecimal (hd l))
      | Named name \<Rightarrow> 62 \<notin> set name \<and>
          (case groups_find (regex_named regex) name of None \<Rightarrow> False
           | Some e \<Rightarrow> list_all (\<lambda>g. 0 < g \<and> g \<le> regex_captureGroupCount regex) (entry_groups e))
      | _ \<Rightarrow> True)"

definition template_ok :: "Regex \<Rightarrow> template \<Rightarrow> bool" where
  "template_ok regex t \<longleftrightarrow> 36 \<notin> set (fst t) \<and> list_all (item_ok regex) (snd t)"

section \<open>Consumers\<close>

text \<open>Feeding a consumer until it refuses.\<close>

primrec feed :: "('x, 's) consumer \<Rightarrow> 'x list \<Rightarrow> 's \<Rightarrow> bool \<times> 's" where
  "feed consumer [] st = (True, st)"
| "feed consumer (x # xs) st =
     (case consumer x st of (False, st') \<Rightarrow> (False, st') | (True, st') \<Rightarrow> feed consumer xs st')"

lemma feed_append: "feed consumer (xs @ ys) st =
    (case feed consumer xs st of (False, st') \<Rightarrow> (False, st') | (True, st') \<Rightarrow> feed consumer ys st')"
  by (induction xs arbitrary: st) (auto split: prod.split bool.split)

section \<open>Values\<close>

fun item_value :: "Regex \<Rightarrow> Capture list \<Rightarrow> bytes \<Rightarrow> template_item \<Rightarrow> bytes" where
  "item_value regex caps txt Dollar = [36]"
| "item_value regex caps txt Whole = substr txt (unat (cap_offset (caps ! 0))) (unat (cap_size (caps ! 0)))"
| "item_value regex caps txt Before = substr txt 0 (unat (cap_offset (caps ! 0)))"
| "item_value regex caps txt After = drop (unat (endOffset (caps ! 0))) txt"
| "item_value regex caps txt (Group n) = capture_text txt (caps ! n)"
| "item_value regex caps txt (Named name) =
     capture_text txt (findValidNamedCapture (the (groups_find (regex_named regex) name)) caps)"

primrec items_pieces :: "(template_item \<Rightarrow> bytes) \<Rightarrow> (template_item \<times> bytes) list \<Rightarrow> bytes list" where
  "items_pieces val [] = []"
| "items_pieces val (x # xs) = val (fst x) # snd x # items_pieces val xs"

definition template_pieces :: "(template_item \<Rightarrow> bytes) \<Rightarrow> template \<Rightarrow> bytes list" where
  "template_pieces val t = fst t # items_pieces val (snd t)"

section \<open>Scanning\<close>

lemma find_char:
  "pos \<le> length s \<Longrightarrow> find_from s pos [c] =
     (let n = length (takeWhile (\<lambda>x. x \<noteq> c) (drop pos s)) in if pos + n < length s then Some (pos + n) else None)"
proof (induction "length s - pos" arbitrary: pos)
  case 0
  then show ?case by (simp add: find_from.simps [of s pos] find_from.simps [of s "Suc pos"] startsWith_def)
next
  case (Suc m)
  then have lt: "pos < length s" by simp
  have d: "drop pos s = s ! pos # drop (Suc pos) s" using lt by (simp add: Cons_nth_drop_Suc)
  show ?case
  proof (cases "s ! pos = c")
    case True
    then show ?thesis using lt d by (simp add: find_from.simps [of s pos] startsWith_def)
  next
    case False
    then have "find_from s pos [c] = find_from s (Suc pos) [c]" using lt d by (simp add: find_from.simps [of s pos] startsWith_def)
    moreover have "find_from s (Suc pos) [c] = (let n = length (takeWhile (\<lambda>x. x \<noteq> c) (drop (Suc pos) s)) in
        if Suc pos + n < length s then Some (Suc pos + n) else None)"
      using Suc lt by simp
    ultimately show ?thesis using d False by (simp add: Let_def)
  qed
qed

lemma takeWhile_until: "c \<notin> set l \<Longrightarrow> takeWhile (\<lambda>x. x \<noteq> c) (l @ c # r) = l" "c \<notin> set l \<Longrightarrow> takeWhile (\<lambda>x. x \<noteq> c) l = l"
  by (induction l) auto

lemma find_literal:
  assumes "c \<notin> set l"
  shows "find_from (pre @ l @ c # r) (length pre) [c] = Some (length pre + length l)"
    "find_from (pre @ l) (length pre) [c] = None"
  using assms by (simp_all add: find_char takeWhile_until Let_def)

lemma dec_digit:
  assumes "m < 10"
  shows "isDecimal (of_nat (48 + m))" "digit_of (of_nat (48 + m)) = Some m"
proof -
  have "list_all (\<lambda>m. isDecimal (of_nat (48 + m)) \<and> digit_of (of_nat (48 + m)) = Some m) [0..<10]" by code_simp
  with assms show "isDecimal (of_nat (48 + m))" "digit_of (of_nat (48 + m)) = Some m" unfolding list_all_iff by auto
qed

lemma number_append: "number base (xs @ [ch]) = number base xs * base + the (digit_of ch)"
  by (simp add: number_def)

lemma dec_string_props: "dec_string n \<noteq> [] \<and> list_all isDecimal (dec_string n) \<and> legal 10 (dec_string n) \<and> number 10 (dec_string n) = n"
proof (induction n rule: dec_string.induct)
  case (1 n)
  show ?case
  proof (cases "n < 10")
    case True
    note d = dec_digit [OF True]
    have s: "dec_string n = [of_nat (48 + n)]" using True by (simp only: dec_string.simps [of n] if_True)
    show ?thesis unfolding s legal_def number_simps using d True by simp
  next
    case False
    have m: "n mod 10 < 10" by simp
    note d = dec_digit [OF m] and ih = 1 [OF False]
    have s: "dec_string n = dec_string (n div 10) @ [of_nat (48 + n mod 10)]" using False by (simp only: dec_string.simps [of n] if_False)
    show ?thesis unfolding s number_append legal_def list_all_append using d ih m by (simp add: legal_def)
  qed
qed

lemmas dec_nonempty = dec_string_props [THEN conjunct1]

lemma dec_convert:
  assumes "n < 2 ^ 32"
  shows "conv_kind (convertToNum10 (dec_string n) :: u32 IntConversionResult) = CONV_OK"
    "unat (conv_value (convertToNum10 (dec_string n) :: u32 IntConversionResult)) = n"
proof -
  have "\<not> (dec_string n \<noteq> [] \<and> hd (dec_string n) = 43)"
    using dec_string_props [of n] by (cases "dec_string n") (auto simp: isDecimal_def)
  then have u: "unsigned_part (dec_string n) = dec_string n" unfolding unsigned_part_def by (rule if_not_P)
  have w: "(36 :: nat) < 2 ^ LENGTH(32)" by simp
  note p = parseInteger_spec [of 10 "dec_string n", OF _ _ w, unfolded u, simplified]
  show ok: "conv_kind (convertToNum10 (dec_string n) :: u32 IntConversionResult) = CONV_OK"
    using p(1) dec_string_props [of n] assms by (simp add: convertToNum10_def convertToNum_def)
  show "unat (conv_value (convertToNum10 (dec_string n) :: u32 IntConversionResult)) = n"
    using p(2) ok dec_string_props [of n] by (simp add: convertToNum10_def convertToNum_def)
qed

lemma takeWhile_digits:
  assumes "r \<noteq> [] \<longrightarrow> \<not> isDecimal (hd r)"
  shows "takeWhile isDecimal (dec_string n @ r) = dec_string n"
proof -
  have "list_all isDecimal (dec_string n)" using dec_string_props by blast
  then show ?thesis using assms by (cases r) (simp_all add: takeWhile_append2 list_all_iff)
qed

section \<open>Items\<close>

lemma replace_item_value:
  assumes ok: "item_ok regex (it, l)" and r: "r = [] \<or> hd r = 36"
  shows "replace_item regex caps txt (pre @ item_body it @ l @ r) (length pre) =
    Inr (item_value regex caps txt it, length pre + length (item_body it))"
proof (cases it)
  case (Group n)
  let ?rep = "pre @ dec_string n @ l @ r"
  have n: "0 < n" "n \<le> regex_captureGroupCount regex" "n < 2 ^ 32" using ok Group by simp_all
  have "l @ r \<noteq> [] \<longrightarrow> \<not> isDecimal (hd (l @ r))" using ok Group r by (cases l) (auto simp: isDecimal_def)
  then have w: "takeWhile isDecimal (drop (length pre) ?rep) = dec_string n" using takeWhile_digits by simp
  obtain d ds where d: "dec_string n = d # ds" using dec_nonempty [of n] by (cases "dec_string n") auto
  have dec: "isDecimal (?rep ! length pre)" using dec_string_props [of n] d by simp
  then have not: "?rep ! length pre \<notin> {36, 38, 96, 39}" by (auto simp: isDecimal_def)
  have len: "length pre \<noteq> length ?rep" using d by simp
  have "replace_item regex caps txt ?rep (length pre) = replace_index regex caps txt ?rep (length pre)"
    unfolding replace_item_def if_not_P [OF len] Let_def using dec not by simp
  also have "\<dots> = Inr (capture_text txt (caps ! n), length pre + length (dec_string n))"
    unfolding replace_index_def w using dec_convert [OF n(3)] n by (simp add: Let_def word_gt_0 unat_gt_0 [symmetric])
  finally show ?thesis using Group by simp
next
  case (Named name)
  have "find_from ((pre @ [60]) @ name @ 62 # l @ r) (length (pre @ [60])) [62] = Some (length (pre @ [60]) + length name)"
    using ok Named by (intro find_literal(1)) simp
  then have f: "find_from (pre @ 60 # name @ 62 # l @ r) (Suc (length pre)) [62] = Some (Suc (length pre) + length name)" by simp
  have s: "slice (pre @ 60 # name @ 62 # l @ r) (Suc (length pre)) (Suc (length pre) + length name) = name" by (simp add: slice_def)
  from ok Named obtain e where "groups_find (regex_named regex) name = Some e" by (auto split: option.splits)
  then show ?thesis using Named f s by (simp add: replace_item_def replace_name_def isDecimal_def)
qed (simp_all add: replace_item_def Let_def)

section \<open>Templates\<close>

definition fed_replace :: "bool \<times> 's \<Rightarrow> MatchStatus \<times> 's \<times> bytes" where
  "fed_replace r = (if fst r then MATCH_OK else MATCH_CONSUMED_LIMIT, snd r, [])"

lemma interpret_items:
  assumes "36 \<notin> set l" "list_all (item_ok regex) xs"
  shows "interpretReplacePattern regex caps txt (pre @ l @ items_text xs) consumer (length pre) st =
    fed_replace (feed consumer (l # items_pieces (item_value regex caps txt) xs) st)"
  using assms
proof (induction xs arbitrary: pre l st)
  case Nil
  then show ?case using find_literal(2) [of 36 l pre]
    by (auto simp: interpretReplacePattern.simps [of _ _ _ "pre @ l"] fed_replace_def split: prod.split bool.split)
next
  case (Cons x xs)
  obtain it l' where x: "x = (it, l')" by (cases x)
  have ok: "item_ok regex (it, l')" "list_all (item_ok regex) xs" "36 \<notin> set l'" using Cons.prems x by auto
  define rep where "rep = pre @ l @ items_text (x # xs)"
  let ?pre = "pre @ l @ [36]"
  have rep: "rep = pre @ l @ 36 # item_body it @ l' @ items_text xs" "rep = ?pre @ item_body it @ l' @ items_text xs"
      "rep = (?pre @ item_body it) @ l' @ items_text xs" using x by (simp_all add: rep_def)
  have f: "find_from rep (length pre) [36] = Some (length pre + length l)"
    unfolding rep(1) using Cons.prems(1) by (rule find_literal(1))
  have s: "slice rep (length pre) (length pre + length l) = l" by (simp add: slice_def rep_def)
  have hd: "items_text xs = [] \<or> hd (items_text xs) = 36" by (cases xs) simp_all
  have it: "replace_item regex caps txt rep (length pre + length l + 1) =
      Inr (item_value regex caps txt it, length (?pre @ item_body it))"
    using replace_item_value [OF ok(1) hd, of caps "txt" ?pre] unfolding rep(2) by simp
  have ih: "interpretReplacePattern regex caps txt rep consumer (length (?pre @ item_body it)) st' =
      fed_replace (feed consumer (l' # items_pieces (item_value regex caps txt) xs) st')" for st'
    unfolding rep(3) by (rule Cons.IH [OF ok(3,2)])
  have "interpretReplacePattern regex caps txt rep consumer (length pre) st =
      (case consumer l st of (False, st1) \<Rightarrow> (MATCH_CONSUMED_LIMIT, st1, [])
       | (True, st1) \<Rightarrow> (case consumer (item_value regex caps txt it) st1 of (False, st2) \<Rightarrow> (MATCH_CONSUMED_LIMIT, st2, [])
          | (True, st2) \<Rightarrow> fed_replace (feed consumer (l' # items_pieces (item_value regex caps txt) xs) st2)))"
    by (subst interpretReplacePattern.simps) (simp only: f s it option.case sum.case prod.case ih)
  also have "\<dots> = fed_replace (feed consumer (l # items_pieces (item_value regex caps txt) (x # xs)) st)"
    using x by (simp add: fed_replace_def split: prod.split bool.split)
  finally show ?case unfolding rep_def .
qed

lemma interpret_template:
  assumes "template_ok regex t"
  shows "interpretReplacePattern regex caps txt (template_text t) consumer 0 st =
    fed_replace (feed consumer (template_pieces (item_value regex caps txt) t) st)"
  using interpret_items [of "fst t" regex "snd t" caps "txt" "[]" consumer st] assms
  by (simp add: template_ok_def template_text_def template_pieces_def)

end
