(* ===== verification/Regex_Delivery.thy ===== *)
theory Regex_Delivery
  imports Regex_Semantics
begin

text \<open>
  The virtual machine implements the specification. \<open>delivers\<close> describes how a piece of code presents
  its successes: it arrives at its end with the first one, and when the machine later backtracks to
  the entries it left, it arrives with the next one, until it gives up with the stack, the captures
  and the loop counters it was entered with. Composition of code is composition of deliveries.
\<close>

section \<open>Progress\<close>

record job =
  jenv :: unicode_env
  jregex :: Regex
  jctx :: MatchContext
  jtimer :: "(nat \<Rightarrow> TimerStatus) option"
  jcps :: "int list"

definition job_step :: "job \<Rightarrow> Machine \<Rightarrow> outcome" where
  "job_step J m = machine_step (jenv J) (jregex J) (jctx J) (jtimer J) m"

text \<open>The stops that depend on resources: the stack limit and the timer.\<close>

fun is_limit :: "MatchStatus \<Rightarrow> bool" where
  "is_limit MATCH_STACK_LIMIT = True"
| "is_limit MATCH_TIMEOUT = True"
| "is_limit MATCH_CANCEL = True"
| "is_limit _ = False"

inductive goes :: "job \<Rightarrow> (Machine \<Rightarrow> bool) \<Rightarrow> outcome \<Rightarrow> bool" for J P where
  goes_here: "P m \<Longrightarrow> goes J P (Running m)"
| goes_limit: "is_limit st \<Longrightarrow> goes J P (Finished st vm)"
| goes_step: "goes J P (job_step J m) \<Longrightarrow> goes J P (Running m)"

lemma goes_trans:
  assumes "goes J P out" "\<And>m. P m \<Longrightarrow> goes J Q (Running m)"
  shows "goes J Q out"
  using assms(1)
proof induction
  case (goes_here m)
  then show ?case by (rule assms(2))
next
  case (goes_limit st vm)
  then show ?case by (rule goes.goes_limit)
next
  case (goes_step m)
  from goes_step.IH show ?case by (rule goes.goes_step)
qed

lemma goes_mono: "goes J P out \<Longrightarrow> (\<And>m. P m \<Longrightarrow> Q m) \<Longrightarrow> goes J Q out"
  by (erule goes_trans) (rule goes_here)

section \<open>Configurations\<close>

definition cap_ok :: "Backtrack list \<Rightarrow> nat \<Rightarrow> bool" where
  "cap_ok es cap \<longleftrightarrow> length es \<le> cap \<and> 2 \<le> cap"

abbreviation vmst :: "job \<Rightarrow> nat \<Rightarrow> nat \<Rightarrow> Capture list \<Rightarrow> LoopState list \<Rightarrow> Backtrack list \<Rightarrow> nat \<Rightarrow> VM" where
  "vmst J pc it vc ls es cap \<equiv>
     \<lparr>vm_inst = pc, vm_input = \<lparr>input_text = text_of (jcps J), input_iter = it\<rparr>, vm_captures = vc,
      vm_loops = ls, vm_bts = \<lparr>bts_entries = es, bts_cap = cap\<rparr>\<rparr>"

definition at_pc :: "job \<Rightarrow> nat \<Rightarrow> nat \<Rightarrow> nat \<Rightarrow> Capture list \<Rightarrow> LoopState list \<Rightarrow> Backtrack list \<Rightarrow> Machine \<Rightarrow> bool" where
  "at_pc J old pc k vc ls es m \<longleftrightarrow> \<not> m_back m \<and> m_oldIter m = old \<and>
     (\<exists>cap. cap_ok es cap \<and> m_vm m = vmst J pc (offset_of (jcps J) k) vc ls es cap)"

text \<open>\<open>backtrack\<close> pops entries that only restore captures and counters before it finds one that resumes; a
  machine that is about to pop such entries counts as one that has popped them.\<close>

fun unwind :: "Backtrack list \<Rightarrow> Capture list \<times> LoopState list \<Rightarrow> (Capture list \<times> LoopState list) option" where
  "unwind [] s = Some s"
| "unwind (SetCapture i c # es) (vc, ls) = (if i < length vc then unwind es (vc[i := c], ls) else None)"
| "unwind (SetLoopState l st # es) (vc, ls) = (if unat l < length ls then unwind es (vc, ls[unat l := st]) else None)"
| "unwind (RadixState n # es) s = unwind es s"
| "unwind (_ # es) s = None"

lemma unwind_append: "unwind (xs @ ys) s = (case unwind xs s of None \<Rightarrow> None | Some s' \<Rightarrow> unwind ys s')"
  by (induction xs s rule: unwind.induct) auto

lemma backtrack_unwind:
  "unwind sil (vc, ls) = Some (vc', ls') \<Longrightarrow>
    backtrack (sil @ es) (vmst J pc it vc ls E cap) = backtrack es (vmst J pc it vc' ls' E cap)"
  by (induction sil "(vc, ls)" arbitrary: vc ls rule: unwind.induct) (auto split: if_splits)

definition at_back :: "job \<Rightarrow> nat \<Rightarrow> Capture list \<Rightarrow> LoopState list \<Rightarrow> Backtrack list \<Rightarrow> Machine \<Rightarrow> bool" where
  "at_back J old vc ls es m \<longleftrightarrow> m_back m \<and> m_oldIter m = old \<and>
     (\<exists>pc it cap sil vc0 ls0. cap_ok (sil @ es) cap \<and> unwind sil (vc0, ls0) = Some (vc, ls) \<and>
        m_vm m = vmst J pc it vc0 ls0 (sil @ es) cap)"

lemma at_back_pop:
  assumes "at_back J old vc ls (sil @ es) m" "unwind sil (vc, ls) = Some (vc', ls')"
  shows "at_back J old vc' ls' es m"
proof -
  from assms(1) obtain pc it cap sil' vc0 ls0 where m: "m_back m" "m_oldIter m = old" "cap_ok (sil' @ sil @ es) cap"
    "unwind sil' (vc0, ls0) = Some (vc, ls)" "m_vm m = vmst J pc it vc0 ls0 (sil' @ sil @ es) cap"
    unfolding at_back_def by blast
  have "unwind (sil' @ sil) (vc0, ls0) = Some (vc', ls')" using m(4) assms(2) by (simp add: unwind_append)
  with m show ?thesis unfolding at_back_def by (metis append_assoc)
qed

section \<open>Captures and loops\<close>

fun enc_cap :: "job \<Rightarrow> (nat \<times> nat) option \<Rightarrow> Capture" where
  "enc_cap J None = unset_capture"
| "enc_cap J (Some (s, e)) =
     \<lparr>cap_offset = of_nat (offset_of (jcps J) s),
      cap_size = of_nat (offset_of (jcps J) e - offset_of (jcps J) s)\<rparr>"

text \<open>The captures of the machine against those of the specification; an open group (one whose end has
  not been reached) is described by a predicate of its own.\<close>

definition capsrel :: "job \<Rightarrow> (nat \<rightharpoonup> (Capture \<Rightarrow> bool)) \<Rightarrow> caps \<Rightarrow> Capture list \<Rightarrow> bool" where
  "capsrel J opn c vc \<longleftrightarrow> length vc = Suc (regex_captureGroupCount (jregex J)) \<and>
     (\<forall>g. 0 < g \<and> g < length vc \<longrightarrow>
        (case opn g of None \<Rightarrow> vc ! g = enc_cap J (c g) | Some ok \<Rightarrow> ok (vc ! g)))"

definition loopsrel :: "u16 set \<Rightarrow> LoopState list \<Rightarrow> LoopState list \<Rightarrow> bool" where
  "loopsrel D ls ls' \<longleftrightarrow> length ls' = length ls \<and> (\<forall>l. l \<notin> D \<longrightarrow> ls' ! unat l = ls ! unat l)"

lemma loopsrel_refl [simp]: "loopsrel D ls ls"
  by (simp add: loopsrel_def)

lemma loopsrel_trans: "loopsrel D a b \<Longrightarrow> loopsrel E b c \<Longrightarrow> D \<subseteq> F \<Longrightarrow> E \<subseteq> F \<Longrightarrow> loopsrel F a c"
  unfolding loopsrel_def by (metis subsetD)

lemma loopsrel_mono: "loopsrel D a b \<Longrightarrow> D \<subseteq> F \<Longrightarrow> loopsrel F a b"
  unfolding loopsrel_def by blast

text \<open>Popping entries without resuming: what a failing negative look-around does to the captures.\<close>

fun undo :: "Backtrack list \<Rightarrow> Capture list \<Rightarrow> Capture list" where
  "undo [] vc = vc"
| "undo (SetCapture i c # es) vc = undo es (vc[i := c])"
| "undo (_ # es) vc = undo es vc"

lemma undo_append [simp]: "undo (xs @ ys) vc = undo ys (undo xs vc)"
  by (induction xs vc rule: undo.induct) simp_all

section \<open>Deliveries\<close>

record frame =
  f_old :: nat
  f_pc :: nat
  f_es :: "Backtrack list"
  f_open :: "nat \<rightharpoonup> (Capture \<Rightarrow> bool)"
  f_caps :: caps
  f_ls :: "LoopState list"
  f_own :: "u16 set"
  f_free :: "u16 set"

text \<open>What a delivery leaves on the stack can be thrown away by a look-around.\<close>

definition tidy :: "job \<Rightarrow> (nat \<rightharpoonup> (Capture \<Rightarrow> bool)) \<Rightarrow> caps \<Rightarrow> caps \<Rightarrow> Backtrack list \<Rightarrow> bool" where
  "tidy J opn c c' es \<longleftrightarrow> list_all (\<lambda>e. \<not> is_LookAround e) es \<and>
     (\<forall>vc. capsrel J opn c' vc \<longrightarrow> capsrel J opn c (undo es vc))"

lemma tidy_Nil [simp]: "tidy J opn c c []"
  by (simp add: tidy_def)

lemma tidy_append: "tidy J opn c1 c2 new \<Longrightarrow> tidy J opn c c1 bt \<Longrightarrow> tidy J opn c c2 (new @ bt)"
  by (simp add: tidy_def)

text \<open>Arrival with one success, and exhaustion.\<close>

definition arrived :: "job \<Rightarrow> frame \<Rightarrow> mstate \<Rightarrow> LoopState list \<Rightarrow> Backtrack list \<Rightarrow> Machine \<Rightarrow> bool" where
  "arrived J F r ls new m \<longleftrightarrow>
     (\<exists>vc. at_pc J (f_old F) (f_pc F) (fst r) vc ls (new @ f_es F) m \<and> capsrel J (f_open F) (snd r) vc) \<and>
     loopsrel (f_own F \<union> f_free F) (f_ls F) ls \<and> tidy J (f_open F) (f_caps F) (snd r) new"

definition back_with :: "job \<Rightarrow> frame \<Rightarrow> caps \<Rightarrow> LoopState list \<Rightarrow> Backtrack list \<Rightarrow> Machine \<Rightarrow> bool" where
  "back_with J F c ls new m \<longleftrightarrow>
     (\<exists>vc ls'. at_back J (f_old F) vc ls' (new @ f_es F) m \<and> capsrel J (f_open F) c vc \<and> loopsrel (f_free F) ls ls')"

lemma back_withI:
  "at_back J (f_old F) vc ls' (new @ f_es F) m \<Longrightarrow> capsrel J (f_open F) c vc \<Longrightarrow> loopsrel (f_free F) ls ls' \<Longrightarrow>
     back_with J F c ls new m"
  by (auto simp: back_with_def)

primrec delivers :: "job \<Rightarrow> frame \<Rightarrow> mstate list \<Rightarrow> outcome \<Rightarrow> bool" where
  "delivers J F [] out = goes J (back_with J F (f_caps F) (f_ls F) []) out"
| "delivers J F (r # rs) out =
     goes J (\<lambda>m. \<exists>ls new. arrived J F r ls new m \<and>
       (\<forall>m'. back_with J F (snd r) ls new m' \<longrightarrow> delivers J F rs (Running m'))) out"

lemma delivers_goes:
  assumes "goes J P out" "\<And>m. P m \<Longrightarrow> delivers J F rs (Running m)"
  shows "delivers J F rs out"
  using assms by (cases rs) (auto elim: goes_trans)

lemma deliver_one:
  assumes "arrived J F r ls [] m" "f_ls F = ls" "snd r = f_caps F"
  shows "delivers J F [r] (Running m)"
  unfolding delivers.simps
  by (intro goes_here exI [of _ ls] exI [of _ "[]"] conjI allI impI assms(1))
    (use assms(2,3) in simp)

lemma deliver_here:
  assumes "at_pc J (f_old F) (f_pc F) k vc (f_ls F) (f_es F) m" "capsrel J (f_open F) (f_caps F) vc"
  shows "delivers J F [(k, f_caps F)] (Running m)"
  by (rule deliver_one [where ls = "f_ls F"]) (use assms in \<open>auto simp: arrived_def\<close>)

text \<open>A delivery over entries \<open>bt\<close> of one's own, and what follows when it is exhausted.\<close>

lemma deliver_over:
  assumes "delivers J F1 xs out"
    and F1: "F1 = F\<lparr>f_es := bt @ f_es F, f_caps := c1, f_ls := ls1, f_own := L1\<rparr>" "L1 \<subseteq> f_own F \<union> f_free F"
    and bt: "tidy J (f_open F) (f_caps F) c1 bt"
    and ls1: "loopsrel (f_own F \<union> f_free F) (f_ls F) ls1"
    and fin: "\<And>m. back_with J F c1 ls1 bt m \<Longrightarrow> delivers J F ys (Running m)"
  shows "delivers J F (xs @ ys) out"
  using assms(1)
proof (induction xs arbitrary: out)
  case Nil
  then have "goes J (back_with J F c1 ls1 bt) out" unfolding F1(1) by (simp add: back_with_def [abs_def])
  then show ?case unfolding append_Nil by (rule delivers_goes) (rule fin)
next
  case (Cons r xs)
  show ?case unfolding append_Cons delivers.simps
  proof (rule goes_mono [OF Cons.prems [unfolded delivers.simps]])
    fix m assume "\<exists>ls new. arrived J F1 r ls new m \<and> (\<forall>m'. back_with J F1 (snd r) ls new m' \<longrightarrow> delivers J F1 xs (Running m'))"
    then obtain ls new where a: "arrived J F1 r ls new m"
      and b: "\<And>m'. back_with J F1 (snd r) ls new m' \<Longrightarrow> delivers J F1 xs (Running m')" by blast
    have "arrived J F r ls (new @ bt) m"
      using a bt ls1 F1(2) unfolding arrived_def F1(1)
      by (auto intro: tidy_append loopsrel_trans)
    moreover have "delivers J F (xs @ ys) (Running m')" if "back_with J F (snd r) ls (new @ bt) m'" for m'
      using that by (intro Cons.IH b) (simp add: back_with_def F1(1))
    ultimately show "\<exists>ls new. arrived J F r ls new m \<and>
        (\<forall>m'. back_with J F (snd r) ls new m' \<longrightarrow> delivers J F (xs @ ys) (Running m'))" by blast
  qed
qed

text \<open>Sequencing: every success of the first part is continued by the second.\<close>

lemma deliver_bind:
  assumes "delivers J F1 xs out"
    and F1: "F1 = F\<lparr>f_pc := pc1, f_own := L1\<rparr>" "L1 \<subseteq> f_own F \<union> f_free F"
    and L2: "L2 \<subseteq> f_own F \<union> f_free F"
    and nxt: "\<And>r ls new m. r \<in> set xs \<Longrightarrow> arrived J F1 r ls new m \<Longrightarrow>
      delivers J (F\<lparr>f_es := new @ f_es F, f_caps := snd r, f_ls := ls, f_own := L2\<rparr>) (f r) (Running m)"
  shows "delivers J F (concat (map f xs)) out"
  using assms(1) nxt
proof (induction xs arbitrary: out)
  case Nil
  then show ?case unfolding F1(1) by (simp add: back_with_def [abs_def])
next
  case (Cons r xs)
  have IH: "delivers J F1 xs out \<Longrightarrow> delivers J F (concat (map f xs)) out" for out
    using Cons.IH Cons.prems(2) by simp
  show ?case
  proof (rule delivers_goes [OF Cons.prems(1) [unfolded delivers.simps]])
    fix m assume "\<exists>ls new. arrived J F1 r ls new m \<and> (\<forall>m'. back_with J F1 (snd r) ls new m' \<longrightarrow> delivers J F1 xs (Running m'))"
    then obtain ls new where a: "arrived J F1 r ls new m"
      and b: "\<And>m'. back_with J F1 (snd r) ls new m' \<Longrightarrow> delivers J F1 xs (Running m')" by blast
    have d: "delivers J (F\<lparr>f_es := new @ f_es F, f_caps := snd r, f_ls := ls, f_own := L2\<rparr>) (f r) (Running m)"
      using Cons.prems(2) [OF _ a] by simp
    have "delivers J F (f r @ concat (map f xs)) (Running m)"
    proof (rule deliver_over [OF d refl L2])
      show "tidy J (f_open F) (f_caps F) (snd r) new" using a by (simp add: arrived_def F1(1))
      show "loopsrel (f_own F \<union> f_free F) (f_ls F) ls"
        using a F1(2) by (auto simp: arrived_def F1(1) intro: loopsrel_mono)
      show "delivers J F (concat (map f xs)) (Running m')" if "back_with J F (snd r) ls new m'" for m'
        using that by (intro IH b) (simp add: back_with_def F1(1))
    qed
    then show "delivers J F (concat (map f (r # xs))) (Running m)" by simp
  qed
qed

text \<open>Code that is entered through another address, and code whose end is followed by a jump.\<close>

lemma deliver_own:
  assumes "delivers J (F\<lparr>f_own := L1\<rparr>) xs out" "L1 \<subseteq> f_own F \<union> f_free F"
  shows "delivers J F xs out"
proof -
  have "delivers J F (xs @ []) out"
  proof (rule deliver_over [OF assms(1) _ assms(2)])
    show "F\<lparr>f_own := L1\<rparr> = F\<lparr>f_es := [] @ f_es F, f_caps := f_caps F, f_ls := f_ls F, f_own := L1\<rparr>" by simp
  qed (auto intro: goes_here)
  then show ?thesis by simp
qed

lemma deliver_loops:
  assumes "delivers J (F\<lparr>f_ls := ls1\<rparr>) xs out" "loopsrel (f_free F) (f_ls F) ls1"
  shows "delivers J F xs out"
proof -
  have "delivers J F (xs @ []) out"
  proof (rule deliver_over [OF assms(1), where bt = "[]"])
    show "F\<lparr>f_ls := ls1\<rparr> = F\<lparr>f_es := [] @ f_es F, f_caps := f_caps F, f_ls := ls1, f_own := f_own F\<rparr>" by simp
    show "loopsrel (f_own F \<union> f_free F) (f_ls F) ls1" using assms(2) by (rule loopsrel_mono) simp
    fix m assume "back_with J F (f_caps F) ls1 [] m"
    then have "back_with J F (f_caps F) (f_ls F) [] m"
      using assms(2) unfolding back_with_def by (blast intro: loopsrel_trans)
    then show "delivers J F [] (Running m)" by (simp add: goes_here)
  qed simp_all
  then show ?thesis by simp
qed

lemma deliver_jump:
  assumes "delivers J (F\<lparr>f_pc := pc1\<rparr>) xs out"
    and "\<And>k vc ls es m. at_pc J (f_old F) pc1 k vc ls es m \<Longrightarrow> goes J (at_pc J (f_old F) (f_pc F) k vc ls es) (Running m)"
  shows "delivers J F xs out"
proof -
  have "delivers J F (concat (map (\<lambda>r. [r]) xs)) out"
  proof (rule deliver_bind [OF assms(1), where ?L2.0 = "{}"])
    show "F\<lparr>f_pc := pc1\<rparr> = F\<lparr>f_pc := pc1, f_own := f_own F\<rparr>" by simp
    fix r ls new m assume a: "arrived J (F\<lparr>f_pc := pc1\<rparr>) r ls new m"
    let ?F = "F\<lparr>f_es := new @ f_es F, f_caps := snd r, f_ls := ls, f_own := {}\<rparr>"
    from a obtain vc where vc: "at_pc J (f_old F) pc1 (fst r) vc ls (new @ f_es F) m" "capsrel J (f_open F) (snd r) vc"
      by (auto simp: arrived_def)
    show "delivers J ?F [r] (Running m)"
    proof (rule delivers_goes [OF assms(2) [OF vc(1)]])
      fix m' assume "at_pc J (f_old F) (f_pc F) (fst r) vc ls (new @ f_es F) m'"
      then show "delivers J ?F [r] (Running m')"
        using deliver_here [of J ?F "fst r" vc m'] vc(2) by simp
    qed
  qed simp_all
  then show ?thesis by simp
qed

declare delivers.simps(2) [simp del]

end
