(* ===== verification/Regex_Steps.thy ===== *)
theory Regex_Steps
  imports Regex_Delivery
begin

text \<open>
  What one instruction of the machine does when it stands at a known address: the code and the matchers
  of a pattern are in place (\<open>code_at\<close>, \<open>matchers_at\<close>), and every leaf of the pattern consumes what its
  meaning says or fails.
\<close>

section \<open>Code and matchers in place\<close>

definition code_at :: "job \<Rightarrow> nat \<Rightarrow> inst list \<Rightarrow> bool" where
  "code_at J pc is \<longleftrightarrow>
     (\<exists>pre post. regex_instSeq (jregex J) = pre @ encode_all is @ post \<and> length pre = pc)"

definition matchers_at :: "job \<Rightarrow> nat \<Rightarrow> Matcher list \<Rightarrow> bool" where
  "matchers_at J mi ms \<longleftrightarrow> (\<exists>pre post. regex_matchers (jregex J) = pre @ ms @ post \<and> length pre = mi)"

lemma code_at_append:
  assumes "code_at J pc (is @ js)"
  shows "code_at J pc is" "code_at J (pc + isize is) js"
proof -
  obtain pre post where c: "regex_instSeq (jregex J) = pre @ encode_all is @ encode_all js @ post" "length pre = pc"
    using assms by (auto simp: code_at_def)
  then show "code_at J pc is" by (auto simp: code_at_def)
  have "regex_instSeq (jregex J) = (pre @ encode_all is) @ encode_all js @ post"
    "length (pre @ encode_all is) = pc + isize is" using c by (simp_all add: isize_def)
  then show "code_at J (pc + isize is) js" unfolding code_at_def by blast
qed

lemma code_at_Cons:
  assumes "code_at J pc (i # is)"
  shows "fetch (regex_instSeq (jregex J)) pc = Some i" "code_at J (pc + inst_size i) is"
  using assms code_at_append [of J pc "[i]" "is"]
  by (auto simp: code_at_def fetch_at)

lemma code_at_bound: "code_at J pc is \<Longrightarrow> pc + isize is \<le> length (regex_instSeq (jregex J))"
  by (auto simp: code_at_def isize_def)

lemma matchers_at_append:
  assumes "matchers_at J mi (ms @ ns)"
  shows "matchers_at J mi ms" "matchers_at J (mi + length ms) ns"
proof -
  obtain pre post where c: "regex_matchers (jregex J) = pre @ ms @ ns @ post" "length pre = mi"
    using assms by (auto simp: matchers_at_def)
  then show "matchers_at J mi ms" by (auto simp: matchers_at_def)
  have "regex_matchers (jregex J) = (pre @ ms) @ ns @ post" "length (pre @ ms) = mi + length ms" using c by simp_all
  then show "matchers_at J (mi + length ms) ns" unfolding matchers_at_def by blast
qed

lemma matchers_at_Cons:
  assumes "matchers_at J mi (x # ms)"
  shows "mi < length (regex_matchers (jregex J))" "regex_matchers (jregex J) ! mi = x" "matchers_at J (Suc mi) ms"
  using assms matchers_at_append(2) [of J mi "[x]" ms] by (auto simp: matchers_at_def)

text \<open>A job within the limits: the text is valid and leaves room for the loop counters, the code fits
  the 32-bit addresses.\<close>

definition job_ok :: "job \<Rightarrow> bool" where
  "job_ok J \<longleftrightarrow> code_points (jcps J) \<and> length (text_of (jcps J)) + 2 ^ 16 < 2 ^ 32 \<and>
     length (regex_instSeq (jregex J)) < 2 ^ 32"

lemma job_okD:
  assumes "job_ok J"
  shows "code_points (jcps J)" "length (text_of (jcps J)) + 2 ^ 16 < 2 ^ 32" "length (regex_instSeq (jregex J)) < 2 ^ 32"
  using assms by (simp_all add: job_ok_def)

section \<open>Steps\<close>

lemma job_step_run:
  assumes "at_pc J old pc k vc ls es m" "fetch (regex_instSeq (jregex J)) pc = Some i"
  obtains cap where "cap_ok es cap"
    "job_step J m = (case exec_inst (jenv J) (jregex J) i (vmst J pc (offset_of (jcps J) k) vc ls es cap) of
        VNext vm \<Rightarrow> Running (m\<lparr>m_vm := vm\<rparr>)
      | VBack vm \<Rightarrow> Running (m\<lparr>m_vm := vm, m_back := True\<rparr>)
      | VMatch vm \<Rightarrow> Finished MATCH_OK (set_match (m_oldIter m) vm)
      | VLimit vm \<Rightarrow> Finished MATCH_STACK_LIMIT vm
      | VFault \<Rightarrow> Crashed)"
  using assms that
  by (auto simp: at_pc_def job_step_def machine_step_def step_run_def vm_step_def)

lemma goes_next:
  assumes "at_pc J old pc k vc ls es m" "fetch (regex_instSeq (jregex J)) pc = Some i"
    "\<And>cap. cap_ok es cap \<Longrightarrow>
      (\<exists>vm. exec_inst (jenv J) (jregex J) i (vmst J pc (offset_of (jcps J) k) vc ls es cap) = VLimit vm) \<or>
      (\<exists>cap'. cap_ok es' cap' \<and> exec_inst (jenv J) (jregex J) i (vmst J pc (offset_of (jcps J) k) vc ls es cap) =
         VNext (vmst J pc' (offset_of (jcps J) k') vc' ls' es' cap'))"
  shows "goes J (at_pc J old pc' k' vc' ls' es') (Running m)"
proof (rule job_step_run [OF assms(1,2)])
  fix cap assume c: "cap_ok es cap" and st: "job_step J m =
    (case exec_inst (jenv J) (jregex J) i (vmst J pc (offset_of (jcps J) k) vc ls es cap) of
        VNext vm \<Rightarrow> Running (m\<lparr>m_vm := vm\<rparr>)
      | VBack vm \<Rightarrow> Running (m\<lparr>m_vm := vm, m_back := True\<rparr>)
      | VMatch vm \<Rightarrow> Finished MATCH_OK (set_match (m_oldIter m) vm)
      | VLimit vm \<Rightarrow> Finished MATCH_STACK_LIMIT vm
      | VFault \<Rightarrow> Crashed)"
  from assms(3) [OF c] show ?thesis
  proof (elim disjE exE conjE)
    fix vm assume "exec_inst (jenv J) (jregex J) i (vmst J pc (offset_of (jcps J) k) vc ls es cap) = VLimit vm"
    with st show ?thesis by (intro goes_step) (simp add: goes_limit)
  next
    fix cap' assume "cap_ok es' cap'"
      "exec_inst (jenv J) (jregex J) i (vmst J pc (offset_of (jcps J) k) vc ls es cap) =
         VNext (vmst J pc' (offset_of (jcps J) k') vc' ls' es' cap')"
    with st assms(1) show ?thesis by (intro goes_step) (auto simp: at_pc_def intro!: goes_here)
  qed
qed

lemma goes_fail:
  assumes "at_pc J old pc k vc ls es m" "fetch (regex_instSeq (jregex J)) pc = Some i"
    "\<And>cap. cap_ok es cap \<Longrightarrow>
      \<exists>pc' it cap'. cap_ok es' cap' \<and> exec_inst (jenv J) (jregex J) i (vmst J pc (offset_of (jcps J) k) vc ls es cap) =
         VBack (vmst J pc' it vc' ls' es' cap')"
  shows "goes J (at_back J old vc' ls' es') (Running m)"
proof (rule job_step_run [OF assms(1,2)])
  fix cap assume c: "cap_ok es cap" and st: "job_step J m =
    (case exec_inst (jenv J) (jregex J) i (vmst J pc (offset_of (jcps J) k) vc ls es cap) of
        VNext vm \<Rightarrow> Running (m\<lparr>m_vm := vm\<rparr>)
      | VBack vm \<Rightarrow> Running (m\<lparr>m_vm := vm, m_back := True\<rparr>)
      | VMatch vm \<Rightarrow> Finished MATCH_OK (set_match (m_oldIter m) vm)
      | VLimit vm \<Rightarrow> Finished MATCH_STACK_LIMIT vm
      | VFault \<Rightarrow> Crashed)"
  from assms(3) [OF c] obtain pc' it cap' where "cap_ok es' cap'"
      "exec_inst (jenv J) (jregex J) i (vmst J pc (offset_of (jcps J) k) vc ls es cap) =
         VBack (vmst J pc' it vc' ls' es' cap')" by blast
  moreover from this have "at_back J old vc' ls' es' (m\<lparr>m_vm := vmst J pc' it vc' ls' es' cap', m_back := True\<rparr>)"
    using assms(1) unfolding at_back_def at_pc_def by (auto intro!: exI [of _ "[]"])
  ultimately show ?thesis using st by (intro goes_step) (simp add: goes_here)
qed

text \<open>Backtracking resumes, or the timer stops the machine.\<close>

lemma goes_resume:
  assumes "at_back J old vc ls es m"
    "\<And>pc it cap E. cap_ok es cap \<Longrightarrow> \<exists>cap'. cap_ok es' cap' \<and>
       backtrack es (vmst J pc it vc ls E cap) = Resumed (vmst J pc' (offset_of (jcps J) k') vc' ls' es' cap')"
  shows "goes J (at_pc J old pc' k' vc' ls' es') (Running m)"
proof -
  obtain pc it cap sil vc0 ls0 where m: "m_back m" "m_oldIter m = old" "cap_ok (sil @ es) cap"
      "unwind sil (vc0, ls0) = Some (vc, ls)" "m_vm m = vmst J pc it vc0 ls0 (sil @ es) cap"
    using assms(1) unfolding at_back_def by blast
  have "cap_ok es cap" using m(3) by (simp add: cap_ok_def)
  from assms(2) [OF this] obtain cap' where b: "cap_ok es' cap'" "backtrack es (vmst J pc it vc ls (sil @ es) cap) =
      Resumed (vmst J pc' (offset_of (jcps J) k') vc' ls' es' cap')" by blast
  have "job_step J m = check_timer (jtimer J) (m\<lparr>m_vm := vmst J pc' (offset_of (jcps J) k') vc' ls' es' cap', m_back := False\<rparr>)"
    using m b backtrack_unwind [OF m(4), where es = es and J = J and pc = pc and it = it and E = "sil @ es" and cap = cap]
    by (simp add: job_step_def machine_step_def step_back_def)
  then show ?thesis
    using m(2) b(1) by (intro goes_step)
      (auto simp: check_timer_def at_pc_def split: option.splits TimerStatus.splits intro!: goes_here goes_limit)
qed

lemma push_then_cases:
  assumes "cap_ok es cap"
  shows "push_then bt (vmst J pc it vc ls es cap) K = VLimit (vmst J pc it vc ls es cap) \<or>
    (\<exists>cap'. cap_ok (bt # es) cap' \<and> push_then bt (vmst J pc it vc ls es cap) K = K (vmst J pc it vc ls (bt # es) cap'))"
proof (cases "length es = cap")
  case True
  then show ?thesis using assms unfolding push_then_def bts_push_def cap_ok_def
    by (auto intro!: exI [of _ "cap + cap div 2"])
next
  case False
  then show ?thesis using assms unfolding push_then_def bts_push_def cap_ok_def
    by (auto intro!: exI [of _ cap])
qed

section \<open>Leaves\<close>

lemma deliver_leaf:
  assumes m: "at_pc J (f_old F) pc k vc (f_ls F) (f_es F) m" "fetch (regex_instSeq (jregex J)) pc = Some i"
    and c: "capsrel J (f_open F) (f_caps F) vc" and pc: "f_pc F = pc + inst_size i"
    and x: "\<And>cap. case r of
        Some k' \<Rightarrow> exec_inst (jenv J) (jregex J) i (vmst J pc (offset_of (jcps J) k) vc (f_ls F) (f_es F) cap) =
          VNext (vmst J (pc + inst_size i) (offset_of (jcps J) k') vc (f_ls F) (f_es F) cap)
      | None \<Rightarrow> \<exists>it. exec_inst (jenv J) (jregex J) i (vmst J pc (offset_of (jcps J) k) vc (f_ls F) (f_es F) cap) =
          VBack (vmst J pc it vc (f_ls F) (f_es F) cap)"
  shows "delivers J F (case r of Some k' \<Rightarrow> [(k', f_caps F)] | None \<Rightarrow> []) (Running m)"
proof (cases r)
  case None
  have "goes J (at_back J (f_old F) vc (f_ls F) (f_es F)) (Running m)"
    using x None by (intro goes_fail [OF m]) (simp, blast)
  then have "goes J (back_with J F (f_caps F) (f_ls F) []) (Running m)"
    by (rule goes_mono) (rule back_withI [where ls' = "f_ls F", OF _ c], simp_all)
  with None show ?thesis by simp
next
  case (Some k')
  have "goes J (at_pc J (f_old F) (f_pc F) k' vc (f_ls F) (f_es F)) (Running m)"
    unfolding pc using x Some by (intro goes_next [OF m]) auto
  then have "delivers J F [(k', f_caps F)] (Running m)"
    by (rule delivers_goes) (rule deliver_here [OF _ c])
  with Some show ?thesis by simp
qed

lemma one_sem_option:
  "one_sem cps fwd f (k, c) = (case (if fwd then (if k < length cps \<and> f (cps ! k) then Some (k + 1) else None)
     else (if 0 < k \<and> f (cps ! (k - 1)) then Some (k - 1) else None)) of Some k' \<Rightarrow> [(k', c)] | None \<Rightarrow> [])"
  by (simp add: one_sem_def)

text \<open>The cursor at a position.\<close>

lemma cursor_begin: "job_ok J \<Longrightarrow> k \<le> length (jcps J) \<Longrightarrow> offset_of (jcps J) k = 0 \<longleftrightarrow> k = 0"
  using offset_eq [of "jcps J" k 0] by (auto simp: job_ok_def)

lemma cursor_end: "job_ok J \<Longrightarrow> k \<le> length (jcps J) \<Longrightarrow> offset_of (jcps J) k = length (text_of (jcps J)) \<longleftrightarrow> k = length (jcps J)"
  using offset_eq [of "jcps J" k "length (jcps J)"] by (auto simp: job_ok_def)

lemma cursor_next:
  assumes "job_ok J" "k < length (jcps J)"
  shows "unsafeNextUtf8 (text_of (jcps J)) (offset_of (jcps J) k) = (jcps J ! k, offset_of (jcps J) (Suc k))"
  using next_at assms by (auto simp: job_ok_def)

lemma cursor_prev:
  assumes "job_ok J" "0 < k" "k \<le> length (jcps J)"
  shows "unsafePrevUtf8 (text_of (jcps J)) (offset_of (jcps J) k) = (jcps J ! (k - 1), offset_of (jcps J) (k - 1))"
  using prev_at [of "jcps J" "k - 1"] assms by (auto simp: job_ok_def)

lemma exec_consume_if:
  assumes "job_ok J" "k \<le> length (jcps J)"
  shows "case (if k < length (jcps J) \<and> f (jcps J ! k) then Some (k + 1) else None) of
        Some k' \<Rightarrow> consume_if f i (vmst J pc (offset_of (jcps J) k) vc ls es cap) =
          VNext (vmst J (pc + inst_size i) (offset_of (jcps J) k') vc ls es cap)
      | None \<Rightarrow> \<exists>it. consume_if f i (vmst J pc (offset_of (jcps J) k) vc ls es cap) = VBack (vmst J pc it vc ls es cap)"
  using cursor_end [OF assms] cursor_next [OF assms(1), of k] assms(2)
  by (auto simp: consume_if_def input_available_def consumeForward_def setIter_def advance_if_def advance_def goto_addr_def)

lemma exec_consume_back_if:
  assumes "job_ok J" "k \<le> length (jcps J)"
  shows "case (if 0 < k \<and> f (jcps J ! (k - 1)) then Some (k - 1) else None) of
        Some k' \<Rightarrow> consume_back_if f i (vmst J pc (offset_of (jcps J) k) vc ls es cap) =
          VNext (vmst J (pc + inst_size i) (offset_of (jcps J) k') vc ls es cap)
      | None \<Rightarrow> \<exists>it. consume_back_if f i (vmst J pc (offset_of (jcps J) k) vc ls es cap) = VBack (vmst J pc it vc ls es cap)"
  using cursor_begin [OF assms] cursor_prev [OF assms(1), of k] assms(2)
  by (auto simp: consume_back_if_def availableBackward_def consumeBackward_def setIter_def advance_if_def advance_def goto_addr_def)

lemma deliver_consume:
  assumes "job_ok J" "k \<le> length (jcps J)"
    and m: "at_pc J (f_old F) pc k vc (f_ls F) (f_es F) m" "fetch (regex_instSeq (jregex J)) pc = Some i"
    and c: "capsrel J (f_open F) (f_caps F) vc" and pc: "f_pc F = pc + inst_size i"
    and x: "\<And>vm. exec_inst (jenv J) (jregex J) i vm = (if fwd then consume_if f i vm else consume_back_if f i vm)"
  shows "delivers J F (one_sem (jcps J) fwd f (k, f_caps F)) (Running m)"
proof (cases fwd)
  case True
  show ?thesis unfolding one_sem_option
    by (rule deliver_leaf [OF m c pc], simp only: True if_True x, rule exec_consume_if [OF assms(1,2)])
next
  case False
  show ?thesis unfolding one_sem_option
    by (rule deliver_leaf [OF m c pc], simp only: False if_False x, rule exec_consume_back_if [OF assms(1,2)])
qed

lemma sint_code_point: "isCodePoint c \<Longrightarrow> sint (word_of_int c :: u32) = c"
  by (simp add: code_point_defs signed_of_int signed_take_bit_int_eq_self)

text \<open>Assertions.\<close>

lemma deliver_boundary:
  assumes ok: "job_ok J" "k \<le> length (jcps J)"
    and m: "at_pc J (f_old F) pc k vc (f_ls F) (f_es F) m" "fetch (regex_instSeq (jregex J)) pc = Some (boundary_inst ty md)"
    and c: "capsrel J (f_open F) (f_caps F) vc" and pc: "f_pc F = pc + inst_size (boundary_inst ty md)"
  shows "delivers J F (if boundary_test (jenv J) (jcps J) ty md k then [(k, f_caps F)] else []) (Running m)"
proof -
  let ?vm = "\<lambda>cap. vmst J pc (offset_of (jcps J) k) vc (f_ls F) (f_es F) cap"
  have b: "isBegin (vm_input (?vm cap)) \<longleftrightarrow> k = 0" and e: "isEnd (vm_input (?vm cap)) \<longleftrightarrow> k = length (jcps J)" for cap
    using cursor_begin [OF ok] cursor_end [OF ok] by (auto simp: isBegin_def isEnd_def)
  have p: "0 < k \<Longrightarrow> input_prev (vm_input (?vm cap)) = jcps J ! (k - 1)"
    and n: "k < length (jcps J) \<Longrightarrow> input_cur (vm_input (?vm cap)) = jcps J ! k" for cap
    using cursor_prev [OF ok(1) _ ok(2)] cursor_next [OF ok(1), of k]
    by (auto simp: input_prev_def input_cur_def)
  let ?r = "if boundary_test (jenv J) (jcps J) ty md k then Some k else None"
  have x: "exec_inst (jenv J) (jregex J) (boundary_inst ty md) (?vm cap) =
      advance_if (boundary_test (jenv J) (jcps J) ty md k) (boundary_inst ty md) (?vm cap)" for cap
  proof (cases ty)
    case B_START
    then show ?thesis using b p [of cap] by (cases "k = 0")
        (simp_all add: exec_inst_def boundary_inst_def boundary_test_def step_start_def Let_def)
  next
    case B_END
    then show ?thesis using e n [of cap] ok(2) by (cases "k = length (jcps J)")
        (simp_all add: exec_inst_def boundary_inst_def boundary_test_def step_end_def Let_def)
  next
    case B_WORD
    then show ?thesis using b [of cap] e [of cap] p [of cap] n [of cap] ok(2)
      by (cases "k = 0"; cases "k = length (jcps J)"; cases "hasFlag md (modifier_bit IGNORE_CASE)")
        (auto simp: exec_inst_def boundary_inst_def boundary_test_def word_at_def step_word_def step_iword_def Let_def)
  next
    case B_NOT_WORD
    then show ?thesis using b [of cap] e [of cap] p [of cap] n [of cap] ok(2)
      by (cases "k = 0"; cases "k = length (jcps J)"; cases "hasFlag md (modifier_bit IGNORE_CASE)")
        (auto simp: exec_inst_def boundary_inst_def boundary_test_def word_at_def step_word_def step_iword_def Let_def)
  qed
  have "delivers J F (case ?r of Some k' \<Rightarrow> [(k', f_caps F)] | None \<Rightarrow> []) (Running m)"
    by (rule deliver_leaf [OF m c pc]) (simp add: x advance_if_def advance_def goto_addr_def)
  then show ?thesis by (simp split: if_splits)
qed

section \<open>Back references\<close>

lemma offset_add:
  assumes "k + n \<le> length cps"
  shows "offset_of cps (k + n) = offset_of cps k + length (text_of (take n (drop k cps)))"
  by (simp add: offset_of_def take_add)

lemma offset_count:
  assumes "code_points cps" "s \<le> e" "e \<le> length cps"
  shows "e - s \<le> offset_of cps e - offset_of cps s"
  using assms(2,3)
proof (induction e)
  case (Suc e)
  show ?case
  proof (cases "s = Suc e")
    case False
    with Suc have "e - s \<le> offset_of cps e - offset_of cps s" by simp
    moreover have "offset_of cps e < offset_of cps (Suc e)" "offset_of cps s \<le> offset_of cps e"
      using offset_less [OF assms(1)] offset_le [OF assms(1)] Suc False by simp_all
    ultimately show ?thesis using False Suc by linarith
  qed simp
qed simp

lemma text_slice:
  assumes "s \<le> e" "e \<le> length cps"
  shows "slice (text_of cps) (offset_of cps s) (offset_of cps e) = text_of (slice cps s e)"
proof -
  have "offset_of cps e = offset_of cps s + length (text_of (slice cps s e))"
    using offset_add [of s "e - s" cps] assms by (simp add: slice_def)
  moreover have "drop (offset_of cps s) (text_of cps) = text_of (slice cps s e) @ text_of (drop (e - s) (drop s cps))"
    using text_drop [of s cps] assms unfolding slice_def
    by (metis append_take_drop_id le_trans text_of_simps(3))
  ultimately show ?thesis by (simp add: slice_def [of "text_of cps"])
qed

lemma enc_cap_unat:
  assumes "job_ok J" "s \<le> e" "e \<le> length (jcps J)"
  shows "unat (cap_offset (enc_cap J (Some (s, e)))) = offset_of (jcps J) s"
    "unat (cap_size (enc_cap J (Some (s, e)))) = offset_of (jcps J) e - offset_of (jcps J) s"
    "\<not> isUnset (enc_cap J (Some (s, e)))"
proof -
  note j = job_okD [OF assms(1)]
  have "offset_of (jcps J) s \<le> offset_of (jcps J) e" "offset_of (jcps J) e \<le> length (text_of (jcps J))"
    using offset_le [OF j(1)] offset_le_text [OF j(1)] assms by simp_all
  with j(2) have b: "offset_of (jcps J) s < 2 ^ 32 - 1" "offset_of (jcps J) e - offset_of (jcps J) s < 2 ^ 32" by simp_all
  then show o: "unat (cap_offset (enc_cap J (Some (s, e)))) = offset_of (jcps J) s"
    and "unat (cap_size (enc_cap J (Some (s, e)))) = offset_of (jcps J) e - offset_of (jcps J) s"
    by (simp_all add: unat_of_nat)
  have "unat (0xFFFFFFFF :: u32) = 2 ^ 32 - 1" by simp
  with o b(1) show "\<not> isUnset (enc_cap J (Some (s, e)))" unfolding isUnset_def by (metis less_irrefl)
qed

lemma enc_cap_isUnset:
  "job_ok J \<Longrightarrow> caps_wf (jcps J) c \<Longrightarrow> isUnset (enc_cap J (c g)) \<longleftrightarrow> c g = None"
  using enc_cap_unat(3) [of J] by (cases "c g") (auto simp: caps_wf_def isUnset_def unset_capture_def)

lemma find_map_eq:
  assumes "\<And>x. x \<in> set xs \<Longrightarrow> P x = Q x"
  shows "List.find P xs = List.find Q xs"
  using assms by (induction xs) auto

lemma resolve_entry:
  assumes "job_ok J" "caps_wf (jcps J) c" "capsrel J opn c vc"
    and g: "\<forall>g\<in>set (entry_groups e). 0 < g \<and> g \<le> regex_captureGroupCount (jregex J) \<and> opn g = None"
  shows "findValidNamedCapture e vc = enc_cap J (resolve_caps (entry_groups e) c)"
proof -
  have vc: "vc ! g = enc_cap J (c g)" if "g \<in> set (entry_groups e)" for g
    using assms(3) g that unfolding capsrel_def by (auto simp: less_Suc_eq_le split: option.splits)
  show ?thesis
  proof (cases e)
    case (SingleIndex i)
    with vc show ?thesis by (cases "c i") (simp_all add: resolve_caps_def)
  next
    case (MultipleIndices idx)
    have "List.find (\<lambda>i. \<not> isUnset (vc ! i)) idx = List.find (\<lambda>g. c g \<noteq> None) idx"
      using vc MultipleIndices enc_cap_isUnset [OF assms(1,2)] by (intro find_map_eq) simp
    moreover have "g \<in> set idx" if "List.find (\<lambda>g. c g \<noteq> None) idx = Some g" for g
      using that by (auto simp: find_Some_iff)
    ultimately show ?thesis using MultipleIndices vc by (auto simp: resolve_caps_def split: option.splits)
  qed
qed

lemma resolve_caps_wf:
  "caps_wf cps c \<Longrightarrow> resolve_caps gs c = Some (s, e) \<Longrightarrow> s \<le> e \<and> e \<le> length cps"
  by (auto simp: resolve_caps_def caps_wf_def split: option.splits)

text \<open>Comparing with the text ahead or behind.\<close>

lemma code_points_slice: "code_points cps \<Longrightarrow> code_points (slice cps s e)"
  by (auto simp: slice_def list_all_iff dest: in_set_takeD in_set_dropD)

lemma expectForward_at:
  assumes "code_points cps" "code_points ns" "k \<le> length cps"
  shows "expectForward \<lparr>input_text = text_of cps, input_iter = offset_of cps k\<rparr> (text_of ns) =
    (if startsWith (drop k cps) ns then Some \<lparr>input_text = text_of cps, input_iter = offset_of cps (k + length ns)\<rparr>
     else None)"
proof -
  have "code_points (drop k cps)" using assms(1) by (auto simp: list_all_iff dest: in_set_dropD)
  then have "startsWith (drop (offset_of cps k) (text_of cps)) (text_of ns) \<longleftrightarrow> startsWith (drop k cps) ns"
    using text_prefix [OF assms(2)] text_drop [OF assms(3)] by simp
  moreover have "offset_of cps (k + length ns) = offset_of cps k + length (text_of ns)" if "startsWith (drop k cps) ns"
    using that offset_add [of k "length ns" cps] assms(3) by (auto simp: startsWith_def)
  ultimately show ?thesis by (simp add: expectForward_def remainForward_def setIter_def)
qed

lemma expectBackward_at:
  assumes "code_points cps" "code_points ns" "k \<le> length cps"
  shows "expectBackward \<lparr>input_text = text_of cps, input_iter = offset_of cps k\<rparr> (text_of ns) =
    (if endsWith (take k cps) ns then Some \<lparr>input_text = text_of cps, input_iter = offset_of cps (k - length ns)\<rparr>
     else None)"
proof -
  have "code_points (take k cps)" using assms(1) by (auto simp: list_all_iff dest: in_set_takeD)
  then have "endsWith (take (offset_of cps k) (text_of cps)) (text_of ns) \<longleftrightarrow> endsWith (take k cps) ns"
    using text_suffix [OF assms(2)] text_take [OF assms(3)] by simp
  moreover have "offset_of cps (k - length ns) = offset_of cps k - length (text_of ns)" if e: "endsWith (take k cps) ns"
  proof -
    have l: "length ns \<le> k" "ns = drop (k - length ns) (take k cps)"
      using e assms(3) by (simp_all add: endsWith_def)
    then have "take (length ns) (drop (k - length ns) cps) = ns"
      by (metis add_diff_cancel_right' diff_diff_cancel drop_take)
    then show ?thesis using offset_add [of "k - length ns" "length ns" cps] l(1) assms(3) by simp
  qed
  ultimately show ?thesis by (simp add: expectBackward_def remainBackward_def setIter_def)
qed

lemma startsWith_Cons [simp]: "startsWith xs (y # ys) \<longleftrightarrow> (\<exists>zs. xs = y # zs \<and> startsWith zs ys)"
  by (cases xs) (auto simp: startsWith_def)

lemma ibackref_at:
  assumes "code_points cps" "i \<le> e" "e \<le> length cps" "k \<le> length cps" "e - i \<le> fuel"
  shows "ibackref_loop fuel env (offset_of cps i) (offset_of cps e)
      \<lparr>input_text = text_of cps, input_iter = offset_of cps k\<rparr> =
    (if startsWith (map (simpleFold env) (drop k cps)) (map (simpleFold env) (slice cps i e))
     then Some \<lparr>input_text = text_of cps, input_iter = offset_of cps (k + (e - i))\<rparr> else None)"
  using assms(2-5)
proof (induction "e - i" arbitrary: i k fuel)
  case 0
  then show ?case by (cases fuel) (simp_all add: slice_def)
next
  case (Suc n)
  then obtain fuel' where f: "fuel = Suc fuel'" by (cases fuel) auto
  have ne: "offset_of cps i \<noteq> offset_of cps e" using offset_eq [OF assms(1), of i e] Suc by auto
  have il: "i < length cps" using Suc by simp
  have sl: "slice cps i e = cps ! i # slice cps (Suc i) e"
  proof -
    have "e - i = Suc (e - Suc i)" using Suc(2) by simp
    then show ?thesis unfolding slice_def by (simp only: Cons_nth_drop_Suc [OF il, symmetric] take_Suc_Cons)
  qed
  show ?case
  proof (cases "k < length cps")
    case True
    then have av: "offset_of cps k \<noteq> length (text_of cps)" using offset_eq [OF assms(1), of k "length cps"] by simp
    have dr: "drop k cps = cps ! k # drop (Suc k) cps" using True by (simp add: Cons_nth_drop_Suc)
    have ih: "ibackref_loop fuel' env (offset_of cps (Suc i)) (offset_of cps e)
        \<lparr>input_text = text_of cps, input_iter = offset_of cps (Suc k)\<rparr> =
      (if startsWith (map (simpleFold env) (drop (Suc k) cps)) (map (simpleFold env) (slice cps (Suc i) e))
       then Some \<lparr>input_text = text_of cps, input_iter = offset_of cps (Suc k + (e - Suc i))\<rparr> else None)"
      using Suc True f by (intro Suc(1)) auto
    have eq: "Suc k + (e - Suc i) = k + (e - i)" using Suc by simp
    show ?thesis
      using ih [unfolded eq] next_at [OF assms(1) il] next_at [OF assms(1) True] av ne
      unfolding f sl dr by (simp add: input_available_def consumeForward_def setIter_def Let_def)
  next
    case False
    with Suc.prems(3) have "k = length cps" by simp
    with ne show ?thesis unfolding f sl by (simp add: input_available_def)
  qed
qed

lemma endsWith_snoc [simp]: "endsWith xs (ys @ [y]) \<longleftrightarrow> (\<exists>zs. xs = zs @ [y] \<and> endsWith zs ys)"
  by (auto simp: endsWith_iff)

lemma lbbackref_at:
  assumes "code_points cps" "s \<le> i" "i \<le> length cps" "k \<le> length cps" "i - s \<le> fuel"
  shows "lbbackref_loop fuel env (offset_of cps i) (offset_of cps s)
      \<lparr>input_text = text_of cps, input_iter = offset_of cps k\<rparr> =
    (if endsWith (map (simpleFold env) (take k cps)) (map (simpleFold env) (slice cps s i))
     then Some \<lparr>input_text = text_of cps, input_iter = offset_of cps (k - (i - s))\<rparr> else None)"
  using assms(2-5)
proof (induction "i - s" arbitrary: i k fuel)
  case 0
  then show ?case by (cases fuel) (simp_all add: slice_def endsWith_def)
next
  case (Suc n)
  then obtain fuel' where f: "fuel = Suc fuel'" by (cases fuel) auto
  obtain j where j: "i = Suc j" using Suc by (cases i) auto
  have ne: "offset_of cps i \<noteq> offset_of cps s" using offset_eq [OF assms(1), of i s] Suc by auto
  have jl: "j < length cps" using Suc j by simp
  have sl: "slice cps s i = slice cps s j @ [cps ! j]"
    using Suc(2,4) j by (simp add: slice_def Suc_diff_le take_Suc_conv_app_nth)
  show ?case
  proof (cases k)
    case (Suc k')
    then have kl: "k' < length cps" using Suc.prems(3) by simp
    have av: "offset_of cps k \<noteq> 0" using offset_eq [OF assms(1), of k 0] Suc kl by simp
    have tk: "take k cps = take k' cps @ [cps ! k']" using Suc kl by (simp add: take_Suc_conv_app_nth)
    have ih: "lbbackref_loop fuel' env (offset_of cps j) (offset_of cps s)
        \<lparr>input_text = text_of cps, input_iter = offset_of cps k'\<rparr> =
      (if endsWith (map (simpleFold env) (take k' cps)) (map (simpleFold env) (slice cps s j))
       then Some \<lparr>input_text = text_of cps, input_iter = offset_of cps (k' - (j - s))\<rparr> else None)"
      using Suc.prems Suc.hyps(2) kl f j by (intro Suc.hyps(1)) auto
    have eq: "k' - (j - s) = k - (i - s)" using Suc j Suc.hyps(2) by simp
    show ?thesis
      using ih [unfolded eq] prev_at [OF assms(1) jl] prev_at [OF assms(1) kl] av ne
      unfolding f sl tk by (simp add: availableBackward_def consumeBackward_def setIter_def Let_def j Suc)
  next
    case 0
    with ne show ?thesis unfolding f sl by (simp add: availableBackward_def)
  qed
qed

text \<open>A reference in the machine.\<close>

lemma deliver_backref:
  fixes fwd name index ic
  defines "i \<equiv> backref_inst fwd name index ic"
  assumes ok: "job_ok J" "k \<le> length (jcps J)" "caps_wf (jcps J) (f_caps F)"
    and m: "at_pc J (f_old F) pc k vc (f_ls F) (f_es F) m" "fetch (regex_instSeq (jregex J)) pc = Some i"
    and c: "capsrel J (f_open F) (f_caps F) vc" and pc: "f_pc F = pc + inst_size i"
    and sup: "index < 2 ^ 16" "ref_entry (regex_named (jregex J)) name index = Some e"
    and g: "\<forall>g\<in>set (entry_groups e). 0 < g \<and> g \<le> regex_captureGroupCount (jregex J) \<and> f_open F g = None"
  shows "delivers J F (backref_sem (jcps J) fwd (if ic then simpleFold (jenv J) else id) (entry_groups e) (k, f_caps F))
    (Running m)"
proof -
  let ?cps = "jcps J" and ?f = "if ic then simpleFold (jenv J) else id"
  let ?vm = "\<lambda>cap. vmst J pc (offset_of ?cps k) vc (f_ls F) (f_es F) cap"
  note cp = job_okD(1) [OF ok(1)]
  have idx: "unat (of_nat index :: u16) = index" using sup(1) by (simp add: unat_of_nat)
  have res: "resolveBackRef (regex_named (jregex J)) vc index (isNamed name) =
      Some (enc_cap J (resolve_caps (entry_groups e) (f_caps F)))"
    using resolve_entry [OF ok(1,3) c g] sup(2) g c
    by (auto simp: resolveBackRef_def ref_entry_def capsrel_def split: if_splits)
  let ?r = "case resolve_caps (entry_groups e) (f_caps F) of
       None \<Rightarrow> Some k
     | Some (s, e) \<Rightarrow>
         (let ref = map ?f (slice ?cps s e) in
          if fwd then (if startsWith (map ?f (drop k ?cps)) ref then Some (k + length ref) else None)
          else (if endsWith (map ?f (take k ?cps)) ref then Some (k - length ref) else None))"
  define cmp where "cmp = (\<lambda>cp. if fwd then (if ic then ibackref_loop (unat (cap_size cp)) (jenv J) (unat (cap_offset cp))
              (unat (cap_offset cp) + unat (cap_size cp)) \<lparr>input_text = text_of ?cps, input_iter = offset_of ?cps k\<rparr>
            else expectForward \<lparr>input_text = text_of ?cps, input_iter = offset_of ?cps k\<rparr>
              (captured_text \<lparr>input_text = text_of ?cps, input_iter = offset_of ?cps k\<rparr> cp))
      else (if ic then lbbackref_loop (unat (cap_size cp)) (jenv J) (unat (cap_offset cp) + unat (cap_size cp))
                     (unat (cap_offset cp)) \<lparr>input_text = text_of ?cps, input_iter = offset_of ?cps k\<rparr>
            else expectBackward \<lparr>input_text = text_of ?cps, input_iter = offset_of ?cps k\<rparr>
              (captured_text \<lparr>input_text = text_of ?cps, input_iter = offset_of ?cps k\<rparr> cp)))"
  have x: "exec_inst (jenv J) (jregex J) i (?vm cap) = backref_then cmp (jregex J) index (isNamed name) i (?vm cap)" for cap
    unfolding i_def by (cases fwd; cases ic) (simp_all add: exec_inst_def step_backref_def backref_inst_def idx cmp_def Let_def)
  have cmp: "cmp (enc_cap J (Some (s, e'))) =
      (let ref = map ?f (slice ?cps s e') in
       if fwd then (if startsWith (map ?f (drop k ?cps)) ref
          then Some \<lparr>input_text = text_of ?cps, input_iter = offset_of ?cps (k + length ref)\<rparr> else None)
       else (if endsWith (map ?f (take k ?cps)) ref
          then Some \<lparr>input_text = text_of ?cps, input_iter = offset_of ?cps (k - length ref)\<rparr> else None))"
    if "s \<le> e'" "e' \<le> length ?cps" for s e'
  proof -
    note u = enc_cap_unat [OF ok(1) that]
    have le: "offset_of ?cps s \<le> offset_of ?cps e'" using offset_le [OF cp that] .
    have fu: "e' - s \<le> offset_of ?cps e' - offset_of ?cps s"
      using offset_count [OF cp that] .
    have ln: "length (slice ?cps s e') = e' - s" using that by (simp add: slice_def)
    have sum: "offset_of ?cps s + (offset_of ?cps e' - offset_of ?cps s) = offset_of ?cps e'" using le by simp
    have tx: "captured_text inp (enc_cap J (Some (s, e'))) = text_of (slice ?cps s e')"
      if "input_text inp = text_of ?cps" for inp
      using text_slice [OF \<open>s \<le> e'\<close> \<open>e' \<le> length ?cps\<close>] that unfolding captured_text_def u sum by simp
    show ?thesis
      using ibackref_at [OF cp that ok(2) fu, of "jenv J"] lbbackref_at [OF cp that ok(2) fu, of "jenv J"]
        expectForward_at [OF cp code_points_slice [OF cp] ok(2), of s e']
        expectBackward_at [OF cp code_points_slice [OF cp] ok(2), of s e'] tx ln
      unfolding cmp_def u sum by (simp add: Let_def)
  qed
  have "delivers J F (case ?r of Some k' \<Rightarrow> [(k', f_caps F)] | None \<Rightarrow> []) (Running m)"
  proof (rule deliver_leaf [OF m c pc])
    fix cap
    show "case ?r of
        Some k' \<Rightarrow> exec_inst (jenv J) (jregex J) i (?vm cap) =
          VNext (vmst J (pc + inst_size i) (offset_of ?cps k') vc (f_ls F) (f_es F) cap)
      | None \<Rightarrow> \<exists>it. exec_inst (jenv J) (jregex J) i (?vm cap) = VBack (vmst J pc it vc (f_ls F) (f_es F) cap)"
    proof (cases "resolve_caps (entry_groups e) (f_caps F)")
      case None
      with res show ?thesis unfolding x
        by (simp add: backref_then_def isUnset_def unset_capture_def advance_def goto_addr_def)
    next
      case (Some se)
      obtain s e' where se: "se = (s, e')" by (cases se)
      have w: "s \<le> e'" "e' \<le> length ?cps" using resolve_caps_wf [OF ok(3)] Some se by auto
      show ?thesis using res enc_cap_unat(3) [OF ok(1) w] cmp [OF w] unfolding x Some se
        by (simp add: backref_then_def advance_def goto_addr_def Let_def)
    qed
  qed
  moreover have "(case ?r of Some k' \<Rightarrow> [(k', f_caps F)] | None \<Rightarrow> []) =
      backref_sem ?cps fwd ?f (entry_groups e) (k, f_caps F)"
    by (simp add: backref_sem_def Let_def split: option.split prod.split)
  ultimately show ?thesis by simp
qed

end
