(* ===== verification/Regex_Correct.thy ===== *)
theory Regex_Correct
  imports Regex_Steps
begin

text \<open>
  The code of a pattern implements its meaning (\<open>implements\<close>): started at its address it delivers, in
  order, exactly the states the meaning lists, to whatever code follows it. This theory proves it for
  leaves, character sets, sequences, alternatives, groups and look-arounds.
\<close>

section \<open>The contract of a piece of code\<close>

text \<open>\<open>ready\<close>: what the code of \<open>n\<close> finds when it is entered. Its groups are unset and closed, the groups
  it refers to are closed, its loops may be used, and those in look-arounds need not be restored.\<close>

definition ready :: "job \<Rightarrow> frame \<Rightarrow> node \<Rightarrow> bool" where
  "ready J F n \<longleftrightarrow> (\<forall>g\<in>set (node_groups n). f_caps F g = None \<and> f_open F g = None) \<and>
     (\<forall>g\<in>set (node_refs (regex_named (jregex J)) n). f_open F g = None) \<and>
     set (main_loops n) \<subseteq> f_own F \<and> set (look_loops n) \<subseteq> f_free F \<and> set (main_loops n) \<inter> f_free F = {} \<and>
     length (f_ls F) = unat (regex_loopCount (jregex J)) \<and> caps_wf (jcps J) (f_caps F)"

definition entered :: "job \<Rightarrow> frame \<Rightarrow> nat \<Rightarrow> nat \<Rightarrow> Machine \<Rightarrow> bool" where
  "entered J F pc k m \<longleftrightarrow> k \<le> length (jcps J) \<and>
     (\<exists>vc. at_pc J (f_old F) pc k vc (f_ls F) (f_es F) m \<and> capsrel J (f_open F) (f_caps F) vc)"

abbreviation jsem :: "job \<Rightarrow> bool \<Rightarrow> node \<Rightarrow> mstate \<Rightarrow> mstate list" where
  "jsem J fwd n st \<equiv> sem (jenv J) (regex_named (jregex J)) (jcps J) fwd n st"

abbreviation jsupported :: "job \<Rightarrow> node \<Rightarrow> bool" where
  "jsupported J n \<equiv> supported (regex_named (jregex J)) (regex_captureGroupCount (jregex J))
     (unat (regex_loopCount (jregex J))) n"

definition implements :: "job \<Rightarrow> bool \<Rightarrow> node \<Rightarrow> nat \<Rightarrow> nat \<Rightarrow> bool" where
  "implements J fwd n pc pc' \<longleftrightarrow>
     (\<forall>F k m. f_pc F = pc' \<longrightarrow> entered J F pc k m \<longrightarrow> ready J F n \<longrightarrow>
        delivers J F (jsem J fwd n (k, f_caps F)) (Running m))"

lemma implementsI:
  assumes "\<And>F k m vc. f_pc F = pc' \<Longrightarrow> k \<le> length (jcps J) \<Longrightarrow> at_pc J (f_old F) pc k vc (f_ls F) (f_es F) m \<Longrightarrow>
    capsrel J (f_open F) (f_caps F) vc \<Longrightarrow> ready J F n \<Longrightarrow> delivers J F (jsem J fwd n (k, f_caps F)) (Running m)"
  shows "implements J fwd n pc pc'"
  using assms unfolding implements_def entered_def by blast

lemma implementsD:
  assumes "implements J fwd n pc pc'" "f_pc F = pc'" "entered J F pc k m" "ready J F n"
  shows "delivers J F (jsem J fwd n (k, f_caps F)) (Running m)"
  using assms unfolding implements_def by blast

lemma u32_addr: "job_ok J \<Longrightarrow> a \<le> length (regex_instSeq (jregex J)) \<Longrightarrow> unat (of_nat a :: u32) = a"
  by (simp add: job_ok_def unat_of_nat)

section \<open>Leaves\<close>


lemma implements_leaf:
  assumes ok: "job_ok J" and i: "leaf_inst fwd n = Some i" and sup: "jsupported J n" and code: "code_at J pc [i]"
  shows "implements J fwd n pc (pc + inst_size i)"
proof (rule implementsI)
  fix F :: frame and k m vc assume F: "f_pc F = pc + inst_size i" and k: "k \<le> length (jcps J)"
    and m: "at_pc J (f_old F) pc k vc (f_ls F) (f_es F) m" and c: "capsrel J (f_open F) (f_caps F) vc" and r: "ready J F n"
  note f = code_at_Cons(1) [OF code]
  have con: "delivers J F (one_sem (jcps J) fwd t (k, f_caps F)) (Running m)"
    if "\<And>vm. exec_inst (jenv J) (jregex J) i vm = (if fwd then consume_if t i vm else consume_back_if t i vm)" for t
    by (rule deliver_consume [OF ok k m f c F that])
  show "delivers J F (jsem J fwd n (k, f_caps F)) (Running m)"
  proof (cases n)
    case (AnyNode md)
    then show ?thesis using i unfolding AnyNode sem.simps
      by (intro con) (auto simp: exec_inst_def step_any_def any_inst_def Let_def split: if_splits)
  next
    case (CharNode ch)
    then show ?thesis using i sup unfolding CharNode sem.simps
      by (intro con) (auto simp: exec_inst_def step_char_def char_inst_def sint_code_point split: if_splits)
  next
    case (FoldCharNode ch)
    then show ?thesis using i sup unfolding FoldCharNode sem.simps
      by (intro con) (auto simp: exec_inst_def step_char_def foldchar_inst_def sint_code_point split: if_splits)
  next
    case (BoundaryNode ty md)
    with i have "i = boundary_inst ty md" by simp
    with deliver_boundary [OF ok k m _ c, of ty md] f F show ?thesis unfolding BoundaryNode by simp
  next
    case (BackRefNode name index ic)
    with i have ii: "i = backref_inst fwd name index ic" by simp
    from sup BackRefNode obtain e where e: "ref_entry (regex_named (jregex J)) name index = Some e" "index < 2 ^ 16" by auto
    then have gs: "ref_groups (regex_named (jregex J)) name index = entry_groups e" by (simp add: ref_groups_def)
    have "\<forall>g\<in>set (entry_groups e). 0 < g \<and> g \<le> regex_captureGroupCount (jregex J) \<and> f_open F g = None"
      using sup r gs unfolding BackRefNode by (auto simp: ready_def list_all_iff)
    from deliver_backref [OF ok k _ m _ c _ e(2,1) this, of fwd ic] r f F show ?thesis
      unfolding BackRefNode ii by (simp add: gs ready_def)
  qed (use i sup in \<open>auto split: if_splits\<close>)
qed

lemma implements_set:
  assumes ok: "job_ok J" and sup: "jsupported J (CharSetNode iv ic owned s)" and mi: "mi \<le> 0xFFFF"
    and code: "code_at J pc [charset_inst fwd iv ic (of_nat mi)]" and ms: "matchers_at J mi [charset_matcher owned s]"
  shows "implements J fwd (CharSetNode iv ic owned s) pc (pc + inst_size (charset_inst fwd iv ic (of_nat mi)))"
proof (rule implementsI)
  fix F :: frame and k m vc assume F: "f_pc F = pc + inst_size (charset_inst fwd iv ic (of_nat mi))" and k: "k \<le> length (jcps J)"
    and m: "at_pc J (f_old F) pc k vc (f_ls F) (f_es F) m" and c: "capsrel J (f_open F) (f_caps F) vc"
  have mi': "unat (of_nat mi :: u16) = mi" using mi by (simp add: unat_of_nat)
  note mt = matchers_at_Cons(1,2) [OF ms]
  have w: "matcher_contains (charset_matcher owned s) x = set_contains s x" for x
    using charset_contains_aux sup by simp
  show "delivers J F (jsem J fwd (CharSetNode iv ic owned s) (k, f_caps F)) (Running m)"
    unfolding sem.simps
    by (rule deliver_consume [OF ok k m code_at_Cons(1) [OF code] c F])
      (simp add: exec_inst_def step_charset_def charset_inst_def mi' mt w)
qed

section \<open>Sequences\<close>

text \<open>\<open>ready\<close> for the parts of a node, and after a part has succeeded.\<close>

definition seq_ready :: "job \<Rightarrow> frame \<Rightarrow> node list \<Rightarrow> bool" where
  "seq_ready J F ps \<longleftrightarrow> ready J F (SeqNode ps) \<and> distinct (concat (map node_groups ps)) \<and>
     list_all (jsupported J) ps"

lemma ready_part:
  "ready J F (SeqNode ps) \<Longrightarrow> p \<in> set ps \<Longrightarrow> ready J (F\<lparr>f_pc := pc, f_own := set (main_loops p)\<rparr>) p"
  by (auto simp: ready_def)

lemma arrived_ready:
  assumes "arrived J F1 r ls new m" "ready J F1 n" "f_own F' = set (main_loops n')" "f_caps F' = snd r"
    "f_ls F' = ls" "f_open F' = f_open F1" "f_free F' = f_free F1" "caps_wf (jcps J) (snd r)"
    "\<forall>g\<in>set (node_groups n'). snd r g = None \<and> f_open F1 g = None"
    "\<forall>g\<in>set (node_refs (regex_named (jregex J)) n'). f_open F1 g = None"
    "set (look_loops n') \<subseteq> f_free F1" "set (main_loops n') \<inter> f_free F1 = {}"
  shows "ready J F' n'"
  using assms by (simp add: ready_def arrived_def loopsrel_def)

lemma concat_bind: "concat (map (\<lambda>x. concat (map h (g x))) xs) = concat (map h (concat (map g xs)))"
  by (induction xs) simp_all

lemma seq_sem_append: "seq_sem (fs @ gs) st = concat (map (seq_sem gs) (seq_sem fs st))"
proof (induction fs arbitrary: st)
  case (Cons f fs)
  have "seq_sem (fs @ gs) = (\<lambda>st. concat (map (seq_sem gs) (seq_sem fs st)))" by (rule ext) (rule Cons.IH)
  then show ?case by (simp add: concat_bind)
qed simp

text \<open>One part, then the rest.\<close>

lemma deliver_seq:
  assumes ok: "jsupported J p" and imp: "implements J fwd p pc pc1"
    and en: "entered J F pc k m" and rd: "ready J F (SeqNode (p # rest))" "distinct (concat (map node_groups (p # rest)))"
    and nxt: "\<And>F' k' m'. f_pc F' = f_pc F \<Longrightarrow> entered J F' pc1 k' m' \<Longrightarrow> ready J F' (SeqNode rest) \<Longrightarrow>
      delivers J F' (f (k', f_caps F')) (Running m')"
  shows "delivers J F (concat (map f (jsem J fwd p (k, f_caps F)))) (Running m)"
proof -
  let ?F1 = "F\<lparr>f_pc := pc1, f_own := set (main_loops p)\<rparr>"
  let ?L2 = "set (main_loops (SeqNode rest))"
  have k: "k \<le> length (jcps J)" using en by (simp add: entered_def)
  have wf: "caps_wf (jcps J) (f_caps F)" using rd by (simp add: ready_def)
  have r1: "ready J ?F1 p" using ready_part [OF rd(1)] by simp
  have "entered J ?F1 pc k m" using en by (simp add: entered_def)
  from implementsD [OF imp _ this r1] have d: "delivers J ?F1 (jsem J fwd p (k, f_caps F)) (Running m)" by simp
  show ?thesis
  proof (rule deliver_bind [OF d refl, where ?L2.0 = ?L2])
    show "set (main_loops p) \<subseteq> f_own F \<union> f_free F" "?L2 \<subseteq> f_own F \<union> f_free F"
      using rd by (auto simp: ready_def)
    fix r ls new m' assume r: "r \<in> set (jsem J fwd p (k, f_caps F))" and a: "arrived J ?F1 r ls new m'"
    let ?F2 = "F\<lparr>f_es := new @ f_es F, f_caps := snd r, f_ls := ls, f_own := ?L2\<rparr>"
    have "(fst r, snd r) \<in> set (jsem J fwd p (k, f_caps F))" using r by simp
    note s = step_okD [OF sem_ok k this]
    have un: "\<forall>g\<in>set (node_groups (SeqNode rest)). snd r g = None \<and> f_open ?F1 g = None"
    proof
      fix g assume g: "g \<in> set (node_groups (SeqNode rest))"
      then have "g \<notin> set (node_groups p)" using rd(2) by auto
      with s(3) g rd(1) show "snd r g = None \<and> f_open ?F1 g = None" by (simp add: ready_def)
    qed
    have "ready J ?F2 (SeqNode rest)"
      by (rule arrived_ready [OF a r1]) (use un s(4) [OF wf] rd in \<open>auto simp: ready_def\<close>)
    moreover have "entered J ?F2 pc1 (fst r) m'" using a s(1) by (auto simp: entered_def arrived_def)
    ultimately show "delivers J ?F2 (f r) (Running m')" using nxt [of ?F2 "fst r" m'] by simp
  qed
qed

text \<open>A run of characters is a string.\<close>

lemma chars_sem_fwd:
  "seq_sem (map (sem env nm cps True) (map CharNode cs)) (k, c) =
     (if k \<le> length cps \<and> startsWith (drop k cps) cs \<or> cs = [] then [(k + length cs, c)] else [])"
proof (induction cs arbitrary: k)
  case (Cons x cs)
  show ?case
  proof (cases "k < length cps")
    case True
    then have "drop k cps = cps ! k # drop (Suc k) cps" by (simp add: Cons_nth_drop_Suc)
    with True Cons.IH [of "Suc k"] show ?thesis by (auto simp: one_sem_def)
  next
    case False
    then show ?thesis by (auto simp: one_sem_def)
  qed
qed simp

lemma chars_sem_bwd:
  "k \<le> length cps \<Longrightarrow> seq_sem (map (sem env nm cps False) (map CharNode cs)) (k, c) =
     (if endsWith (take k cps) (rev cs) then [(k - length cs, c)] else [])"
proof (induction cs arbitrary: k)
  case Nil
  then show ?case by (simp add: endsWith_def)
next
  case (Cons x cs)
  show ?case
  proof (cases k)
    case 0
    then show ?thesis by (auto simp: one_sem_def)
  next
    case (Suc j)
    then have "take k cps = take j cps @ [cps ! j]" using Cons.prems by (simp add: take_Suc_conv_app_nth)
    with Suc Cons.IH [of j] Cons.prems show ?thesis by (auto simp: one_sem_def)
  qed
qed

lemma mkString_matcher:
  assumes "mi \<le> 0xFFFF" "matchers_at J mi (mkStringMatcher s # ms)" "length s < 2 ^ 32"
  shows "unat (of_nat mi :: u16) < length (regex_matchers (jregex J))"
    "asStrRef (regex_matchers (jregex J) ! unat (of_nat mi :: u16)) = s"
proof -
  have "unat (of_nat mi :: u16) = mi" using assms(1) by (simp add: unat_of_nat)
  then show "unat (of_nat mi :: u16) < length (regex_matchers (jregex J))"
    "asStrRef (regex_matchers (jregex J) ! unat (of_nat mi :: u16)) = s"
    using matchers_at_Cons(1,2) [OF assms(2)] mkStringMatcher_str [OF assms(3)] by simp_all
qed

lemma deliver_string:
  assumes ok: "job_ok J" and cs: "list_all isCodePoint cs" "mi \<le> 0xFFFF"
    and ms: "matchers_at J mi (mkStringMatcher (text_of (if fwd then cs else rev cs)) # ms)"
    and f: "fetch (regex_instSeq (jregex J)) pc = Some (string_inst fwd (of_nat mi))"
    and m: "k \<le> length (jcps J)" "at_pc J (f_old F) pc k vc (f_ls F) (f_es F) m" "capsrel J (f_open F) (f_caps F) vc"
    and pc: "f_pc F = pc + inst_size (string_inst fwd (of_nat mi))"
    and small: "length (text_of (if fwd then cs else rev cs)) < 2 ^ 32"
  shows "delivers J F (seq_sem (map (jsem J fwd) (map CharNode cs)) (k, f_caps F)) (Running m)"
proof -
  let ?cps = "jcps J" and ?i = "string_inst fwd (of_nat mi)"
  note mt = mkString_matcher [OF cs(2) ms small]
  have cp: "code_points ?cps" "code_points cs" "code_points (rev cs)"
    using job_okD(1) [OF ok] cs(1) by (simp_all add: list_all_iff)
  let ?r = "if fwd then (if startsWith (drop k ?cps) cs then Some (k + length cs) else None)
    else (if endsWith (take k ?cps) (rev cs) then Some (k - length cs) else None)"
  have "delivers J F (case ?r of Some k' \<Rightarrow> [(k', f_caps F)] | None \<Rightarrow> []) (Running m)"
  proof (rule deliver_leaf [OF m(2) f m(3) pc])
    fix cap
    show "case ?r of
        Some k' \<Rightarrow> exec_inst (jenv J) (jregex J) ?i (vmst J pc (offset_of ?cps k) vc (f_ls F) (f_es F) cap) =
          VNext (vmst J (pc + inst_size ?i) (offset_of ?cps k') vc (f_ls F) (f_es F) cap)
      | None \<Rightarrow> \<exists>it. exec_inst (jenv J) (jregex J) ?i (vmst J pc (offset_of ?cps k) vc (f_ls F) (f_es F) cap) =
          VBack (vmst J pc it vc (f_ls F) (f_es F) cap)"
      using expectForward_at [OF cp(1,2) m(1)] expectBackward_at [OF cp(1,3) m(1)] mt
      by (cases fwd) (simp_all add: exec_inst_def step_string_def string_inst_def advance_def goto_addr_def)
  qed
  moreover have "seq_sem (map (jsem J fwd) (map CharNode cs)) (k, f_caps F) =
      (case ?r of Some k' \<Rightarrow> [(k', f_caps F)] | None \<Rightarrow> [])"
  proof (cases fwd)
    case True
    then show ?thesis using chars_sem_fwd [of _ _ ?cps cs k] m(1) by (auto simp: startsWith_def)
  next
    case False
    then show ?thesis using chars_sem_bwd [OF m(1)] by simp
  qed
  ultimately show ?thesis by simp
qed

lemma text_of_length: "list_all isCodePoint cs \<Longrightarrow> length (text_of cs) \<le> 4 * length cs"
proof (induction cs)
  case (Cons c cs)
  then have "length (codePointToUtf8 c) \<le> 4" using encode_validate(2) [of c True] by auto
  with Cons show ?case by simp
qed simp

text \<open>What the rule induction over the layout shows for the three kinds of judgement.\<close>

definition seq_implements :: "job \<Rightarrow> bool \<Rightarrow> node list \<Rightarrow> nat \<Rightarrow> nat \<Rightarrow> bool" where
  "seq_implements J fwd ps pc pc' \<longleftrightarrow>
     (\<forall>F k m. f_pc F = pc' \<longrightarrow> entered J F pc k m \<longrightarrow> ready J F (SeqNode ps) \<longrightarrow>
        distinct (concat (map node_groups ps)) \<longrightarrow>
        delivers J F (seq_sem (map (jsem J fwd) ps) (k, f_caps F)) (Running m))"

definition alts_implements :: "job \<Rightarrow> bool \<Rightarrow> node list \<Rightarrow> nat \<Rightarrow> nat \<Rightarrow> bool" where
  "alts_implements J fwd ps pc pc' \<longleftrightarrow>
     (\<forall>F k m. f_pc F = pc' \<longrightarrow> entered J F pc k m \<longrightarrow> ready J F (AltNode ps) \<longrightarrow>
        delivers J F (concat (map (\<lambda>p. jsem J fwd p (k, f_caps F)) ps)) (Running m))"

lemma seq_implementsD:
  assumes "seq_implements J fwd ps pc pc'" "f_pc F = pc'" "entered J F pc k m" "ready J F (SeqNode ps)"
    "distinct (concat (map node_groups ps))"
  shows "delivers J F (seq_sem (map (jsem J fwd) ps) (k, f_caps F)) (Running m)"
  using assms unfolding seq_implements_def by blast

lemma alts_implementsD:
  assumes "alts_implements J fwd ps pc pc'" "f_pc F = pc'" "entered J F pc k m" "ready J F (AltNode ps)"
  shows "delivers J F (concat (map (\<lambda>p. jsem J fwd p (k, f_caps F)) ps)) (Running m)"
  using assms unfolding alts_implements_def by blast

lemma seq_nil: "seq_implements J fwd [] pc pc"
  unfolding seq_implements_def entered_def
  by (auto intro: deliver_here)

lemma seq_one:
  assumes "jsupported J p" "implements J fwd p pc pc1" "seq_implements J fwd rest pc1 pc2"
  shows "seq_implements J fwd (p # rest) pc pc2"
  unfolding seq_implements_def
proof (intro allI impI)
  fix F :: frame and k m assume F: "f_pc F = pc2" "entered J F pc k m" "ready J F (SeqNode (p # rest))"
    "distinct (concat (map node_groups (p # rest)))"
  have "delivers J F (concat (map (seq_sem (map (jsem J fwd) rest)) (jsem J fwd p (k, f_caps F)))) (Running m)"
  proof (rule deliver_seq [OF assms(1,2) F(2-4)])
    fix F' k' m' assume "f_pc F' = f_pc F" "entered J F' pc1 k' m'" "ready J F' (SeqNode rest)"
    then show "delivers J F' (seq_sem (map (jsem J fwd) rest) (k', f_caps F')) (Running m')"
      using seq_implementsD [OF assms(3)] F(1,4) by simp
  qed
  then show "delivers J F (seq_sem (map (jsem J fwd) (p # rest)) (k, f_caps F)) (Running m)" by simp
qed

lemma seq_run:
  assumes ok: "job_ok J" and mi: "mi \<le> 0xFFFF" and cs: "list_all isCodePoint cs" "length cs < 2 ^ 30"
    and ms: "matchers_at J mi (mkStringMatcher (text_of (if fwd then cs else rev cs)) # ms)"
    and f: "fetch (regex_instSeq (jregex J)) pc = Some (string_inst fwd (of_nat mi))"
    and rest: "seq_implements J fwd rest (pc + 3) pc2"
  shows "seq_implements J fwd (map CharNode cs @ rest) pc pc2"
  unfolding seq_implements_def
proof (intro allI impI)
  fix F :: frame and k m assume F: "f_pc F = pc2" and en: "entered J F pc k m" and rd: "ready J F (SeqNode (map CharNode cs @ rest))"
    and ds: "distinct (concat (map node_groups (map CharNode cs @ rest)))"
  from en obtain vc where m: "k \<le> length (jcps J)" "at_pc J (f_old F) pc k vc (f_ls F) (f_es F) m"
      "capsrel J (f_open F) (f_caps F) vc" by (auto simp: entered_def)
  let ?F1 = "F\<lparr>f_pc := pc + 3, f_own := {}\<rparr>"
  have small: "length (text_of (if fwd then cs else rev cs)) < 2 ^ 32"
    using text_of_length [of cs] text_of_length [of "rev cs"] cs by (cases fwd) (simp_all add: list_all_iff)
  have d: "delivers J ?F1 (seq_sem (map (jsem J fwd) (map CharNode cs)) (k, f_caps F)) (Running m)"
    using deliver_string [OF ok cs(1) mi ms f m(1) _ _ _ small, of ?F1 vc m] m by simp
  have chars: "main_loops (SeqNode (map CharNode cs)) = []" "look_loops (SeqNode (map CharNode cs)) = []"
      "node_groups (SeqNode (map CharNode cs)) = []" "node_refs nm (SeqNode (map CharNode cs)) = []" for nm
    by (simp_all add: comp_def)
  have r1: "ready J ?F1 (SeqNode (map CharNode cs))" using rd unfolding ready_def chars by simp
  have wf: "caps_wf (jcps J) (f_caps F)" using rd by (simp add: ready_def)
  have "delivers J F (concat (map (seq_sem (map (jsem J fwd) rest)) (seq_sem (map (jsem J fwd) (map CharNode cs)) (k, f_caps F))))
      (Running m)"
  proof (rule deliver_bind [OF d refl, where ?L2.0 = "set (main_loops (SeqNode rest))"])
    show "set (main_loops (SeqNode rest)) \<subseteq> f_own F \<union> f_free F" using rd by (auto simp: ready_def)
    fix r ls new m' assume r: "r \<in> set (seq_sem (map (jsem J fwd) (map CharNode cs)) (k, f_caps F))"
      and a: "arrived J ?F1 r ls new m'"
    let ?F2 = "F\<lparr>f_es := new @ f_es F, f_caps := snd r, f_ls := ls, f_own := set (main_loops (SeqNode rest))\<rparr>"
    have "fst r \<le> length (jcps J) \<and> snd r = f_caps F"
      using r m(1) chars_sem_fwd [of "jenv J" "regex_named (jregex J)" "jcps J" cs k "f_caps F"]
        chars_sem_bwd [OF m(1), of "jenv J" "regex_named (jregex J)" cs "f_caps F"]
      by (cases fwd) (auto simp: startsWith_def split: if_splits)
    then have s: "fst r \<le> length (jcps J)" "snd r = f_caps F" by auto
    have "ready J ?F2 (SeqNode rest)"
      by (rule arrived_ready [OF a r1]) (use rd wf s in \<open>auto simp: ready_def\<close>)
    moreover have "entered J ?F2 (pc + 3) (fst r) m'" using a s by (auto simp: entered_def arrived_def)
    ultimately show "delivers J ?F2 (seq_sem (map (jsem J fwd) rest) r) (Running m')"
      using seq_implementsD [OF rest, of ?F2 "fst r" m'] F ds by simp
  qed simp
  then show "delivers J F (seq_sem (map (jsem J fwd) (map CharNode cs @ rest)) (k, f_caps F)) (Running m)"
    by (simp only: map_append seq_sem_append)
qed

section \<open>Alternatives\<close>

lemma ready_alt:
  "ready J F (AltNode ps) \<Longrightarrow> p \<in> set ps \<Longrightarrow> ready J (F\<lparr>f_pc := pc, f_es := es, f_own := set (main_loops p)\<rparr>) p"
  by (auto simp: ready_def)

text \<open>An \<open>Alt\<close> in front of a branch: the branch, and on exhaustion the code at \<open>a\<close>.\<close>

lemma deliver_alt:
  assumes ok: "job_ok J" and f: "fetch (regex_instSeq (jregex J)) pc = Some (AltIns (of_nat a))"
    and a: "a \<le> length (regex_instSeq (jregex J))"
    and en: "entered J F pc k m" and L: "L1 \<subseteq> f_own F \<union> f_free F"
    and first: "\<And>m'. entered J (F\<lparr>f_es := SetIns (of_nat a) (offset_of (jcps J) k) # f_es F, f_own := L1\<rparr>) (pc + 5) k m' \<Longrightarrow>
      delivers J (F\<lparr>f_es := SetIns (of_nat a) (offset_of (jcps J) k) # f_es F, f_own := L1\<rparr>) xs (Running m')"
    and second: "\<And>ls' m'. loopsrel (f_free F) (f_ls F) ls' \<Longrightarrow> entered J (F\<lparr>f_ls := ls'\<rparr>) a k m' \<Longrightarrow>
      delivers J (F\<lparr>f_ls := ls'\<rparr>) ys (Running m')"
  shows "delivers J F (xs @ ys) (Running m)"
proof -
  let ?bt = "SetIns (of_nat a) (offset_of (jcps J) k)"
  let ?F1 = "F\<lparr>f_es := ?bt # f_es F, f_own := L1\<rparr>"
  from en obtain vc where k: "k \<le> length (jcps J)" and m: "at_pc J (f_old F) pc k vc (f_ls F) (f_es F) m"
      and c: "capsrel J (f_open F) (f_caps F) vc" by (auto simp: entered_def)
  have "goes J (at_pc J (f_old F) (pc + 5) k vc (f_ls F) (?bt # f_es F)) (Running m)"
  proof (rule goes_next [OF m f])
    fix cap assume "cap_ok (f_es F) cap"
    from push_then_cases [OF this, where bt = ?bt and J = J and pc = pc and it = "offset_of (jcps J) k" and vc = vc
        and ls = "f_ls F" and K = "advance (AltIns (of_nat a))"]
    show "(\<exists>vm. exec_inst (jenv J) (jregex J) (AltIns (of_nat a)) (vmst J pc (offset_of (jcps J) k) vc (f_ls F) (f_es F) cap) = VLimit vm) \<or>
      (\<exists>cap'. cap_ok (?bt # f_es F) cap' \<and> exec_inst (jenv J) (jregex J) (AltIns (of_nat a)) (vmst J pc (offset_of (jcps J) k) vc (f_ls F) (f_es F) cap) =
         VNext (vmst J (pc + 5) (offset_of (jcps J) k) vc (f_ls F) (?bt # f_es F) cap'))"
      by (auto simp: exec_inst_def step_branch_def advance_def goto_addr_def)
  qed
  then have d: "delivers J ?F1 xs (Running m)"
    by (rule delivers_goes, intro first) (use k c in \<open>auto simp: entered_def\<close>)
  show ?thesis
  proof (rule deliver_over [OF d _ L])
    show "?F1 = F\<lparr>f_es := [?bt] @ f_es F, f_caps := f_caps F, f_ls := f_ls F, f_own := L1\<rparr>" by simp
    show "tidy J (f_open F) (f_caps F) (f_caps F) [?bt]" by (simp add: tidy_def)
    fix m' assume "back_with J F (f_caps F) (f_ls F) [?bt] m'"
    then obtain vc' ls' where b: "at_back J (f_old F) vc' ls' ([?bt] @ f_es F) m'" "capsrel J (f_open F) (f_caps F) vc'"
      "loopsrel (f_free F) (f_ls F) ls'" by (auto simp: back_with_def)
    have g: "goes J (at_pc J (f_old F) a k vc' ls' (f_es F)) (Running m')"
      by (rule goes_resume [OF b(1)])
        (auto simp: with_entries_def setIter_def cap_ok_def u32_addr [OF ok a])
    have "delivers J (F\<lparr>f_ls := ls'\<rparr>) ys (Running m')"
      by (rule delivers_goes [OF g], intro second [OF b(3)]) (use k b(2) in \<open>auto simp: entered_def\<close>)
    then show "delivers J F ys (Running m')" using b(3) by (rule deliver_loops)
  qed simp
qed

lemma ready_loops: "ready J F n \<Longrightarrow> loopsrel D (f_ls F) ls \<Longrightarrow> ready J (F\<lparr>f_ls := ls\<rparr>) n"
  by (auto simp: ready_def loopsrel_def)

lemma branch_first:
  assumes "implements J fwd p (pc + 5) pc1" "ready J F (AltNode ps)" "p \<in> set ps"
    and jump: "\<And>k vc ls es m. at_pc J (f_old F) pc1 k vc ls es m \<Longrightarrow> goes J (at_pc J (f_old F) (f_pc F) k vc ls es) (Running m)"
    and "entered J (F\<lparr>f_es := bt # f_es F, f_own := set (main_loops p)\<rparr>) (pc + 5) k m"
  shows "delivers J (F\<lparr>f_es := bt # f_es F, f_own := set (main_loops p)\<rparr>) (jsem J fwd p (k, f_caps F)) (Running m)"
proof (rule deliver_jump)
  let ?F = "F\<lparr>f_es := bt # f_es F, f_own := set (main_loops p)\<rparr>"
  have "entered J (?F\<lparr>f_pc := pc1\<rparr>) (pc + 5) k m" using assms(5) by (simp add: entered_def)
  moreover have "ready J (?F\<lparr>f_pc := pc1\<rparr>) p"
    using ready_alt [OF assms(2,3), where es = "bt # f_es F" and pc = pc1] by (simp add: ready_def)
  ultimately show "delivers J (?F\<lparr>f_pc := pc1\<rparr>) (jsem J fwd p (k, f_caps F)) (Running m)"
    using implementsD [OF assms(1), of "?F\<lparr>f_pc := pc1\<rparr>" k m] by simp
qed (use jump in simp)

lemma alts_last:
  assumes "implements J fwd p pc pc'"
  shows "alts_implements J fwd [p] pc pc'"
  using assms unfolding alts_implements_def implements_def by (simp add: ready_def)

lemma alts_more:
  assumes ok: "job_ok J" and first: "implements J fwd p (pc + 5) pc1" and rest: "alts_implements J fwd (q # rest) a e"
    and f: "fetch (regex_instSeq (jregex J)) pc = Some (AltIns (of_nat a))" "a \<le> length (regex_instSeq (jregex J))"
    and jump: "pc1 = e \<or> fetch (regex_instSeq (jregex J)) pc1 = Some (JumpIns (of_nat e)) \<and> e \<le> length (regex_instSeq (jregex J))"
  shows "alts_implements J fwd (p # q # rest) pc e"
  unfolding alts_implements_def
proof (intro allI impI)
  fix F :: frame and k m assume F: "f_pc F = e" "entered J F pc k m" and rd: "ready J F (AltNode (p # q # rest))"
  have "delivers J F (jsem J fwd p (k, f_caps F) @ concat (map (\<lambda>p. jsem J fwd p (k, f_caps F)) (q # rest))) (Running m)"
  proof (rule deliver_alt [OF ok f F(2), where ?L1.0 = "set (main_loops p)"])
    show "set (main_loops p) \<subseteq> f_own F \<union> f_free F" using rd by (auto simp: ready_def)
  next
    fix m' assume en: "entered J (F\<lparr>f_es := SetIns (of_nat a) (offset_of (jcps J) k) # f_es F, f_own := set (main_loops p)\<rparr>) (pc + 5) k m'"
    show "delivers J (F\<lparr>f_es := SetIns (of_nat a) (offset_of (jcps J) k) # f_es F, f_own := set (main_loops p)\<rparr>)
        (jsem J fwd p (k, f_caps F)) (Running m')"
    proof (rule branch_first [OF first rd _ _ en])
      fix k vc ls es m assume m: "at_pc J (f_old F) pc1 k vc ls es m"
      show "goes J (at_pc J (f_old F) (f_pc F) k vc ls es) (Running m)"
        using jump
      proof
        assume "pc1 = e"
        with m F show ?thesis by (simp add: goes_here)
      next
        assume j: "fetch (regex_instSeq (jregex J)) pc1 = Some (JumpIns (of_nat e)) \<and> e \<le> length (regex_instSeq (jregex J))"
        show ?thesis
          by (rule goes_next [OF m conjunct1 [OF j]])
            (auto simp: exec_inst_def step_branch_def goto_addr_def F u32_addr [OF ok conjunct2 [OF j]])
      qed
    qed simp
  next
    fix ls' m' assume l: "loopsrel (f_free F) (f_ls F) ls'" and en: "entered J (F\<lparr>f_ls := ls'\<rparr>) a k m'"
    have "ready J (F\<lparr>f_ls := ls'\<rparr>) (AltNode (q # rest))"
      using ready_loops [OF rd l] by (auto simp: ready_def)
    from alts_implementsD [OF rest _ en this] F(1)
    show "delivers J (F\<lparr>f_ls := ls'\<rparr>) (concat (map (\<lambda>p. jsem J fwd p (k, f_caps F)) (q # rest))) (Running m')" by simp
  qed
  then show "delivers J F (concat (map (\<lambda>p. jsem J fwd p (k, f_caps F)) (p # q # rest))) (Running m)" by simp
qed

text \<open>The optional form.\<close>

lemma implements_alt1:
  assumes ok: "job_ok J" and first: "implements J fwd p (pc + 5) a"
    and f: "fetch (regex_instSeq (jregex J)) pc = Some (AltIns (of_nat a))" "a \<le> length (regex_instSeq (jregex J))"
  shows "implements J fwd (AltNode [p]) pc a"
proof -
  have "delivers J F (jsem J fwd p (k, f_caps F) @ [(k, f_caps F)]) (Running m)"
    if F: "f_pc F = a" "entered J F pc k m" and rd: "ready J F (AltNode [p])" for F k m
  proof (rule deliver_alt [OF ok f F(2), where ?L1.0 = "set (main_loops p)"])
    show "set (main_loops p) \<subseteq> f_own F \<union> f_free F" using rd by (auto simp: ready_def)
  next
    fix m' assume en: "entered J (F\<lparr>f_es := SetIns (of_nat a) (offset_of (jcps J) k) # f_es F, f_own := set (main_loops p)\<rparr>) (pc + 5) k m'"
    show "delivers J (F\<lparr>f_es := SetIns (of_nat a) (offset_of (jcps J) k) # f_es F, f_own := set (main_loops p)\<rparr>)
        (jsem J fwd p (k, f_caps F)) (Running m')"
      by (rule branch_first [OF first rd _ _ en]) (simp_all add: F goes_here)
  next
    fix ls' m' assume "entered J (F\<lparr>f_ls := ls'\<rparr>) a k m'"
    then show "delivers J (F\<lparr>f_ls := ls'\<rparr>) [(k, f_caps F)] (Running m')"
      using deliver_here [of J "F\<lparr>f_ls := ls'\<rparr>"] F(1) by (auto simp: entered_def)
  qed
  then show ?thesis by (simp add: implements_def)
qed

section \<open>Groups\<close>

text \<open>While group \<open>g\<close> is open, its entry has the position where it was entered as its start, or as its end
  when the match runs backward.\<close>

definition open_at :: "job \<Rightarrow> bool \<Rightarrow> nat \<Rightarrow> Capture \<Rightarrow> bool" where
  "open_at J fwd k cp \<longleftrightarrow> (if fwd then cap_offset cp else endOffset cp) = of_nat (offset_of (jcps J) k)"

definition closed_caps :: "nat \<Rightarrow> nat \<Rightarrow> mstate \<Rightarrow> mstate" where
  "closed_caps g k = (\<lambda>(k', c). (k', c(g \<mapsto> (min k k', max k k'))))"

lemma enc_open:
  assumes "job_ok J" "k \<le> length (jcps J)" "k' \<le> length (jcps J)" "if fwd then k \<le> k' else k' \<le> k"
  shows "open_at J fwd k (enc_cap J (Some (min k k', max k k')))"
    "open_at J fwd k cp \<Longrightarrow> (if fwd then cp\<lparr>cap_size := of_nat (offset_of (jcps J) k') - cap_offset cp\<rparr>
       else \<lparr>cap_offset = of_nat (offset_of (jcps J) k'), cap_size = endOffset cp - of_nat (offset_of (jcps J) k')\<rparr>) =
       enc_cap J (Some (min k k', max k k'))"
proof -
  note cp = job_okD(1) [OF assms(1)]
  have le: "offset_of (jcps J) (min k k') \<le> offset_of (jcps J) (max k k')"
    using offset_le [OF cp] assms(2,3) by simp
  then have diff: "(of_nat (offset_of (jcps J) (max k k') - offset_of (jcps J) (min k k')) :: u32) =
      of_nat (offset_of (jcps J) (max k k')) - of_nat (offset_of (jcps J) (min k k'))" by (simp add: of_nat_diff)
  show "open_at J fwd k (enc_cap J (Some (min k k', max k k')))"
    using assms(4) diff by (cases fwd) (auto simp: open_at_def endOffset_def min_def max_def)
  show "(if fwd then cp\<lparr>cap_size := of_nat (offset_of (jcps J) k') - cap_offset cp\<rparr>
       else \<lparr>cap_offset = of_nat (offset_of (jcps J) k'), cap_size = endOffset cp - of_nat (offset_of (jcps J) k')\<rparr>) =
       enc_cap J (Some (min k k', max k k'))" if "open_at J fwd k cp"
    using assms(4) diff that by (cases fwd; cases cp) (auto simp: open_at_def min_def max_def)
qed

lemma capsrel_open:
  assumes "capsrel J opn c vc" "0 < g" "g < length vc" "opn g = None" "ok x"
  shows "capsrel J (opn(g \<mapsto> ok)) c (vc[g := x])"
  using assms by (auto simp: capsrel_def nth_list_update split: option.splits)

lemma capsrel_opened:
  assumes "capsrel J opn (c(g \<mapsto> se)) vc" "ok (enc_cap J (Some se))" "opn g = None"
  shows "capsrel J (opn(g \<mapsto> ok)) c vc"
  using assms by (auto simp: capsrel_def split: option.splits)

lemma capsrel_close:
  assumes "capsrel J (opn(g \<mapsto> ok)) c vc" "x = enc_cap J v" "opn g = None"
  shows "capsrel J opn (c(g := v)) (vc[g := x])"
  using assms by (auto simp: capsrel_def nth_list_update split: option.splits)

lemma deliver_group:
  assumes "delivers J F1 xs out"
    and F1: "F1 = F\<lparr>f_pc := pc1, f_es := SetCapture g unset_capture # f_es F, f_open := (f_open F)(g \<mapsto> open_at J fwd k)\<rparr>"
    and ok: "job_ok J" and k: "k \<le> length (jcps J)"
    and g: "0 < g" "g \<le> regex_captureGroupCount (jregex J)" "g < 2 ^ 16" "f_open F g = None" "f_caps F g = None"
    and f: "fetch (regex_instSeq (jregex J)) pc1 = Some (endcapture_inst fwd (of_nat g))" and pc: "f_pc F = pc1 + 3"
    and xs: "\<And>k' c'. (k', c') \<in> set xs \<Longrightarrow> k' \<le> length (jcps J) \<and> (if fwd then k \<le> k' else k' \<le> k)"
  shows "delivers J F (map (closed_caps g k) xs) out"
  using assms(1) xs
proof (induction xs arbitrary: out)
  case Nil
  have pop: "back_with J F (f_caps F) (f_ls F) [] m" if b: "back_with J F1 (f_caps F) (f_ls F) [] m" for m
  proof -
    from b obtain vc ls where m: "at_back J (f_old F) vc ls ([SetCapture g unset_capture] @ f_es F) m"
      "capsrel J ((f_open F)(g \<mapsto> open_at J fwd k)) (f_caps F) vc" "loopsrel (f_free F) (f_ls F) ls"
      by (auto simp: back_with_def F1)
    have "g < length vc" using m(2) g(2) by (simp add: capsrel_def)
    then have "at_back J (f_old F) (vc[g := unset_capture]) ls (f_es F) m" using at_back_pop [OF m(1)] by simp
    moreover have "capsrel J (f_open F) ((f_caps F)(g := None)) (vc[g := unset_capture])"
      using capsrel_close [OF m(2) _ g(4), of unset_capture None] by simp
    then have "capsrel J (f_open F) (f_caps F) (vc[g := unset_capture])" using g(5) by (simp add: fun_upd_idem)
    ultimately show ?thesis using m(3) by (intro back_withI) simp_all
  qed
  from Nil(1) show ?case unfolding list.map delivers.simps
    by (rule goes_mono) (use pop in \<open>simp add: F1\<close>)
next
  case (Cons r xs)
  obtain k' c' where r: "r = (k', c')" by (cases r)
  let ?se = "(min k k', max k k')" and ?bt = "SetCapture g unset_capture"
  have k': "k' \<le> length (jcps J)" "if fwd then k \<le> k' else k' \<le> k" using Cons.prems(2) [of k' c'] r by simp_all
  note eo = enc_open [OF ok k k']
  have gi: "unat (of_nat g :: u16) = g" using g(3) by (simp add: unat_of_nat)
  have IH: "delivers J F1 xs out \<Longrightarrow> delivers J F (map (closed_caps g k) xs) out" for out
    by (erule Cons.IH) (rule Cons.prems(2), erule list.set_intros(2))
  show ?case unfolding list.map
  proof (rule delivers_goes [OF Cons.prems(1) [unfolded delivers.simps]])
    fix m assume "\<exists>ls new. arrived J F1 r ls new m \<and> (\<forall>m'. back_with J F1 (snd r) ls new m' \<longrightarrow> delivers J F1 xs (Running m'))"
    then obtain ls new where a: "arrived J F1 r ls new m"
      and b: "\<And>m'. back_with J F1 (snd r) ls new m' \<Longrightarrow> delivers J F1 xs (Running m')" by blast
    from a obtain vc where m: "at_pc J (f_old F) pc1 k' vc ls (new @ ?bt # f_es F) m"
      and c: "capsrel J ((f_open F)(g \<mapsto> open_at J fwd k)) c' vc"
      and l: "loopsrel (f_own F \<union> f_free F) (f_ls F) ls"
      and ti: "tidy J ((f_open F)(g \<mapsto> open_at J fwd k)) (f_caps F) c' new"
      by (auto simp: arrived_def F1 r)
    have gl: "g < length vc" using c g(2) by (simp add: capsrel_def)
    have og: "open_at J fwd k (vc ! g)" using c g(1) gl by (auto simp: capsrel_def)
    let ?vc = "vc[g := enc_cap J (Some ?se)]"
    have st: "goes J (at_pc J (f_old F) (f_pc F) k' ?vc ls (new @ ?bt # f_es F)) (Running m)"
      by (rule goes_next [OF m f])
        (use gl eo(2) [OF og] pc in \<open>cases fwd; auto simp: exec_inst_def step_capture_def endcapture_inst_def gi
          advance_def goto_addr_def getOffset_def\<close>)
    have c2: "capsrel J (f_open F) (c'(g \<mapsto> ?se)) ?vc" using capsrel_close [OF c refl g(4)] .
    have ti2: "tidy J (f_open F) (f_caps F) (c'(g \<mapsto> ?se)) (new @ [?bt])"
    proof -
      have "capsrel J (f_open F) (f_caps F) ((undo new v)[g := unset_capture])" if "capsrel J (f_open F) (c'(g \<mapsto> ?se)) v" for v
      proof -
        have "capsrel J ((f_open F)(g \<mapsto> open_at J fwd k)) (f_caps F) (undo new v)"
          using ti capsrel_opened [where ok = "open_at J fwd k", OF that eo(1) g(4)] by (simp add: tidy_def)
        from capsrel_close [OF this _ g(4), of unset_capture None] g(5) show ?thesis by (simp add: fun_upd_idem)
      qed
      with ti show ?thesis by (simp add: tidy_def)
    qed
    show "delivers J F (closed_caps g k r # map (closed_caps g k) xs) (Running m)"
      unfolding delivers.simps
    proof (rule goes_mono [OF st])
      fix m1 assume m1: "at_pc J (f_old F) (f_pc F) k' ?vc ls (new @ ?bt # f_es F) m1"
      have "arrived J F (closed_caps g k r) ls (new @ [?bt]) m1"
        using m1 c2 ti2 l by (auto simp: arrived_def closed_caps_def r)
      moreover have "delivers J F (map (closed_caps g k) xs) (Running m')"
        if bw: "back_with J F (snd (closed_caps g k r)) ls (new @ [?bt]) m'" for m'
      proof (rule IH, rule b)
        from bw show "back_with J F1 (snd r) ls new m'"
          using capsrel_opened [where ok = "open_at J fwd k" and opn = "f_open F" and g = g and se = ?se, OF _ eo(1) g(4)]
          by (auto simp: back_with_def F1 r closed_caps_def)
      qed
      ultimately show "\<exists>ls new. arrived J F (closed_caps g k r) ls new m1 \<and>
          (\<forall>m'. back_with J F (snd (closed_caps g k r)) ls new m' \<longrightarrow> delivers J F (map (closed_caps g k) xs) (Running m'))"
        by blast
    qed
  qed
qed

lemma implements_group:
  assumes ok: "job_ok J" and sup: "jsupported J (GroupNode G_CAPTURE g u v p)"
    and imp: "implements J fwd p (pc + 3) pc1"
    and f: "fetch (regex_instSeq (jregex J)) pc = Some (BeginCaptureIns (of_nat g))"
      "fetch (regex_instSeq (jregex J)) pc1 = Some (endcapture_inst fwd (of_nat g))"
  shows "implements J fwd (GroupNode G_CAPTURE g u v p) pc (pc1 + 3)"
proof (rule implementsI)
  fix F :: frame and k m vc assume F: "f_pc F = pc1 + 3" and k: "k \<le> length (jcps J)"
    and m: "at_pc J (f_old F) pc k vc (f_ls F) (f_es F) m" and c: "capsrel J (f_open F) (f_caps F) vc"
    and rd: "ready J F (GroupNode G_CAPTURE g u v p)"
  have g: "0 < g" "g \<le> regex_captureGroupCount (jregex J)" "g < 2 ^ 16" "f_open F g = None" "f_caps F g = None"
    using sup rd by (auto simp: ready_def)
  have gi: "unat (of_nat g :: u16) = g" using g(3) by (simp add: unat_of_nat)
  have gl: "g < length vc" using c g(2) by (simp add: capsrel_def)
  let ?bt = "SetCapture g unset_capture" and ?vc = "vc[g := \<lparr>cap_offset = of_nat (offset_of (jcps J) k), cap_size = 0\<rparr>]"
  let ?F1 = "F\<lparr>f_pc := pc1, f_es := ?bt # f_es F, f_open := (f_open F)(g \<mapsto> open_at J fwd k)\<rparr>"
  have st: "goes J (at_pc J (f_old F) (pc + 3) k ?vc (f_ls F) (?bt # f_es F)) (Running m)"
  proof (rule goes_next [OF m f(1)])
    fix cap assume "cap_ok (f_es F) cap"
    from push_then_cases [OF this, where bt = ?bt and J = J and pc = pc and it = "offset_of (jcps J) k" and vc = ?vc
        and ls = "f_ls F" and K = "advance (BeginCaptureIns (of_nat g))"]
    show "(\<exists>vm. exec_inst (jenv J) (jregex J) (BeginCaptureIns (of_nat g)) (vmst J pc (offset_of (jcps J) k) vc (f_ls F) (f_es F) cap) = VLimit vm) \<or>
      (\<exists>cap'. cap_ok (?bt # f_es F) cap' \<and> exec_inst (jenv J) (jregex J) (BeginCaptureIns (of_nat g)) (vmst J pc (offset_of (jcps J) k) vc (f_ls F) (f_es F) cap) =
         VNext (vmst J (pc + 3) (offset_of (jcps J) k) ?vc (f_ls F) (?bt # f_es F) cap'))"
      using gl by (auto simp: exec_inst_def step_capture_def advance_def goto_addr_def gi getOffset_def)
  qed
  have c1: "capsrel J ((f_open F)(g \<mapsto> open_at J fwd k)) (f_caps F) ?vc"
    by (rule capsrel_open [OF c g(1) gl g(4)]) (simp add: open_at_def endOffset_def)
  have r1: "ready J ?F1 p" using rd sup by (auto simp: ready_def)
  have d: "delivers J ?F1 (jsem J fwd p (k, f_caps F)) (Running m)"
  proof (rule delivers_goes [OF st])
    fix m1 assume "at_pc J (f_old F) (pc + 3) k ?vc (f_ls F) (?bt # f_es F) m1"
    then have "entered J ?F1 (pc + 3) k m1" using k c1 by (auto simp: entered_def)
    from implementsD [OF imp _ this r1] show "delivers J ?F1 (jsem J fwd p (k, f_caps F)) (Running m1)" by simp
  qed
  have "delivers J F (map (closed_caps g k) (jsem J fwd p (k, f_caps F))) (Running m)"
    by (rule deliver_group [OF d refl ok k g f(2) F]) (use step_okD(1,2) [OF sem_ok k] in blast)
  then show "delivers J F (jsem J fwd (GroupNode G_CAPTURE g u v p) (k, f_caps F)) (Running m)"
    by (simp add: closed_caps_def)
qed

section \<open>Look-arounds\<close>

lemma find_look: "list_all (\<lambda>e. \<not> is_LookAround e) new \<Longrightarrow> is_LookAround x \<Longrightarrow>
    List.find is_LookAround (new @ x # es) = Some x"
  by (induction new) auto

lemma cleanup_undo:
  assumes "list_all (\<lambda>e. \<not> is_LookAround e) new"
  shows "cleanup_loop neg (new @ LookAround ng matched target it # es) (vmst J pc it0 vc ls E cap) =
    Some (matched, vmst J pc it (if neg then undo new vc else vc) ls es cap)"
  using assms
proof (induction new arbitrary: vc)
  case Nil
  then show ?case by (simp add: with_entries_def setIter_def)
next
  case (Cons e new)
  then show ?case by (cases e; cases neg) simp_all
qed

lemma cleanup_at:
  assumes "list_all (\<lambda>e. \<not> is_LookAround e) new"
  shows "cleanupLookAround (vmst J pc it0 vc ls (new @ LookAround ng matched target it # es) cap) =
    Some (matched, vmst J pc it (if ng then undo new vc else vc) ls es cap)"
  using find_look [OF assms, of "LookAround ng matched target it" es] cleanup_undo [OF assms]
  by (simp add: cleanupLookAround_def lookAround_negate_def)

lemma cap_ok_drop: "cap_ok (xs @ y # es) cap \<Longrightarrow> cap_ok es cap"
  by (simp add: cap_ok_def)

text \<open>\<open>EndLookAround\<close> reached with a success of the body, and by exhaustion of the body.\<close>

lemma look_arrive:
  assumes f: "fetch (regex_instSeq (jregex J)) pc1 = Some EndLookAroundIns"
    and m: "at_pc J old pc1 k' vc ls (new @ LookAround ng (\<not> ng) t (offset_of (jcps J) k) # es) m"
    and new: "list_all (\<lambda>e. \<not> is_LookAround e) new"
  shows "if ng then goes J (at_back J old (undo new vc) ls es) (Running m)
    else goes J (at_pc J old (pc1 + 1) k vc ls es) (Running m)"
proof (cases ng)
  case True
  have "goes J (at_back J old (undo new vc) ls es) (Running m)"
    by (rule goes_fail [OF m f])
      (use True cleanup_at [OF new] in \<open>auto simp: exec_inst_def step_look_def advance_if_def dest: cap_ok_drop\<close>)
  with True show ?thesis by simp
next
  case False
  have "goes J (at_pc J old (pc1 + 1) k vc ls es) (Running m)"
    by (rule goes_next [OF m f])
      (use False cleanup_at [OF new] in \<open>auto simp: exec_inst_def step_look_def advance_if_def advance_def goto_addr_def
        dest: cap_ok_drop\<close>)
  with False show ?thesis by simp
qed

lemma look_exhaust:
  assumes f: "fetch (regex_instSeq (jregex J)) pc1 = Some EndLookAroundIns" and t: "unat t = pc1"
    and m: "at_back J old vc ls (LookAround ng (\<not> ng) t (offset_of (jcps J) k) # es) m"
  shows "if ng then goes J (at_pc J old (pc1 + 1) k vc ls es) (Running m)
    else goes J (at_back J old vc ls es) (Running m)"
proof -
  let ?e = "LookAround ng (\<not> ng) t (offset_of (jcps J) k)" and ?e' = "LookAround ng ng t (offset_of (jcps J) k)"
  obtain pc it cap sil vc0 ls0 where b: "m_back m" "m_oldIter m = old" "cap_ok (sil @ ?e # es) cap"
      "unwind sil (vc0, ls0) = Some (vc, ls)" "m_vm m = vmst J pc it vc0 ls0 (sil @ ?e # es) cap"
    using m unfolding at_back_def by blast
  define m1 where "m1 = m\<lparr>m_vm := vmst J pc1 it vc ls (?e' # es) cap, m_back := False\<rparr>"
  have s1: "job_step J m = check_timer (jtimer J) m1"
    using b t backtrack_unwind [OF b(4), where es = "?e # es" and J = J and pc = pc and it = it and E = "sil @ ?e # es" and cap = cap]
    by (simp add: job_step_def machine_step_def step_back_def m1_def with_entries_def)
  have cases: "(\<exists>st vm. check_timer (jtimer J) m1 = Finished st vm \<and> is_limit st) \<or>
      (\<exists>n c. check_timer (jtimer J) m1 = Running (m1\<lparr>m_btCount := n, m_checks := c\<rparr>))"
    by (cases m1) (auto simp: check_timer_def split: option.splits TimerStatus.splits)
  have s2: "if ng then job_step J (m1\<lparr>m_btCount := n, m_checks := c\<rparr>) =
        Running (m1\<lparr>m_btCount := n, m_checks := c, m_vm := vmst J (pc1 + 1) (offset_of (jcps J) k) vc ls es cap\<rparr>)
      else job_step J (m1\<lparr>m_btCount := n, m_checks := c\<rparr>) =
        Running (m1\<lparr>m_btCount := n, m_checks := c, m_vm := vmst J pc1 (offset_of (jcps J) k) vc ls es cap, m_back := True\<rparr>)" for n c
    using f cleanup_at [where new = "[]", simplified]
    by (simp add: job_step_def machine_step_def step_run_def vm_step_def m1_def exec_inst_def step_look_def
        advance_if_def advance_def goto_addr_def)
  have "cap_ok es cap" using b(3) by (rule cap_ok_drop)
  then have at: "at_pc J old (pc1 + 1) k vc ls es (m1\<lparr>m_btCount := n, m_checks := c, m_vm := vmst J (pc1 + 1) (offset_of (jcps J) k) vc ls es cap\<rparr>)"
    "at_back J old vc ls es (m1\<lparr>m_btCount := n, m_checks := c, m_vm := vmst J pc1 (offset_of (jcps J) k) vc ls es cap, m_back := True\<rparr>)" for n c
    using b(2) by (auto simp: at_pc_def at_back_def m1_def intro!: exI [of _ "[]"])
  from cases show ?thesis
  proof (elim disjE exE conjE)
    fix st vm assume "check_timer (jtimer J) m1 = Finished st vm" "is_limit st"
    with s1 have "goes J P (Running m)" for P by (intro goes_step) (simp add: goes_limit)
    then show ?thesis by simp
  next
    fix n c assume e: "check_timer (jtimer J) m1 = Running (m1\<lparr>m_btCount := n, m_checks := c\<rparr>)"
    have two: "goes J P (Running m)" if "goes J P (job_step J (m1\<lparr>m_btCount := n, m_checks := c\<rparr>))" for P
      by (rule goes_step, unfold s1 e, rule goes_step, rule that)
    show ?thesis
    proof (cases ng)
      case True
      with s2 [where n = n and c = c] at(1) [where n = n and c = c] show ?thesis by (simp add: two goes_here)
    next
      case False
      with s2 [where n = n and c = c] at(2) [where n = n and c = c] show ?thesis by (simp add: two goes_here)
    qed
  qed
qed

lemma deliver_none: "at_back J (f_old F) vc ls (f_es F) m \<Longrightarrow> capsrel J (f_open F) (f_caps F) vc \<Longrightarrow>
    loopsrel (f_free F) (f_ls F) ls \<Longrightarrow> delivers J F [] (Running m)"
  by (auto intro!: goes_here back_withI)

lemma deliver_here_loops:
  assumes "at_pc J (f_old F) (f_pc F) k vc ls (f_es F) m" "capsrel J (f_open F) (f_caps F) vc" "loopsrel (f_free F) (f_ls F) ls"
  shows "delivers J F [(k, f_caps F)] (Running m)"
  by (rule deliver_loops [OF _ assms(3)]) (use deliver_here [of J "F\<lparr>f_ls := ls\<rparr>" k vc m] assms in simp)

lemma implements_look:
  assumes ok: "job_ok J" and sup: "jsupported J (LookAroundNode ty p)"
    and imp: "implements J (isLookAhead ty) p (pc + 6) pc1"
    and f: "fetch (regex_instSeq (jregex J)) pc = Some (BeginLookAroundIns (isNegate ty) (of_nat pc1))"
      "fetch (regex_instSeq (jregex J)) pc1 = Some EndLookAroundIns" "pc1 \<le> length (regex_instSeq (jregex J))"
  shows "implements J fwd (LookAroundNode ty p) pc (pc1 + 1)"
proof (rule implementsI)
  fix F :: frame and k m vc assume F: "f_pc F = pc1 + 1" and k: "k \<le> length (jcps J)"
    and m: "at_pc J (f_old F) pc k vc (f_ls F) (f_es F) m" and c: "capsrel J (f_open F) (f_caps F) vc"
    and rd: "ready J F (LookAroundNode ty p)"
  let ?ng = "isNegate ty" and ?t = "of_nat pc1 :: u32"
  let ?la = "LookAround ?ng (\<not> ?ng) ?t (offset_of (jcps J) k)"
  let ?F1 = "F\<lparr>f_pc := pc1, f_es := ?la # f_es F, f_own := set (main_loops p), f_free := f_free F - set (main_loops p)\<rparr>"
  let ?rs = "jsem J (isLookAhead ty) p (k, f_caps F)"
  have t: "unat ?t = pc1" using u32_addr [OF ok f(3)] .
  have sub: "set (main_loops p) \<union> (f_free F - set (main_loops p)) \<subseteq> f_free F"
    using rd loops_split [of p] by (auto simp: ready_def)
  have st: "goes J (at_pc J (f_old F) (pc + 6) k vc (f_ls F) (?la # f_es F)) (Running m)"
  proof (rule goes_next [OF m f(1)])
    fix cap assume "cap_ok (f_es F) cap"
    from push_then_cases [OF this, where bt = ?la and J = J and pc = pc and it = "offset_of (jcps J) k" and vc = vc
        and ls = "f_ls F" and K = "advance (BeginLookAroundIns ?ng ?t)"]
    show "(\<exists>vm. exec_inst (jenv J) (jregex J) (BeginLookAroundIns ?ng ?t) (vmst J pc (offset_of (jcps J) k) vc (f_ls F) (f_es F) cap) = VLimit vm) \<or>
      (\<exists>cap'. cap_ok (?la # f_es F) cap' \<and> exec_inst (jenv J) (jregex J) (BeginLookAroundIns ?ng ?t) (vmst J pc (offset_of (jcps J) k) vc (f_ls F) (f_es F) cap) =
         VNext (vmst J (pc + 6) (offset_of (jcps J) k) vc (f_ls F) (?la # f_es F) cap'))"
      by (auto simp: exec_inst_def step_look_def advance_def goto_addr_def)
  qed
  have r1: "ready J ?F1 p"
    using rd loops_disjoint [of _ _ _ p] loops_split [of p] sup by (auto simp: ready_def)
  have d: "delivers J ?F1 ?rs (Running m)"
  proof (rule delivers_goes [OF st])
    fix m1 assume "at_pc J (f_old F) (pc + 6) k vc (f_ls F) (?la # f_es F) m1"
    then have "entered J ?F1 (pc + 6) k m1" using k c by (auto simp: entered_def)
    from implementsD [OF imp _ this r1] show "delivers J ?F1 ?rs (Running m1)" by simp
  qed
  show "delivers J F (jsem J fwd (LookAroundNode ty p) (k, f_caps F)) (Running m)"
  proof (cases ?rs)
    case Nil
    with d have "goes J (back_with J ?F1 (f_caps F) (f_ls F) []) (Running m)" by simp
    then show ?thesis
    proof (rule delivers_goes)
      fix m1 assume "back_with J ?F1 (f_caps F) (f_ls F) [] m1"
      then obtain vc' ls' where b: "at_back J (f_old F) vc' ls' (?la # f_es F) m1" "capsrel J (f_open F) (f_caps F) vc'"
        and l: "loopsrel (f_free F) (f_ls F) ls'"
        using loopsrel_mono [OF _ Diff_subset, of "f_free F" "set (main_loops p)" "f_ls F"] by (auto simp: back_with_def)
      note x = look_exhaust [OF f(2) t b(1)]
      show "delivers J F (jsem J fwd (LookAroundNode ty p) (k, f_caps F)) (Running m1)"
      proof (cases ?ng)
        case True
        then have "goes J (at_pc J (f_old F) (f_pc F) k vc' ls' (f_es F)) (Running m1)" using x F by simp
        then have "delivers J F [(k, f_caps F)] (Running m1)"
          by (rule delivers_goes) (rule deliver_here_loops [OF _ b(2) l])
        with True Nil show ?thesis by simp
      next
        case False
        then have "goes J (at_back J (f_old F) vc' ls' (f_es F)) (Running m1)" using x by simp
        then have "delivers J F [] (Running m1)" by (rule delivers_goes) (rule deliver_none [OF _ b(2) l])
        with False Nil show ?thesis by simp
      qed
    qed
  next
    case (Cons r rs)
    show ?thesis
    proof (rule delivers_goes [OF d [unfolded Cons delivers.simps]])
      fix m1 assume "\<exists>ls new. arrived J ?F1 r ls new m1 \<and> (\<forall>m'. back_with J ?F1 (snd r) ls new m' \<longrightarrow> delivers J ?F1 rs (Running m'))"
      then obtain vc' ls' new where a: "at_pc J (f_old F) pc1 (fst r) vc' ls' (new @ ?la # f_es F) m1"
        "capsrel J (f_open F) (snd r) vc'" "tidy J (f_open F) (f_caps F) (snd r) new"
        and l: "loopsrel (f_free F) (f_ls F) ls'"
        using loopsrel_mono [OF _ sub] by (auto simp: arrived_def)
      have "list_all (\<lambda>e. \<not> is_LookAround e) new" using a(3) by (simp add: tidy_def)
      note x = look_arrive [OF f(2) a(1) this]
      show "delivers J F (jsem J fwd (LookAroundNode ty p) (k, f_caps F)) (Running m1)"
      proof (cases ?ng)
        case True
        have "capsrel J (f_open F) (f_caps F) (undo new vc')" using a(2,3) by (simp add: tidy_def)
        moreover have "goes J (at_back J (f_old F) (undo new vc') ls' (f_es F)) (Running m1)" using x True by simp
        ultimately have "delivers J F [] (Running m1)" using l by (blast intro: delivers_goes deliver_none)
        with True Cons show ?thesis by simp
      next
        case False
        then have gs: "node_groups p = []" using sup by simp
        have mem: "(fst r, snd r) \<in> set ?rs" using Cons by simp
        have s: "snd r = f_caps F" by (rule ext) (use step_okD(3) [OF sem_ok k mem] gs in simp)
        have "goes J (at_pc J (f_old F) (f_pc F) k vc' ls' (f_es F)) (Running m1)" using x False F by simp
        then have "delivers J F [(k, f_caps F)] (Running m1)"
          by (rule delivers_goes) (use a(2) s l in \<open>auto intro: deliver_here_loops\<close>)
        with False Cons s show ?thesis by simp
      qed
    qed
  qed
qed

end
