(* ===== verification/Regex_Repeat.thy ===== *)
theory Regex_Repeat
  imports Regex_Correct
begin

text \<open>
  Repetitions. \<open>BeginLoop\<close> and \<open>EndLoop\<close> both continue at the label \<open>LOOP\<close>; \<open>at_loop\<close> describes an outcome
  that is about to decide there. The rounds of the machine are related to those of \<open>loop_sem\<close> by
  induction on its fuel, which also shows that the fuel is enough and that the 32-bit counter of the
  machine does not wrap.
\<close>

definition run_next :: "Machine \<Rightarrow> vm_next \<Rightarrow> outcome" where
  "run_next m n = (case n of
        VNext vm \<Rightarrow> Running (m\<lparr>m_vm := vm\<rparr>)
      | VBack vm \<Rightarrow> Running (m\<lparr>m_vm := vm, m_back := True\<rparr>)
      | VMatch vm \<Rightarrow> Finished MATCH_OK (set_match (m_oldIter m) vm)
      | VLimit vm \<Rightarrow> Finished MATCH_STACK_LIMIT vm
      | VFault \<Rightarrow> Crashed)"

lemma run_next_simps [simp]:
  "run_next m (VNext vm) = Running (m\<lparr>m_vm := vm\<rparr>)"
  "run_next m (VBack vm) = Running (m\<lparr>m_vm := vm, m_back := True\<rparr>)"
  "run_next m (VLimit vm) = Finished MATCH_STACK_LIMIT vm"
  by (simp_all add: run_next_def)

lemma delivers_limit: "is_limit st \<Longrightarrow> delivers J F xs (Finished st vm)"
  by (cases xs) (auto simp: delivers.simps intro: goes_limit)

lemma delivers_step: "delivers J F xs (job_step J m) \<Longrightarrow> delivers J F xs (Running m)"
  by (cases xs) (auto simp: delivers.simps intro: goes_step)

definition at_loop :: "job \<Rightarrow> nat \<Rightarrow> inst \<Rightarrow> nat \<Rightarrow> nat \<Rightarrow> Capture list \<Rightarrow> LoopState list \<Rightarrow> Backtrack list \<Rightarrow> outcome \<Rightarrow> bool" where
  "at_loop J old i pc k vc ls es out \<longleftrightarrow>
     (\<exists>m cap. \<not> m_back m \<and> m_oldIter m = old \<and> cap_ok es cap \<and>
        out = run_next m (step_LOOP i (vmst J pc (offset_of (jcps J) k) vc ls es cap)))"

section \<open>The captures of the body\<close>

definition saved :: "nat list \<Rightarrow> Capture list \<Rightarrow> Backtrack list" where
  "saved gs vc = rev (map (\<lambda>j. SetCapture j (vc ! j)) gs)"

definition unset_all :: "nat list \<Rightarrow> Capture list \<Rightarrow> Capture list" where
  "unset_all gs vc = fold (\<lambda>j v. v[j := unset_capture]) gs vc"

definition restore :: "nat list \<Rightarrow> Capture list \<Rightarrow> Capture list \<Rightarrow> Capture list" where
  "restore gs vc v = fold (\<lambda>j v. v[j := vc ! j]) (rev gs) v"

lemma fold_update_length [simp]: "length (fold (\<lambda>j v. v[j := f j]) gs v) = length v"
  by (induction gs arbitrary: v) simp_all

lemma fold_update_nth:
  "distinct gs \<Longrightarrow> g < length v \<Longrightarrow> fold (\<lambda>j v. v[j := f j]) gs v ! g = (if g \<in> set gs then f g else v ! g)"
  by (induction gs arbitrary: v) (auto simp: nth_list_update)

lemma undo_saved: "undo (saved gs vc @ [SetLoopState l st]) v = restore gs vc v"
proof -
  have "undo (map (\<lambda>j. SetCapture j (vc ! j)) hs) v = fold (\<lambda>j v. v[j := vc ! j]) hs v" for hs
    by (induction hs arbitrary: v) simp_all
  from this [of "rev gs"] show ?thesis by (simp add: saved_def restore_def rev_map)
qed

lemma unwind_saved:
  assumes "\<forall>g\<in>set gs. g < length v" "unat l < length ls"
  shows "unwind (saved gs vc @ [SetLoopState l st]) (v, ls) = Some (restore gs vc v, ls[unat l := st])"
proof -
  have "\<forall>g\<in>set hs. g < length v \<Longrightarrow>
      unwind (map (\<lambda>j. SetCapture j (vc ! j)) hs) (v, ls) = Some (fold (\<lambda>j v. v[j := vc ! j]) hs v, ls)" for hs
    by (induction hs arbitrary: v) simp_all
  from this [of "rev gs"] assms show ?thesis by (simp add: unwind_append saved_def restore_def rev_map)
qed

lemma capsrel_unset:
  assumes "capsrel J opn c vc" "distinct gs" "\<forall>g\<in>set gs. opn g = None"
  shows "capsrel J opn (reset_caps gs c) (unset_all gs vc)"
  using assms by (auto simp: capsrel_def unset_all_def fold_update_nth reset_caps_def split: option.splits)

lemma capsrel_restore:
  assumes "capsrel J opn (reset_caps gs c) v" "capsrel J opn c vc" "distinct gs" "\<forall>g\<in>set gs. opn g = None"
  shows "capsrel J opn c (restore gs vc v)"
  using assms by (auto simp: capsrel_def restore_def fold_update_nth reset_caps_def split: option.splits)

text \<open>\<open>ResetCaptures\<close>.\<close>

lemma reset_captures_cases:
  assumes "cap_ok es cap" "\<forall>g\<in>set gs. g < length vc" "distinct gs" "\<forall>g\<in>set gs. vc ! g = orig ! g"
  shows "(\<exists>vm. reset_captures gs (vmst J pc it vc ls es cap) K = VLimit vm) \<or>
    (\<exists>cap'. cap_ok (saved gs orig @ es) cap' \<and> reset_captures gs (vmst J pc it vc ls es cap) K =
       K (vmst J pc it (unset_all gs vc) ls (saved gs orig @ es) cap'))"
  using assms
proof (induction gs arbitrary: vc es cap)
  case Nil
  then show ?case by (auto simp: saved_def unset_all_def)
next
  case (Cons j gs)
  let ?bt = "SetCapture j (vc ! j)"
  let ?K = "\<lambda>vm'. reset_captures gs (vm'\<lparr>vm_captures := (vm_captures vm')[j := unset_capture]\<rparr>) K"
  from push_then_cases [OF Cons.prems(1), where bt = ?bt and J = J and pc = pc and it = it and vc = vc and ls = ls and K = ?K]
  show ?case
  proof (elim disjE exE conjE)
    fix cap' assume c: "cap_ok (?bt # es) cap'"
      and e: "push_then ?bt (vmst J pc it vc ls es cap) ?K = ?K (vmst J pc it vc ls (?bt # es) cap')"
    have "\<forall>g\<in>set gs. vc[j := unset_capture] ! g = orig ! g"
    proof
      fix g assume g: "g \<in> set gs"
      then have "j \<noteq> g" using Cons.prems(3) by auto
      with g show "vc[j := unset_capture] ! g = orig ! g" using Cons.prems(4) by simp
    qed
    from Cons.IH [OF c _ _ this] Cons.prems e show ?thesis
      by (simp add: saved_def unset_all_def)
  qed (use Cons.prems in simp)
qed

lemma goes_reset:
  assumes m: "at_pc J old pc k vc ls es m" and code: "code_at J pc (reset_inst fi la @ is)"
    and gs: "if gs = [] then fi = 0 else fi \<noteq> 0 \<and> [unat fi..<Suc (unat la)] = gs"
    and l: "\<forall>g\<in>set gs. g < length vc"
  shows "goes J (at_pc J old (pc + isize (reset_inst fi la)) k (unset_all gs vc) ls (saved gs vc @ es)) (Running m)"
proof (cases "gs = []")
  case True
  with gs m show ?thesis by (auto simp: reset_inst_def isize_def saved_def unset_all_def intro: goes_here)
next
  case False
  with gs have fi: "fi \<noteq> 0" "[unat fi..<Suc (unat la)] = gs" by auto
  then have d: "distinct gs" using distinct_upt by metis
  have f: "fetch (regex_instSeq (jregex J)) pc = Some (ResetCapturesIns fi la)"
    using code_at_Cons(1) [of J pc "ResetCapturesIns fi la"] code fi(1) by (simp add: reset_inst_def)
  have s: "isize (reset_inst fi la) = 5" using fi(1) by (simp add: reset_inst_def isize_def inst_size_def encode_def)
  show ?thesis unfolding s
  proof (rule goes_next [OF m f])
    fix cap assume "cap_ok es cap"
    from reset_captures_cases [OF this l d, where orig = vc and J = J and pc = pc and it = "offset_of (jcps J) k" and ls = ls
        and K = "advance (ResetCapturesIns fi la)"]
    show "(\<exists>vm. exec_inst (jenv J) (jregex J) (ResetCapturesIns fi la) (vmst J pc (offset_of (jcps J) k) vc ls es cap) = VLimit vm) \<or>
      (\<exists>cap'. cap_ok (saved gs vc @ es) cap' \<and> exec_inst (jenv J) (jregex J) (ResetCapturesIns fi la) (vmst J pc (offset_of (jcps J) k) vc ls es cap) =
         VNext (vmst J (pc + 5) (offset_of (jcps J) k) (unset_all gs vc) ls (saved gs vc @ es) cap'))"
      using fi(2) by (auto simp: exec_inst_def step_capture_def advance_def goto_addr_def inst_size_def encode_def)
  qed
qed

section \<open>A round\<close>

text \<open>What holds at the label: as \<open>ready\<close>, except that the groups of the body may be set.\<close>

definition loop_ready :: "job \<Rightarrow> frame \<Rightarrow> u16 \<Rightarrow> node \<Rightarrow> bool" where
  "loop_ready J F l p \<longleftrightarrow> (\<forall>g\<in>set (node_groups p). f_open F g = None) \<and>
     (\<forall>g\<in>set (node_refs (regex_named (jregex J)) p). f_open F g = None) \<and>
     insert l (set (main_loops p)) \<subseteq> f_own F \<and> set (look_loops p) \<subseteq> f_free F \<and>
     insert l (set (main_loops p)) \<inter> f_free F = {} \<and>
     length (f_ls F) = unat (regex_loopCount (jregex J)) \<and> caps_wf (jcps J) (f_caps F)"

lemma loopsrel_set: "l \<in> D \<Longrightarrow> loopsrel D ls (ls[unat l := st])"
  unfolding loopsrel_def by (metis length_list_update nth_list_update_neq word_unat_eq_iff)

lemma loopsrel_reset:
  assumes "loopsrel D (ls[unat l := st]) ls'" "l \<notin> D"
  shows "loopsrel D ls (ls'[unat l := ls ! unat l])"
  unfolding loopsrel_def
proof (intro conjI allI impI)
  show "length (ls'[unat l := ls ! unat l]) = length ls" using assms(1) by (simp add: loopsrel_def)
  fix l' assume l': "l' \<notin> D"
  have e: "ls' ! unat l' = ls[unat l := st] ! unat l'" "length ls' = length ls"
    using assms(1) l' by (auto simp: loopsrel_def)
  show "ls'[unat l := ls ! unat l] ! unat l' = ls ! unat l'"
  proof (cases "l' = l")
    case True
    then show ?thesis using e by (cases "unat l < length ls") (simp_all add: list_update_beyond)
  next
    case False
    then have "unat l \<noteq> unat l'" by (metis word_unat_eq_iff)
    then show ?thesis using e by simp
  qed
qed

definition round_state :: "job \<Rightarrow> nat \<Rightarrow> nat \<Rightarrow> LoopState" where
  "round_state J count k = \<lparr>loop_count = of_nat count, loop_inputOffset = of_nat (offset_of (jcps J) k)\<rparr>"

lemma loop_ready_body:
  assumes "loop_ready J F l p" "length ls = length (f_ls F)"
  shows "ready J (F\<lparr>f_pc := pce, f_es := es, f_caps := reset_caps (node_groups p) (f_caps F), f_ls := ls,
     f_own := set (main_loops p)\<rparr>) p"
  using assms caps_wf_reset [of "jcps J" "f_caps F" "node_groups p"]
  by (auto simp: loop_ready_def ready_def reset_caps_def)

lemma supported_groups: "supported nm gc lc n \<Longrightarrow> g \<in> set (node_groups n) \<Longrightarrow> 0 < g \<and> g \<le> gc"
  by (induction n) (auto simp: list_all_iff)

text \<open>The rounds that follow from the start of the body; \<open>step\<close> is what \<open>EndLoop\<close> leads to.\<close>

lemma deliver_rounds:
  assumes ok: "job_ok J" and sup: "jsupported J (RepeatNode l mn mx greedy fi la p)"
    and code: "code_at J (pc + 14) (reset_inst fi la @ is)"
    and imp: "implements J fwd p (pc + 14 + isize (reset_inst fi la)) pce"
    and rd: "loop_ready J F l p" and k: "k \<le> length (jcps J)"
    and m: "at_pc J (f_old F) (pc + 14) k vc ((f_ls F)[unat l := st]) (SetLoopState l (f_ls F ! unat l) # f_es F) m"
    and c: "capsrel J (f_open F) (f_caps F) vc"
    and nxt: "\<And>r ls es m'. r \<in> set (jsem J fwd p (k, reset_caps (node_groups p) (f_caps F))) \<Longrightarrow>
      loop_ready J (F\<lparr>f_es := es, f_caps := snd r, f_ls := ls\<rparr>) l p \<Longrightarrow> ls ! unat l = st \<Longrightarrow>
      entered J (F\<lparr>f_es := es, f_caps := snd r, f_ls := ls\<rparr>) pce (fst r) m' \<Longrightarrow>
      delivers J (F\<lparr>f_es := es, f_caps := snd r, f_ls := ls\<rparr>) (f r) (Running m')"
  shows "delivers J F (concat (map f (jsem J fwd p (k, reset_caps (node_groups p) (f_caps F))))) (Running m)"
proof -
  let ?gs = "node_groups p" and ?ls = "(f_ls F)[unat l := st]" and ?old = "f_ls F ! unat l"
  let ?c = "reset_caps ?gs (f_caps F)" and ?bt = "saved (node_groups p) vc @ [SetLoopState l (f_ls F ! unat l)]"
  let ?rs = "jsem J fwd p (k, ?c)"
  let ?F2 = "F\<lparr>f_es := ?bt @ f_es F, f_caps := ?c, f_ls := ?ls\<rparr>"
  let ?F1 = "?F2\<lparr>f_pc := pce, f_own := set (main_loops p)\<rparr>"
  have ll: "unat l < length (f_ls F)" using sup rd by (simp add: loop_ready_def)
  have gl: "\<forall>g\<in>set ?gs. g < length v" if "length v = length vc" for v
    using supported_groups [of _ "regex_captureGroupCount (jregex J)" _ p] sup c that
    by (fastforce simp: capsrel_def less_Suc_eq_le)
  have gs: "if ?gs = [] then fi = 0 else fi \<noteq> 0 \<and> [unat fi..<Suc (unat la)] = ?gs"
    using sup unfolding supported.simps by (elim conjE)
  have dist: "distinct ?gs" using gs by (metis distinct.simps(1) distinct_upt)
  have opn: "\<forall>g\<in>set ?gs. f_open F g = None" using rd by (simp add: loop_ready_def)
  have lnf: "l \<notin> set (main_loops p)" "l \<notin> f_free F" using sup rd loops_split [of p] by (auto simp: loop_ready_def)
  have res: "capsrel J (f_open F) (f_caps F) (restore ?gs vc v)" if "capsrel J (f_open F) ?c v" for v
    by (rule capsrel_restore [OF that c dist opn])
  have r1: "ready J ?F1 p" using loop_ready_body [OF rd, of ?ls] by (simp add: ready_def)
  have "goes J (at_pc J (f_old F) (pc + 14 + isize (reset_inst fi la)) k (unset_all ?gs vc) ?ls (?bt @ f_es F)) (Running m)"
    using goes_reset [OF m code gs gl] by simp
  then have d1: "delivers J ?F1 ?rs (Running m)"
  proof (rule delivers_goes)
    fix m1 assume "at_pc J (f_old F) (pc + 14 + isize (reset_inst fi la)) k (unset_all ?gs vc) ?ls (?bt @ f_es F) m1"
    then have "entered J ?F1 (pc + 14 + isize (reset_inst fi la)) k m1"
      using k capsrel_unset [OF c dist opn] by (auto simp: entered_def)
    from implementsD [OF imp _ this r1] show "delivers J ?F1 ?rs (Running m1)" by simp
  qed
  have wf: "caps_wf (jcps J) ?c" using rd by (simp add: loop_ready_def caps_wf_reset)
  have d2: "delivers J ?F2 (concat (map f ?rs)) (Running m)"
  proof (rule deliver_bind [OF d1, where ?L2.0 = "f_own F"])
    show "?F1 = ?F2\<lparr>f_pc := pce, f_own := set (main_loops p)\<rparr>" by simp
    show "set (main_loops p) \<subseteq> f_own ?F2 \<union> f_free ?F2" using rd by (auto simp: loop_ready_def)
    fix r ls new m' assume r: "r \<in> set ?rs" and a: "arrived J ?F1 r ls new m'"
    have "(fst r, snd r) \<in> set ?rs" using r by simp
    note s = step_okD [OF sem_ok k this]
    have l: "loopsrel (set (main_loops p) \<union> f_free F) ?ls ls" using a by (simp add: arrived_def)
    let ?F3 = "F\<lparr>f_es := new @ ?bt @ f_es F, f_caps := snd r, f_ls := ls\<rparr>"
    have "loop_ready J ?F3 l p" using rd l s(4) [OF wf] by (simp add: loop_ready_def loopsrel_def)
    moreover have "ls ! unat l = st" using l lnf ll by (simp add: loopsrel_def)
    moreover have "entered J ?F3 pce (fst r) m'" using a s(1) by (auto simp: entered_def arrived_def)
    ultimately have "delivers J ?F3 (f r) (Running m')" by (rule nxt [OF r])
    then show "delivers J (?F2\<lparr>f_es := new @ f_es ?F2, f_caps := snd r, f_ls := ls, f_own := f_own F\<rparr>) (f r) (Running m')" by simp
  qed simp
  have "delivers J F (concat (map f ?rs) @ []) (Running m)"
  proof (rule deliver_over [OF d2, where bt = ?bt and ?L1.0 = "f_own F"])
    show "tidy J (f_open F) (f_caps F) ?c ?bt"
      using res by (simp add: tidy_def undo_saved del: undo_append) (simp add: saved_def list_all_iff)
    show "loopsrel (f_own F \<union> f_free F) (f_ls F) ?ls"
      using rd by (intro loopsrel_set) (simp add: loop_ready_def)
    fix m' assume "back_with J F ?c ?ls ?bt m'"
    then obtain v ls' where b: "at_back J (f_old F) v ls' (?bt @ f_es F) m'" "capsrel J (f_open F) ?c v"
      "loopsrel (f_free F) ?ls ls'" by (auto simp: back_with_def)
    have "length v = length vc" "length ls' = length (f_ls F)" using b c by (simp_all add: capsrel_def loopsrel_def)
    with at_back_pop [OF b(1) unwind_saved [OF gl]] ll
    have "at_back J (f_old F) (restore ?gs vc v) (ls'[unat l := ?old]) (f_es F) m'" by simp
    moreover have "loopsrel (f_free F) (f_ls F) (ls'[unat l := ?old])"
      by (rule loopsrel_reset [OF b(3) lnf(2)])
    ultimately show "delivers J F [] (Running m')" using res [OF b(2)] by (intro deliver_none)
  qed simp_all
  then show ?thesis by simp
qed

section \<open>The label\<close>

lemma bts_push_cases:
  assumes "cap_ok es cap"
  shows "bts_push bt \<lparr>bts_entries = es, bts_cap = cap\<rparr> = None \<or>
    (\<exists>cap'. cap_ok (bt # es) cap' \<and> bts_push bt \<lparr>bts_entries = es, bts_cap = cap\<rparr> = Some \<lparr>bts_entries = bt # es, bts_cap = cap'\<rparr>)"
  using assms by (cases "length es = cap") (auto simp: bts_push_def cap_ok_def)

lemma goes_loop_body:
  assumes "cap_ok es cap" "\<not> m_back m" "m_oldIter m = old" "ls ! unat l = round_state J count st"
  shows "goes J (at_pc J old (pc + 14) k vc (ls[unat l := round_state J (count + 1) k]) (SetLoopState l (ls ! unat l) # es))
    (run_next m (loop_body (BeginLoopIns greedy l mn mx outer) l (vmst J pc (offset_of (jcps J) k) vc ls es cap)))"
proof -
  have s: "inst_size (BeginLoopIns greedy l mn mx outer) = 14" by (simp add: inst_size_def encode_def)
  from bts_push_cases [OF assms(1), of "SetLoopState l (ls ! unat l)"] show ?thesis
    by (elim disjE exE conjE)
      (use assms(2-4) in \<open>auto simp: loop_body_def prepareLoopBody_def advance_def goto_addr_def s round_state_def getOffset_def
        at_pc_def add.commute intro!: goes_limit goes_here\<close>)
qed

text \<open>The fuel a state of the loop needs.\<close>

definition loop_need :: "int list \<Rightarrow> bool \<Rightarrow> nat \<Rightarrow> nat \<Rightarrow> nat \<Rightarrow> nat \<Rightarrow> nat" where
  "loop_need cps fwd mn count st k =
     (if count > mn \<and> st = k then 1 else (mn - count) + (if fwd then length cps - k else k) + 2)"

lemma loop_need_next:
  assumes "loop_need cps fwd mn count st k \<le> Suc fuel" "\<not> (count > mn \<and> st = k)"
    "k \<le> length cps" "k' \<le> length cps" "if fwd then k \<le> k' else k' \<le> k"
  shows "loop_need cps fwd mn (count + 1) k k' \<le> fuel"
  using assms by (auto simp: loop_need_def split: if_splits)

lemma text_of_ge: "code_points cps \<Longrightarrow> length cps \<le> length (text_of cps)"
proof (induction cps)
  case (Cons c cps)
  then have "1 \<le> length (codePointToUtf8 c)" using encode_validate(2) [of c True] by auto
  with Cons show ?case by simp
qed simp

text \<open>The tests of the label against those of the specification.\<close>

lemma round_tests:
  assumes ok: "job_ok J" and k: "k \<le> length (jcps J)" "st \<le> length (jcps J)" and count: "count \<le> unat (mn :: u16) + length (jcps J) + 1"
  shows "loop_inputOffset (round_state J count st) = of_nat (offset_of (jcps J) k) \<longleftrightarrow> st = k"
    "loop_count (round_state J count st) > ucast mn \<longleftrightarrow> count > unat mn"
    "loop_count (round_state J count st) < ucast mn \<longleftrightarrow> count < unat mn"
    "loop_count (round_state J count st) = mx \<longleftrightarrow> count = unat mx"
proof -
  note cp = job_okD(1,2) [OF ok]
  have len: "length (jcps J) \<le> length (text_of (jcps J))" by (rule text_of_ge [OF cp(1)])
  have off: "offset_of (jcps J) j < 2 ^ 32" if "j \<le> length (jcps J)" for j
    using offset_le_text [OF cp(1) that] cp(2) by simp
  have mb: "unat mn < 65536" using unsigned_less [of mn] by simp
  have "length (text_of (jcps J)) + 65536 < 4294967296" using cp(2) by simp
  with mb count len have "count < 4294967296" by linarith
  then have c: "count < 2 ^ 32" by simp
  have cu: "unat (of_nat count :: u32) = count" using c by (simp add: unat_of_nat)
  have mu: "unat (ucast mn :: u32) = unat mn" by (simp add: unsigned_ucast_eq)
  show "loop_inputOffset (round_state J count st) = of_nat (offset_of (jcps J) k) \<longleftrightarrow> st = k"
    using off [OF k(1)] off [OF k(2)] offset_eq [OF cp(1) k] 
    by (auto simp: round_state_def of_nat_eq_iff unat_of_nat word_unat_eq_iff)
  show "loop_count (round_state J count st) > ucast mn \<longleftrightarrow> count > unat mn"
    "loop_count (round_state J count st) < ucast mn \<longleftrightarrow> count < unat mn"
    "loop_count (round_state J count st) = mx \<longleftrightarrow> count = unat mx"
    by (auto simp: round_state_def word_less_nat_alt cu mu word_unat_eq_iff)
qed

text \<open>What the label leads to.\<close>

definition loop_outcome :: "job \<Rightarrow> frame \<Rightarrow> nat \<Rightarrow> nat \<Rightarrow> inst \<Rightarrow> u16 \<Rightarrow> nat \<Rightarrow> nat \<Rightarrow> outcome \<Rightarrow> bool" where
  "loop_outcome J F pc k i l count st out \<longleftrightarrow>
     (\<exists>vc. at_loop J (f_old F) i pc k vc (f_ls F) (f_es F) out \<and> capsrel J (f_open F) (f_caps F) vc) \<and>
     f_ls F ! unat l = round_state J count st"

lemma goes_end_loop:
  assumes ok: "job_ok J" and f: "fetch (regex_instSeq (jregex J)) pc = Some i" "fetch (regex_instSeq (jregex J)) pce = Some (EndLoopIns (of_nat pc))"
    "pc \<le> length (regex_instSeq (jregex J))"
    and en: "entered J F pce k m" and st: "f_ls F ! unat l = round_state J count st"
    and nxt: "\<And>out. loop_outcome J F pc k i l count st out \<Longrightarrow> delivers J F xs out"
  shows "delivers J F xs (Running m)"
proof -
  from en obtain vc where m: "at_pc J (f_old F) pce k vc (f_ls F) (f_es F) m" and c: "capsrel J (f_open F) (f_caps F) vc"
    by (auto simp: entered_def)
  have "at_loop J (f_old F) i pc k vc (f_ls F) (f_es F) (job_step J m)"
  proof (rule job_step_run [OF m f(2)])
    fix cap assume cap: "cap_ok (f_es F) cap" and js: "job_step J m =
      (case exec_inst (jenv J) (jregex J) (EndLoopIns (of_nat pc)) (vmst J pce (offset_of (jcps J) k) vc (f_ls F) (f_es F) cap) of
        VNext vm \<Rightarrow> Running (m\<lparr>m_vm := vm\<rparr>)
      | VBack vm \<Rightarrow> Running (m\<lparr>m_vm := vm, m_back := True\<rparr>)
      | VMatch vm \<Rightarrow> Finished MATCH_OK (set_match (m_oldIter m) vm)
      | VLimit vm \<Rightarrow> Finished MATCH_STACK_LIMIT vm
      | VFault \<Rightarrow> Crashed)"
    have "job_step J m = run_next m (step_LOOP i (vmst J pc (offset_of (jcps J) k) vc (f_ls F) (f_es F) cap))"
      unfolding js run_next_def using f u32_addr [OF ok f(3)] by (simp add: exec_inst_def step_end_loop_def)
    with cap m show ?thesis unfolding at_loop_def at_pc_def by blast
  qed
  then have "delivers J F xs (job_step J m)" using c st by (intro nxt) (auto simp: loop_outcome_def)
  then show ?thesis by (rule delivers_step)
qed

lemma goes_push2:
  assumes "\<not> m_back m" "m_oldIter m = old" "cap_ok es cap"
  shows "goes J (at_pc J old e k vc ls ([b2, b1] @ es))
    (run_next m (push_then b1 (vmst J pc (offset_of (jcps J) k) vc ls es cap) (\<lambda>vm. push_then b2 vm (goto_addr e))))"
  using push_then_cases [OF assms(3), where bt = b1 and J = J and pc = pc and it = "offset_of (jcps J) k" and vc = vc and ls = ls
      and K = "\<lambda>vm. push_then b2 vm (goto_addr e)"]
proof (elim disjE exE conjE)
  fix cap' assume c: "cap_ok (b1 # es) cap'" and e: "push_then b1 (vmst J pc (offset_of (jcps J) k) vc ls es cap) (\<lambda>vm. push_then b2 vm (goto_addr e)) =
      push_then b2 (vmst J pc (offset_of (jcps J) k) vc ls (b1 # es) cap') (goto_addr e)"
  from push_then_cases [OF c, where bt = b2 and J = J and pc = pc and it = "offset_of (jcps J) k" and vc = vc and ls = ls
      and K = "goto_addr e"]
  show ?thesis unfolding e using assms(1,2)
    by (elim disjE exE conjE) (auto simp: goto_addr_def at_pc_def intro!: goes_limit goes_here)
qed (simp add: goes_limit)

text \<open>The step to the label, with the body and the way out given by what they deliver.\<close>

lemma deliver_label:
  assumes ok: "job_ok J" and k: "k \<le> length (jcps J)" "st \<le> length (jcps J)"
    and count: "count \<le> unat mn + length (jcps J) + 1"
    and out: "loop_outcome J F pc k (BeginLoopIns greedy l mn mx (of_nat e)) l count st out"
    and e: "f_pc F = e" "e \<le> length (regex_instSeq (jregex J))" "pc \<le> length (regex_instSeq (jregex J))"
    and l: "unat l < length (f_ls F)" "l \<notin> f_free F"
    and body: "\<And>ls es vc m. loopsrel (f_free F) (f_ls F) ls \<Longrightarrow> capsrel J (f_open F) (f_caps F) vc \<Longrightarrow>
       \<not> (count > unat mn \<and> st = k) \<Longrightarrow>
       at_pc J (f_old F) (pc + 14) k vc (ls[unat l := round_state J (count + 1) k]) (SetLoopState l (ls ! unat l) # es) m \<Longrightarrow>
       delivers J (F\<lparr>f_ls := ls, f_es := es\<rparr>) rounds (Running m)"
  shows "delivers J F (if count > unat mn \<and> st = k then []
      else if count < unat mn then rounds
      else if count = unat mx then [(k, f_caps F)]
      else if greedy then rounds @ [(k, f_caps F)]
      else (k, f_caps F) # rounds) out"
proof -
  let ?i = "BeginLoopIns greedy l mn mx (of_nat e)" and ?it = "offset_of (jcps J) k"
  from out obtain vc m cap where m: "\<not> m_back m" "m_oldIter m = f_old F" "cap_ok (f_es F) cap"
      "out = run_next m (step_LOOP ?i (vmst J pc ?it vc (f_ls F) (f_es F) cap))"
    and c: "capsrel J (f_open F) (f_caps F) vc" and s: "f_ls F ! unat l = round_state J count st"
    unfolding loop_outcome_def at_loop_def by blast
  note t = round_tests [OF ok k count]
  note addr = u32_addr [OF ok e(2)] u32_addr [OF ok e(3)]
  have sl: "step_LOOP ?i (vmst J pc ?it vc (f_ls F) (f_es F) cap) =
     (if st = k \<and> count > unat mn then VBack (vmst J pc ?it vc (f_ls F) (f_es F) cap)
      else if count < unat mn then loop_body ?i l (vmst J pc ?it vc (f_ls F) (f_es F) cap)
      else if count = unat mx then VNext (vmst J e ?it vc (f_ls F) (f_es F) cap)
      else if greedy then push_then (SetIns (of_nat e) ?it) (vmst J pc ?it vc (f_ls F) (f_es F) cap) (loop_body ?i l)
      else push_then (SetIns (of_nat pc) ?it) (vmst J pc ?it vc (f_ls F) (f_es F) cap)
        (\<lambda>vm1. push_then (NonGreedyLoop l (f_ls F ! unat l)) vm1 (goto_addr e)))"
    unfolding step_LOOP_def inst.case
    using l(1) addr by (simp only: VM.simps Input.simps getOffset_def if_True Let_def s t goto_addr_def VM.update_convs)
  have bd: "delivers J (F\<lparr>f_es := es\<rparr>) rounds (run_next m (loop_body ?i l (vmst J pc ?it vc (f_ls F) es cap)))"
    if "cap_ok es cap" "\<not> (count > unat mn \<and> st = k)" for es cap
    by (rule delivers_goes [OF goes_loop_body [OF that(1) m(1,2) s]])
      (use body [OF loopsrel_refl c that(2)] in simp)
  consider (stop) "count > unat mn \<and> st = k" | (must) "\<not> (count > unat mn \<and> st = k)" "count < unat mn"
    | (full) "\<not> (count > unat mn \<and> st = k)" "\<not> count < unat mn" "count = unat mx"
    | (greedy) "\<not> (count > unat mn \<and> st = k)" "\<not> count < unat mn" "count \<noteq> unat mx" "greedy"
    | (lazy) "\<not> (count > unat mn \<and> st = k)" "\<not> count < unat mn" "count \<noteq> unat mx" "\<not> greedy" by blast
  then show ?thesis
  proof cases
    case stop
    then have "out = Running (m\<lparr>m_vm := vmst J pc ?it vc (f_ls F) (f_es F) cap, m_back := True\<rparr>)"
      unfolding m(4) sl by simp
    moreover have "at_back J (f_old F) vc (f_ls F) (f_es F) (m\<lparr>m_vm := vmst J pc ?it vc (f_ls F) (f_es F) cap, m_back := True\<rparr>)"
      using m(2,3) by (auto simp: at_back_def intro!: exI [of _ "[]"])
    ultimately show ?thesis using stop c deliver_none by simp
  next
    case must
    then have "out = run_next m (loop_body ?i l (vmst J pc ?it vc (f_ls F) (f_es F) cap))"
      unfolding m(4) sl by simp
    with must bd [OF m(3) must(1)] show ?thesis by simp
  next
    case full
    then have "out = Running (m\<lparr>m_vm := vmst J e ?it vc (f_ls F) (f_es F) cap\<rparr>)"
      unfolding m(4) sl by auto
    moreover have "at_pc J (f_old F) (f_pc F) k vc (f_ls F) (f_es F) (m\<lparr>m_vm := vmst J e ?it vc (f_ls F) (f_es F) cap\<rparr>)"
      using m e(1) by (simp add: at_pc_def)
    ultimately show ?thesis using full deliver_here [OF _ c] by auto
  next
    case greedy
    let ?bt = "SetIns (of_nat e) ?it"
    have o: "out = run_next m (push_then ?bt (vmst J pc ?it vc (f_ls F) (f_es F) cap) (loop_body ?i l))"
      unfolding m(4) sl using greedy by auto
    have d: "delivers J (F\<lparr>f_es := ?bt # f_es F\<rparr>) rounds out"
      using push_then_cases [OF m(3), where bt = ?bt and J = J and pc = pc and it = ?it and vc = vc and ls = "f_ls F" and K = "loop_body ?i l"]
    proof (elim disjE exE conjE)
      assume "push_then ?bt (vmst J pc ?it vc (f_ls F) (f_es F) cap) (loop_body ?i l) = VLimit (vmst J pc ?it vc (f_ls F) (f_es F) cap)"
      with o have "out = Finished MATCH_STACK_LIMIT (vmst J pc ?it vc (f_ls F) (f_es F) cap)" by simp
      then show ?thesis by (simp add: delivers_limit)
    next
      fix cap' assume c': "cap_ok (?bt # f_es F) cap'" and "push_then ?bt (vmst J pc ?it vc (f_ls F) (f_es F) cap) (loop_body ?i l) =
         loop_body ?i l (vmst J pc ?it vc (f_ls F) (?bt # f_es F) cap')"
      with o bd [OF c' greedy(1)] show ?thesis by simp
    qed
    have "delivers J F (rounds @ [(k, f_caps F)]) out"
    proof (rule deliver_over [OF d])
      show "F\<lparr>f_es := ?bt # f_es F\<rparr> = F\<lparr>f_es := [?bt] @ f_es F, f_caps := f_caps F, f_ls := f_ls F, f_own := f_own F\<rparr>" by simp
      show "tidy J (f_open F) (f_caps F) (f_caps F) [?bt]" by (simp add: tidy_def)
      fix m' assume "back_with J F (f_caps F) (f_ls F) [?bt] m'"
      then obtain vc' ls' where b: "at_back J (f_old F) vc' ls' ([?bt] @ f_es F) m'" "capsrel J (f_open F) (f_caps F) vc'"
        "loopsrel (f_free F) (f_ls F) ls'" by (auto simp: back_with_def)
      have "goes J (at_pc J (f_old F) (f_pc F) k vc' ls' (f_es F)) (Running m')"
        by (rule goes_resume [OF b(1)]) (auto simp: with_entries_def setIter_def cap_ok_def addr e(1))
      then show "delivers J F [(k, f_caps F)] (Running m')"
        by (rule delivers_goes) (rule deliver_here_loops [OF _ b(2,3)])
    qed simp_all
    with greedy show ?thesis by auto
  next
    case lazy
    let ?bt = "[NonGreedyLoop l (f_ls F ! unat l), SetIns (of_nat pc) ?it]"
    let ?Q = "at_pc J (f_old F) e k vc (f_ls F) (?bt @ f_es F)"
    have o: "out = run_next m (push_then (SetIns (of_nat pc) ?it) (vmst J pc ?it vc (f_ls F) (f_es F) cap)
        (\<lambda>vm1. push_then (NonGreedyLoop l (f_ls F ! unat l)) vm1 (goto_addr e)))"
      unfolding m(4) sl using lazy by auto
    have g: "goes J ?Q out" unfolding o by (rule goes_push2 [OF m(1-3)])
    have "delivers J F ((k, f_caps F) # rounds) out" unfolding delivers.simps
    proof (rule goes_mono [OF g])
      fix m1 assume m1: "?Q m1"
      have "arrived J F (k, f_caps F) (f_ls F) ?bt m1" using m1 c e(1) by (auto simp: arrived_def tidy_def)
      moreover have "delivers J F rounds (Running m')" if b: "back_with J F (f_caps F) (f_ls F) ?bt m'" for m'
      proof -
        from b obtain vc' ls' where b: "at_back J (f_old F) vc' ls' (?bt @ f_es F) m'" "capsrel J (f_open F) (f_caps F) vc'"
          "loopsrel (f_free F) (f_ls F) ls'" by (auto simp: back_with_def)
        have ls: "ls' ! unat l = f_ls F ! unat l" "unat l < length ls'" using b(3) l by (simp_all add: loopsrel_def)
        have "goes J (at_pc J (f_old F) (pc + 14) k vc' (ls'[unat l := round_state J (count + 1) k]) (SetLoopState l (ls' ! unat l) # f_es F)) (Running m')"
          by (rule goes_resume [OF b(1)])
            (use ls s addr in \<open>auto simp: with_entries_def setIter_def cap_ok_def prepareLoopBody_def bts_push_def sizeof_BeginLoop_def
              inst_size_def encode_def round_state_def getOffset_def add.commute\<close>)
        then have "delivers J (F\<lparr>f_ls := ls', f_es := f_es F\<rparr>) rounds (Running m')"
          by (rule delivers_goes) (rule body [OF b(3,2) lazy(1)])
        then show ?thesis using deliver_loops [OF _ b(3)] by simp
      qed
      ultimately show "\<exists>ls new. arrived J F (k, f_caps F) ls new m1 \<and>
          (\<forall>m'. back_with J F (snd (k, f_caps F)) ls new m' \<longrightarrow> delivers J F rounds (Running m'))" by fastforce
    qed
    with lazy show ?thesis by auto
  qed
qed

section \<open>The loop\<close>

lemma deliver_loop:
  assumes ok: "job_ok J" and sup: "jsupported J (RepeatNode l mn mx greedy fi la p)"
    and code: "code_at J (pc + 14) (reset_inst fi la @ is)"
    and imp: "implements J fwd p (pc + 14 + isize (reset_inst fi la)) pce"
    and f: "fetch (regex_instSeq (jregex J)) pc = Some (BeginLoopIns greedy l mn mx (of_nat e))"
      "fetch (regex_instSeq (jregex J)) pce = Some (EndLoopIns (of_nat pc))"
      "pc \<le> length (regex_instSeq (jregex J))" "e \<le> length (regex_instSeq (jregex J))"
  shows "loop_ready J F l p \<Longrightarrow> k \<le> length (jcps J) \<Longrightarrow> st \<le> length (jcps J) \<Longrightarrow> f_pc F = e \<Longrightarrow>
    loop_outcome J F pc k (BeginLoopIns greedy l mn mx (of_nat e)) l count st out \<Longrightarrow>
    loop_need (jcps J) fwd (unat mn) count st k \<le> fuel \<Longrightarrow> count + fuel \<le> unat mn + length (jcps J) + 2 \<Longrightarrow>
    delivers J F (loop_sem fuel (jsem J fwd p) (node_groups p) (unat mn) (unat mx) greedy count st (k, f_caps F)) out"
proof (induction fuel arbitrary: F k st count out)
  case 0
  then show ?case by (simp add: loop_need_def split: if_splits)
next
  case (Suc fuel)
  let ?rec = "loop_sem fuel (jsem J fwd p) (node_groups p) (unat mn) (unat mx) greedy (count + 1) k"
  let ?rs = "jsem J fwd p (k, reset_caps (node_groups p) (f_caps F))"
  have l: "unat l < length (f_ls F)" "l \<notin> f_free F" using sup Suc.prems(1) by (auto simp: loop_ready_def)
  have cb: "count \<le> unat mn + length (jcps J) + 1" using Suc.prems(7) by simp
  have "delivers J F (if count > unat mn \<and> st = k then []
      else if count < unat mn then concat (map ?rec ?rs)
      else if count = unat mx then [(k, f_caps F)]
      else if greedy then concat (map ?rec ?rs) @ [(k, f_caps F)]
      else (k, f_caps F) # concat (map ?rec ?rs)) out"
  proof (rule deliver_label [OF ok Suc.prems(2,3) cb Suc.prems(5,4) f(4,3) l])
    fix ls es vc m assume a: "loopsrel (f_free F) (f_ls F) ls" "capsrel J (f_open F) (f_caps F) vc" "\<not> (count > unat mn \<and> st = k)"
      "at_pc J (f_old F) (pc + 14) k vc (ls[unat l := round_state J (count + 1) k]) (SetLoopState l (ls ! unat l) # es) m"
    let ?F = "F\<lparr>f_ls := ls, f_es := es\<rparr>"
    have rd: "loop_ready J ?F l p" using Suc.prems(1) a(1) by (simp add: loop_ready_def loopsrel_def)
    have "delivers J ?F (concat (map ?rec (jsem J fwd p (k, reset_caps (node_groups p) (f_caps ?F))))) (Running m)"
    proof (rule deliver_rounds [OF ok sup code imp rd Suc.prems(2)])
      show "at_pc J (f_old ?F) (pc + 14) k vc ((f_ls ?F)[unat l := round_state J (count + 1) k]) (SetLoopState l (f_ls ?F ! unat l) # f_es ?F) m"
        using a(4) by simp
      show "capsrel J (f_open ?F) (f_caps ?F) vc" using a(2) by simp
      fix r ls' es' m' assume r: "r \<in> set (jsem J fwd p (k, reset_caps (node_groups p) (f_caps ?F)))"
        and rd': "loop_ready J (?F\<lparr>f_es := es', f_caps := snd r, f_ls := ls'\<rparr>) l p" and st': "ls' ! unat l = round_state J (count + 1) k"
        and en: "entered J (?F\<lparr>f_es := es', f_caps := snd r, f_ls := ls'\<rparr>) pce (fst r) m'"
      let ?F' = "?F\<lparr>f_es := es', f_caps := snd r, f_ls := ls'\<rparr>"
      have "(fst r, snd r) \<in> set (jsem J fwd p (k, reset_caps (node_groups p) (f_caps ?F)))" using r by simp
      note s = step_okD [OF sem_ok Suc.prems(2) this]
      note need = loop_need_next [OF Suc.prems(6) a(3) Suc.prems(2) s(1,2)]
      show "delivers J ?F' (?rec r) (Running m')"
      proof (rule goes_end_loop [OF ok f(1,2,3) en, of l "count + 1" k])
        show "f_ls ?F' ! unat l = round_state J (count + 1) k" using st' by simp
        fix out' assume "loop_outcome J ?F' pc (fst r) (BeginLoopIns greedy l mn mx (of_nat e)) l (count + 1) k out'"
        from Suc.IH [OF rd' s(1) Suc.prems(2) _ this need] Suc.prems(4,7)
        show "delivers J ?F' (?rec r) out'" by simp
      qed
    qed
    then show "delivers J ?F (concat (map ?rec ?rs)) (Running m)" by simp
  qed
  then show ?case by (simp only: loop_sem.simps Let_def prod.case)
qed

lemma init_round: "init_loop = round_state J 0 0"
  by (simp add: init_loop_def round_state_def offset_of_def)

lemma goes_begin_loop:
  assumes f: "fetch (regex_instSeq (jregex J)) pc = Some (BeginLoopIns greedy l mn mx e)"
    and m: "at_pc J old pc k vc ls es m" and l: "unat l < length ls"
  shows "(\<exists>vm. job_step J m = Finished MATCH_STACK_LIMIT vm) \<or>
    at_loop J old (BeginLoopIns greedy l mn mx e) pc k vc (ls[unat l := init_loop]) (SetLoopState l (ls ! unat l) # es) (job_step J m)"
proof (rule job_step_run [OF m f])
  let ?i = "BeginLoopIns greedy l mn mx e" and ?bt = "SetLoopState l (ls ! unat l)" and ?it = "offset_of (jcps J) k"
  let ?K = "\<lambda>vm'. step_LOOP ?i (vm'\<lparr>vm_loops := (vm_loops vm')[unat l := init_loop]\<rparr>)"
  fix cap assume cap: "cap_ok es cap" and "job_step J m =
      (case exec_inst (jenv J) (jregex J) ?i (vmst J pc ?it vc ls es cap) of
        VNext vm \<Rightarrow> Running (m\<lparr>m_vm := vm\<rparr>)
      | VBack vm \<Rightarrow> Running (m\<lparr>m_vm := vm, m_back := True\<rparr>)
      | VMatch vm \<Rightarrow> Finished MATCH_OK (set_match (m_oldIter m) vm)
      | VLimit vm \<Rightarrow> Finished MATCH_STACK_LIMIT vm
      | VFault \<Rightarrow> Crashed)"
  then have js: "job_step J m = run_next m (push_then ?bt (vmst J pc ?it vc ls es cap) ?K)"
    using l by (simp add: run_next_def exec_inst_def step_begin_loop_def)
  from push_then_cases [OF cap, where bt = ?bt and J = J and pc = pc and it = ?it and vc = vc and ls = ls and K = ?K]
  show ?thesis
  proof (elim disjE exE conjE)
    fix cap' assume "cap_ok (?bt # es) cap'" "push_then ?bt (vmst J pc ?it vc ls es cap) ?K = ?K (vmst J pc ?it vc ls (?bt # es) cap')"
    moreover from this js have "job_step J m = run_next m (step_LOOP ?i (vmst J pc ?it vc (ls[unat l := init_loop]) (?bt # es) cap'))" by simp
    moreover have "\<not> m_back m" "m_oldIter m = old" using m by (auto simp: at_pc_def)
    ultimately show ?thesis unfolding at_loop_def by blast
  qed (simp add: js)
qed

lemma implements_repeat:
  assumes ok: "job_ok J" and sup: "jsupported J (RepeatNode l mn mx greedy fi la p)"
    and code: "code_at J (pc + 14) (reset_inst fi la @ is)"
    and imp: "implements J fwd p (pc + 14 + isize (reset_inst fi la)) pce"
    and f: "fetch (regex_instSeq (jregex J)) pc = Some (BeginLoopIns greedy l mn mx (of_nat e))"
      "fetch (regex_instSeq (jregex J)) pce = Some (EndLoopIns (of_nat pc))"
      "pc \<le> length (regex_instSeq (jregex J))" "e \<le> length (regex_instSeq (jregex J))"
  shows "implements J fwd (RepeatNode l mn mx greedy fi la p) pc e"
proof (rule implementsI)
  fix F :: frame and k m vc assume F: "f_pc F = e" and k: "k \<le> length (jcps J)"
    and m: "at_pc J (f_old F) pc k vc (f_ls F) (f_es F) m" and c: "capsrel J (f_open F) (f_caps F) vc"
    and rd: "ready J F (RepeatNode l mn mx greedy fi la p)"
  let ?bt = "SetLoopState l (f_ls F ! unat l)" and ?i = "BeginLoopIns greedy l mn mx (of_nat e)"
  let ?F1 = "F\<lparr>f_es := [?bt] @ f_es F, f_caps := f_caps F, f_ls := (f_ls F)[unat l := init_loop], f_own := f_own F\<rparr>"
  let ?xs = "jsem J fwd (RepeatNode l mn mx greedy fi la p) (k, f_caps F)"
  have l: "unat l < length (f_ls F)" "l \<in> f_own F" "l \<notin> f_free F" using sup rd by (auto simp: ready_def)
  have lr: "loop_ready J ?F1 l p" using rd by (auto simp: ready_def loop_ready_def)
  have need: "loop_need (jcps J) fwd (unat mn) 0 0 k \<le> unat mn + length (jcps J) + 2"
    using k by (simp add: loop_need_def)
  have "delivers J ?F1 ?xs (job_step J m)"
    using goes_begin_loop [OF f(1) m l(1)]
  proof
    assume "\<exists>vm. job_step J m = Finished MATCH_STACK_LIMIT vm"
    then obtain vm where "job_step J m = Finished MATCH_STACK_LIMIT vm" by blast
    then show ?thesis by (simp only: delivers_limit is_limit.simps)
  next
    assume "at_loop J (f_old F) ?i pc k vc ((f_ls F)[unat l := init_loop]) (?bt # f_es F) (job_step J m)"
    then have "loop_outcome J ?F1 pc k ?i l 0 0 (job_step J m)"
      using c l(1) by (auto simp: loop_outcome_def init_round)
    from deliver_loop [OF ok sup code imp f lr k _ _ this need] F show ?thesis by simp
  qed
  then have d: "delivers J ?F1 ?xs (Running m)" by (rule delivers_step)
  have "delivers J F (?xs @ []) (Running m)"
  proof (rule deliver_over [OF d refl])
    show "tidy J (f_open F) (f_caps F) (f_caps F) [?bt]" by (simp add: tidy_def)
    show "loopsrel (f_own F \<union> f_free F) (f_ls F) ((f_ls F)[unat l := init_loop])" using l(2) by (intro loopsrel_set) simp
    fix m' assume "back_with J F (f_caps F) ((f_ls F)[unat l := init_loop]) [?bt] m'"
    then obtain v ls' where b: "at_back J (f_old F) v ls' ([?bt] @ f_es F) m'" "capsrel J (f_open F) (f_caps F) v"
      "loopsrel (f_free F) ((f_ls F)[unat l := init_loop]) ls'" by (auto simp: back_with_def)
    have "unat l < length ls'" using b(3) l(1) by (simp add: loopsrel_def)
    then have "at_back J (f_old F) v (ls'[unat l := f_ls F ! unat l]) (f_es F) m'" using at_back_pop [OF b(1)] by simp
    from deliver_none [OF this b(2) loopsrel_reset [OF b(3) l(3)]]
    show "delivers J F [] (Running m')" .
  qed simp_all
  then show "delivers J F ?xs (Running m)" by simp
qed

end
