(* ===== verification/Regex_Engine.thy ===== *)
theory Regex_Engine
  imports Regex_Repeat
begin

text \<open>
  The engine as a whole: generated code implements the specification of its pattern, and the search
  over the start positions returns the match the specification finds.
\<close>

section \<open>Code in the layout of a pattern implements it\<close>

inductive_cases layout_EmptyE: "layout fwd EmptyNode pc mi is ms"
inductive_cases layout_alts_oneE: "layout_alts fwd [p] pc e mi is ms"

lemma layout_alts_empty:
  assumes "layout_alts fwd (q # rest) a e mi is ms" "\<not> (rest \<noteq> [] \<or> \<not> isa_EmptyNode q)"
  shows "isize is = 0"
proof -
  have e: "isa_EmptyNode q" "rest = []" using assms(2) by simp_all
  have q: "q = EmptyNode" using e(1) by (cases q) (simp_all add: isa_EmptyNode_def)
  from assms(1) [unfolded q e(2)] have "layout fwd EmptyNode a mi is ms" by (auto elim: layout_alts_oneE)
  then show ?thesis by (auto elim!: layout_EmptyE simp: isize_def)
qed

lemma inst_sizes:
  "inst_size (AltIns a) = 5" "inst_size (JumpIns a) = 5" "inst_size (BeginCaptureIns g) = 3"
  "inst_size (endcapture_inst fwd g) = 3" "inst_size (BeginLoopIns b l mn mx e) = 14" "inst_size (EndLoopIns a) = 5"
  "inst_size (BeginLookAroundIns b a) = 6" "inst_size EndLookAroundIns = 1" "inst_size (string_inst fwd x) = 3"
  by (simp_all add: inst_size_def encode_def endcapture_inst_def string_inst_def)

lemma layout_implements:
  assumes ok: "job_ok J"
  shows "layout fwd n pc mi is ms \<Longrightarrow>
      code_at J pc is \<longrightarrow> matchers_at J mi ms \<longrightarrow> jsupported J n \<longrightarrow> implements J fwd n pc (pc + isize is)"
    and "layout_seq fwd ps pc mi is ms \<Longrightarrow>
      code_at J pc is \<longrightarrow> matchers_at J mi ms \<longrightarrow> list_all (jsupported J) ps \<longrightarrow> length ps < 2 ^ 30 \<longrightarrow>
      seq_implements J fwd ps pc (pc + isize is)"
    and "layout_alts fwd ps pc e mi is ms \<Longrightarrow>
      code_at J pc is \<longrightarrow> matchers_at J mi ms \<longrightarrow> list_all (jsupported J) ps \<longrightarrow> ps \<noteq> [] \<longrightarrow> e = pc + isize is \<longrightarrow>
      alts_implements J fwd ps pc e"
proof (induction rule: layout_layout_seq_layout_alts.inducts)
  case (lay_empty fwd pc mi)
  then show ?case by (auto simp: implements_def entered_def intro: deliver_here)
next
  case (lay_leaf fwd n i pc mi)
  then show ?case using implements_leaf [OF ok] by simp
next
  case (lay_set mi fwd invert ic owned s pc)
  then show ?case using implements_set [OF ok] by simp
next
  case (lay_seqnode fwd ps pc mi "is" ms)
  show ?case
  proof (intro impI)
    assume c: "code_at J pc is" "matchers_at J mi ms" and sup: "jsupported J (SeqNode ps)"
    let ?ps = "if fwd then ps else rev ps"
    have "seq_implements J fwd ?ps pc (pc + isize is)" using lay_seqnode.IH c sup by (simp add: list_all_iff)
    moreover have "distinct (concat (map node_groups ?ps))" using sup distinct_concat_rev [of "map node_groups ps"] by (simp add: rev_map)
    moreover have "ready J F (SeqNode ?ps) \<longleftrightarrow> ready J F (SeqNode ps)" for F by (simp add: ready_def)
    ultimately show "implements J fwd (SeqNode ps) pc (pc + isize is)"
      unfolding implements_def seq_implements_def by simp
  qed
next
  case (lay_alt1 fwd p pc mi "is" ms)
  show ?case
  proof (intro impI)
    let ?a = "pc + 5 + isize is"
    assume c: "code_at J pc (AltIns (of_nat ?a) # is)" "matchers_at J mi ms" and sup: "jsupported J (AltNode [p])"
    have b: "?a \<le> length (regex_instSeq (jregex J))" using code_at_bound [OF c(1)] by (simp add: inst_sizes)
    have "implements J fwd p (pc + 5) ?a" using lay_alt1.IH code_at_Cons(2) [OF c(1)] c(2) sup by (simp add: inst_sizes)
    from implements_alt1 [OF ok this code_at_Cons(1) [OF c(1)] b]
    show "implements J fwd (AltNode [p]) pc (pc + isize (AltIns (of_nat ?a) # is))" by (simp add: inst_sizes add.assoc)
  qed
next
  case (lay_altn ps fwd pc "is" mi ms)
  show ?case
  proof (intro impI)
    assume c: "code_at J pc is" "matchers_at J mi ms" and sup: "jsupported J (AltNode ps)"
    have "alts_implements J fwd ps pc (pc + isize is)" using lay_altn.IH c sup by simp
    with lay_altn.hyps(1) show "implements J fwd (AltNode ps) pc (pc + isize is)"
      unfolding implements_def alts_implements_def by simp
  qed
next
  case (lay_group fwd p pc mi "is" ms index st us)
  show ?case
  proof (intro impI)
    let ?fin = "endcapture_inst fwd (of_nat index)"
    assume c: "code_at J pc (BeginCaptureIns (of_nat index) # is @ [?fin])" "matchers_at J mi ms"
      and sup: "jsupported J (GroupNode G_CAPTURE index st us p)"
    note c1 = code_at_Cons [OF c(1)]
    note c2 = code_at_append [OF c1(2)]
    have "implements J fwd p (pc + 3) (pc + 3 + isize is)" using lay_group.IH c2(1) c(2) sup by (simp add: inst_sizes)
    from implements_group [OF ok sup this c1(1)] code_at_Cons(1) [OF c2(2)]
    show "implements J fwd (GroupNode G_CAPTURE index st us p) pc (pc + isize (BeginCaptureIns (of_nat index) # is @ [?fin]))"
      by (simp add: inst_sizes add.assoc)
  qed
next
  case (lay_repeat fwd p pc fi la mi "is" ms l mn mx greedy)
  show ?case
  proof (intro impI)
    let ?pb = "pc + 14 + isize (reset_inst fi la)" and ?e = "pc + 14 + isize (reset_inst fi la) + isize is + 5"
    let ?code = "BeginLoopIns greedy l mn mx (of_nat ?e) # reset_inst fi la @ is @ [EndLoopIns (of_nat pc)]"
    assume c: "code_at J pc ?code" "matchers_at J mi ms" and sup: "jsupported J (RepeatNode l mn mx greedy fi la p)"
    note c1 = code_at_Cons [OF c(1), unfolded inst_sizes]
    note c2 = code_at_append [OF code_at_append(2) [OF c1(2)]]
    have "implements J fwd p ?pb (?pb + isize is)" using lay_repeat.IH c2(1) c(2) sup by simp
    from implements_repeat [OF ok sup c1(2) this c1(1)] code_at_Cons(1) [OF c2(2)] code_at_bound [OF c(1)]
    show "implements J fwd (RepeatNode l mn mx greedy fi la p) pc (pc + isize ?code)"
      by (simp add: inst_sizes add.assoc)
  qed
next
  case (lay_look t p pc mi "is" ms fwd)
  show ?case
  proof (intro impI)
    let ?a = "pc + 6 + isize is"
    let ?code = "BeginLookAroundIns (isNegate t) (of_nat ?a) # is @ [EndLookAroundIns]"
    assume c: "code_at J pc ?code" "matchers_at J mi ms" and sup: "jsupported J (LookAroundNode t p)"
    note c1 = code_at_Cons [OF c(1), unfolded inst_sizes]
    note c2 = code_at_append [OF c1(2)]
    have "implements J (isLookAhead t) p (pc + 6) ?a" using lay_look.IH c2(1) c(2) sup by simp
    from implements_look [OF ok sup this c1(1)] code_at_Cons(1) [OF c2(2)] code_at_bound [OF c(1)]
    show "implements J fwd (LookAroundNode t p) pc (pc + isize ?code)"
      by (simp add: inst_sizes ac_simps)
  qed
next
  case (lay_seq_nil fwd pc mi)
  then show ?case using seq_nil by simp
next
  case (lay_seq_run mi cs rest fwd pc "is" ms)
  show ?case
  proof (intro impI)
    let ?i = "string_inst fwd (of_nat mi)" and ?m = "mkStringMatcher (concat (map codePointToUtf8 (if fwd then cs else rev cs)))"
    assume c: "code_at J pc (?i # is)" "matchers_at J mi (?m # ms)"
      and sup: "list_all (jsupported J) (map CharNode cs @ rest)" "length (map CharNode cs @ rest) < 2 ^ 30"
    note c1 = code_at_Cons [OF c(1), unfolded inst_sizes]
    have rest: "seq_implements J fwd rest (pc + 3) (pc + 3 + isize is)"
      using lay_seq_run.IH c1(2) matchers_at_Cons(3) [OF c(2)] sup by simp
    have cs: "list_all isCodePoint cs" "length cs < 2 ^ 30"
      using sup by (auto simp: list_all_iff dest: bspec [of _ _ "CharNode _"])
    have m: "matchers_at J mi (mkStringMatcher (text_of (if fwd then cs else rev cs)) # ms)"
      using c(2) by (simp add: text_of_def)
    from seq_run [OF ok lay_seq_run.hyps(1) cs m c1(1) rest]
    show "seq_implements J fwd (map CharNode cs @ rest) pc (pc + isize (?i # is))"
      by (simp add: inst_sizes add.assoc)
  qed
next
  case (lay_seq_one p rest fwd pc mi "is" ms is' ms')
  show ?case
  proof (intro impI)
    assume c: "code_at J pc (is @ is')" "matchers_at J mi (ms @ ms')"
      and sup: "list_all (jsupported J) (p # rest)" "length (p # rest) < 2 ^ 30"
    have "implements J fwd p pc (pc + isize is)"
      using lay_seq_one.IH(1) code_at_append(1) [OF c(1)] matchers_at_append(1) [OF c(2)] sup by simp
    moreover have "seq_implements J fwd rest (pc + isize is) (pc + isize is + isize is')"
      using lay_seq_one.IH(2) code_at_append(2) [OF c(1)] matchers_at_append(2) [OF c(2)] sup by simp
    ultimately show "seq_implements J fwd (p # rest) pc (pc + isize (is @ is'))"
      using seq_one [of J p fwd pc "pc + isize is" rest] sup by (simp add: add.assoc)
  qed
next
  case (lay_alts_last fwd p pc mi "is" ms e)
  then show ?case using alts_last by simp
next
  case (lay_alts_more js rest q e fwd p pc mi "is" ms a is' ms')
  show ?case
  proof (intro impI)
    let ?code = "AltIns (of_nat a) # is @ js @ is'" and ?N = "length (regex_instSeq (jregex J))"
    assume c: "code_at J pc ?code" "matchers_at J mi (ms @ ms')" and sup: "list_all (jsupported J) (p # q # rest)"
      and e: "e = pc + isize ?code"
    note c1 = code_at_Cons [OF c(1), unfolded inst_sizes]
    note c2 = code_at_append [OF c1(2)]
    note c3 = code_at_append [OF c2(2)]
    have a: "a = pc + 5 + isize is + isize js" by (rule lay_alts_more.hyps)
    have ea: "e = a + isize is'" unfolding e a by (simp add: inst_sizes)
    have bound: "e \<le> ?N" "a \<le> ?N" using code_at_bound [OF c(1)] e ea by auto
    have first: "implements J fwd p (pc + 5) (pc + 5 + isize is)"
      using lay_alts_more.IH(1) c2(1) matchers_at_append(1) [OF c(2)] sup by simp
    have "code_at J a is'" using c3(2) by (simp add: a)
    then have more: "alts_implements J fwd (q # rest) a e"
      using lay_alts_more.IH(2) matchers_at_append(2) [OF c(2)] sup ea by simp
    have jump: "pc + 5 + isize is = e \<or> fetch (regex_instSeq (jregex J)) (pc + 5 + isize is) = Some (JumpIns (of_nat e)) \<and> e \<le> ?N"
    proof (cases "rest \<noteq> [] \<or> \<not> isa_EmptyNode q")
      case True
      then have "js = [JumpIns (of_nat e)]" using lay_alts_more.hyps(1) by simp
      then show ?thesis using c3(1) code_at_Cons(1) bound by auto
    next
      case False
      then show ?thesis using lay_alts_more.hyps(1) layout_alts_empty [OF lay_alts_more.hyps(4) False] ea a by simp
    qed
    show "alts_implements J fwd (p # q # rest) pc e"
      by (rule alts_more [OF ok first more c1(1) bound(2) jump])
  qed
qed simp_all

end
