(* ===== verification/Regex_First.thy ===== *)
theory Regex_First
  imports Regex_Engine
begin

text \<open>
  The prefilter is sound: a position whose byte is not in the set collected from the code of a
  pattern is not the start of a match. The scan follows the code, the proof follows the layout of
  the tree: a part of the pattern either fails at such a position, or leaves the position alone and
  the scan continues behind it.
\<close>

section \<open>Bit sets\<close>

definition bits_wf :: "FirstBitSet \<Rightarrow> bool" where
  "bits_wf s \<longleftrightarrow> length s = 256"

definition bits_sub :: "FirstBitSet \<Rightarrow> FirstBitSet \<Rightarrow> bool" where
  "bits_sub s t \<longleftrightarrow> bits_wf t \<and> (\<forall>b. bitset_test s b \<longrightarrow> bitset_test t b)"

lemma bits_sub_refl: "bits_wf s \<Longrightarrow> bits_sub s s"
  by (simp add: bits_sub_def)

lemma bits_sub_trans: "bits_sub s t \<Longrightarrow> bits_sub t u \<Longrightarrow> bits_sub s u"
  by (simp add: bits_sub_def)

lemma bits_set:
  assumes "bits_wf s"
  shows "bits_wf (bitset_set s b)" "bitset_test (bitset_set s b) b' \<longleftrightarrow> b' = b \<or> bitset_test s b'"
proof -
  have "unat b < 256" "unat b' < 256" using unsigned_less [of b] unsigned_less [of b'] by simp_all
  then show "bits_wf (bitset_set s b)" "bitset_test (bitset_set s b) b' \<longleftrightarrow> b' = b \<or> bitset_test s b'"
    using assms by (auto simp: bits_wf_def bitset_set_def bitset_test_def nth_list_update word_unat_eq_iff)
qed

lemma fold_bits:
  assumes "\<forall>s x. bits_wf s \<longrightarrow> bits_wf (f s x) \<and> (\<forall>b. bitset_test (f s x) b \<longleftrightarrow> bitset_test s b \<or> P x b)" "bits_wf s"
  shows "bits_wf (foldl f s xs)" "bitset_test (foldl f s xs) b \<longleftrightarrow> bitset_test s b \<or> (\<exists>x\<in>set xs. P x b)"
proof -
  have "bits_wf (foldl f s xs) \<and> (bitset_test (foldl f s xs) b \<longleftrightarrow> bitset_test s b \<or> (\<exists>x\<in>set xs. P x b))"
    using assms(2)
  proof (induction xs arbitrary: s)
    case (Cons x xs)
    have "bits_wf (f s x)" "bitset_test (f s x) b \<longleftrightarrow> bitset_test s b \<or> P x b" using assms(1) Cons.prems by auto
    with Cons.IH [OF this(1)] show ?case by auto
  qed simp
  then show "bits_wf (foldl f s xs)" "bitset_test (foldl f s xs) b \<longleftrightarrow> bitset_test s b \<or> (\<exists>x\<in>set xs. P x b)" by auto
qed

text \<open>The first bytes of the code points that a test for \<open>c\<close> accepts.\<close>

definition covers :: "unicode_env \<Rightarrow> bool \<Rightarrow> int \<Rightarrow> byte \<Rightarrow> bool" where
  "covers env fld c b \<longleftrightarrow> b = first_byte c \<or> (fld \<and> (\<exists>e\<in>set (simpleUnfold env c). b = first_byte e))"

lemma fill_codePoint_bits:
  assumes "bits_wf s"
  shows "bits_wf (fill_codePoint env c s fld) \<and>
    (\<forall>b. bitset_test (fill_codePoint env c s fld) b \<longleftrightarrow> bitset_test s b \<or> covers env fld c b)"
proof -
  have st: "\<forall>t e. bits_wf t \<longrightarrow> bits_wf (bitset_set t (first_byte e)) \<and>
      (\<forall>b. bitset_test (bitset_set t (first_byte e)) b \<longleftrightarrow> bitset_test t b \<or> b = first_byte e)"
    using bits_set by auto
  have "bits_wf (bitset_set s (first_byte c))" using bits_set(1) [OF assms] .
  note f = fold_bits [where f = "\<lambda>s e. bitset_set s (first_byte e)" and P = "\<lambda>e b. b = first_byte e", OF st this]
  then show ?thesis using bits_set(2) [OF assms] by (auto simp: fill_codePoint_def covers_def)
qed

lemma fill_points_bits:
  assumes "bits_wf s"
  shows "bits_wf (foldl (\<lambda>s c. fill_codePoint env c s fld) s cs)"
    "bitset_test (foldl (\<lambda>s c. fill_codePoint env c s fld) s cs) b \<longleftrightarrow> bitset_test s b \<or> (\<exists>c\<in>set cs. covers env fld c b)"
proof -
  have st: "\<forall>t c. bits_wf t \<longrightarrow> bits_wf (fill_codePoint env c t fld) \<and>
      (\<forall>b. bitset_test (fill_codePoint env c t fld) b \<longleftrightarrow> bitset_test t b \<or> covers env fld c b)"
    using fill_codePoint_bits by blast
  show "bits_wf (foldl (\<lambda>s c. fill_codePoint env c s fld) s cs)"
    "bitset_test (foldl (\<lambda>s c. fill_codePoint env c s fld) s cs) b \<longleftrightarrow> bitset_test s b \<or> (\<exists>c\<in>set cs. covers env fld c b)"
    using fold_bits [OF st assms] by auto
qed

lemma fill_set_bits:
  assumes "bits_wf s"
  shows "bits_wf (fill_set env r s fld)"
    "bitset_test (fill_set env r s fld) b \<longleftrightarrow> bitset_test s b \<or> (\<exists>c\<in>set_points r. covers env fld c b)"
proof -
  have st: "\<forall>t x. bits_wf t \<longrightarrow> bits_wf (fill_range env fld t x) \<and>
      (\<forall>b. bitset_test (fill_range env fld t x) b \<longleftrightarrow> bitset_test t b \<or> (\<exists>c\<in>{fst x..snd x}. covers env fld c b))"
    using fill_points_bits [of _ env fld] by (simp add: fill_range_def)
  note f = fold_bits [where f = "fill_range env fld" and P = "\<lambda>x b. \<exists>c\<in>{fst x..snd x}. covers env fld c b", OF st assms]
  show "bits_wf (fill_set env r s fld)" unfolding fill_set_def by (rule f(1))
  show "bitset_test (fill_set env r s fld) b \<longleftrightarrow> bitset_test s b \<or> (\<exists>c\<in>set_points r. covers env fld c b)"
    unfolding fill_set_def f(2) by (simp add: set_points_def bex_Un) blast
qed

lemma mkAsciiMatcher_type: "matcher_type (mkAsciiMatcher a) = Some ASCII"
proof -
  have "(ascii_first a AND NOT 0xFF) AND 0xFF = 0" by (rule bit_word_eqI) (auto simp: bit_simps)
  then show ?thesis by (simp add: matcher_type_def mkAsciiMatcher_def)
qed

lemma fill_matcher_wf: "bits_wf s \<Longrightarrow> bits_wf (fill_matcher env m s fld)"
  using fill_points_bits(1) fill_set_bits(1) by (simp add: fill_matcher_def fill_ascii_def)

lemma fill_matcher_mono: "bits_wf s \<Longrightarrow> bitset_test s b \<Longrightarrow> bitset_test (fill_matcher env m s fld) b"
  using fill_points_bits(2) fill_set_bits(2) by (simp add: fill_matcher_def fill_ascii_def)

lemma fill_charset:
  assumes "bits_wf s" "set_wf r" "set_fits r" "set_contains r c" "covers env fld c b"
  shows "bitset_test (fill_matcher env (charset_matcher owned r) s fld) b"
proof (cases "matcher_type (charset_matcher owned r) = Some ASCII")
  case True
  have "matcher_contains (charset_matcher owned r) c" using charset_contains_aux [OF assms(2,3)] assms(4) by simp
  then have a: "ascii_contains (asAsciiSet (charset_matcher owned r)) c" using True by (simp add: matcher_contains_def)
  then have "0 \<le> c" "c \<le> 127" using ascii_out by force+
  with a show ?thesis using True assms(5) fill_points_bits(2) [OF assms(1)] by (auto simp: fill_matcher_def fill_ascii_def)
next
  case False
  then have "charset_matcher owned r = mkSetMatcher owned r"
    using mkAsciiMatcher_type by (auto simp: charset_matcher_def split: option.splits)
  moreover have "c \<in> set_points r" using set_contains_iff_aux [OF assms(2)] assms(4) by simp
  ultimately show ?thesis
    using False mkSetMatcher_ref(1) [OF assms(3)] fill_set_bits(2) [OF assms(1)] assms(5) by (auto simp: fill_matcher_def)
qed

section \<open>The scan\<close>

definition scan :: "job \<Rightarrow> nat \<Rightarrow> nat \<Rightarrow> FirstBitSet \<Rightarrow> FirstBitSet \<Rightarrow> bool" where
  "scan J pc e s t \<longleftrightarrow> bits_wf s \<and>
     (\<exists>fuel. collect fuel (jenv J) (regex_instSeq (jregex J)) (regex_matchers (jregex J)) pc e s = Some (True, t))"

abbreviation jcollect_inst :: "job \<Rightarrow> nat \<Rightarrow> FirstBitSet \<Rightarrow> inst \<Rightarrow> collect_step" where
  "jcollect_inst J pc s i \<equiv> collect_inst (jenv J) (regex_matchers (jregex J)) pc s i"

lemma scan_end: "\<not> scan J pc pc s t"
proof
  assume "scan J pc pc s t"
  then obtain fuel where "collect fuel (jenv J) (regex_instSeq (jregex J)) (regex_matchers (jregex J)) pc pc s = Some (True, t)"
    by (auto simp: scan_def)
  then show False by (cases fuel) simp_all
qed

text \<open>One instruction of the scan.\<close>

lemma scan_inst:
  assumes "scan J pc e s t" "fetch (regex_instSeq (jregex J)) pc = Some i"
  shows "case jcollect_inst J pc s i of
      CPass \<Rightarrow> scan J (pc + inst_size i) e s t
    | CDone r s' \<Rightarrow> r \<and> t = s'
    | CGoto a s' \<Rightarrow> bits_wf s' \<longrightarrow> scan J a e s' t
    | CBranch a \<Rightarrow> \<exists>s'. scan J (pc + inst_size i) a s s' \<and> (bits_wf s' \<longrightarrow> scan J a e s' t)
    | CBody a \<Rightarrow> scan J (pc + inst_size i) a s t"
proof -
  from assms(1) obtain fuel where wf: "bits_wf s"
    and f: "collect fuel (jenv J) (regex_instSeq (jregex J)) (regex_matchers (jregex J)) pc e s = Some (True, t)"
    by (auto simp: scan_def)
  then obtain n where n: "fuel = Suc n" "pc \<noteq> e" by (cases fuel) (auto split: if_splits)
  from f [unfolded n(1)] n(2) assms(2) wf show ?thesis
    by (auto simp: scan_def split: collect_step.splits option.splits bool.splits prod.splits)
qed

lemma fill_string_bits:
  assumes "bits_wf s"
  shows "bits_wf (fill_string env r s fld)" "bitset_test s b \<Longrightarrow> bitset_test (fill_string env r s fld) b"
  using fill_codePoint_bits [OF assms] by (auto simp: fill_string_def)

lemma fold_sub:
  assumes "\<And>s x. bits_wf s \<Longrightarrow> bits_sub s (f s x)" "bits_wf s"
  shows "bits_sub s (foldl f s xs)"
  using assms(2)
proof (induction xs arbitrary: s)
  case (Cons x xs)
  have "bits_sub s (f s x)" by (rule assms(1) [OF Cons.prems])
  moreover from this Cons.IH have "bits_sub (f s x) (foldl f (f s x) xs)" by (simp add: bits_sub_def)
  ultimately show ?case using bits_sub_trans by simp
qed (simp add: bits_sub_refl)

lemma fill_string_sub: "bits_wf s \<Longrightarrow> bits_sub s (fill_string env r s fld)"
  using fill_string_bits by (simp add: bits_sub_def)

lemma collect_inst_sub:
  fixes J :: job
  assumes "bits_wf s"
  shows "case jcollect_inst J pc s i of CDone r s' \<Rightarrow> bits_sub s s' | CGoto a s' \<Rightarrow> bits_sub s s' | _ \<Rightarrow> True"
proof -
  have p: "bits_sub s (fill_codePoint (jenv J) c s fld)" for c fld using fill_codePoint_bits [OF assms] by (simp add: bits_sub_def)
  have m: "bits_sub s (fill_matcher (jenv J) x s fld)" for x fld
    using fill_matcher_wf [OF assms] fill_matcher_mono [OF assms] by (simp add: bits_sub_def)
  have e: "bits_sub u (fill_emoji (jenv J) emoji u fld)" if "bits_wf u" for emoji fld u
    unfolding fill_emoji_def
    by (rule fold_sub [OF _ that]) (auto intro: fill_string_sub bits_sub_refl split: prod.splits)
  have r: "bits_sub u (fill_radix (jenv J) radix u fld)" if "bits_wf u" for radix fld u
    unfolding fill_radix_def
    by (rule fold_sub [OF _ that]) (auto intro: fill_string_sub split: prod.splits)
  have er: "bits_sub s (fill_radix (jenv J) radix (fill_emoji (jenv J) emoji s fld) fld')" for radix emoji fld fld'
    using e [OF assms] r bits_sub_trans unfolding bits_sub_def by blast
  show ?thesis
    using p m e [OF assms] r [OF assms] er fill_string_sub [OF assms] bits_sub_refl [OF assms]
    by (cases i) (simp_all add: collect_inst_def Let_def)
qed

lemma collect_sub:
  fixes J :: job
  shows "collect fuel (jenv J) (regex_instSeq (jregex J)) (regex_matchers (jregex J)) pc e s = Some (r, t) \<Longrightarrow> bits_wf s \<Longrightarrow> bits_sub s t"
proof (induction fuel arbitrary: pc e s r t)
  case (Suc fuel)
  show ?case
  proof (cases "pc = e")
    case True
    then show ?thesis using Suc.prems bits_sub_refl by simp
  next
    case False
    then obtain i where i: "fetch (regex_instSeq (jregex J)) pc = Some i" using Suc.prems by (auto split: option.splits)
    note sub = collect_inst_sub [OF Suc.prems(2), of J pc i]
    show ?thesis
    proof (cases "jcollect_inst J pc s i")
      case (CDone r' s')
      then show ?thesis using Suc.prems False i sub by simp
    next
      case (CGoto a s')
      then have s': "bits_sub s s'" "bits_wf s'" using sub by (simp_all add: bits_sub_def)
      from CGoto have "collect fuel (jenv J) (regex_instSeq (jregex J)) (regex_matchers (jregex J)) a e s' = Some (r, t)"
        using Suc.prems False i by simp
      from Suc.IH [OF this s'(2)] s'(1) show ?thesis using bits_sub_trans by blast
    next
      case (CBranch a)
      obtain r1 s1 where 1: "collect fuel (jenv J) (regex_instSeq (jregex J)) (regex_matchers (jregex J)) (pc + inst_size i) a s = Some (r1, s1)"
        using Suc.prems False i CBranch by (auto split: option.splits)
      note sub1 = Suc.IH [OF 1 Suc.prems(2)]
      then have "bits_wf s1" by (simp add: bits_sub_def)
      with Suc.prems False i CBranch 1 sub1 show ?thesis
        using Suc.IH [of a e s1 r t] bits_sub_trans by (cases r1) auto
    qed (use Suc False i in auto)
  qed
qed simp

lemma scan_sub: "scan J pc e s t \<Longrightarrow> bits_sub s t"
  using collect_sub by (auto simp: scan_def)

lemma scan_wf: "scan J pc e s t \<Longrightarrow> bits_wf s \<and> bits_wf t"
  using scan_sub [of J pc e s t] by (auto simp: scan_def bits_sub_def)

section \<open>Soundness of the scan\<close>

definition avoids :: "job \<Rightarrow> FirstBitSet \<Rightarrow> nat \<Rightarrow> bool" where
  "avoids J t k \<longleftrightarrow> (k < length (jcps J) \<longrightarrow> \<not> bitset_test t (first_byte (jcps J ! k)))"

lemma avoids_sub: "bits_sub s t \<Longrightarrow> avoids J t k \<Longrightarrow> avoids J s k"
  by (auto simp: avoids_def bits_sub_def)

text \<open>The unfolding of a code point lists what folds to it.\<close>

definition unfold_complete :: "unicode_env \<Rightarrow> bool" where
  "unfold_complete env \<longleftrightarrow> (\<forall>x. x = simpleFold env x \<or> x \<in> set (simpleUnfold env (simpleFold env x)))"

lemma covers_fold: "unfold_complete env \<Longrightarrow> covers env True (simpleFold env x) (first_byte x)"
  unfolding unfold_complete_def covers_def by metis

lemma covers_self: "covers env fld x (first_byte x)"
  by (simp add: covers_def)

text \<open>The collected bytes start a code point; none of them is a continuation byte.\<close>

definition bits_lead :: "FirstBitSet \<Rightarrow> bool" where
  "bits_lead s \<longleftrightarrow> (\<forall>b. bitset_test s b \<longrightarrow> utf8ByteSize b \<noteq> 0)"

definition unfold_ok :: "unicode_env \<Rightarrow> bool" where
  "unfold_ok env \<longleftrightarrow> unfold_complete env \<and> (\<forall>c. isCodePoint c \<longrightarrow> list_all isCodePoint (simpleUnfold env c))"

lemma covers_lead:
  assumes "unfold_ok env" "isCodePoint c" "covers env fld c b"
  shows "utf8ByteSize b \<noteq> 0"
proof -
  from assms obtain d where "isCodePoint d" "b = first_byte d"
    by (auto simp: covers_def unfold_ok_def list_all_iff)
  then show ?thesis using byteSize_encoded(1) [of d] encode_nonempty [of d] by (simp add: first_byte_def)
qed

definition filtered :: "job \<Rightarrow> (mstate \<Rightarrow> mstate list) \<Rightarrow> nat \<Rightarrow> nat \<Rightarrow> bool" where
  "filtered J f pc pc' \<longleftrightarrow> (\<forall>e s t. scan J pc e s t \<longrightarrow>
     (bits_lead s \<longrightarrow> bits_lead t) \<and> (\<forall>k c. avoids J t k \<longrightarrow> f (k, c) = []) \<or>
     ((\<exists>s1. scan J pc' e s1 t \<and> (bits_lead s \<longrightarrow> bits_lead s1)) \<and> (\<forall>k c k' c'. avoids J t k \<longrightarrow> (k', c') \<in> set (f (k, c)) \<longrightarrow> k' = k)))"

lemma filteredI:
  assumes "\<And>e s t. scan J pc e s t \<Longrightarrow> (bits_lead s \<longrightarrow> bits_lead t) \<and> (\<forall>k c. avoids J t k \<longrightarrow> f (k, c) = []) \<or>
     ((\<exists>s1. scan J pc' e s1 t \<and> (bits_lead s \<longrightarrow> bits_lead s1)) \<and> (\<forall>k c k' c'. avoids J t k \<longrightarrow> (k', c') \<in> set (f (k, c)) \<longrightarrow> k' = k))"
  shows "filtered J f pc pc'"
  using assms by (simp add: filtered_def)

lemma filteredE:
  assumes "filtered J f pc pc'" "scan J pc e s t"
  obtains (fails) "\<And>k c. avoids J t k \<Longrightarrow> f (k, c) = []" "bits_lead s \<Longrightarrow> bits_lead t"
    | (stays) s1 where "scan J pc' e s1 t" "\<And>k c k' c'. avoids J t k \<Longrightarrow> (k', c') \<in> set (f (k, c)) \<Longrightarrow> k' = k"
        "bits_lead s \<Longrightarrow> bits_lead s1"
  using assms unfolding filtered_def by blast

lemma filtered_pass:
  assumes "fetch (regex_instSeq (jregex J)) pc = Some i" "\<And>s. jcollect_inst J pc s i = CPass"
    "\<And>k c k' c'. (k', c') \<in> set (f (k, c)) \<Longrightarrow> k' = k"
  shows "filtered J f pc (pc + inst_size i)"
proof (rule filteredI)
  fix e s t assume "scan J pc e s t"
  from scan_inst [OF this assms(1)] assms(2,3)
  show "(bits_lead s \<longrightarrow> bits_lead t) \<and> (\<forall>k c. avoids J t k \<longrightarrow> f (k, c) = []) \<or>
     ((\<exists>s1. scan J (pc + inst_size i) e s1 t \<and> (bits_lead s \<longrightarrow> bits_lead s1)) \<and> (\<forall>k c k' c'. avoids J t k \<longrightarrow> (k', c') \<in> set (f (k, c)) \<longrightarrow> k' = k))"
    by auto
qed

lemma filtered_done:
  assumes "fetch (regex_instSeq (jregex J)) pc = Some i"
    "\<And>s. bits_wf s \<Longrightarrow> \<exists>r t. jcollect_inst J pc s i = CDone r t \<and>
       (r \<longrightarrow> (bits_lead s \<longrightarrow> bits_lead t) \<and> (\<forall>k c. avoids J t k \<longrightarrow> f (k, c) = []))"
  shows "filtered J f pc pc'"
proof (rule filteredI)
  fix e s t assume sc: "scan J pc e s t"
  then have "bits_wf s" by (simp add: scan_def)
  with scan_inst [OF sc assms(1)] assms(2) [of s]
  show "(bits_lead s \<longrightarrow> bits_lead t) \<and> (\<forall>k c. avoids J t k \<longrightarrow> f (k, c) = []) \<or>
     ((\<exists>s1. scan J pc' e s1 t \<and> (bits_lead s \<longrightarrow> bits_lead s1)) \<and> (\<forall>k c k' c'. avoids J t k \<longrightarrow> (k', c') \<in> set (f (k, c)) \<longrightarrow> k' = k))"
    by auto
qed

lemma one_sem_avoids:
  assumes "avoids J t k" "\<And>x. P x \<Longrightarrow> bitset_test t (first_byte x)"
  shows "one_sem (jcps J) True P (k, c) = []"
  using assms by (auto simp: one_sem_def avoids_def)

lemma fill_avoids:
  assumes "bits_wf s" "avoids J (fill_codePoint env ch s fld) k" "\<And>x. P x \<Longrightarrow> covers env fld ch (first_byte x)"
  shows "one_sem (jcps J) True P (k, c) = []"
  by (rule one_sem_avoids [OF assms(2)]) (use fill_codePoint_bits [OF assms(1)] assms(3) in blast)

lemma fill_lead:
  assumes "unfold_ok env" "bits_wf s" "isCodePoint c" "bits_lead s"
  shows "bits_lead (fill_codePoint env c s fld)"
  using fill_codePoint_bits [OF assms(2)] covers_lead [OF assms(1,3)] assms(4) by (auto simp: bits_lead_def)

lemma filtered_leaf:
  assumes env: "unfold_ok (jenv J)" and i: "leaf_inst True n = Some i" and sup: "jsupported J n"
    and f: "fetch (regex_instSeq (jregex J)) pc = Some i"
  shows "filtered J (jsem J True n) pc (pc + inst_size i)"
proof -
  have uc: "unfold_complete (jenv J)" using env by (simp add: unfold_ok_def)
  show ?thesis
  proof (cases n)
    case (BoundaryNode ty md)
    with i have ii: "i = boundary_inst ty md" by simp
    show ?thesis
    proof (cases "ty = B_START \<or> ty = B_END")
      case True
      then show ?thesis using f ii BoundaryNode
        by (intro filtered_done [OF f]) (auto simp: boundary_inst_def collect_inst_def split: if_splits)
    next
      case False
      then have "jcollect_inst J pc s i = CPass" for s unfolding ii
        by (cases ty) (auto simp: boundary_inst_def collect_inst_def split: if_splits)
      then show ?thesis unfolding BoundaryNode by (intro filtered_pass [OF f]) (auto split: if_splits)
    qed
  next
    case (AnyNode md)
    then show ?thesis using i by (intro filtered_done [OF f]) (auto simp: any_inst_def collect_inst_def Let_def split: if_splits)
  next
    case (CharNode ch)
    then have ii: "i = CharIns (word_of_int ch)" "isCodePoint ch" using i sup by (simp_all add: char_inst_def)
    have c: "jcollect_inst J pc s i = CDone True (fill_codePoint (jenv J) ch s False)" for s
      using ii by (simp add: collect_inst_def sint_code_point)
    show ?thesis unfolding CharNode sem.simps
      by (rule filtered_done [OF f], intro exI conjI impI allI, rule c)
        (use fill_lead [OF env _ ii(2)] in blast, erule (1) fill_avoids, simp add: covers_self)
  next
    case (FoldCharNode ch)
    then have ii: "i = ICharIns (word_of_int ch)" "isCodePoint ch" using i sup by (simp_all add: foldchar_inst_def)
    have c: "jcollect_inst J pc s i = CDone True (fill_codePoint (jenv J) ch s True)" for s
      using ii by (simp add: collect_inst_def sint_code_point)
    show ?thesis unfolding FoldCharNode sem.simps
      by (rule filtered_done [OF f], intro exI conjI impI allI, rule c)
        (use fill_lead [OF env _ ii(2)] in blast, erule (1) fill_avoids, use covers_fold [OF uc] in blast)
  next
    case (BackRefNode name index ic)
    then show ?thesis using i by (intro filtered_done [OF f]) (auto simp: backref_inst_def collect_inst_def split: if_splits)
  qed (use i sup in \<open>auto split: if_splits\<close>)
qed

lemma set_points_range:
  assumes "set_wf r" "set_in_range r" "c \<in> set_points r"
  shows "isCodePoint c"
proof -
  have b: "0 \<le> uint (firstBMP x)" "uint (lastBMP x) < 65536" for x :: BMPCodePointRange
    using unsigned_less [of "lastBMP x", where ?'a = int] by simp_all
  from assms(3) consider x where "x \<in> set (getBMPRanges r)" "uint (firstBMP x) \<le> c" "c \<le> uint (lastBMP x)"
    | x where "x \<in> set (getPackedNonBMPRanges r)" "packedFirst x \<le> c" "c \<le> packedLast x"
    | x where "x \<in> set (getNonBMPRanges r)" "firstNonBMP x \<le> c" "c \<le> lastNonBMP x"
    by (auto simp: set_points_def)
  then show ?thesis
  proof cases
    case 1
    have "0 \<le> c" using order.trans [OF b(1) 1(2)] .
    moreover have "c \<le> 0x10FFFF" using b(2) [of x] 1(3) by linarith
    ultimately show ?thesis by (simp add: code_point_defs)
  qed (use assms(1,2) in \<open>auto simp: set_wf_def set_in_range_def list_all_iff isCodePoint_def dest!: bspec\<close>)
qed

lemma fill_charset_lead:
  assumes env: "unfold_ok (jenv J)" and wf: "bits_wf s" and sup: "jsupported J (CharSetNode iv ic owned r)" and "bits_lead s"
  shows "bits_lead (fill_matcher (jenv J) (charset_matcher owned r) s ic)"
proof (cases "matcher_type (charset_matcher owned r) = Some ASCII")
  case True
  have "utf8ByteSize b \<noteq> 0" if "0 \<le> c" "c \<le> 127" "covers (jenv J) ic c b" for c b
    using covers_lead [OF env _ that(3)] that(1,2) by (simp add: code_point_defs)
  with True show ?thesis
    using fill_points_bits(2) [OF wf, of "jenv J" ic] assms(4)
    by (auto simp: fill_matcher_def fill_ascii_def bits_lead_def)
next
  case False
  then have m: "charset_matcher owned r = mkSetMatcher owned r"
    using mkAsciiMatcher_type by (auto simp: charset_matcher_def split: option.splits)
  have r: "set_fits r" "\<And>c. c \<in> set_points r \<Longrightarrow> isCodePoint c" using sup set_points_range by auto
  from False show ?thesis
    using m mkSetMatcher_ref(1) [OF r(1)] fill_set_bits(2) [OF wf, of "jenv J" r ic] assms(4) covers_lead [OF env r(2)]
    by (auto simp: fill_matcher_def bits_lead_def)
qed

lemma filtered_charset:
  assumes env: "unfold_ok (jenv J)" and sup: "jsupported J (CharSetNode iv ic owned r)" and mi: "mi \<le> 0xFFFF"
    and f: "fetch (regex_instSeq (jregex J)) pc = Some (charset_inst True iv ic (of_nat mi))"
    and ms: "matchers_at J mi [charset_matcher owned r]"
  shows "filtered J (jsem J True (CharSetNode iv ic owned r)) pc pc'"
proof (rule filtered_done [OF f])
  fix s assume wf: "bits_wf s"
  have mi': "unat (of_nat mi :: u16) = mi" using mi by (simp add: unat_of_nat)
  note m = matchers_at_Cons(2) [OF ms]
  let ?t = "fill_matcher (jenv J) (charset_matcher owned r) s ic"
  have c: "jcollect_inst J pc s (charset_inst True iv ic (of_nat mi)) = (if iv then CDone False s else CDone True ?t)"
    using m by (simp add: collect_inst_def charset_inst_def mi')
  have "covers (jenv J) ic (if ic then simpleFold (jenv J) x else x) (first_byte x)" for x
    using covers_fold covers_self env by (cases ic) (auto simp: unfold_ok_def)
  then have "bitset_test ?t (first_byte x)" if "set_contains r (if ic then simpleFold (jenv J) x else x)" for x
    using fill_charset [OF wf _ _ that] sup by simp
  then have "jsem J True (CharSetNode False ic owned r) (k, c) = []" if "avoids J ?t k" for k c
    unfolding sem.simps by (intro one_sem_avoids [OF that]) simp
  moreover have "bits_lead ?t" if "bits_lead s" by (rule fill_charset_lead [OF env wf sup that])
  ultimately show "\<exists>q t. jcollect_inst J pc s (charset_inst True iv ic (of_nat mi)) = CDone q t \<and>
      (q \<longrightarrow> (bits_lead s \<longrightarrow> bits_lead t) \<and> (\<forall>k c. avoids J t k \<longrightarrow> jsem J True (CharSetNode iv ic owned r) (k, c) = []))"
    using c by (cases iv) auto
qed

section \<open>Composition\<close>

lemma filtered_bind:
  assumes "filtered J f pc pc1" "filtered J g pc1 pc2"
  shows "filtered J (\<lambda>st. concat (map g (f st))) pc pc2"
proof (rule filteredI)
  fix e s t assume "scan J pc e s t"
  from assms(1) this
  show "(bits_lead s \<longrightarrow> bits_lead t) \<and> (\<forall>k c. avoids J t k \<longrightarrow> concat (map g (f (k, c))) = []) \<or>
     ((\<exists>s1. scan J pc2 e s1 t \<and> (bits_lead s \<longrightarrow> bits_lead s1)) \<and> (\<forall>k c k' c'. avoids J t k \<longrightarrow> (k', c') \<in> set (concat (map g (f (k, c)))) \<longrightarrow> k' = k))"
  proof (cases rule: filteredE)
    case fails
    then show ?thesis by simp
  next
    case (stays s1)
    note f = stays(2) and l = stays(3)
    from assms(2) stays(1) show ?thesis
    proof (cases rule: filteredE)
      case fails
      have "concat (map g (f (k, c))) = []" if k: "avoids J t k" for k c
      proof -
        have "g r = []" if "r \<in> set (f (k, c))" for r
          using f [OF k, of "fst r" "snd r" c] fails(1) [OF k, of "snd r"] that by (cases r) simp
        then show ?thesis by simp
      qed
      then show ?thesis using fails(2) l by blast
    next
      case (stays s2)
      have "k' = k" if k: "avoids J t k" and r: "(k', c') \<in> set (concat (map g (f (k, c))))" for k c k' c'
      proof -
        from r obtain k1 c1 where 1: "(k1, c1) \<in> set (f (k, c))" "(k', c') \<in> set (g (k1, c1))" by auto
        with f [OF k 1(1)] stays(2) [of k k' c' c1] k show ?thesis by simp
      qed
      with stays(1,3) l show ?thesis by blast
    qed
  qed
qed

lemma filtered_positions:
  assumes "filtered J f pc pc'" "\<And>k c. fst ` set (g (k, c)) \<subseteq> fst ` set (f (k, c))"
  shows "filtered J g pc pc'"
proof (rule filteredI)
  fix e s t assume "scan J pc e s t"
  from assms(1) this
  show "(bits_lead s \<longrightarrow> bits_lead t) \<and> (\<forall>k c. avoids J t k \<longrightarrow> g (k, c) = []) \<or>
     ((\<exists>s1. scan J pc' e s1 t \<and> (bits_lead s \<longrightarrow> bits_lead s1)) \<and> (\<forall>k c k' c'. avoids J t k \<longrightarrow> (k', c') \<in> set (g (k, c)) \<longrightarrow> k' = k))"
  proof (cases rule: filteredE)
    case fails
    have "g (k, c) = []" if "avoids J t k" for k c
      using assms(2) [where k = k and c = c] fails(1) [OF that, of c] by (cases "g (k, c)") auto
    with fails(2) show ?thesis by blast
  next
    case (stays s1)
    have "k' = k" if k: "avoids J t k" and r: "(k', c') \<in> set (g (k, c))" for k c k' c'
    proof -
      have "k' \<in> fst ` set (g (k, c))" using r by force
      with assms(2) [where k = k and c = c] obtain c1 where "(k', c1) \<in> set (f (k, c))" by auto
      with stays(2) [OF k] show ?thesis by blast
    qed
    with stays(1,3) show ?thesis by blast
  qed
qed

lemma filtered_skip:
  assumes "fetch (regex_instSeq (jregex J)) pc = Some i" "\<And>s. jcollect_inst J pc s i = CPass"
  shows "filtered J (\<lambda>st. [st]) pc (pc + inst_size i)"
  by (rule filtered_pass [OF assms]) simp

lemma filtered_here: "filtered J (\<lambda>st. [st]) pc pc"
  by (rule filteredI) auto

text \<open>A branch is scanned up to the next one, and must be decided before it ends.\<close>

lemma filtered_branch:
  assumes f: "fetch (regex_instSeq (jregex J)) pc = Some (AltIns (of_nat a))" "unat (of_nat a :: u32) = a"
    and p: "filtered J f (pc + 5) pc1"
    and a: "pc1 = a \<or> a = pc1 + 5 \<and> fetch (regex_instSeq (jregex J)) pc1 = Some (JumpIns x)"
    and sc: "scan J pc e s t"
  shows "(\<exists>s1. scan J a e s1 t \<and> (bits_lead s \<longrightarrow> bits_lead s1)) \<and> (\<forall>k c. avoids J t k \<longrightarrow> f (k, c) = [])"
proof -
  have "jcollect_inst J pc s (AltIns (of_nat a)) = CBranch a" using f(2) by (simp add: collect_inst_def)
  with scan_inst [OF sc f(1)] obtain s1 where 1: "scan J (pc + 5) a s s1" "bits_wf s1 \<longrightarrow> scan J a e s1 t"
    by (auto simp: inst_sizes)
  have 2: "scan J a e s1 t" using 1 scan_wf by blast
  have out: "\<not> scan J pc1 a u v" for u v
    using a
  proof
    assume j: "a = pc1 + 5 \<and> fetch (regex_instSeq (jregex J)) pc1 = Some (JumpIns x)"
    show ?thesis
    proof
      assume "scan J pc1 a u v"
      from scan_inst [OF this conjunct2 [OF j]] have "scan J (pc1 + 5) a u v" by (simp add: collect_inst_def inst_sizes)
      with j scan_end show False by simp
    qed
  qed (simp add: scan_end)
  from p 1(1) have "(bits_lead s \<longrightarrow> bits_lead s1) \<and> (\<forall>k c. avoids J s1 k \<longrightarrow> f (k, c) = [])"
    by (cases rule: filteredE) (use out in auto)
  then show ?thesis using 2 avoids_sub [OF scan_sub [OF 2]] by blast
qed

lemma filtered_string:
  assumes env: "unfold_ok (jenv J)" and cs: "list_all isCodePoint cs" "cs \<noteq> []" and mi: "mi \<le> 0xFFFF" and small: "length (text_of cs) < 2 ^ 32"
    and f: "fetch (regex_instSeq (jregex J)) pc = Some (StringIns (of_nat mi))"
    and ms: "matchers_at J mi (mkStringMatcher (text_of cs) # ms)"
  shows "filtered J (seq_sem (map (jsem J True) (map CharNode cs))) pc pc'"
proof (rule filtered_done [OF f])
  fix s assume wf: "bits_wf s"
  obtain x xs where x: "cs = x # xs" "isCodePoint x" using cs by (cases cs) auto
  let ?t = "fill_codePoint (jenv J) x s False"
  have "snd (wtf8ToCodePoint (text_of cs)) = x" using decode_at [OF x(2)] x(1) by simp
  then have c: "jcollect_inst J pc s (StringIns (of_nat mi)) = CDone True ?t"
    using mkString_matcher(2) [OF mi ms small] by (simp add: collect_inst_def fill_string_def)
  have d: "one_sem (jcps J) True (\<lambda>y. y = x) (k, c) = []" if "avoids J ?t k" for k c
    by (rule fill_avoids [OF wf that]) (simp add: covers_self)
  show "\<exists>r t. jcollect_inst J pc s (StringIns (of_nat mi)) = CDone r t \<and>
      (r \<longrightarrow> (bits_lead s \<longrightarrow> bits_lead t) \<and> (\<forall>k c. avoids J t k \<longrightarrow> seq_sem (map (jsem J True) (map CharNode cs)) (k, c) = []))"
    by (intro exI conjI impI allI, rule c) (simp_all add: x(1) d fill_lead [OF env wf x(2)])
qed

lemma filtered_repeat:
  assumes f: "fetch (regex_instSeq (jregex J)) pc = Some (BeginLoopIns greedy l mn mx (of_nat e))" "unat (of_nat e :: u32) = e"
    and code: "code_at J (pc + 14) (reset_inst fi la @ is)"
    and p: "filtered J (jsem J True p) (pc + 14 + isize (reset_inst fi la)) pce"
    and e: "fetch (regex_instSeq (jregex J)) pce = Some (EndLoopIns x)" "e = pce + 5"
  shows "filtered J (jsem J True (RepeatNode l mn mx greedy fi la p)) pc pc'"
proof (rule filteredI)
  fix e' s t assume sc: "scan J pc e' s t"
  have m: "mn > 0" and 1: "scan J (pc + 14) e s t"
    using scan_inst [OF sc f(1)] f(2) by (auto simp: collect_inst_def inst_sizes split: if_splits)
  have r: "filtered J (\<lambda>st. [st]) (pc + 14) (pc + 14 + isize (reset_inst fi la))"
  proof (cases "fi = 0")
    case False
    then have "reset_inst fi la = [ResetCapturesIns fi la]" by (simp add: reset_inst_def)
    with code_at_Cons(1) [of J "pc + 14" "ResetCapturesIns fi la" "is"] code
      filtered_skip [of J "pc + 14" "ResetCapturesIns fi la"] show ?thesis by (simp add: collect_inst_def)
  qed (simp add: reset_inst_def filtered_here)
  have b: "filtered J (\<lambda>st. concat (map (jsem J True p) [st])) (pc + 14) pce" by (rule filtered_bind [OF r p])
  have out: "\<not> scan J pce e u v" for u v
  proof
    assume "scan J pce e u v"
    from scan_inst [OF this e(1)] have "scan J (pce + 5) e u v" by (simp add: collect_inst_def inst_sizes)
    with e(2) scan_end show False by simp
  qed
  from b 1 have fl: "(bits_lead s \<longrightarrow> bits_lead t) \<and> (\<forall>k c. avoids J t k \<longrightarrow> concat (map (jsem J True p) [(k, c)]) = [])"
    by (cases rule: filteredE) (use out in auto)
  then have body: "jsem J True p (k, c) = []" if "avoids J t k" for k c using that by simp
  have "0 < unat mn" using m by (simp add: word_less_nat_alt)
  then have "jsem J True (RepeatNode l mn mx greedy fi la p) (k, c) = []" if "avoids J t k" for k c
    using body [OF that] by (simp add: Let_def)
  then show "(bits_lead s \<longrightarrow> bits_lead t) \<and> (\<forall>k c. avoids J t k \<longrightarrow> jsem J True (RepeatNode l mn mx greedy fi la p) (k, c) = []) \<or>
     ((\<exists>s1. scan J pc' e' s1 t \<and> (bits_lead s \<longrightarrow> bits_lead s1)) \<and> (\<forall>k c k' c'. avoids J t k \<longrightarrow> (k', c') \<in> set (jsem J True (RepeatNode l mn mx greedy fi la p) (k, c)) \<longrightarrow> k' = k))"
    using fl by blast
qed

lemma filtered_look:
  assumes f: "fetch (regex_instSeq (jregex J)) pc = Some (BeginLookAroundIns ng (of_nat a))" "unat (of_nat a :: u32) = a"
    "fetch (regex_instSeq (jregex J)) a = Some EndLookAroundIns"
  shows "filtered J (jsem J True (LookAroundNode ty p)) pc (a + 1)"
proof (rule filteredI)
  fix e s t assume sc: "scan J pc e s t"
  then have "scan J a e s t" using scan_inst [OF sc f(1)] f(2) scan_wf [OF sc] by (simp add: collect_inst_def)
  from scan_inst [OF this f(3)] have "scan J (a + 1) e s t" by (simp add: collect_inst_def inst_sizes)
  moreover have "k' = k" if "(k', c') \<in> set (jsem J True (LookAroundNode ty p) (k, c))" for k c k' c'
    using that by (auto simp: Let_def split: if_splits)
  ultimately show "(bits_lead s \<longrightarrow> bits_lead t) \<and> (\<forall>k c. avoids J t k \<longrightarrow> jsem J True (LookAroundNode ty p) (k, c) = []) \<or>
     ((\<exists>s1. scan J (a + 1) e s1 t \<and> (bits_lead s \<longrightarrow> bits_lead s1)) \<and> (\<forall>k c k' c'. avoids J t k \<longrightarrow> (k', c') \<in> set (jsem J True (LookAroundNode ty p) (k, c)) \<longrightarrow> k' = k))"
    by blast
qed

lemma filtered_alts_more:
  assumes f: "fetch (regex_instSeq (jregex J)) pc = Some (AltIns (of_nat a))" "unat (of_nat a :: u32) = a"
    and p: "filtered J (jsem J True p) (pc + 5) pc1"
    and a: "pc1 = a \<or> a = pc1 + 5 \<and> fetch (regex_instSeq (jregex J)) pc1 = Some (JumpIns x)"
    and rest: "filtered J f a e"
  shows "filtered J (\<lambda>st. jsem J True p st @ f st) pc e"
proof (rule filteredI)
  fix e' s t assume "scan J pc e' s t"
  note b = filtered_branch [OF f p a this]
  then obtain s1 where s1: "scan J a e' s1 t" and l: "bits_lead s \<longrightarrow> bits_lead s1" by blast
  have p: "jsem J True p (k, c) = []" if "avoids J t k" for k c using b that by blast
  from rest s1 show "(bits_lead s \<longrightarrow> bits_lead t) \<and> (\<forall>k c. avoids J t k \<longrightarrow> jsem J True p (k, c) @ f (k, c) = []) \<or>
     ((\<exists>s1. scan J e e' s1 t \<and> (bits_lead s \<longrightarrow> bits_lead s1)) \<and> (\<forall>k c k' c'. avoids J t k \<longrightarrow> (k', c') \<in> set (jsem J True p (k, c) @ f (k, c)) \<longrightarrow> k' = k))"
  proof (cases rule: filteredE)
    case fails
    with p l show ?thesis by auto
  next
    case (stays s2)
    have "k' = k" if "avoids J t k" "(k', c') \<in> set (jsem J True p (k, c) @ f (k, c))" for k c k' c'
      using stays(2) p that by simp
    with stays(1,3) l show ?thesis by blast
  qed
qed

lemma layout_filtered:
  assumes ok: "job_ok J" and env: "unfold_ok (jenv J)"
  shows "layout fwd n pc mi is ms \<Longrightarrow> fwd \<longrightarrow>
      code_at J pc is \<longrightarrow> matchers_at J mi ms \<longrightarrow> jsupported J n \<longrightarrow> filtered J (jsem J True n) pc (pc + isize is)"
    and "layout_seq fwd ps pc mi is ms \<Longrightarrow> fwd \<longrightarrow>
      code_at J pc is \<longrightarrow> matchers_at J mi ms \<longrightarrow> list_all (jsupported J) ps \<longrightarrow> length ps < 2 ^ 30 \<longrightarrow>
      filtered J (seq_sem (map (jsem J True) ps)) pc (pc + isize is)"
    and "layout_alts fwd ps pc e mi is ms \<Longrightarrow> fwd \<longrightarrow>
      code_at J pc is \<longrightarrow> matchers_at J mi ms \<longrightarrow> list_all (jsupported J) ps \<longrightarrow> ps \<noteq> [] \<longrightarrow> e = pc + isize is \<longrightarrow>
      filtered J (\<lambda>st. concat (map (\<lambda>p. jsem J True p st) ps)) pc e"
proof (induction rule: layout_layout_seq_layout_alts.inducts)
  case (lay_empty fwd pc mi)
  then show ?case using filtered_here by (auto intro: filtered_positions)
next
  case (lay_leaf fwd n i pc mi)
  then show ?case by (auto intro: filtered_leaf [OF env] dest: code_at_Cons(1))
next
  case (lay_set mi fwd invert ic owned s pc)
  then show ?case by (intro impI filtered_charset [OF env]) (simp_all add: code_at_Cons(1))
next
  case (lay_seqnode fwd ps pc mi "is" ms)
  then show ?case by (auto intro: filtered_positions)
next
  case (lay_alt1 fwd p pc mi "is" ms)
  show ?case
  proof (intro impI)
    let ?a = "pc + 5 + isize is"
    assume fwd: fwd and c: "code_at J pc (AltIns (of_nat ?a) # is)" "matchers_at J mi ms" and sup: "jsupported J (AltNode [p])"
    have b: "unat (of_nat ?a :: u32) = ?a" using code_at_bound [OF c(1)] by (intro u32_addr [OF ok]) (simp add: inst_sizes)
    have "filtered J (jsem J True p) (pc + 5) ?a" using lay_alt1.IH fwd code_at_Cons(2) [OF c(1)] c(2) sup by (simp add: inst_sizes)
    from filtered_alts_more [OF code_at_Cons(1) [OF c(1)] b this _ filtered_here]
    have "filtered J (\<lambda>st. jsem J True p st @ [st]) pc ?a" by simp
    then show "filtered J (jsem J True (AltNode [p])) pc (pc + isize (AltIns (of_nat ?a) # is))"
      by (auto simp: inst_sizes add.assoc intro: filtered_positions)
  qed
next
  case (lay_altn ps fwd pc "is" mi ms)
  then show ?case by (auto intro: filtered_positions)
next
  case (lay_group fwd p pc mi "is" ms index st us)
  show ?case
  proof (intro impI)
    let ?fin = "endcapture_inst fwd (of_nat index)"
    assume fwd: fwd and c: "code_at J pc (BeginCaptureIns (of_nat index) # is @ [?fin])" "matchers_at J mi ms"
      and sup: "jsupported J (GroupNode G_CAPTURE index st us p)"
    note c1 = code_at_Cons [OF c(1), unfolded inst_sizes]
    note c2 = code_at_append [OF c1(2)]
    have 1: "filtered J (\<lambda>st. [st]) pc (pc + 3)" using filtered_skip [OF c1(1)] by (simp add: collect_inst_def inst_sizes)
    have 2: "filtered J (jsem J True p) (pc + 3) (pc + 3 + isize is)" using lay_group.IH fwd c2(1) c(2) sup by simp
    have 3: "filtered J (\<lambda>st. [st]) (pc + 3 + isize is) (pc + 3 + isize is + 3)"
      using filtered_skip [OF code_at_Cons(1) [OF c2(2)]] fwd by (simp add: collect_inst_def inst_sizes endcapture_inst_def)
    from filtered_bind [OF filtered_bind [OF 1 2] 3]
    have "filtered J (jsem J True (GroupNode G_CAPTURE index st us p)) pc (pc + 3 + isize is + 3)"
      by (rule filtered_positions) force
    then show "filtered J (jsem J True (GroupNode G_CAPTURE index st us p)) pc (pc + isize (BeginCaptureIns (of_nat index) # is @ [?fin]))"
      by (simp add: inst_sizes add.assoc)
  qed
next
  case (lay_repeat fwd p pc fi la mi "is" ms l mn mx greedy)
  show ?case
  proof (intro impI)
    let ?pb = "pc + 14 + isize (reset_inst fi la)" and ?e = "pc + 14 + isize (reset_inst fi la) + isize is + 5"
    let ?code = "BeginLoopIns greedy l mn mx (of_nat ?e) # reset_inst fi la @ is @ [EndLoopIns (of_nat pc)]"
    assume fwd: fwd and c: "code_at J pc ?code" "matchers_at J mi ms" and sup: "jsupported J (RepeatNode l mn mx greedy fi la p)"
    note c1 = code_at_Cons [OF c(1), unfolded inst_sizes]
    note c2 = code_at_append [OF code_at_append(2) [OF c1(2)]]
    have e: "unat (of_nat ?e :: u32) = ?e" using code_at_bound [OF c(1)] by (intro u32_addr [OF ok]) (simp add: inst_sizes)
    have "filtered J (jsem J True p) ?pb (?pb + isize is)" using lay_repeat.IH fwd c2(1) c(2) sup by simp
    from filtered_repeat [OF c1(1) e c1(2) this code_at_Cons(1) [OF c2(2)] refl]
    show "filtered J (jsem J True (RepeatNode l mn mx greedy fi la p)) pc (pc + isize ?code)" .
  qed
next
  case (lay_look t p pc mi "is" ms fwd)
  show ?case
  proof (intro impI)
    let ?a = "pc + 6 + isize is"
    let ?code = "BeginLookAroundIns (isNegate t) (of_nat ?a) # is @ [EndLookAroundIns]"
    assume c: "code_at J pc ?code" "matchers_at J mi ms"
    note c1 = code_at_Cons [OF c(1), unfolded inst_sizes]
    note c2 = code_at_append [OF c1(2)]
    have a: "unat (of_nat ?a :: u32) = ?a" using code_at_bound [OF c(1)] by (intro u32_addr [OF ok]) (simp add: inst_sizes)
    have "filtered J (jsem J True (LookAroundNode t p)) pc (?a + 1)"
      by (rule filtered_look [OF c1(1) a code_at_Cons(1) [OF c2(2)]])
    then show "filtered J (jsem J True (LookAroundNode t p)) pc (pc + isize ?code)"
      by (simp add: inst_sizes ac_simps)
  qed
next
  case (lay_seq_nil fwd pc mi)
  then show ?case using filtered_here by (auto intro: filtered_positions)
next
  case (lay_seq_run mi cs rest fwd pc "is" ms)
  show ?case
  proof (intro impI)
    let ?i = "string_inst fwd (of_nat mi)" and ?m = "mkStringMatcher (concat (map codePointToUtf8 (if fwd then cs else rev cs)))"
    assume fwd: fwd and c: "code_at J pc (?i # is)" "matchers_at J mi (?m # ms)"
      and sup: "list_all (jsupported J) (map CharNode cs @ rest)" "length (map CharNode cs @ rest) < 2 ^ 30"
    note c1 = code_at_Cons [OF c(1), unfolded inst_sizes]
    have rest: "filtered J (seq_sem (map (jsem J True) rest)) (pc + 3) (pc + 3 + isize is)"
      using lay_seq_run.IH fwd c1(2) matchers_at_Cons(3) [OF c(2)] sup by simp
    have cs: "list_all isCodePoint cs" "length cs < 2 ^ 30" "cs \<noteq> []"
      using sup lay_seq_run.hyps(2) by (auto simp: list_all_iff dest: bspec [of _ _ "CharNode _"])
    have small: "length (text_of cs) < 2 ^ 32" using text_of_length [OF cs(1)] cs(2) by simp
    have m: "matchers_at J mi (mkStringMatcher (text_of cs) # ms)" using c(2) fwd by (simp add: text_of_def)
    have f: "fetch (regex_instSeq (jregex J)) pc = Some (StringIns (of_nat mi))" using c1(1) fwd by (simp add: string_inst_def)
    have "filtered J (\<lambda>st. concat (map (seq_sem (map (jsem J True) rest)) (seq_sem (map (jsem J True) (map CharNode cs)) st))) pc
        (pc + 3 + isize is)"
      by (rule filtered_bind [OF filtered_string [OF env cs(1,3) lay_seq_run.hyps(1) small f m] rest])
    moreover have "pc + isize (?i # is) = pc + 3 + isize is" by (simp add: inst_sizes)
    ultimately show "filtered J (seq_sem (map (jsem J True) (map CharNode cs @ rest))) pc (pc + isize (?i # is))"
      by (simp only: map_append seq_sem_append [abs_def])
  qed
next
  case (lay_seq_one p rest fwd pc mi "is" ms is' ms')
  show ?case
  proof (intro impI)
    assume fwd: fwd and c: "code_at J pc (is @ is')" "matchers_at J mi (ms @ ms')"
      and sup: "list_all (jsupported J) (p # rest)" "length (p # rest) < 2 ^ 30"
    have "filtered J (jsem J True p) pc (pc + isize is)"
      using lay_seq_one.IH(1) fwd code_at_append(1) [OF c(1)] matchers_at_append(1) [OF c(2)] sup by simp
    moreover have "filtered J (seq_sem (map (jsem J True) rest)) (pc + isize is) (pc + isize is + isize is')"
      using lay_seq_one.IH(2) fwd code_at_append(2) [OF c(1)] matchers_at_append(2) [OF c(2)] sup by simp
    ultimately have "filtered J (\<lambda>st. concat (map (seq_sem (map (jsem J True) rest)) (jsem J True p st))) pc (pc + isize is + isize is')"
      by (rule filtered_bind)
    then have "filtered J (seq_sem (map (jsem J True) (p # rest))) pc (pc + isize is + isize is')"
      by (rule filtered_positions) simp
    then show "filtered J (seq_sem (map (jsem J True) (p # rest))) pc (pc + isize (is @ is'))"
      by (simp add: add.assoc)
  qed
next
  case (lay_alts_last fwd p pc mi "is" ms e)
  then show ?case by simp
next
  case (lay_alts_more js rest q e fwd p pc mi "is" ms a is' ms')
  show ?case
  proof (intro impI)
    let ?code = "AltIns (of_nat a) # is @ js @ is'"
    assume fwd: fwd and c: "code_at J pc ?code" "matchers_at J mi (ms @ ms')" and sup: "list_all (jsupported J) (p # q # rest)"
      and e: "e = pc + isize ?code"
    note c1 = code_at_Cons [OF c(1), unfolded inst_sizes]
    note c2 = code_at_append [OF c1(2)]
    note c3 = code_at_append [OF c2(2)]
    have a: "a = pc + 5 + isize is + isize js" by (rule lay_alts_more.hyps)
    have ea: "e = a + isize is'" unfolding e a by (simp add: inst_sizes)
    have b: "unat (of_nat a :: u32) = a" using code_at_bound [OF c(1)] e ea by (intro u32_addr [OF ok]) simp
    have first: "filtered J (jsem J True p) (pc + 5) (pc + 5 + isize is)"
      using lay_alts_more.IH(1) fwd c2(1) matchers_at_append(1) [OF c(2)] sup by simp
    have "code_at J a is'" using c3(2) by (simp add: a)
    then have more: "filtered J (\<lambda>st. concat (map (\<lambda>p. jsem J True p st) (q # rest))) a e"
      using lay_alts_more.IH(2) fwd matchers_at_append(2) [OF c(2)] sup ea by simp
    have jump: "pc + 5 + isize is = a \<or> a = pc + 5 + isize is + 5 \<and> fetch (regex_instSeq (jregex J)) (pc + 5 + isize is) = Some (JumpIns (of_nat e))"
      using lay_alts_more.hyps(1) c3(1) code_at_Cons(1) a by (auto simp: inst_sizes split: if_splits)
    from filtered_alts_more [OF c1(1) b first jump more]
    show "filtered J (\<lambda>st. concat (map (\<lambda>p. jsem J True p st) (p # q # rest))) pc e" by simp
  qed
qed simp_all

end
