(* ===== verification/Regex_Match.thy ===== *)
theory Regex_Match
  imports Regex_First
begin

text \<open>
  Matching as a whole: the prefilter skips only positions where no match starts, the search tries the
  others in order, and what \<open>match\<close> leaves in the captures is the first match of the specification.
\<close>

section \<open>Code that starts with a text\<close>

text \<open>\<open>needs J f mi is ms\<close>: code that starts with a character or a string fails where that text does
  not stand; code of no instructions does nothing.\<close>

definition needs :: "job \<Rightarrow> (mstate \<Rightarrow> mstate list) \<Rightarrow> nat \<Rightarrow> inst list \<Rightarrow> Matcher list \<Rightarrow> bool" where
  "needs J f mi is ms \<longleftrightarrow>
     (is = [] \<longrightarrow> ms = [] \<and> (\<forall>st. f st = [st])) \<and>
     (\<forall>w js. is = CharIns w # js \<longrightarrow> isCodePoint (sint w) \<and>
        (\<forall>k c. \<not> startsWith (drop k (jcps J)) [sint w] \<longrightarrow> f (k, c) = [])) \<and>
     (\<forall>x js. is = StringIns x # js \<longrightarrow> (\<exists>cs ms'. ms = mkStringMatcher (text_of cs) # ms' \<and> mi \<le> 0xFFFF \<and>
        x = of_nat mi \<and> list_all isCodePoint cs \<and> cs \<noteq> [] \<and> length cs < 2 ^ 30 \<and>
        (\<forall>k c. \<not> startsWith (drop k (jcps J)) cs \<longrightarrow> f (k, c) = [])))"

lemma needs_string:
  assumes "needs J f mi (StringIns x # js) ms"
  obtains cs ms' where "ms = mkStringMatcher (text_of cs) # ms'" "x = of_nat mi" "list_all isCodePoint cs"
    "cs \<noteq> []" "length cs < 2 ^ 30" "\<And>k c. \<not> startsWith (drop k (jcps J)) cs \<Longrightarrow> f (k, c) = []"
proof -
  have "\<exists>cs ms'. ms = mkStringMatcher (text_of cs) # ms' \<and> mi \<le> 0xFFFF \<and> x = of_nat mi \<and> list_all isCodePoint cs \<and>
      cs \<noteq> [] \<and> length cs < 2 ^ 30 \<and> (\<forall>k c. \<not> startsWith (drop k (jcps J)) cs \<longrightarrow> f (k, c) = [])"
    using assms by (simp add: needs_def)
  then show ?thesis by (elim exE conjE) (rule that, assumption+, blast)
qed

lemma needs_other:
  assumes "is = i # js" "\<And>w. i \<noteq> CharIns w" "\<And>x. i \<noteq> StringIns x"
  shows "needs J f mi is ms"
  using assms by (simp add: needs_def)

lemma needs_cong: "needs J f mi is ms \<Longrightarrow> (\<And>st. g st = f st) \<Longrightarrow> needs J g mi is ms"
  by (simp add: needs_def)

lemma needs_bind:
  assumes "needs J f mi is ms" "needs J g (mi + length ms) is' ms'"
  shows "needs J (\<lambda>st. concat (map g (f st))) mi (is @ is') (ms @ ms')"
proof (cases "is")
  case Nil
  with assms(1) have "ms = []" "\<And>st. f st = [st]" by (auto simp: needs_def)
  with assms(2) Nil show ?thesis by (auto intro: needs_cong)
next
  case (Cons i js)
  with assms(1) show ?thesis unfolding needs_def by fastforce
qed

lemma startsWith_single: "startsWith (drop k xs) [x] \<longleftrightarrow> k < length xs \<and> xs ! k = x"
proof (cases "k < length xs")
  case True
  then have "drop k xs = xs ! k # drop (Suc k) xs" by (simp add: Cons_nth_drop_Suc)
  then show ?thesis using True by (auto simp: startsWith_def)
qed (simp add: startsWith_def)

lemma layout_needs:
  shows "layout fwd n pc mi is ms \<Longrightarrow> fwd \<longrightarrow> jsupported J n \<longrightarrow> needs J (jsem J True n) mi is ms"
    and "layout_seq fwd ps pc mi is ms \<Longrightarrow> fwd \<longrightarrow> list_all (jsupported J) ps \<longrightarrow> length ps < 2 ^ 30 \<longrightarrow>
      needs J (seq_sem (map (jsem J True) ps)) mi is ms"
    and "layout_alts fwd ps pc e mi is ms \<Longrightarrow> fwd \<longrightarrow> length ps \<noteq> 1 \<longrightarrow> ps \<noteq> [] \<longrightarrow> (\<exists>a js. is = AltIns a # js)"
proof (induction rule: layout_layout_seq_layout_alts.inducts)
  case (lay_empty fwd pc mi)
  then show ?case by (simp add: needs_def)
next
  case (lay_leaf fwd n i pc mi)
  show ?case
  proof (intro impI)
    assume fwd and sup: "jsupported J n"
    with lay_leaf have i: "leaf_inst True n = Some i" by simp
    show "needs J (jsem J True n) mi [i] []"
    proof (cases n)
      case (CharNode ch)
      then have "i = CharIns (word_of_int ch)" "isCodePoint ch" using i sup by (simp_all add: char_inst_def)
      then show ?thesis unfolding CharNode by (auto simp: needs_def sint_code_point one_sem_def startsWith_single simp del: startsWith_Cons)
    qed (use i sup in \<open>auto intro!: needs_other simp: any_inst_def foldchar_inst_def boundary_inst_def backref_inst_def Let_def
        split: if_splits BoundaryType.splits\<close>)
  qed
next
  case (lay_set mi fwd invert ic owned s pc)
  then show ?case by (auto intro!: needs_other simp: charset_inst_def)
next
  case (lay_seqnode fwd ps pc mi "is" ms)
  then show ?case by (auto intro: needs_cong)
next
  case (lay_altn ps fwd pc "is" mi ms)
  then show ?case by (auto intro: needs_other)
next
  case (lay_seq_nil fwd pc mi)
  then show ?case by (simp add: needs_def)
next
  case (lay_seq_run mi cs rest fwd pc "is" ms)
  show ?case
  proof (intro impI)
    let ?i = "string_inst fwd (of_nat mi)" and ?m = "mkStringMatcher (concat (map codePointToUtf8 (if fwd then cs else rev cs)))"
    assume fwd: fwd and sup: "list_all (jsupported J) (map CharNode cs @ rest)" "length (map CharNode cs @ rest) < 2 ^ 30"
    have cs: "list_all isCodePoint cs" "length cs < 2 ^ 30" "cs \<noteq> []"
      using sup lay_seq_run.hyps(2) by (auto simp: list_all_iff dest: bspec [of _ _ "CharNode _"])
    have "seq_sem (map (jsem J True) (map CharNode cs @ rest)) (k, c) = []" if "\<not> startsWith (drop k (jcps J)) cs" for k c
      using that cs(3) by (simp only: map_append seq_sem_append chars_sem_fwd) simp
    with cs fwd lay_seq_run.hyps(1)
    show "needs J (seq_sem (map (jsem J True) (map CharNode cs @ rest))) mi (?i # is) (?m # ms)"
      by (auto simp: needs_def string_inst_def text_of_def)
  qed
next
  case (lay_seq_one p rest fwd pc mi "is" ms is' ms')
  then show ?case by (auto intro: needs_cong [OF needs_bind])
qed (auto intro: needs_other)

section \<open>Searching bytes\<close>

text \<open>A byte that starts a code point stands at the offset of one.\<close>

lemma lead_boundary:
  "code_points cps \<Longrightarrow> p < length (text_of cps) \<Longrightarrow> utf8ByteSize (text_of cps ! p) \<noteq> 0 \<Longrightarrow>
    \<exists>j<length cps. p = offset_of cps j"
proof (induction cps arbitrary: p)
  case (Cons c cps)
  let ?n = "length (codePointToUtf8 c)"
  have c: "isCodePoint c" using Cons.prems(1) by simp
  show ?case
  proof (cases "p < ?n")
    case True
    then have "p = 0" using byteSize_encoded(2) [OF c, of p] Cons.prems(3) by (cases p) (auto simp: nth_append)
    then show ?thesis by (intro exI [of _ 0]) simp
  next
    case False
    then have "p - ?n < length (text_of cps)" "utf8ByteSize (text_of cps ! (p - ?n)) \<noteq> 0"
      using Cons.prems(2,3) by (auto simp: nth_append)
    with Cons.IH Cons.prems(1) obtain j where "j < length cps" "p - ?n = offset_of cps j" by auto
    then show ?thesis using False by (intro exI [of _ "Suc j"]) (simp add: offset_of_def)
  qed
qed simp

text \<open>The byte at the offset of a position.\<close>

lemma byte_at:
  assumes "code_points cps" "k < length cps"
  shows "text_of cps ! offset_of cps k = first_byte (cps ! k)" "offset_of cps k < length (text_of cps)"
proof -
  have c: "isCodePoint (cps ! k)" using assms by (simp add: list_all_length)
  show "offset_of cps k < length (text_of cps)"
    using offset_less [OF assms(1) assms(2) order.refl] by simp
  show "text_of cps ! offset_of cps k = first_byte (cps ! k)"
    using encode_nonempty [OF c] unfolding text_at [OF assms(2)]
    by (simp add: offset_of_def nth_append first_byte_def)
qed

lemma starts_at:
  assumes "code_points cps" "code_points cs" "k \<le> length cps"
  shows "startsWith (drop (offset_of cps k) (text_of cps)) (text_of cs) \<longleftrightarrow> startsWith (drop k cps) cs"
proof -
  have "code_points (drop k cps)" using assms(1) by (auto simp: list_all_iff dest: in_set_dropD)
  from text_prefix [OF assms(2) this] show ?thesis by (simp add: text_drop [OF assms(3)])
qed

lemma offset_le_iff:
  assumes "code_points cps" "j \<le> length cps" "k \<le> length cps"
  shows "offset_of cps j \<le> offset_of cps k \<longleftrightarrow> j \<le> k"
  using offset_less [OF assms(1), of k j] offset_le [OF assms(1), of j k] assms(2,3) by linarith

lemma text_lead:
  assumes "code_points cs" "cs \<noteq> []"
  shows "text_of cs \<noteq> []" "utf8ByteSize (text_of cs ! 0) \<noteq> 0"
proof -
  obtain c ds where c: "cs = c # ds" "isCodePoint c" using assms by (cases cs) auto
  then show "text_of cs \<noteq> []" using encode_nonempty by simp
  show "utf8ByteSize (text_of cs ! 0) \<noteq> 0"
    using c byteSize_encoded(1) [OF c(2)] encode_nonempty [OF c(2)] by (simp add: nth_append)
qed

lemma find_text:
  assumes cps: "code_points cps" and cs: "code_points cs" "cs \<noteq> []" and k: "k \<le> length cps"
  shows "case find_from (drop (offset_of cps k) (text_of cps)) 0 (text_of cs) of
      Some p \<Rightarrow> \<exists>j. k \<le> j \<and> j < length cps \<and> offset_of cps k + p = offset_of cps j \<and> startsWith (drop j cps) cs \<and>
        (\<forall>i. k \<le> i \<and> i < j \<longrightarrow> \<not> startsWith (drop i cps) cs)
    | None \<Rightarrow> \<forall>i. k \<le> i \<and> i \<le> length cps \<longrightarrow> \<not> startsWith (drop i cps) cs"
proof -
  let ?rest = "drop (offset_of cps k) (text_of cps)" and ?o = "offset_of cps"
  note nd = text_lead [OF cs]
  have at: "startsWith (drop (?o i - ?o k) ?rest) (text_of cs) \<longleftrightarrow> startsWith (drop i cps) cs" "?o i - ?o k \<le> length ?rest"
    if "k \<le> i" "i \<le> length cps" for i
    using starts_at [OF cps cs(1) that(2)] offset_le [OF cps that] offset_le_text [OF cps that(2)] by auto
  show ?thesis
  proof (cases "find_from ?rest 0 (text_of cs)")
    case None
    then show ?thesis using find_from_None [OF None] at by auto
  next
    case (Some p)
    note s = find_from_Some [OF Some]
    let ?q = "?o k + p"
    have sw: "startsWith (drop ?q (text_of cps)) (text_of cs)" using s by (simp add: add.commute)
    then obtain tl where tl: "drop ?q (text_of cps) = text_of cs @ tl" by (auto simp: startsWith_iff)
    have q: "?q < length (text_of cps)"
      using arg_cong [OF tl, of length] nd(1) by (cases "?q < length (text_of cps)") auto
    moreover have "text_of cps ! ?q = text_of cs ! 0"
      using arg_cong [OF tl, of "\<lambda>x. x ! 0"] q nd(1) by (simp add: nth_append)
    ultimately obtain j where j: "j < length cps" "?q = ?o j" using lead_boundary [OF cps] nd(2) by metis
    have kj: "k \<le> j" using offset_le_iff [OF cps k, of j] j by simp
    have "\<not> startsWith (drop i cps) cs" if "k \<le> i" "i < j" for i
    proof -
      have "?o i - ?o k < p" using offset_less [OF cps that(2)] j offset_le [OF cps that(1)] that(2) by simp
      with s show ?thesis using at(1) [OF that(1)] that(2) j(1) by auto
    qed
    moreover have "startsWith (drop j cps) cs" using sw j starts_at [OF cps cs(1), of j] by simp
    ultimately show ?thesis using Some j kj by auto
  qed
qed

lemma search_first_spec:
  assumes "it + n = length s" "search_first fs s it n = (it', matched)"
  shows "it \<le> it' \<and> (\<forall>i. it \<le> i \<and> i < it' \<longrightarrow> \<not> bitset_test fs (s ! i)) \<and>
    (if matched then it' < length s \<and> bitset_test fs (s ! it') else it' = length s)"
  using assms
proof (induction n arbitrary: it)
  case (Suc n)
  show ?case
  proof (cases "bitset_test fs (s ! it)")
    case False
    with Suc.IH [of "Suc it"] Suc.prems
    have r: "Suc it \<le> it'" "\<forall>i. Suc it \<le> i \<and> i < it' \<longrightarrow> \<not> bitset_test fs (s ! i)"
      "if matched then it' < length s \<and> bitset_test fs (s ! it') else it' = length s" by auto
    have "\<not> bitset_test fs (s ! i)" if "it \<le> i" "i < it'" for i using r(2) False that by (cases "i = it") auto
    with r show ?thesis by simp
  qed (use Suc.prems in auto)
qed auto

lemma search_first_text:
  assumes cps: "code_points cps" and k: "k \<le> length cps" and lead: "bits_lead fs"
    and s: "search_first fs (text_of cps) (offset_of cps k) (length (text_of cps) - offset_of cps k) = (it, matched)"
  shows "if matched then \<exists>j. k \<le> j \<and> j < length cps \<and> it = offset_of cps j \<and>
      (\<forall>i. k \<le> i \<and> i < j \<longrightarrow> \<not> bitset_test fs (first_byte (cps ! i)))
    else it = length (text_of cps) \<and> (\<forall>i. k \<le> i \<and> i < length cps \<longrightarrow> \<not> bitset_test fs (first_byte (cps ! i)))"
proof -
  have r: "offset_of cps k \<le> it" "\<forall>i. offset_of cps k \<le> i \<and> i < it \<longrightarrow> \<not> bitset_test fs (text_of cps ! i)"
    "if matched then it < length (text_of cps) \<and> bitset_test fs (text_of cps ! it) else it = length (text_of cps)"
    using search_first_spec [OF _ s] offset_le_text [OF cps k] by auto
  have skip: "\<not> bitset_test fs (first_byte (cps ! i))" if "k \<le> i" "i < length cps" "offset_of cps i < it" for i
    using r(2) byte_at(1) [OF cps that(2)] offset_le [OF cps that(1)] that by auto
  show ?thesis
  proof (cases matched)
    case True
    with r(3) lead have "it < length (text_of cps)" "utf8ByteSize (text_of cps ! it) \<noteq> 0" by (auto simp: bits_lead_def)
    with lead_boundary [OF cps] obtain j where j: "j < length cps" "it = offset_of cps j" by blast
    have "k \<le> j" using offset_le_iff [OF cps k, of j] j r(1) by simp
    moreover have "\<not> bitset_test fs (first_byte (cps ! i))" if "k \<le> i" "i < j" for i
      by (rule skip) (use that j offset_less [OF cps that(2)] in auto)
    ultimately show ?thesis using True j by auto
  next
    case False
    then show ?thesis using r(3) skip byte_at(2) [OF cps] by auto
  qed
qed

section \<open>Runs\<close>

definition ends :: "job \<Rightarrow> (MatchStatus \<Rightarrow> VM \<Rightarrow> bool) \<Rightarrow> outcome \<Rightarrow> bool" where
  "ends J P out \<longleftrightarrow> (\<exists>fuel st vm. machine_run fuel (jenv J) (jregex J) (jctx J) (jtimer J) out = Finished st vm \<and>
     (is_limit st \<or> P st vm))"

lemma machine_run_Finished [simp]: "machine_run fuel env regex ctx timer (Finished st vm) = Finished st vm"
  by (cases fuel) simp_all

lemma ends_Finished: "ends J P (Finished st vm) \<longleftrightarrow> is_limit st \<or> P st vm"
  by (simp add: ends_def)

lemma ends_step: "ends J P (Running m) \<longleftrightarrow> ends J P (job_step J m)"
proof
  assume "ends J P (Running m)"
  then obtain fuel st vm where r: "machine_run fuel (jenv J) (jregex J) (jctx J) (jtimer J) (Running m) = Finished st vm"
      "is_limit st \<or> P st vm" by (auto simp: ends_def)
  then obtain n where "fuel = Suc n" by (cases fuel) auto
  with r show "ends J P (job_step J m)" unfolding ends_def job_step_def by auto
next
  assume "ends J P (job_step J m)"
  then obtain fuel st vm where "machine_run fuel (jenv J) (jregex J) (jctx J) (jtimer J) (job_step J m) = Finished st vm"
      "is_limit st \<or> P st vm" by (auto simp: ends_def)
  then show "ends J P (Running m)" unfolding ends_def job_step_def by (intro exI [of _ "Suc fuel"]) auto
qed

lemma ends_goes:
  assumes "goes J Q out" "\<And>m. Q m \<Longrightarrow> ends J P (Running m)"
  shows "ends J P out"
  using assms(1)
proof induction
  case (goes_here m)
  then show ?case by (rule assms(2))
next
  case (goes_limit st vm)
  then show ?case by (simp add: ends_Finished)
next
  case (goes_step m)
  then show ?case by (simp add: ends_step)
qed

section \<open>One start position\<close>

text \<open>A compiled pattern with a context for it.\<close>

definition compiled :: "job \<Rightarrow> node \<Rightarrow> inst list \<Rightarrow> bool" where
  "compiled J n is \<longleftrightarrow> job_ok J \<and> unfold_ok (jenv J) \<and> jsupported J n \<and>
     layout True n 0 0 is (regex_matchers (jregex J)) \<and> regex_instSeq (jregex J) = encode_all (is @ [MatchIns]) \<and>
     regex_firstBitSet (jregex J) =
       createFirstBitSet (jenv J) (regex_instSeq (jregex J)) (regex_matchers (jregex J)) \<and>
     ctx_captureGroupCount (jctx J) = regex_captureGroupCount (jregex J) \<and>
     length (ctx_loops (jctx J)) = unat (regex_loopCount (jregex J))"

definition found :: "job \<Rightarrow> (nat \<times> mstate) option \<Rightarrow> MatchStatus \<Rightarrow> VM \<Rightarrow> bool" where
  "found J r st vm \<longleftrightarrow>
     (case r of
        None \<Rightarrow> st = MATCH_FAIL
      | Some (i, j, c) \<Rightarrow> st = MATCH_OK \<and> vm_input vm = \<lparr>input_text = text_of (jcps J), input_iter = offset_of (jcps J) j\<rparr> \<and>
          vm_captures vm = map (enc_cap J) (Some (i, j) # map c [1..<Suc (regex_captureGroupCount (jregex J))]))"

abbreviation jcaptures :: "job \<Rightarrow> Capture list" where
  "jcaptures J \<equiv> replicate (Suc (regex_captureGroupCount (jregex J))) unset_capture"

abbreviation jloops :: "job \<Rightarrow> LoopState list" where
  "jloops J \<equiv> replicate (unat (regex_loopCount (jregex J))) init_loop"

definition start_frame :: "job \<Rightarrow> node \<Rightarrow> inst list \<Rightarrow> nat \<Rightarrow> frame" where
  "start_frame J n is k = \<lparr>f_old = offset_of (jcps J) k, f_pc = isize is, f_es = [], f_open = (\<lambda>g. None),
     f_caps = no_caps, f_ls = jloops J, f_own = set (main_loops n), f_free = set (look_loops n)\<rparr>"

lemma compiledD:
  assumes "compiled J n is"
  shows "code_at J 0 (is @ [MatchIns])" "matchers_at J 0 (regex_matchers (jregex J))"
    "fetch (regex_instSeq (jregex J)) (isize is) = Some MatchIns"
    "length (regex_instSeq (jregex J)) = isize is + 1"
proof -
  show c: "code_at J 0 (is @ [MatchIns])" using assms by (simp add: compiled_def code_at_def)
  show "matchers_at J 0 (regex_matchers (jregex J))" unfolding matchers_at_def by (intro exI [of _ "[]"]) simp
  show "fetch (regex_instSeq (jregex J)) (isize is) = Some MatchIns"
    using code_at_Cons(1) [OF code_at_append(2) [OF c]] by simp
  show "length (regex_instSeq (jregex J)) = isize is + 1"
    using assms by (simp add: compiled_def isize_def inst_size_def encode_def)
qed

lemma deliver_start:
  assumes c: "compiled J n is" and k: "k \<le> length (jcps J)"
    and m: "at_pc J (offset_of (jcps J) k) 0 k (jcaptures J) (jloops J) [] m"
  shows "delivers J (start_frame J n is k) (jsem J True n (k, no_caps)) (Running m)"
proof -
  let ?F = "start_frame J n is k"
  have ok: "job_ok J" and sup: "jsupported J n" and lay: "layout True n 0 0 is (regex_matchers (jregex J))"
    using c by (simp_all add: compiled_def)
  have imp: "implements J True n 0 (isize is)"
    using layout_implements(1) [OF ok lay] code_at_append(1) [OF compiledD(1) [OF c]] compiledD(2) [OF c] sup by simp
  have "capsrel J (\<lambda>g. None) no_caps (jcaptures J)" by (auto simp: capsrel_def no_caps_def simp del: replicate_Suc)
  then have en: "entered J ?F 0 k m" using m k by (auto simp: entered_def start_frame_def)
  have "ready J ?F n"
    using loops_disjoint [OF sup] by (auto simp: ready_def start_frame_def no_caps_def caps_wf_def)
  from implementsD [OF imp _ en this] show ?thesis by (simp add: start_frame_def)
qed

lemma captures_found:
  assumes "capsrel J (\<lambda>g. None) c vc" "job_ok J" "i \<le> j" "j \<le> length (jcps J)"
  shows "vc[0 := \<lparr>cap_offset = of_nat (offset_of (jcps J) i), cap_size = of_nat (offset_of (jcps J) j - offset_of (jcps J) i)\<rparr>] =
    map (enc_cap J) (Some (i, j) # map c [1..<Suc (regex_captureGroupCount (jregex J))])"
proof (rule nth_equalityI)
  let ?gc = "regex_captureGroupCount (jregex J)"
  have l: "length vc = Suc ?gc" using assms(1) by (simp add: capsrel_def)
  then show "length (vc[0 := \<lparr>cap_offset = of_nat (offset_of (jcps J) i), cap_size = of_nat (offset_of (jcps J) j - offset_of (jcps J) i)\<rparr>]) =
      length (map (enc_cap J) (Some (i, j) # map c [1..<Suc ?gc]))" by simp
  fix g assume "g < length (vc[0 := \<lparr>cap_offset = of_nat (offset_of (jcps J) i), cap_size = of_nat (offset_of (jcps J) j - offset_of (jcps J) i)\<rparr>])"
  then have g: "g < Suc ?gc" using l by simp
  show "vc[0 := \<lparr>cap_offset = of_nat (offset_of (jcps J) i), cap_size = of_nat (offset_of (jcps J) j - offset_of (jcps J) i)\<rparr>] ! g =
      map (enc_cap J) (Some (i, j) # map c [1..<Suc ?gc]) ! g"
  proof (cases g)
    case 0
    then show ?thesis using l by simp
  next
    case (Suc h)
    then have "vc ! g = enc_cap J (c g)" using assms(1) g l by (simp add: capsrel_def)
    with Suc g show ?thesis by (simp del: upt_Suc)
  qed
qed

lemma try_match:
  assumes c: "compiled J n is" and k: "k \<le> length (jcps J)"
    and m: "at_pc J (offset_of (jcps J) k) 0 k (jcaptures J) (jloops J) [] m"
    and r: "jsem J True n (k, no_caps) = r # rs"
  shows "ends J (found J (Some (k, r))) (Running m)"
proof -
  have "(fst r, snd r) \<in> set (jsem J True n (k, no_caps))" using r by simp
  note s = step_okD [OF sem_ok k this]
  show ?thesis
  proof (rule ends_goes [OF deliver_start [OF c k m, unfolded r delivers.simps]])
    fix m1 assume "\<exists>ls new. arrived J (start_frame J n is k) r ls new m1 \<and>
       (\<forall>m'. back_with J (start_frame J n is k) (snd r) ls new m' \<longrightarrow> delivers J (start_frame J n is k) rs (Running m'))"
    then obtain vc ls es where m1: "at_pc J (offset_of (jcps J) k) (isize is) (fst r) vc ls es m1"
        and cr: "capsrel J (\<lambda>g. None) (snd r) vc"
      by (auto simp: arrived_def start_frame_def)
    obtain cap where "job_step J m1 = Finished MATCH_OK (set_match (m_oldIter m1) (vmst J (isize is) (offset_of (jcps J) (fst r)) vc ls es cap))"
      by (rule job_step_run [OF m1 compiledD(3) [OF c]]) (simp add: exec_inst_def step_branch_def)
    moreover have "m_oldIter m1 = offset_of (jcps J) k" using m1 by (simp add: at_pc_def)
    moreover have "job_ok J" using c by (simp add: compiled_def)
    ultimately show "ends J (found J (Some (k, r))) (Running m1)"
      using captures_found [OF cr, of k "fst r"] s(1,2)
      by (cases r) (simp add: ends_step ends_Finished found_def set_match_def)
  qed
qed

lemma try_fail:
  assumes c: "compiled J n is" and k: "k \<le> length (jcps J)"
    and m: "at_pc J (offset_of (jcps J) k) 0 k (jcaptures J) (jloops J) [] m"
    and r: "jsem J True n (k, no_caps) = []"
    and nxt: "\<And>vc ls m'. at_back J (offset_of (jcps J) k) vc ls [] m' \<Longrightarrow> ends J P (Running m')"
  shows "ends J P (Running m)"
proof (rule ends_goes [OF deliver_start [OF c k m, unfolded r delivers.simps]])
  fix m1 assume "back_with J (start_frame J n is k) (f_caps (start_frame J n is k)) (f_ls (start_frame J n is k)) [] m1"
  then show "ends J P (Running m1)" using nxt by (auto simp: back_with_def start_frame_def)
qed

section \<open>The next start position\<close>

definition starts :: "job \<Rightarrow> nat \<Rightarrow> outcome \<Rightarrow> bool" where
  "starts J k out \<longleftrightarrow> (\<exists>m cap. cap_ok [] cap \<and> m_oldIter m = offset_of (jcps J) k \<and>
     m_vm m = vmst J 0 (offset_of (jcps J) k) (jcaptures J) (jloops J) [] cap \<and>
     out = start_at (jregex J) (jctx J) m)"

lemma exhausted_step:
  assumes c: "compiled J n is" and k: "k \<le> length (jcps J)" and m: "at_back J (offset_of (jcps J) k) vc ls [] m"
  shows "if k < length (jcps J) then starts J (Suc k) (job_step J m)
    else \<exists>vm. job_step J m = Finished MATCH_FAIL vm"
proof -
  obtain pc it cap sil vc0 ls0 where b: "m_back m" "m_oldIter m = offset_of (jcps J) k" "cap_ok sil cap"
      "unwind sil (vc0, ls0) = Some (vc, ls)" "m_vm m = vmst J pc it vc0 ls0 sil cap"
    using m unfolding at_back_def by auto
  have ok: "job_ok J" using c by (simp add: compiled_def)
  have e: "backtrack sil (vmst J pc it vc0 ls0 sil cap) = Exhausted (vmst J pc it vc ls [] cap)"
    using backtrack_unwind [OF b(4), where es = "[]" and J = J and pc = pc and it = it and E = sil and cap = cap]
    by (simp add: with_entries_def)
  then have js: "job_step J m = next_start (jregex J) (jctx J) m (vmst J pc it vc ls [] cap)"
    using b by (simp add: job_step_def machine_step_def step_back_def)
  have cap: "cap_ok [] cap" using b(3) by (simp add: cap_ok_def)
  note ce = cursor_end [OF ok k]
  show ?thesis
  proof (cases "k < length (jcps J)")
    case True
    have rs: "resetState (jctx J) = (jcaptures J, jloops J)" using c by (simp add: resetState_def compiled_def)
    let ?m = "m\<lparr>m_vm := vmst J 0 (offset_of (jcps J) (Suc k)) (jcaptures J) (jloops J) [] cap, m_oldIter := offset_of (jcps J) (Suc k)\<rparr>"
    have "job_step J m = start_at (jregex J) (jctx J) ?m"
      unfolding js next_start_def using True ce cursor_next [OF ok True] b(2)
      by (simp add: input_available_def setIter_def consumeForward_def rs)
    with cap True show ?thesis unfolding starts_def by (auto intro!: exI [of _ ?m])
  next
    case False
    with k have "k = length (jcps J)" by simp
    then show ?thesis unfolding js next_start_def using b(2) by (simp add: input_available_def setIter_def)
  qed
qed

section \<open>The search\<close>

lemma search_sem_skip:
  assumes "k \<le> j" "j \<le> Suc (length cps)" "\<And>i. k \<le> i \<Longrightarrow> i < j \<Longrightarrow> sem env nm cps True n (i, no_caps) = []"
  shows "search_sem (Suc (length cps) - k) env nm cps n k = search_sem (Suc (length cps) - j) env nm cps n j"
  using assms
proof (induction "j - k" arbitrary: k)
  case (Suc d)
  have f: "Suc (length cps) - k = Suc (Suc (length cps) - Suc k)" using Suc.hyps(2) Suc.prems(2) by linarith
  have "search_sem (Suc (length cps) - Suc k) env nm cps n (Suc k) = search_sem (Suc (length cps) - j) env nm cps n j"
    by (rule Suc.hyps(1)) (use Suc in auto)
  then show ?case using Suc.prems(3) [of k] Suc.hyps(2) unfolding f by simp
qed simp

lemma search_sem_none:
  assumes "\<And>i. k \<le> i \<Longrightarrow> i \<le> length cps \<Longrightarrow> sem env nm cps True n (i, no_caps) = []" "k \<le> length cps"
  shows "search_sem (Suc (length cps) - k) env nm cps n k = None"
  using search_sem_skip [of k "Suc (length cps)" cps env nm n] assms by simp

abbreviation jsearch :: "job \<Rightarrow> node \<Rightarrow> nat \<Rightarrow> (nat \<times> mstate) option" where
  "jsearch J n k \<equiv> search_sem (Suc (length (jcps J)) - k) (jenv J) (regex_named (jregex J)) (jcps J) n k"

text \<open>From the start of the code at position \<open>j\<close>, when the later positions are as specified.\<close>

lemma search_at:
  assumes c: "compiled J n is" and j: "j \<le> length (jcps J)"
    and m: "at_pc J (offset_of (jcps J) j) 0 j (jcaptures J) (jloops J) [] m"
    and nxt: "\<And>out. j < length (jcps J) \<Longrightarrow> starts J (Suc j) out \<Longrightarrow> ends J (found J (jsearch J n (Suc j))) out"
  shows "ends J (found J (jsearch J n j)) (Running m)"
proof -
  have f: "Suc (length (jcps J)) - j = Suc (Suc (length (jcps J)) - Suc j)" using j by simp
  show ?thesis
  proof (cases "jsem J True n (j, no_caps)")
    case (Cons r rs)
    with try_match [OF c j m Cons] show ?thesis unfolding f by simp
  next
    case Nil
    then have eq: "jsearch J n j = jsearch J n (Suc j)" unfolding f by simp
    show ?thesis unfolding eq
    proof (rule try_fail [OF c j m Nil])
      fix vc ls m' assume "at_back J (offset_of (jcps J) j) vc ls [] m'"
      note x = exhausted_step [OF c j this]
      show "ends J (found J (jsearch J n (Suc j))) (Running m')"
      proof (cases "j < length (jcps J)")
        case True
        with x nxt show ?thesis by (simp add: ends_step)
      next
        case False
        with x j show ?thesis by (auto simp: ends_step ends_Finished found_def)
      qed
    qed
  qed
qed

text \<open>What the prefilter finds: a position to start at with every earlier one excluded, or none.\<close>

lemma collected_sound:
  assumes c: "compiled J n is" and any: "bitset_any (regex_firstBitSet (jregex J))"
  shows "bits_lead (regex_firstBitSet (jregex J))"
    "avoids J (regex_firstBitSet (jregex J)) k \<Longrightarrow> jsem J True n (k, cs) = []"
proof -
  let ?t = "regex_firstBitSet (jregex J)" and ?code = "regex_instSeq (jregex J)"
  have ok: "job_ok J" "unfold_ok (jenv J)" "jsupported J n" "layout True n 0 0 is (regex_matchers (jregex J))"
    and t: "?t = createFirstBitSet (jenv J) ?code (regex_matchers (jregex J))"
    using c by (simp_all add: compiled_def)
  have no: "\<not> bitset_any empty_bitset" by (simp add: bitset_any_def empty_bitset_def)
  have wf: "bits_wf empty_bitset" "bits_lead empty_bitset"
    using unsigned_less [where ?'a = nat and ?'b = 8] by (auto simp: bits_wf_def bits_lead_def empty_bitset_def bitset_test_def)
  have "collect (Suc (length ?code)) (jenv J) ?code (regex_matchers (jregex J)) 0 (length ?code) empty_bitset = Some (True, ?t)"
    using any no unfolding t createFirstBitSet_def by (auto split: option.splits prod.splits bool.splits if_splits)
  then have sc: "scan J 0 (length ?code) empty_bitset ?t" using wf(1) unfolding scan_def by blast
  have fl: "filtered J (jsem J True n) 0 (isize is)"
    using layout_filtered(1) [OF ok(1,2,4)] code_at_append(1) [OF compiledD(1) [OF c]] compiledD(2) [OF c] ok(3) by simp
  have out: "\<not> scan J (isize is) (length ?code) u ?t" for u
  proof
    assume "scan J (isize is) (length ?code) u ?t"
    from scan_inst [OF this compiledD(3) [OF c]] have "scan J (isize is + 1) (length ?code) u ?t"
      by (simp add: collect_inst_def inst_size_def encode_def)
    with scan_end show False unfolding compiledD(4) [OF c] by blast
  qed
  from fl sc show "bits_lead ?t" by (cases rule: filteredE) (use wf(2) out in auto)
  from fl sc show "jsem J True n (k, cs) = []" if "avoids J ?t k" by (cases rule: filteredE) (use that out in auto)
qed

text \<open>Code that starts with a text: the prefilter looks for it and continues behind it.\<close>

lemma first_needle:
  assumes c: "compiled J n is" and f: "fetch (regex_instSeq (jregex J)) 0 = Some i"
    and i: "(\<exists>w. i = CharIns w) \<or> (\<exists>x. i = StringIns x)"
  shows "\<exists>cs. code_points cs \<and> cs \<noteq> [] \<and>
    (\<forall>vm old. vm_inst vm = 0 \<longrightarrow> searchPrefix (jregex J) vm old = Some (search_needle (text_of cs) i vm)) \<and>
    (\<forall>k c. \<not> startsWith (drop k (jcps J)) cs \<longrightarrow> jsem J True n (k, c) = []) \<and>
    (\<forall>k vc ls es cap. k \<le> length (jcps J) \<longrightarrow> startsWith (drop k (jcps J)) cs \<longrightarrow>
       exec_inst (jenv J) (jregex J) i (vmst J 0 (offset_of (jcps J) k) vc ls es cap) =
         VNext (vmst J (inst_size i) (offset_of (jcps J) (k + length cs)) vc ls es cap))"
proof -
  have ok: "job_ok J" "jsupported J n" "layout True n 0 0 is (regex_matchers (jregex J))"
    using c by (simp_all add: compiled_def)
  have nd: "needs J (jsem J True n) 0 is (regex_matchers (jregex J))" using layout_needs(1) [OF ok(3)] ok(2) by simp
  obtain js where js: "is = i # js"
    using code_at_Cons(1) [of J 0 "hd (is @ [MatchIns])" "tl (is @ [MatchIns])"] compiledD(1) [OF c] f i by (cases "is") auto
  from i show ?thesis
  proof (elim disjE exE)
    fix w assume w: "i = CharIns w"
    have 1: "isCodePoint (sint w)" "\<And>k c. \<not> startsWith (drop k (jcps J)) [sint w] \<Longrightarrow> jsem J True n (k, c) = []"
      using nd js w unfolding needs_def by blast+
    have 2: "exec_inst (jenv J) (jregex J) i (vmst J 0 (offset_of (jcps J) k) vc ls es cap) =
        VNext (vmst J (inst_size i) (offset_of (jcps J) (k + length [sint w])) vc ls es cap)"
      if "k \<le> length (jcps J)" "startsWith (drop k (jcps J)) [sint w]" for k vc ls es cap
      using exec_consume_if [OF ok(1) that(1), where f = "\<lambda>cp. cp = sint w" and i = i and pc = 0] that(2)
      unfolding startsWith_single by (simp add: w exec_inst_def step_char_def)
    have 3: "searchPrefix (jregex J) vm old = Some (search_needle (text_of [sint w]) i vm)" if "vm_inst vm = 0" for vm old
      using f by (simp add: searchPrefix_def w that)
    have 4: "code_points [sint w]" "[sint w] \<noteq> []" using 1(1) by simp_all
    show ?thesis
      by (intro exI [of _ "[sint w]"] conjI allI impI, rule 4, rule 4, erule 3, erule 1(2), erule (1) 2)
  next
    fix x assume x: "i = StringIns x"
    obtain cs ms' where cs: "regex_matchers (jregex J) = mkStringMatcher (text_of cs) # ms'" "x = of_nat 0"
        "list_all isCodePoint cs" "cs \<noteq> []" "length cs < 2 ^ 30" "\<And>k c. \<not> startsWith (drop k (jcps J)) cs \<Longrightarrow> jsem J True n (k, c) = []"
      by (rule needs_string [OF nd [unfolded js x]]) (rule that)
    have small: "length (text_of cs) < 2 ^ 32" using text_of_length [OF cs(3)] cs(5) by simp
    have str: "asStrRef (mkStringMatcher (text_of cs)) = text_of cs" by (rule mkStringMatcher_str [OF small])
    have 2: "exec_inst (jenv J) (jregex J) i (vmst J 0 (offset_of (jcps J) k) vc ls es cap) =
        VNext (vmst J (inst_size i) (offset_of (jcps J) (k + length cs)) vc ls es cap)"
      if "k \<le> length (jcps J)" "startsWith (drop k (jcps J)) cs" for k vc ls es cap
      using expectForward_at [OF job_okD(1) [OF ok(1)] cs(3) that(1)] that(2)
      by (simp add: x cs(1,2) str exec_inst_def step_string_def advance_def goto_addr_def)
    have 3: "searchPrefix (jregex J) vm old = Some (search_needle (text_of cs) i vm)" if "vm_inst vm = 0" for vm old
      using f by (simp add: searchPrefix_def x cs(1,2) str that)
    show ?thesis
      by (intro exI [of _ cs] conjI allI impI, rule cs, rule cs, erule 3, erule cs(6), erule (1) 2)
  qed
qed

lemma searchPrefix_other:
  assumes "fetch (regex_instSeq regex) (vm_inst vm) = Some i" "\<not> ((\<exists>w. i = CharIns w) \<or> (\<exists>x. i = StringIns x))"
  shows "searchPrefix regex vm oldIter =
    (if bitset_any (regex_firstBitSet regex)
     then (let input = vm_input vm;
               (it, matched) = search_first (regex_firstBitSet regex) (input_text input) (input_iter input)
                 (length (input_text input) - input_iter input) in
           Some (vm\<lparr>vm_input := setIter input it\<rparr>, it, matched))
     else Some (vm, oldIter, True))"
  using assms by (cases i) (simp_all add: searchPrefix_def)

text \<open>The two ends of the prefilter: a start position, or the end of the text.\<close>

lemma search_none:
  assumes c: "compiled J n is" and k: "k \<le> length (jcps J)"
    and none: "\<And>i. k \<le> i \<Longrightarrow> i \<le> length (jcps J) \<Longrightarrow> jsem J True n (i, no_caps) = []"
    and m: "m_back m" "m_oldIter m = length (text_of (jcps J))" "m_vm m = vmst J pc it vc ls [] cap" "cap_ok [] cap"
  shows "ends J (found J (jsearch J n k)) (Running m)"
proof -
  have "at_back J (offset_of (jcps J) (length (jcps J))) vc ls [] m"
    using m by (auto simp: at_back_def intro!: exI [of _ "[]"])
  from exhausted_step [OF c order.refl this] search_sem_none [OF none k] show ?thesis
    by (auto simp: ends_step ends_Finished found_def)
qed

lemma search_starts:
  assumes c: "compiled J n is"
  shows "k \<le> length (jcps J) \<Longrightarrow> starts J k out \<Longrightarrow> ends J (found J (jsearch J n k)) out"
proof (induction "length (jcps J) - k" arbitrary: k out rule: less_induct)
  case less
  have ok: "job_ok J" using c by (simp add: compiled_def)
  note cp = job_okD(1) [OF ok]
  let ?V = "\<lambda>pc it cap. vmst J pc it (jcaptures J) (jloops J) [] cap"
  from less.prems(2) obtain m cap where cap: "cap_ok [] cap" and old: "m_oldIter m = offset_of (jcps J) k"
      and vm: "m_vm m = ?V 0 (offset_of (jcps J) k) cap" and out: "out = start_at (jregex J) (jctx J) m"
    by (auto simp: starts_def)
  have at: "ends J (found J (jsearch J n k)) (Running m')"
    if j: "k \<le> j" "j \<le> length (jcps J)" and skip: "\<And>i. k \<le> i \<Longrightarrow> i < j \<Longrightarrow> jsem J True n (i, no_caps) = []"
      and m': "at_pc J (offset_of (jcps J) j) 0 j (jcaptures J) (jloops J) [] m'" for j m'
  proof -
    have "ends J (found J (jsearch J n j)) (Running m')"
      by (rule search_at [OF c j(2) m'], rule less.hyps) (use j in auto)
    moreover have "jsearch J n k = jsearch J n j" by (rule search_sem_skip) (use j skip in auto)
    ultimately show ?thesis by simp
  qed
  have here: "ends J (found J (jsearch J n k)) (Running (m\<lparr>m_back := False\<rparr>))"
    by (rule at [OF order.refl less.prems(1)]) (use cap old vm in \<open>auto simp: at_pc_def\<close>)
  show ?case
  proof (cases "ctx_prefilter (jctx J)")
    case False
    with here out show ?thesis by (simp add: start_at_def)
  next
    case True
    obtain i where i: "fetch (regex_instSeq (jregex J)) 0 = Some i"
      using compiledD(1) [OF c] code_at_Cons(1) [of J 0] by (cases "is") auto
    show ?thesis
    proof (cases "(\<exists>w. i = CharIns w) \<or> (\<exists>x. i = StringIns x)")
      case needle: True
      from first_needle [OF c i needle] obtain cs where cs: "code_points cs" "cs \<noteq> []"
          "searchPrefix (jregex J) (m_vm m) (m_oldIter m) = Some (search_needle (text_of cs) i (m_vm m))"
        and fail: "\<And>k c. \<not> startsWith (drop k (jcps J)) cs \<Longrightarrow> jsem J True n (k, c) = []"
        and ex: "\<And>k vc ls es cap. k \<le> length (jcps J) \<Longrightarrow> startsWith (drop k (jcps J)) cs \<Longrightarrow>
       exec_inst (jenv J) (jregex J) i (vmst J 0 (offset_of (jcps J) k) vc ls es cap) =
         VNext (vmst J (inst_size i) (offset_of (jcps J) (k + length cs)) vc ls es cap)"
        using vm by (metis VM.select_convs(1))
      note ft = find_text [OF cp cs(1,2) less.prems(1)]
      show ?thesis
      proof (cases "find_from (drop (offset_of (jcps J) k) (text_of (jcps J))) 0 (text_of cs)")
        case None
        then have "out = Running (m\<lparr>m_vm := ?V (inst_size i) (offset_of (jcps J) k) cap,
            m_oldIter := length (text_of (jcps J)), m_back := True\<rparr>)"
          unfolding out start_at_def cs(3) using True by (simp add: search_needle_def vm remainForward_def)
        moreover have "jsem J True n (i, no_caps) = []" if "k \<le> i" "i \<le> length (jcps J)" for i
          using ft None fail that by auto
        ultimately show ?thesis
          using search_none [OF c less.prems(1), of "m\<lparr>m_vm := ?V (inst_size i) (offset_of (jcps J) k) cap,
            m_oldIter := length (text_of (jcps J)), m_back := True\<rparr>"] cap by simp
      next
        case (Some p)
        with ft obtain j where j: "k \<le> j" "j < length (jcps J)" "offset_of (jcps J) k + p = offset_of (jcps J) j"
            "startsWith (drop j (jcps J)) cs" "\<And>i. k \<le> i \<Longrightarrow> i < j \<Longrightarrow> \<not> startsWith (drop i (jcps J)) cs" by auto
        have len: "offset_of (jcps J) j + length (text_of cs) = offset_of (jcps J) (j + length cs)"
          using expectForward_at [OF cp cs(1), of j] j(2,4) by (auto simp: expectForward_def setIter_def split: if_splits)
        let ?m0 = "m\<lparr>m_vm := ?V 0 (offset_of (jcps J) j) cap, m_oldIter := offset_of (jcps J) j, m_back := False\<rparr>"
        have "out = Running (?m0\<lparr>m_vm := ?V (inst_size i) (offset_of (jcps J) (j + length cs)) cap\<rparr>)"
          unfolding out start_at_def cs(3) using True Some j(3) len
          by (simp add: search_needle_def vm remainForward_def setIter_def)
        also have "\<dots> = job_step J ?m0"
          using i ex [of j] j(2,4) by (simp add: job_step_def machine_step_def step_run_def vm_step_def)
        finally have o: "out = job_step J ?m0" .
        have "ends J (found J (jsearch J n k)) (Running ?m0)"
          by (rule at [OF j(1)]) (use j(2,5) fail cap in \<open>auto simp: at_pc_def\<close>)
        then show ?thesis unfolding o by (simp add: ends_step)
      qed
    next
      case other: False
      note sp = searchPrefix_other [of "jregex J" "m_vm m" i "m_oldIter m"]
      show ?thesis
      proof (cases "bitset_any (regex_firstBitSet (jregex J))")
        case False
        then have "out = Running (m\<lparr>m_back := False\<rparr>)" unfolding out start_at_def using True sp i other vm by simp
        with here show ?thesis by simp
      next
        case any: True
        obtain it matched where sf: "search_first (regex_firstBitSet (jregex J)) (text_of (jcps J)) (offset_of (jcps J) k)
            (length (text_of (jcps J)) - offset_of (jcps J) k) = (it, matched)" by fastforce
        have o: "out = Running (m\<lparr>m_vm := ?V 0 it cap, m_oldIter := it, m_back := \<not> matched\<rparr>)"
          unfolding out start_at_def using True sp i other any sf vm by (simp add: setIter_def)
        note snd = collected_sound [OF c any]
        note st = search_first_text [OF cp less.prems(1) snd(1) sf]
        show ?thesis
        proof (cases matched)
          case False
          then have "jsem J True n (i, no_caps) = []" if "k \<le> i" "i \<le> length (jcps J)" for i
            using st that by (intro snd(2)) (auto simp: avoids_def)
          then show ?thesis unfolding o using False st cap by (intro search_none [OF c less.prems(1)]) auto
        next
          case True
          with st obtain j where j: "k \<le> j" "j < length (jcps J)" "it = offset_of (jcps J) j"
            "\<And>i. k \<le> i \<Longrightarrow> i < j \<Longrightarrow> \<not> bitset_test (regex_firstBitSet (jregex J)) (first_byte (jcps J ! i))" by auto
          show ?thesis unfolding o
            by (rule at [OF j(1)]) (use j True cap in \<open>auto simp: at_pc_def avoids_def intro: snd(2)\<close>)
        qed
      qed
    qed
  qed
qed

end
