(* ===== verification/Regex_Frame.thy ===== *)
theory Regex_Frame
  imports Regex_VM
begin

text \<open>
  What a match leaves alone: no instruction, no backtracking and no new start position changes the text
  or the number of loop states, and a match keeps the parameters of its context. The routines that match
  repeatedly on one context rely on it.
\<close>

section \<open>Cursor operations keep the text\<close>

lemma input_text_simps [simp]:
  "input_text (setIter i it) = input_text i" "consumeForward i = (c, i') \<Longrightarrow> input_text i' = input_text i"
  "consumeBackward i = (c, i') \<Longrightarrow> input_text i' = input_text i" "input_text (snd (consumeForward i)) = input_text i"
  "expectForward i s = Some i' \<Longrightarrow> input_text i' = input_text i" "expectBackward i s = Some i' \<Longrightarrow> input_text i' = input_text i"
  by (auto simp: setIter_def consumeForward_def consumeBackward_def expectForward_def expectBackward_def split: prod.splits if_splits)

lemma ibackref_text: "ibackref_loop fuel env it stop i = Some i' \<Longrightarrow> input_text i' = input_text i"
  by (induction fuel arbitrary: it i) (fastforce split: if_splits prod.splits)+

lemma lbbackref_text: "lbbackref_loop fuel env it start i = Some i' \<Longrightarrow> input_text i' = input_text i"
  by (induction fuel arbitrary: it i) (fastforce split: if_splits prod.splits)+

section \<open>Instructions\<close>

definition kept :: "VM \<Rightarrow> nat \<times> bytes" where
  "kept vm = (length (vm_loops vm), input_text (vm_input vm))"

fun next_kept :: "nat \<times> bytes \<Rightarrow> vm_next \<Rightarrow> bool" where
  "next_kept f (VNext vm) \<longleftrightarrow> kept vm = f"
| "next_kept f (VBack vm) \<longleftrightarrow> kept vm = f"
| "next_kept f (VMatch vm) \<longleftrightarrow> kept vm = f"
| "next_kept f (VLimit vm) \<longleftrightarrow> kept vm = f"
| "next_kept f VFault \<longleftrightarrow> True"

lemma kept_simps [simp]:
  "kept (vm\<lparr>vm_bts := s\<rparr>) = kept vm" "kept (vm\<lparr>vm_inst := a\<rparr>) = kept vm" "kept (vm\<lparr>vm_captures := c\<rparr>) = kept vm"
  "kept (with_entries es vm) = kept vm" "input_text i = snd (kept vm) \<Longrightarrow> kept (vm\<lparr>vm_input := i\<rparr>) = kept vm"
  "length ls = fst (kept vm) \<Longrightarrow> kept (vm\<lparr>vm_loops := ls\<rparr>) = kept vm"
  "input_text (vm_input vm) = snd (kept vm)" "length (vm_loops vm) = fst (kept vm)"
  by (simp_all add: kept_def with_entries_def)

lemma advance_kept [simp]: "next_kept f (advance i vm) \<longleftrightarrow> kept vm = f" "next_kept f (goto_addr a vm) \<longleftrightarrow> kept vm = f"
  "next_kept f (advance_if b i vm) \<longleftrightarrow> kept vm = f"
  by (simp_all add: advance_def goto_addr_def advance_if_def)

lemma consume_kept [simp]: "next_kept f (consume_if p i vm) \<longleftrightarrow> kept vm = f" "next_kept f (consume_back_if p i vm) \<longleftrightarrow> kept vm = f"
  by (simp_all add: consume_if_def consume_back_if_def split: prod.splits)

lemma push_then_kept:
  "kept vm = f \<Longrightarrow> (\<And>s. next_kept f (k (vm\<lparr>vm_bts := s\<rparr>))) \<Longrightarrow> next_kept f (push_then bt vm k)"
  by (simp add: push_then_def split: option.split)

lemma prepareLoopBody_kept: "prepareLoopBody l vm = Some vm' \<Longrightarrow> kept vm' = kept vm"
  by (auto simp: prepareLoopBody_def Let_def split: option.splits)

lemma loop_body_kept: "kept vm = f \<Longrightarrow> next_kept f (loop_body i l vm)"
  using prepareLoopBody_kept [of l vm] by (auto simp: loop_body_def split: option.splits)

lemma step_LOOP_kept: "kept vm = f \<Longrightarrow> next_kept f (step_LOOP i vm)"
  by (cases i) (auto simp: step_LOOP_def Let_def intro!: push_then_kept loop_body_kept)

lemma reset_captures_kept: "kept vm = f \<Longrightarrow> next_kept f (reset_captures js vm (advance i))"
  by (induction js arbitrary: vm) (auto intro!: push_then_kept)

lemma radix_kept: "kept vm = f \<Longrightarrow> next_kept f (radix_or_emoji env ms i vm)" "kept vm = f \<Longrightarrow> next_kept f (lbradix_or_emoji env ms i vm)"
  by (cases i; auto simp: radix_or_emoji_def lbradix_or_emoji_def split: list.splits Backtrack.splits option.splits
      intro!: push_then_kept)+

lemma cleanup_loop_kept: "cleanup_loop negate es vm = Some (matched, vm') \<Longrightarrow> kept vm' = kept vm"
  by (induction negate es vm rule: cleanup_loop.induct) (auto split: if_splits)

lemma step_look_kept: "kept vm = f \<Longrightarrow> next_kept f (step_look i vm)"
  using cleanup_loop_kept
  by (cases i) (fastforce simp: step_look_def cleanupLookAround_def split: option.splits prod.splits intro!: push_then_kept)+

lemma step_radix_kept: "kept vm = f \<Longrightarrow> next_kept f (step_radix env ms i vm)" "kept vm = f \<Longrightarrow> next_kept f (step_lbradix env ms i vm)"
  by (auto simp: step_radix_def step_lbradix_def Let_def split: list.splits Backtrack.splits intro!: radix_kept)

lemma step_prepare_kept:
  "kept vm = f \<Longrightarrow> next_kept f (step_prepare_radix env code ms vm)" "kept vm = f \<Longrightarrow> next_kept f (step_prepare_lbradix env code ms vm)"
  by (auto simp: step_prepare_radix_def step_prepare_lbradix_def Let_def split: option.splits inst.splits
      intro!: push_then_kept radix_kept)

lemma step_capture_kept: "kept vm = f \<Longrightarrow> next_kept f (step_capture i vm)"
  by (cases i) (auto simp: step_capture_def Let_def intro!: push_then_kept reset_captures_kept simp del: upt_Suc)

lemma backref_then_kept:
  "kept vm = f \<Longrightarrow> (\<And>c i'. g c = Some i' \<Longrightarrow> input_text i' = snd f) \<Longrightarrow> next_kept f (backref_then g regex index isnamed i vm)"
  by (auto simp: backref_then_def split: option.splits)

lemma step_backref_kept: "kept vm = f \<Longrightarrow> next_kept f (step_backref env regex i vm)"
  by (cases i) (auto simp: step_backref_def Let_def ibackref_text lbbackref_text split: if_splits intro!: backref_then_kept)

lemma exec_inst_kept: "kept vm = f \<Longrightarrow> next_kept f (exec_inst env regex i vm)"
  by (cases i)
    (auto simp: exec_inst_def step_branch_def step_start_def step_end_def step_word_def step_iword_def step_any_def
      step_grapheme_def step_char_def step_charset_def step_string_def step_begin_loop_def step_end_loop_def
      Let_def step_prepare_kept step_radix_kept step_capture_kept step_look_kept step_backref_kept split: option.splits
      intro!: push_then_kept step_LOOP_kept)

lemma vm_step_kept: "kept vm = f \<Longrightarrow> next_kept f (vm_step env regex vm)"
  by (simp add: vm_step_def exec_inst_kept split: option.split)

section \<open>Backtracking and the search\<close>

fun bt_kept :: "nat \<times> bytes \<Rightarrow> bt_result \<Rightarrow> bool" where
  "bt_kept f (Resumed vm) \<longleftrightarrow> kept vm = f"
| "bt_kept f (Exhausted vm) \<longleftrightarrow> kept vm = f"
| "bt_kept f BtFault \<longleftrightarrow> True"

lemma backtrack_kept: "kept vm = f \<Longrightarrow> bt_kept f (backtrack es vm)"
proof (induction es vm rule: backtrack.induct)
  case (5 l st s vm)
  then show ?case using prepareLoopBody_kept
    by (fastforce simp: Let_def split: list.splits Backtrack.splits option.splits)
qed auto

fun outcome_kept :: "nat \<times> bytes \<Rightarrow> outcome \<Rightarrow> bool" where
  "outcome_kept f (Running m) \<longleftrightarrow> kept (m_vm m) = f"
| "outcome_kept f (Finished st vm) \<longleftrightarrow> kept vm = f"
| "outcome_kept f Crashed \<longleftrightarrow> True"

lemma searchPrefix_kept: "searchPrefix regex vm old = Some (vm', old', b) \<Longrightarrow> kept vm' = kept vm"
  by (auto simp: searchPrefix_def search_needle_def Let_def split: option.splits inst.splits if_splits prod.splits)

lemma start_at_kept: "kept (m_vm m) = f \<Longrightarrow> outcome_kept f (start_at regex ctx m)"
  using searchPrefix_kept by (fastforce simp: start_at_def split: option.splits)

lemma resetState_loops: "resetState ctx = (cs, ls) \<Longrightarrow> length ls = length (ctx_loops ctx)"
  by (auto simp: resetState_def)

lemma machine_step_kept:
  assumes "kept (m_vm m) = f" "length (ctx_loops ctx) = fst f"
  shows "outcome_kept f (machine_step env regex ctx timer m)"
proof (cases "m_back m")
  case True
  then show ?thesis using backtrack_kept [OF assms(1), of "bts_entries (vm_bts (m_vm m))"] assms(2)
    by (cases "backtrack (bts_entries (vm_bts (m_vm m))) (m_vm m)")
      (auto simp: machine_step_def step_back_def next_start_def check_timer_def Let_def resetState_loops
        split: prod.split option.split TimerStatus.split intro!: start_at_kept)
next
  case False
  then show ?thesis using vm_step_kept [OF assms(1), of env regex]
    by (cases "vm_step env regex (m_vm m)") (simp_all add: machine_step_def step_run_def set_match_def)
qed

lemma machine_run_kept:
  assumes "length (ctx_loops ctx) = fst f"
  shows "outcome_kept f out \<Longrightarrow> outcome_kept f (machine_run fuel env regex ctx timer out)"
proof (induction fuel arbitrary: out)
  case (Suc fuel)
  show ?case
  proof (cases out)
    case (Running m)
    then have "outcome_kept f (machine_step env regex ctx timer m)"
      using machine_step_kept assms Suc.prems by simp
    then show ?thesis using Suc.IH Running by simp
  qed (use Suc.prems in simp_all)
qed simp

text \<open>The parameters of a context survive a match on it.\<close>

definition context_of :: "MatchContext \<Rightarrow> nat \<times> bool \<times> nat \<times> bytes" where
  "context_of ctx = (ctx_captureGroupCount ctx, ctx_prefilter ctx, length (ctx_loops ctx), input_text (ctx_input ctx))"

lemma vm_match_context:
  assumes "vm_match fuel env regex ctx timer = Some (st, ctx')"
  shows "context_of ctx' = context_of ctx"
proof -
  let ?f = "(length (ctx_loops ctx), input_text (ctx_input ctx))"
  have "outcome_kept ?f (machine_run fuel env regex ctx timer (match_start regex ctx))"
    by (rule machine_run_kept)
      (auto simp: match_start_def kept_def resetState_loops split: prod.split intro!: start_at_kept)
  moreover from assms obtain vm where "machine_run fuel env regex ctx timer (match_start regex ctx) = Finished st vm"
    and ctx': "ctx' = ctx\<lparr>ctx_captures := vm_captures vm, ctx_loops := vm_loops vm,
        ctx_input := (if st = MATCH_OK \<or> st = MATCH_FAIL then vm_input vm else ctx_input ctx)\<rparr>"
    by (auto simp: vm_match_def split: outcome.splits)
  ultimately have "kept vm = ?f" by simp
  then have "length (vm_loops vm) = length (ctx_loops ctx)" "input_text (vm_input vm) = input_text (ctx_input ctx)"
    unfolding kept_def by simp_all
  then show ?thesis unfolding ctx' context_of_def by (simp del: kept_simps)
qed

end
