(* ===== verification/Regex_Result.thy ===== *)
theory Regex_Result
  imports Regex_Match Regex_Frame
begin

text \<open>
  The result of one call of \<open>match\<close> in terms of the specification: a context that stands at a position of
  the text (\<open>stands_at\<close>), a pattern that has been compiled (\<open>prepared\<close>), and the statement that the machine
  stops and reports what \<open>find_match\<close> says (\<open>match_from\<close>).
\<close>

section \<open>The result of a match\<close>

text \<open>The capture a pair of positions is stored as.\<close>

fun encode_capture :: "int list \<Rightarrow> (nat \<times> nat) option \<Rightarrow> Capture" where
  "encode_capture cps None = unset_capture"
| "encode_capture cps (Some (s, e)) =
     \<lparr>cap_offset = of_nat (offset_of cps s), cap_size = of_nat (offset_of cps e - offset_of cps s)\<rparr>"

definition match_result :: "nat \<Rightarrow> int list \<Rightarrow> (nat \<times> mstate) option \<Rightarrow> MatchStatus \<Rightarrow> MatchContext \<Rightarrow> bool" where
  "match_result gc cps r st ctx \<longleftrightarrow>
     (case r of
        None \<Rightarrow> st = MATCH_FAIL
      | Some (i, j, c) \<Rightarrow> st = MATCH_OK \<and>
          ctx_input ctx = \<lparr>input_text = text_of cps, input_iter = offset_of cps j\<rparr> \<and>
          ctx_captures ctx = map (encode_capture cps) (Some (i, j) # map c [1..<Suc gc]))"

text \<open>A generated regex of a supported pattern, and a context of it that stands at position \<open>k\<close>.\<close>

definition prepared :: "unicode_env \<Rightarrow> SyntaxTree \<Rightarrow> Regex \<Rightarrow> bool" where
  "prepared env tree regex \<longleftrightarrow> codegen env tree = Inr regex \<and> length (regex_instSeq regex) < 2 ^ 32 \<and>
     supported (tree_namedCaptureGroups tree) (tree_captureGroupCount tree) (unat (tree_loopCount tree)) (tree_pattern tree) \<and>
     unfold_ok env"

definition stands_at :: "int list \<Rightarrow> Regex \<Rightarrow> MatchContext \<Rightarrow> nat \<Rightarrow> bool" where
  "stands_at cps regex ctx k \<longleftrightarrow> k \<le> length cps \<and>
     ctx_input ctx = \<lparr>input_text = text_of cps, input_iter = offset_of cps k\<rparr> \<and>
     ctx_captureGroupCount ctx = regex_captureGroupCount regex \<and> length (ctx_loops ctx) = unat (regex_loopCount regex)"

definition text_ok :: "int list \<Rightarrow> bool" where
  "text_ok cps \<longleftrightarrow> code_points cps \<and> length (text_of cps) + 2 ^ 16 < 2 ^ 32"

abbreviation tree_find :: "unicode_env \<Rightarrow> SyntaxTree \<Rightarrow> int list \<Rightarrow> nat \<Rightarrow> (nat \<times> mstate) option" where
  "tree_find env tree cps k \<equiv> find_match env (tree_namedCaptureGroups tree) cps (tree_pattern tree) k"

section \<open>The machine stops with the first match\<close>

lemma enc_cap_encode: "enc_cap J x = encode_capture (jcps J) x"
  by (cases "(J, x)" rule: enc_cap.cases) simp_all

lemma machine_run_more:
  "machine_run fuel env regex ctx timer out = Finished st vm \<Longrightarrow> machine_run (fuel + n) env regex ctx timer out = Finished st vm"
proof (induction fuel arbitrary: out)
  case (Suc fuel)
  then show ?case by (cases out) auto
qed (simp add: machine_run_Finished)

lemma machine_run_unique:
  assumes "machine_run f1 env regex ctx timer out = Finished st1 vm1" "machine_run f2 env regex ctx timer out = Finished st2 vm2"
  shows "st1 = st2 \<and> vm1 = vm2"
  using machine_run_more [OF assms(1), of f2] machine_run_more [OF assms(2), of f1] by (simp add: add.commute)

lemma ends_vm_match:
  assumes "ends \<lparr>jenv = env, jregex = regex, jctx = ctx, jtimer = timer, jcps = cps\<rparr>
      (found \<lparr>jenv = env, jregex = regex, jctx = ctx, jtimer = timer, jcps = cps\<rparr> r) (match_start regex ctx)"
  shows "(\<exists>fuel res. vm_match fuel env regex ctx timer = Some res) \<and>
    (\<forall>fuel st ctx'. vm_match fuel env regex ctx timer = Some (st, ctx') \<longrightarrow>
       is_limit st \<or> match_result (regex_captureGroupCount regex) cps r st ctx')"
proof -
  from assms obtain fuel st vm where run: "machine_run fuel env regex ctx timer (match_start regex ctx) = Finished st vm"
    and r: "is_limit st \<or> found \<lparr>jenv = env, jregex = regex, jctx = ctx, jtimer = timer, jcps = cps\<rparr> r st vm"
    by (auto simp: ends_def)
  have "is_limit st' \<or> match_result (regex_captureGroupCount regex) cps r st' ctx'"
    if v: "vm_match fuel' env regex ctx timer = Some (st', ctx')" for fuel' st' ctx'
  proof -
    from v obtain vm' where run': "machine_run fuel' env regex ctx timer (match_start regex ctx) = Finished st' vm'"
      and c: "ctx_captures ctx' = vm_captures vm'" "st' = MATCH_OK \<Longrightarrow> ctx_input ctx' = vm_input vm'"
      by (auto simp: vm_match_def split: outcome.splits)
    have "st' = st" "vm' = vm" using machine_run_unique [OF run' run] by auto
    with r c show ?thesis
      by (auto simp: found_def match_result_def enc_cap_encode split: option.splits)
  qed
  moreover have "\<exists>fuel res. vm_match fuel env regex ctx timer = Some res"
    using run by (intro exI [of _ fuel]) (simp add: vm_match_def)
  ultimately show ?thesis by blast
qed

lemma codegen_fields:
  assumes "codegen env tree = Inr regex"
  shows "regex_captureGroupCount regex = tree_captureGroupCount tree" "regex_loopCount regex = tree_loopCount tree"
    "regex_named regex = tree_namedCaptureGroups tree"
    "regex_firstBitSet regex = createFirstBitSet env (regex_instSeq regex) (regex_matchers regex)"
  using assms by (auto simp: codegen_def Let_def split: sum.splits)

lemma match_from:
  assumes p: "prepared env tree regex" and t: "text_ok cps" and at: "stands_at cps regex ctx k"
  shows "(\<exists>fuel res. vm_match fuel env regex ctx timer = Some res) \<and>
      (\<forall>fuel st ctx'. vm_match fuel env regex ctx timer = Some (st, ctx') \<longrightarrow> is_limit st \<or>
         match_result (tree_captureGroupCount tree) cps (tree_find env tree cps k) st ctx')"
proof -
  have gen: "codegen env tree = Inr regex" using p by (simp add: prepared_def)
  note reg = codegen_fields [OF gen]
  obtain "is" where lay: "layout True (tree_pattern tree) 0 0 is (regex_matchers regex)" "regex_instSeq regex = encode_all (is @ [MatchIns])"
    using codegen_layout_aux [OF gen] by blast
  let ?J = "\<lparr>jenv = env, jregex = regex, jctx = ctx, jtimer = timer, jcps = cps\<rparr>"
  have c: "compiled ?J (tree_pattern tree) is"
    unfolding compiled_def job_ok_def using p t at lay reg
    by (simp add: prepared_def text_ok_def stands_at_def)
  let ?m = "\<lparr>m_vm = vmst ?J 0 (offset_of cps k) (jcaptures ?J) (jloops ?J) [] INIT_CAP, m_oldIter = offset_of cps k,
    m_btCount = 0, m_checks = 0, m_back = False\<rparr>"
  have "match_start regex ctx = start_at regex ctx ?m"
    using at by (simp add: match_start_def resetState_def stands_at_def)
  then have "starts ?J k (match_start regex ctx)"
    unfolding starts_def by (intro exI [of _ ?m] exI [of _ INIT_CAP]) (simp add: INIT_CAP_def cap_ok_def)
  from search_starts [OF c _ this] at
  have "ends ?J (found ?J (tree_find env tree cps k)) (match_start regex ctx)"
    by (simp add: find_match_def reg stands_at_def)
  from ends_vm_match [OF this, unfolded reg(1)] show ?thesis .
qed

lemma create_stands:
  assumes "tryToCreateMatchContext regex s off captures = Inr ctx"
  obtains cps where "code_points cps" "s = text_of cps" "stands_at cps regex ctx (min off (length cps))" "ctx_prefilter ctx"
proof -
  obtain inp where inp: "input_create s off = Inr inp" "ctx = newMatchContext regex inp captures"
    using assms by (auto simp: tryToCreateMatchContext_def split: sum.splits InputError.splits)
  then obtain cps where cps: "code_points cps" "s = text_of cps" "inp = \<lparr>input_text = s, input_iter = offset_of cps off\<rparr>"
    using input_create_aux [of s off inp] by auto
  have "offset_of cps off = offset_of cps (min off (length cps))" by (auto simp: offset_of_def min_def)
  with inp(2) cps that show thesis by (simp add: stands_at_def newMatchContext_def)
qed

lemma stands_prefilter [simp]: "stands_at cps regex (ctx\<lparr>ctx_prefilter := pf\<rparr>) k \<longleftrightarrow> stands_at cps regex ctx k"
  by (simp add: stands_at_def)

end
