(* ===== verification/Regex_Sample.thy ===== *)
theory Regex_Sample
  imports Regex_Result
begin

text \<open>
  A sample pattern, a text and an environment of the Unicode tables, on which the general statements are
  evaluated.
\<close>

section \<open>A sample pattern and its environment\<close>

definition sample_env :: unicode_env where
  "sample_env = \<lparr>simpleFold = (\<lambda>c. c), simpleUnfold = (\<lambda>c. []), isExtendWord = isWord,
     emojiTrie = \<lparr>packed_ptr = [], packed_maxCodePointCount = 0\<rparr>, firstGrapheme = (\<lambda>s. 1)\<rparr>"

text \<open>The pattern \<open>(a|b)\<close> and the text \<open>xb\<close>.\<close>

definition pick_tree :: SyntaxTree where
  "pick_tree = \<lparr>tree_flag = \<lparr>flag_mode = UNICODE, flag_modifiers = 0\<rparr>, tree_loopCount = 0, tree_captureGroupCount = 1,
     tree_pattern = GroupNode G_CAPTURE 1 0 0 (AltNode [CharNode 97, CharNode 98]),
     tree_namedCaptureGroups = \<lparr>offsetMap = Map.empty, entries = []\<rparr>\<rparr>"

lemma unfold_ok_sample: "unfold_ok sample_env"
  by (simp add: unfold_ok_def unfold_complete_def sample_env_def)

lemma pick_codegen:
  obtains regex where "codegen env pick_tree = Inr regex" "length (regex_instSeq regex) = 27"
  by (simp add: pick_tree_def codegen_def generateGroup_def generateAlt_def generateLeaf_def then_gen_def Let_def
      isa_EmptyNode_def direction_def inLookBehind_def currentAddr_def emitAt_def char_inst_def
      encode_def inst_size_def append_code_def hole_def isize_def)

lemma pick_supported: "supported (tree_namedCaptureGroups pick_tree) (tree_captureGroupCount pick_tree)
    (unat (tree_loopCount pick_tree)) (tree_pattern pick_tree)"
  by (simp add: pick_tree_def code_point_defs)

lemma pick_text: "[120, 98] = text_of [120, 98]" "code_points [120, 98]"
  by (simp_all add: codePointToUtf8_def code_point_defs)

lemma pick_create: "tryToCreateMatchContext regex [120, 98] 0 captures =
    Inr (newMatchContext regex \<lparr>input_text = [120, 98], input_iter = 0\<rparr> captures)"
proof -
  have "length [120, 98 :: byte] \<le> INPUT_MAX" by (simp add: INPUT_MAX_def)
  then have "input_create [120, 98] 0 = Inr \<lparr>input_text = [120, 98], input_iter = 0\<rparr>"
    by (intro iffD2 [OF conjunct1 [OF input_create_aux]] conjI exI [of _ "[120, 98]"] pick_text) simp_all
  then show ?thesis by (simp add: tryToCreateMatchContext_def)
qed

lemma pick_find: "find_match env nm [120, 98] (tree_pattern pick_tree) 0 = Some (1, 2, no_caps(1 \<mapsto> (1, 2)))"
  by (simp add: find_match_def pick_tree_def one_sem_def numeral_3_eq_3 numeral_2_eq_2 no_caps_def)

lemma pick_find_end: "find_match env nm [120, 98] (tree_pattern pick_tree) 2 = None"
  by (simp add: find_match_def pick_tree_def one_sem_def no_caps_def)

lemma pick_prepared:
  obtains regex where "prepared sample_env pick_tree regex"
proof -
  obtain regex where "codegen sample_env pick_tree = Inr regex" "length (regex_instSeq regex) = 27" by (rule pick_codegen)
  then have "prepared sample_env pick_tree regex" using pick_supported unfold_ok_sample by (simp add: prepared_def)
  then show thesis by (rule that)
qed

end
