(* ===== verification/Regex_Session.thy ===== *)
theory Regex_Session
  imports Regex_Template Regex_Sample
begin

text \<open>
  The entry points against the specification. \<open>searcher\<close> is what they rely on: a numbered call of the
  engine, on a context that stands at a position of the text, returns, and reports what \<open>find\<close> says or
  a limit. Inside the locale the loops of \<open>matchAll\<close>, \<open>replace\<close> and \<open>split\<close> are shown to feed their consumer
  with the sequences \<open>all_matches\<close>, \<open>replace_pieces\<close> and \<open>split_pieces\<close>; the virtual machine is an
  instance of it.
\<close>

section \<open>Sequences of matches\<close>

definition fed_status :: "bool \<times> 's \<Rightarrow> MatchStatus \<times> 's" where
  "fed_status r = (if fst r then MATCH_OK else MATCH_CONSUMED_LIMIT, snd r)"

text \<open>Where the next search starts after a match that ended at \<open>j\<close> and was searched from \<open>k\<close>: a match that
  ends where its search started makes room for one code point.\<close>

definition next_pos :: "nat \<Rightarrow> nat \<Rightarrow> nat \<Rightarrow> nat" where
  "next_pos len k j = (if j = k \<and> k < len then k + 1 else j)"

type_synonym finder = "nat \<Rightarrow> (nat \<times> mstate) option"

text \<open>The number of positions bounds the number of matches.\<close>

primrec all_matches :: "nat \<Rightarrow> finder \<Rightarrow> nat \<Rightarrow> nat \<Rightarrow> (nat \<times> mstate) list" where
  "all_matches 0 srch len k = []"
| "all_matches (Suc n) srch len k =
     (case srch k of
        None \<Rightarrow> []
      | Some (i, j, c) \<Rightarrow> (i, j, c) # (if next_pos len k j = k then [] else all_matches n srch len (next_pos len k j)))"

text \<open>The pieces \<open>replace\<close> writes: the text before each match, the replacement of the match, the code point that
  is stepped over, and the text behind the last match.\<close>

definition step_over :: "int list \<Rightarrow> nat \<Rightarrow> nat \<Rightarrow> bytes list" where
  "step_over cps k j = (if j = k \<and> k < length cps then [text_of (slice cps k (k + 1))] else [])"

primrec replace_pieces :: "nat \<Rightarrow> finder \<Rightarrow> (nat \<times> mstate \<Rightarrow> bytes list) \<Rightarrow> bool \<Rightarrow> int list \<Rightarrow> nat \<Rightarrow> bytes list" where
  "replace_pieces 0 srch repl glob cps k = []"
| "replace_pieces (Suc n) srch repl glob cps k =
     (case srch k of
        None \<Rightarrow> [text_of (drop k cps)]
      | Some (i, j, c) \<Rightarrow>
          (let k' = next_pos (length cps) k j in
           text_of (slice cps k i) # repl (i, j, c) @ step_over cps k j @
             (if glob \<and> k' \<noteq> k then replace_pieces n srch repl glob cps k' else [text_of (drop k' cps)])))"

text \<open>The pieces of \<open>split\<close>; the number is how many separators it may still use.\<close>

primrec split_pieces :: "nat \<Rightarrow> finder \<Rightarrow> int list \<Rightarrow> nat \<Rightarrow> bytes list" where
  "split_pieces 0 srch cps k = [text_of (drop k cps)]"
| "split_pieces (Suc n) srch cps k =
     (case srch k of
        None \<Rightarrow> [text_of (drop k cps)]
      | Some (i, j, c) \<Rightarrow>
          if j \<noteq> k then text_of (slice cps k i) # split_pieces n srch cps j
          else if k < length cps then text_of (slice cps k (k + 1)) # split_pieces n srch cps (k + 1)
          else [])"

definition result_captures :: "nat \<Rightarrow> int list \<Rightarrow> nat \<times> mstate \<Rightarrow> Capture list" where
  "result_captures gc cps = (\<lambda>(i, j, c). map (encode_capture cps) (Some (i, j) # map c [1..<Suc gc]))"

lemma match_result_Some:
  "match_result gc cps (Some (i, j, c)) st ctx \<longleftrightarrow> st = MATCH_OK \<and>
     ctx_input ctx = \<lparr>input_text = text_of cps, input_iter = offset_of cps j\<rparr> \<and> ctx_captures ctx = result_captures gc cps (i, j, c)"
  by (simp add: match_result_def result_captures_def)

section \<open>Positions and offsets\<close>

lemma offset_word:
  assumes "text_ok cps" "k \<le> length cps"
  shows "unat (of_nat (offset_of cps k) :: u32) = offset_of cps k"
proof -
  have "offset_of cps k \<le> length (text_of cps)" using assms offset_le_text by (simp add: text_ok_def)
  then show ?thesis using assms(1) by (simp add: text_ok_def unsigned_of_nat take_bit_nat_eq_self)
qed

lemma offset_word_eq:
  assumes "text_ok cps" "j \<le> length cps" "k \<le> length cps"
  shows "(of_nat (offset_of cps j) :: u32) = of_nat (offset_of cps k) \<longleftrightarrow> j = k"
  using offset_word [OF assms(1,2)] offset_word [OF assms(1,3)] offset_eq [of cps j k] assms
  by (metis text_ok_def)

lemma encode_capture_text:
  assumes "text_ok cps" "s \<le> e" "e \<le> length cps"
  defines "cap \<equiv> encode_capture cps (Some (s, e))"
  shows "unat (cap_offset cap) = offset_of cps s" "unat (cap_size cap) = offset_of cps e - offset_of cps s"
    "unat (endOffset cap) = offset_of cps e" "capture_text (text_of cps) cap = text_of (slice cps s e)" "\<not> isUnset cap"
proof -
  have cp: "code_points cps" using assms(1) by (simp add: text_ok_def)
  have le: "offset_of cps s \<le> offset_of cps e" "offset_of cps e \<le> length (text_of cps)"
    using offset_le [OF cp assms(2,3)] offset_le_text [OF cp assms(3)] by simp_all
  with assms(1) have lt: "offset_of cps e < 2 ^ 32 - 1" by (simp add: text_ok_def)
  then have "unat (of_nat (offset_of cps e - offset_of cps s) :: u32) = offset_of cps e - offset_of cps s"
    by (simp add: unsigned_of_nat take_bit_nat_eq_self)
  moreover have o: "unat (of_nat (offset_of cps s) :: u32) = offset_of cps s" using offset_word [OF assms(1)] assms(2,3) by simp
  ultimately show u: "unat (cap_offset cap) = offset_of cps s" "unat (cap_size cap) = offset_of cps e - offset_of cps s"
    by (simp_all add: cap_def)
  have "endOffset cap = of_nat (offset_of cps e)" using le(1) by (simp add: endOffset_def cap_def flip: of_nat_add)
  then show "unat (endOffset cap) = offset_of cps e" using offset_word [OF assms(1,3)] by simp
  show nu: "\<not> isUnset cap"
  proof
    assume "isUnset cap"
    then have "unat (cap_offset cap) = 2 ^ 32 - 1" by (simp add: isUnset_def)
    with u(1) le lt show False by simp
  qed
  show "capture_text (text_of cps) cap = text_of (slice cps s e)"
    using nu u le(1) text_slice [OF assms(2,3)] by (simp add: capture_text_def substr_def slice_def)
qed

text \<open>What the items of a template denote for a match, in code points.\<close>

definition group_text :: "int list \<Rightarrow> (nat \<times> nat) option \<Rightarrow> bytes" where
  "group_text cps r = (case r of None \<Rightarrow> [] | Some (s, e) \<Rightarrow> text_of (slice cps s e))"

fun text_value :: "NamedCaptureGroups \<Rightarrow> int list \<Rightarrow> nat \<times> mstate \<Rightarrow> template_item \<Rightarrow> bytes" where
  "text_value named cps m Dollar = [36]"
| "text_value named cps (i, j, c) Whole = text_of (slice cps i j)"
| "text_value named cps (i, j, c) Before = text_of (take i cps)"
| "text_value named cps (i, j, c) After = text_of (drop j cps)"
| "text_value named cps (i, j, c) (Group n) = group_text cps (c n)"
| "text_value named cps (i, j, c) (Named name) =
     group_text cps (resolve_caps (entry_groups (the (groups_find named name))) c)"

lemma result_captures_nth:
  "result_captures gc cps (i, j, c) ! 0 = encode_capture cps (Some (i, j))"
  "0 < n \<Longrightarrow> n \<le> gc \<Longrightarrow> result_captures gc cps (i, j, c) ! n = encode_capture cps (c n)"
  by (simp_all add: result_captures_def nth_Cons' del: upt_Suc)

lemma capture_text_unset [simp]: "capture_text s unset_capture = []" "isUnset unset_capture"
  by (simp_all add: capture_text_def isUnset_def unset_capture_def)

lemma encode_group_text:
  assumes "text_ok cps" "caps_wf cps c"
  shows "capture_text (text_of cps) (encode_capture cps (c n)) = group_text cps (c n)" "isUnset (encode_capture cps (c n)) \<longleftrightarrow> c n = None"
proof -
  have w: "c n = Some (s, e) \<Longrightarrow> s \<le> e \<and> e \<le> length cps" for s e using assms(2) by (simp add: caps_wf_def)
  show "capture_text (text_of cps) (encode_capture cps (c n)) = group_text cps (c n)"
    using w encode_capture_text(4) [OF assms(1)] by (cases "c n") (auto simp: group_text_def simp del: encode_capture.simps(2))
  show "isUnset (encode_capture cps (c n)) \<longleftrightarrow> c n = None"
    using w encode_capture_text(5) [OF assms(1)] by (cases "c n") (auto simp del: encode_capture.simps(2))
qed

lemma named_capture_text:
  assumes "text_ok cps" "caps_wf cps c" "list_all (\<lambda>g. 0 < g \<and> g \<le> gc) (entry_groups en)"
  shows "capture_text (text_of cps) (findValidNamedCapture en (result_captures gc cps (i, j, c))) =
    group_text cps (resolve_caps (entry_groups en) c)"
proof (cases en)
  case (SingleIndex n)
  then show ?thesis using assms encode_group_text [OF assms(1,2), of n] result_captures_nth(2) [of n gc]
    by (auto simp: resolve_caps_def group_text_def)
next
  case (MultipleIndices gs)
  have "List.find (\<lambda>g. \<not> isUnset (result_captures gc cps (i, j, c) ! g)) gs = List.find (\<lambda>g. c g \<noteq> None) gs"
    using assms(3) MultipleIndices encode_group_text(2) [OF assms(1,2)]
    by (intro find_cong) (auto simp: result_captures_nth list_all_iff)
  moreover have "0 < g \<and> g \<le> gc" if "List.find (\<lambda>g. c g \<noteq> None) gs = Some g" for g
    using that assms(3) MultipleIndices by (auto simp: find_Some_iff list_all_iff)
  ultimately show ?thesis using MultipleIndices encode_group_text(1) [OF assms(1,2)]
    by (cases "List.find (\<lambda>g. c g \<noteq> None) gs") (simp_all add: resolve_caps_def group_text_def result_captures_nth(2))
qed

lemma item_value_text:
  assumes t: "text_ok cps" "caps_wf cps c" "i \<le> j" "j \<le> length cps"
    and ok: "item_ok regex (it, l)" "gc = regex_captureGroupCount regex"
  shows "item_value regex (result_captures gc cps (i, j, c)) (text_of cps) it = text_value (regex_named regex) cps (i, j, c) it"
proof (cases it)
  case (Group n)
  then show ?thesis using ok encode_group_text(1) [OF t(1,2)] by (simp add: result_captures_nth)
next
  case (Named name)
  then show ?thesis using ok named_capture_text [OF t(1,2)] by (auto split: option.splits)
next
  case Whole
  then show ?thesis using encode_capture_text(1,2) [OF t(1,3,4)] offset_le [of cps i j] text_slice [OF t(3,4)] t
    by (simp add: result_captures_nth substr_def slice_def)
next
  case Before
  then show ?thesis using encode_capture_text(1) [OF t(1,3,4)] text_take [of i cps] t(3,4)
    by (simp add: result_captures_nth substr_def)
next
  case After
  then show ?thesis using encode_capture_text(3) [OF t(1,3,4)] text_drop [OF t(4)] by (simp add: result_captures_nth)
qed simp

lemma items_pieces_text:
  assumes "text_ok cps" "caps_wf cps c" "i \<le> j" "j \<le> length cps" "template_ok regex t" "gc = regex_captureGroupCount regex"
  shows "template_pieces (item_value regex (result_captures gc cps (i, j, c)) (text_of cps)) t =
    template_pieces (text_value (regex_named regex) cps (i, j, c)) t"
proof -
  have "list_all (item_ok regex) xs \<Longrightarrow> items_pieces (item_value regex (result_captures gc cps (i, j, c)) (text_of cps)) xs =
      items_pieces (text_value (regex_named regex) cps (i, j, c)) xs" for xs
    using item_value_text [OF assms(1-4) _ assms(6)] by (induction xs) auto
  with assms(5) show ?thesis by (simp add: template_pieces_def template_ok_def)
qed

section \<open>The contract of the engine\<close>

locale searcher =
  fixes ok :: "'j \<Rightarrow> bool" and eng :: "'j \<Rightarrow> engine" and cps :: "'j \<Rightarrow> int list" and srch :: "'j \<Rightarrow> finder"
    and gc :: "'j \<Rightarrow> nat" and at :: "'j \<Rightarrow> MatchContext \<Rightarrow> nat \<Rightarrow> bool" and calls :: "'j \<Rightarrow> nat"
  assumes source: "ok J \<Longrightarrow> text_ok (cps J)"
    and enough: "ok J \<Longrightarrow> length (cps J) < calls J"
    and input: "ok J \<Longrightarrow> at J ctx k \<Longrightarrow> k \<le> length (cps J) \<and>
        ctx_input ctx = \<lparr>input_text = text_of (cps J), input_iter = offset_of (cps J) k\<rparr>"
    and move: "ok J \<Longrightarrow> at J ctx k \<Longrightarrow> j \<le> length (cps J) \<Longrightarrow>
        at J (ctx\<lparr>ctx_input := \<lparr>input_text = text_of (cps J), input_iter = offset_of (cps J) j\<rparr>\<rparr>) j"
    and call: "ok J \<Longrightarrow> at J ctx k \<Longrightarrow> i < calls J \<Longrightarrow>
        \<exists>st ctx'. eng J i ctx = Some (st, ctx') \<and> (is_limit st \<or> match_result (gc J) (cps J) (srch J k) st ctx')"
    and again: "ok J \<Longrightarrow> at J ctx k \<Longrightarrow> eng J i ctx = Some (st, ctx') \<Longrightarrow>
        at J (ctx_setIter ctx' (of_nat (offset_of (cps J) k))) k"
    and span: "ok J \<Longrightarrow> k \<le> length (cps J) \<Longrightarrow> srch J k = Some (s, e, c) \<Longrightarrow>
        k \<le> s \<and> s \<le> e \<and> e \<le> length (cps J) \<and> caps_wf (cps J) c"
begin

lemma at_offset:
  assumes "ok J" "at J ctx k"
  shows "getOffset (ctx_input ctx) = of_nat (offset_of (cps J) k)" "k \<le> length (cps J)"
    "input_available (ctx_input ctx) \<longleftrightarrow> k < length (cps J)"
proof -
  have i: "ctx_input ctx = \<lparr>input_text = text_of (cps J), input_iter = offset_of (cps J) k\<rparr>" "k \<le> length (cps J)"
    using input [OF assms] by simp_all
  then show "getOffset (ctx_input ctx) = of_nat (offset_of (cps J) k)" "k \<le> length (cps J)" by (simp_all add: getOffset_def)
  have "code_points (cps J)" using source [OF assms(1)] by (simp add: text_ok_def)
  from offset_eq [OF this i(2) order.refl] i show "input_available (ctx_input ctx) \<longleftrightarrow> k < length (cps J)"
    by (auto simp: input_available_def)
qed

lemma at_consume:
  assumes "ok J" "at J ctx k" "k < length (cps J)"
  shows "at J (ctx_consume ctx) (k + 1)" "ctx_captures (ctx_consume ctx) = ctx_captures ctx"
proof -
  have cp: "code_points (cps J)" using source [OF assms(1)] by (simp add: text_ok_def)
  have "ctx_consume ctx = ctx\<lparr>ctx_input := \<lparr>input_text = text_of (cps J), input_iter = offset_of (cps J) (k + 1)\<rparr>\<rparr>"
    using input [OF assms(1,2)] next_at [OF cp assms(3)] by (simp add: ctx_consume_def consumeForward_def setIter_def)
  with move [OF assms(1,2), of "k + 1"] assms(3) show "at J (ctx_consume ctx) (k + 1)" by simp
  show "ctx_captures (ctx_consume ctx) = ctx_captures ctx" by (simp add: ctx_consume_def)
qed

text \<open>The three outcomes of a call.\<close>

lemma call_cases:
  assumes "ok J" "at J ctx k" "i < calls J"
  obtains (limit) st ctx' where "eng J i ctx = Some (st, ctx')" "is_limit st"
    | (fail) ctx' where "eng J i ctx = Some (MATCH_FAIL, ctx')" "srch J k = None"
        "at J (ctx_setIter ctx' (getOffset (ctx_input ctx))) k"
    | (found) ctx' s e c where "eng J i ctx = Some (MATCH_OK, ctx')" "srch J k = Some (s, e, c)" "k \<le> s" "s \<le> e" "e \<le> length (cps J)"
        "ctx_captures ctx' = result_captures (gc J) (cps J) (s, e, c)" "at J ctx' e" "caps_wf (cps J) c"
proof -
  obtain st ctx' where e: "eng J i ctx = Some (st, ctx')" and r: "is_limit st \<or> match_result (gc J) (cps J) (srch J k) st ctx'"
    using call [OF assms] by blast
  note o = at_offset [OF assms(1,2)]
  have bk: "at J (ctx_setIter ctx' (getOffset (ctx_input ctx))) k" using again [OF assms(1,2) e] o(1) by simp
  show thesis
  proof (cases "is_limit st")
    case False
    with r have r: "match_result (gc J) (cps J) (srch J k) st ctx'" by simp
    show thesis
    proof (cases "srch J k")
      case None
      with r e fail bk show thesis by (simp add: match_result_def)
    next
      case (Some x)
      obtain s j c where x: "x = (s, j, c)" by (cases x)
      from Some x r have m: "st = MATCH_OK" "ctx_input ctx' = \<lparr>input_text = text_of (cps J), input_iter = offset_of (cps J) j\<rparr>"
          "ctx_captures ctx' = result_captures (gc J) (cps J) (s, j, c)" by (simp_all add: match_result_Some)
      have sp: "k \<le> s" "s \<le> j" "j \<le> length (cps J)" "caps_wf (cps J) c" using span [OF assms(1) o(2)] Some x by blast+
      have "ctx' = (ctx_setIter ctx' (getOffset (ctx_input ctx)))\<lparr>ctx_input := \<lparr>input_text = text_of (cps J), input_iter = offset_of (cps J) j\<rparr>\<rparr>"
        unfolding ctx_setIter_def using m(2) by simp
      then have "at J ctx' j" using move [OF assms(1) bk sp(3)] by simp
      with found e Some x m sp show thesis by blast
    qed
  qed (use limit e in blast)
qed

text \<open>After a match the context stands at the next start position.\<close>

lemma at_next:
  assumes "ok J" "at J ctx k" "at J ctx' e" "e \<le> length (cps J)"
  defines "ctx2 \<equiv> (if input_available (ctx_input ctx') \<and> getOffset (ctx_input ctx) = getOffset (ctx_input ctx') then ctx_consume ctx' else ctx')"
  shows "at J ctx2 (next_pos (length (cps J)) k e)"
    "getOffset (ctx_input ctx2) = getOffset (ctx_input ctx) \<longleftrightarrow> next_pos (length (cps J)) k e = k"
proof -
  note o = at_offset [OF assms(1,2)] and o' = at_offset [OF assms(1,3)]
  have eq: "getOffset (ctx_input ctx) = getOffset (ctx_input ctx') \<longleftrightarrow> k = e"
    using offset_word_eq [OF source [OF assms(1)] o(2) o'(2)] o(1) o'(1) by simp
  show at2: "at J ctx2 (next_pos (length (cps J)) k e)"
    unfolding ctx2_def next_pos_def o'(3) eq using assms(3) at_consume(1) [OF assms(1,3)] by auto
  note o2 = at_offset [OF assms(1) at2]
  show "getOffset (ctx_input ctx2) = getOffset (ctx_input ctx) \<longleftrightarrow> next_pos (length (cps J)) k e = k"
    using offset_word_eq [OF source [OF assms(1)] o2(2) o(2)] o2(1) o(1) by simp
qed

lemma matchAll_loop_feeds:
  assumes "ok J"
  shows "at J ctx k \<Longrightarrow> length (cps J) - k < n \<Longrightarrow> i + (length (cps J) - k) < calls J \<Longrightarrow>
    \<exists>s st'. matchAll_loop n (eng J) consumer i ctx st = Some (s, st') \<and>
      (is_limit s \<or> (s, st') = fed_status (feed consumer
         (map (result_captures (gc J) (cps J)) (all_matches n (srch J) (length (cps J)) k)) st))"
proof (induction n arbitrary: i ctx k st)
  case (Suc n)
  have "i < calls J" using Suc.prems(3) by simp
  with assms Suc.prems(1) show ?case
  proof (cases rule: call_cases)
    case (limit s ctx')
    then show ?thesis by (cases s) simp_all
  next
    case (fail ctx')
    then show ?thesis by (simp add: fed_status_def)
  next
    case (found ctx' s e c)
    let ?k = "next_pos (length (cps J)) k e"
    let ?ctx = "if input_available (ctx_input ctx') \<and> getOffset (ctx_input ctx) = getOffset (ctx_input ctx') then ctx_consume ctx' else ctx'"
    note nx = at_next [OF assms Suc.prems(1) found(7,5)]
    obtain b st1 where b: "consumer (result_captures (gc J) (cps J) (s, e, c)) st = (b, st1)" by (cases "consumer (result_captures (gc J) (cps J) (s, e, c)) st")
    have "k \<le> ?k" "?k \<le> length (cps J)" using found(3,4,5) by (auto simp: next_pos_def)
    show ?thesis
    proof (cases "b \<and> ?k \<noteq> k")
      case True
      then have "length (cps J) - ?k < n" "i + 1 + (length (cps J) - ?k) < calls J"
        using Suc.prems \<open>k \<le> ?k\<close> \<open>?k \<le> length (cps J)\<close> by auto
      from Suc.IH [OF nx(1) this, of st1] True b found(1,2,6) nx(2) show ?thesis by (simp add: Let_def)
    next
      case False
      then show ?thesis using b found(1,2,6) nx(2) by (cases b) (simp_all add: Let_def fed_status_def)
    qed
  qed
qed simp

lemma remain_at:
  assumes "ok J" "at J ctx k"
  shows "consume_remain consumer ctx st = fed_replace (feed consumer [text_of (drop k (cps J))] st)"
  using input [OF assms] text_drop [of k "cps J"]
  by (simp add: consume_remain_def remainForward_def fed_replace_def split: prod.split bool.split)

lemma slice_at:
  assumes "ok J" "at J ctx k" "k \<le> e" "e \<le> length (cps J)"
  shows "slice (text_of (cps J)) (unat (getOffset (ctx_input ctx))) (offset_of (cps J) e) = text_of (slice (cps J) k e)"
  using at_offset(1) [OF assms(1,2)] offset_word [OF source [OF assms(1)], of k] text_slice [OF assms(3,4)] assms(3,4) by simp

lemma replace_matched_feeds:
  assumes J: "ok J" "at J ctx k" "at J ctx' e" and m: "k \<le> s" "s \<le> e" "e \<le> length (cps J)" "caps_wf (cps J) c"
    and caps: "ctx_captures ctx' = result_captures (gc J) (cps J) (s, e, c)"
    and t: "template_ok regex t" "gc J = regex_captureGroupCount regex"
    and p: "param_text param = text_of (cps J)" "param_replacement param = template_text t"
  shows "replace_matched regex param consumer (getOffset (ctx_input ctx)) ctx' st =
    (case feed consumer (text_of (slice (cps J) k s) # template_pieces (text_value (regex_named regex) (cps J) (s, e, c)) t @
         step_over (cps J) k e) st of
       (False, st') \<Rightarrow> Inl (MATCH_CONSUMED_LIMIT, st', [])
     | (True, st') \<Rightarrow> Inr (if input_available (ctx_input ctx') \<and> getOffset (ctx_input ctx) = getOffset (ctx_input ctx')
         then ctx_consume ctx' else ctx', st'))"
proof -
  note T = source [OF J(1)] and o = at_offset [OF J(1,2)] and o' = at_offset [OF J(1,3)]
  have cap: "unat (cap_offset (ctx_captures ctx' ! 0)) = offset_of (cps J) s"
    unfolding caps result_captures_nth(1) using encode_capture_text(1) [OF T m(2,3)] .
  have before: "slice (param_text param) (unat (getOffset (ctx_input ctx))) (unat (cap_offset (ctx_captures ctx' ! 0))) =
      text_of (slice (cps J) k s)"
    unfolding cap p(1) using slice_at [OF J(1,2) m(1)] m(2,3) by simp
  have templ: "interpretReplacePattern regex (ctx_captures ctx') (param_text param) (param_replacement param) consumer 0 st' =
      fed_replace (feed consumer (template_pieces (text_value (regex_named regex) (cps J) (s, e, c)) t) st')" for st'
    unfolding caps p interpret_template [OF t(1)] items_pieces_text [OF T m(4,2,3) t] ..
  have eq: "getOffset (ctx_input ctx) = getOffset (ctx_input ctx') \<longleftrightarrow> e = k"
    using offset_word_eq [OF T o(2) o'(2)] o(1) o'(1) by auto
  have step: "slice (input_text (ctx_input (ctx_consume ctx'))) (unat (getOffset (ctx_input ctx))) (unat (getOffset (ctx_input (ctx_consume ctx')))) =
      text_of (slice (cps J) k (k + 1))" if "e = k" "k < length (cps J)"
  proof -
    have a: "at J (ctx_consume ctx') (k + 1)" using at_consume(1) [OF J(1,3)] that by simp
    note i = input [OF J(1) a] at_offset [OF J(1) a]
    have "unat (getOffset (ctx_input (ctx_consume ctx'))) = offset_of (cps J) (k + 1)" using i offset_word [OF T] by simp
    then show ?thesis using i slice_at [OF J(1,2), of "k + 1"] that by simp
  qed
  show ?thesis
    unfolding replace_matched_def Let_def before templ o'(3) eq
    using step by (auto simp: feed_append step_over_def fed_replace_def split: prod.split bool.split)
qed

lemma next_pos_bounds:
  assumes "k \<le> s" "s \<le> e" "e \<le> length (cps J)"
  shows "k \<le> next_pos (length (cps J)) k e" "next_pos (length (cps J)) k e \<le> length (cps J)"
  using assms by (auto simp: next_pos_def)

lemma replace_loop_feeds:
  assumes "ok J" and t: "template_ok regex t" "gc J = regex_captureGroupCount regex"
    and p: "param_text param = text_of (cps J)" "param_replacement param = template_text t"
  shows "at J ctx k \<Longrightarrow> length (cps J) - k < n \<Longrightarrow> i + (length (cps J) - k) < calls J \<Longrightarrow>
    \<exists>s st' err. replace_loop n (eng J) regex param consumer i ctx st = Some (s, st', err) \<and>
      (is_limit s \<or> (s, st', err) = fed_replace (feed consumer
         (replace_pieces n (srch J) (\<lambda>m. template_pieces (text_value (regex_named regex) (cps J) m) t)
            (param_global param) (cps J) k) st))"
proof (induction n arbitrary: i ctx k st)
  case (Suc n)
  have "i < calls J" using Suc.prems(3) by simp
  with assms(1) Suc.prems(1) show ?case
  proof (cases rule: call_cases)
    case (limit s ctx')
    then show ?thesis by (cases s) simp_all
  next
    case (fail ctx')
    then show ?thesis using remain_at [OF assms(1) fail(3), of consumer st]
      by (simp add: Let_def) (metis prod.collapse)
  next
    case (found ctx' s e c)
    let ?k = "next_pos (length (cps J)) k e"
    note nx = at_next [OF assms(1) Suc.prems(1) found(7,5)] and b = next_pos_bounds [OF found(3,4,5)]
    note rm = replace_matched_feeds [OF assms(1) Suc.prems(1) found(7) found(3,4,5,8,6) t p, where consumer = consumer and st = st]
    define ctx2 where "ctx2 = (if input_available (ctx_input ctx') \<and> getOffset (ctx_input ctx) = getOffset (ctx_input ctx') then ctx_consume ctx' else ctx')"
    define ps where "ps = text_of (slice (cps J) k s) # template_pieces (text_value (regex_named regex) (cps J) (s, e, c)) t @ step_over (cps J) k e"
    note nx = nx [folded ctx2_def] and rm = rm [folded ctx2_def ps_def]
    obtain ok1 st1 where f: "feed consumer ps st = (ok1, st1)" by (cases "feed consumer ps st")
    have pieces: "replace_pieces (Suc n) (srch J) (\<lambda>m. template_pieces (text_value (regex_named regex) (cps J) m) t) (param_global param) (cps J) k =
        ps @ (if param_global param \<and> ?k \<noteq> k
              then replace_pieces n (srch J) (\<lambda>m. template_pieces (text_value (regex_named regex) (cps J) m) t) (param_global param) (cps J) ?k
              else [text_of (drop ?k (cps J))])"
      using found(2) by (simp add: Let_def ps_def)
    show ?thesis
    proof (cases "ok1 \<and> param_global param \<and> ?k \<noteq> k")
      case True
      then have "length (cps J) - ?k < n" "i + 1 + (length (cps J) - ?k) < calls J" using Suc.prems b by auto
      from Suc.IH [OF nx(1) this, of st1] show ?thesis
        using True f rm found(1) nx(2) unfolding pieces by (simp add: Let_def feed_append)
    next
      case False
      then show ?thesis using f rm found(1) nx(2) remain_at [OF assms(1) nx(1), of consumer st1] unfolding pieces
        by (cases ok1) (auto simp: Let_def feed_append fed_replace_def)
    qed
  qed
qed simp

lemma split_loop_feeds:
  assumes "ok J"
  shows "at J ctx k \<Longrightarrow> i + (length (cps J) - k) < calls J \<Longrightarrow>
    \<exists>s st'. split_loop n (eng J) (text_of (cps J)) consumer i ctx st = Some (s, st') \<and>
      (is_limit s \<or> (s, st') = fed_status (feed consumer (split_pieces n (srch J) (cps J) k) st))"
proof (induction n arbitrary: i ctx k st)
  case 0
  then show ?case using remain_at [OF assms 0(1), of consumer st] by (simp add: fed_replace_def fed_status_def)
next
  case (Suc n)
  have "i < calls J" using Suc.prems(2) by simp
  with assms Suc.prems(1) show ?case
  proof (cases rule: call_cases)
    case (limit s ctx')
    then show ?thesis by (cases s) simp_all
  next
    case (fail ctx')
    then show ?thesis using remain_at [OF assms fail(3), of consumer st]
      by (simp add: Let_def fed_replace_def fed_status_def)
  next
    case (found ctx' s e c)
    note T = source [OF assms] and o = at_offset [OF assms Suc.prems(1)] and o' = at_offset [OF assms found(7)]
    have eq: "getOffset (ctx_input ctx) = getOffset (ctx_input ctx') \<longleftrightarrow> e = k"
      using offset_word_eq [OF T o(2) o'(2)] o(1) o'(1) by auto
    have cap: "unat (cap_offset (ctx_captures ctx' ! 0)) = offset_of (cps J) s"
      unfolding found(6) result_captures_nth(1) using encode_capture_text(1) [OF T found(4,5)] .
    have before: "slice (text_of (cps J)) (unat (getOffset (ctx_input ctx))) (unat (cap_offset (ctx_captures ctx' ! 0))) = text_of (slice (cps J) k s)"
      unfolding cap using slice_at [OF assms Suc.prems(1) found(3)] found(4,5) by simp
    consider (forward) "e \<noteq> k" | (over) "e = k" "k < length (cps J)" | (stop) "e = k" "k = length (cps J)"
      using o(2) by linarith
    then show ?thesis
    proof cases
      case forward
      then have "i + 1 + (length (cps J) - e) < calls J" using Suc.prems found(3,4,5) by auto
      note ih = Suc.IH [OF found(7) this]
      obtain b st1 where f: "consumer (text_of (slice (cps J) k s)) st = (b, st1)" by (cases "consumer (text_of (slice (cps J) k s)) st")
      from ih [of st1] show ?thesis using forward f found(1,2) eq before
        by (cases b) (simp_all add: Let_def fed_status_def)
    next
      case over
      have a: "at J (ctx_consume ctx') (k + 1)" using at_consume(1) [OF assms found(7)] over by simp
      note i = input [OF assms a] at_offset [OF assms a]
      have step: "slice (input_text (ctx_input (ctx_consume ctx'))) (unat (getOffset (ctx_input ctx))) (unat (getOffset (ctx_input (ctx_consume ctx')))) =
          text_of (slice (cps J) k (k + 1))"
        using i offset_word [OF T, of "k + 1"] slice_at [OF assms Suc.prems(1), of "k + 1"] by simp
      have "i + 1 + (length (cps J) - (k + 1)) < calls J" using Suc.prems over by auto
      note ih = Suc.IH [OF a this]
      obtain b st1 where f: "consumer (text_of (slice (cps J) k (k + 1))) st = (b, st1)" by (cases "consumer (text_of (slice (cps J) k (k + 1))) st")
      from ih [of st1] show ?thesis using over f found(1,2) eq step o'(3)
        by (cases b) (simp_all add: Let_def fed_status_def)
    next
      case stop
      then show ?thesis using found(1,2) eq o'(3) by (simp add: Let_def fed_status_def)
    qed
  qed
qed

end

section \<open>The virtual machine as a searcher\<close>

lemma search_sem_span:
  assumes "search_sem n env nm cps p k = Some (i, j, c)" "k + n \<le> Suc (length cps)"
  shows "k \<le> i \<and> i \<le> j \<and> j \<le> length cps \<and> caps_wf cps c"
  using assms
proof (induction n arbitrary: k)
  case (Suc n)
  show ?case
  proof (cases "sem env nm cps True p (k, no_caps)")
    case Nil
    then show ?thesis using Suc.IH [of "k + 1"] Suc.prems by simp
  next
    case (Cons r rs)
    have wf: "caps_wf cps no_caps" by (simp add: caps_wf_def no_caps_def)
    have m: "(j, c) \<in> set (sem env nm cps True p (k, no_caps))" "i = k" using Cons Suc.prems by auto
    have "k \<le> length cps" using Suc.prems(2) by simp
    from step_okD [OF sem_ok this m(1)] wf show ?thesis using m(2) by simp
  qed
qed simp

lemma find_match_span:
  "k \<le> length cps \<Longrightarrow> find_match env nm cps p k = Some (i, j, c) \<Longrightarrow> k \<le> i \<and> i \<le> j \<and> j \<le> length cps \<and> caps_wf cps c"
  unfolding find_match_def by (erule search_sem_span) simp

text \<open>A match reads of its context only the cursor, the prefilter flag and the two counts.\<close>

definition canon :: "MatchContext \<Rightarrow> MatchContext" where
  "canon ctx = ctx\<lparr>ctx_captures := [], ctx_loops := replicate (length (ctx_loops ctx)) init_loop\<rparr>"

lemma canon_start: "start_at regex (canon ctx) m = start_at regex ctx m" "resetState (canon ctx) = resetState ctx"
  by (simp_all add: canon_def start_at_def resetState_def)

lemma canon_run: "machine_run fuel env regex (canon ctx) timer out = machine_run fuel env regex ctx timer out"
proof (induction fuel arbitrary: out)
  case (Suc fuel)
  have "machine_step env regex (canon ctx) timer m = machine_step env regex ctx timer m" for m
  proof -
    have "next_start regex (canon ctx) m vm = next_start regex ctx m vm" for vm
      by (simp add: next_start_def canon_start Let_def split_beta)
    then show ?thesis by (simp add: machine_step_def step_back_def split: bt_result.split)
  qed
  with Suc show ?case by (simp split: outcome.split)
qed simp

lemma canon_match: "vm_match fuel env regex (canon ctx) timer = None \<longleftrightarrow> vm_match fuel env regex ctx timer = None"
proof -
  have "match_start regex (canon ctx) = match_start regex ctx"
    by (simp add: match_start_def canon_start) (simp add: canon_def)
  then show ?thesis by (simp add: vm_match_def canon_run split: outcome.split)
qed

lemma vm_match_more: "vm_match fuel env regex ctx timer \<noteq> None \<Longrightarrow> fuel \<le> fuel' \<Longrightarrow> vm_match fuel' env regex ctx timer \<noteq> None"
  using machine_run_more [of fuel env regex ctx timer "match_start regex ctx" _ _ "fuel' - fuel"]
  by (auto simp: vm_match_def split: outcome.splits)

record session =
  s_env :: unicode_env
  s_tree :: SyntaxTree
  s_regex :: Regex
  s_timers :: "nat \<Rightarrow> (nat \<Rightarrow> TimerStatus) option"
  s_cps :: "int list"
  s_fuel :: nat

text \<open>The fuel of the session is enough for every call it may make.\<close>

definition session_ok :: "session \<Rightarrow> bool" where
  "session_ok S \<longleftrightarrow> prepared (s_env S) (s_tree S) (s_regex S) \<and> text_ok (s_cps S) \<and>
     (\<forall>ctx k i. stands_at (s_cps S) (s_regex S) ctx k \<longrightarrow> i \<le> length (s_cps S) \<longrightarrow>
        vm_match (s_fuel S) (s_env S) (s_regex S) ctx (s_timers S i) \<noteq> None)"

abbreviation session_engine :: "session \<Rightarrow> engine" where
  "session_engine S \<equiv> vm_engine (s_fuel S) (s_env S) (s_regex S) (s_timers S)"

abbreviation session_find :: "session \<Rightarrow> finder" where
  "session_find S \<equiv> tree_find (s_env S) (s_tree S) (s_cps S)"

lemma stands_again:
  assumes "text_ok cps" "stands_at cps regex ctx k" "vm_match fuel env regex ctx timer = Some (st, ctx')"
  shows "stands_at cps regex (ctx_setIter ctx' (of_nat (offset_of cps k))) k"
  using vm_match_context [OF assms(3)] assms(2) offset_word [OF assms(1), of k]
  by (auto simp: stands_at_def context_of_def ctx_setIter_def setIter_def)

interpretation vm: searcher session_ok session_engine s_cps session_find "\<lambda>S. tree_captureGroupCount (s_tree S)"
  "\<lambda>S. stands_at (s_cps S) (s_regex S)" "\<lambda>S. Suc (length (s_cps S))"
proof
  fix S ctx k i assume S: "session_ok S" "stands_at (s_cps S) (s_regex S) ctx k" "i < Suc (length (s_cps S))"
  then have "vm_match (s_fuel S) (s_env S) (s_regex S) ctx (s_timers S i) \<noteq> None"
    unfolding session_ok_def less_Suc_eq_le by blast
  then obtain st ctx' where r: "vm_match (s_fuel S) (s_env S) (s_regex S) ctx (s_timers S i) = Some (st, ctx')" by auto
  moreover have "is_limit st \<or> match_result (tree_captureGroupCount (s_tree S)) (s_cps S) (session_find S k) st ctx'"
    using match_from [of "s_env S" "s_tree S" "s_regex S" "s_cps S" ctx k "s_timers S i"] S r by (simp add: session_ok_def)
  ultimately show "\<exists>st ctx'. session_engine S i ctx = Some (st, ctx') \<and>
      (is_limit st \<or> match_result (tree_captureGroupCount (s_tree S)) (s_cps S) (session_find S k) st ctx')"
    by (auto simp: vm_engine_def)
next
  fix S ctx k i st ctx' assume "session_ok S" "stands_at (s_cps S) (s_regex S) ctx k" "session_engine S i ctx = Some (st, ctx')"
  then show "stands_at (s_cps S) (s_regex S) (ctx_setIter ctx' (of_nat (offset_of (s_cps S) k))) k"
    by (intro stands_again) (auto simp: session_ok_def vm_engine_def)
qed (auto simp: session_ok_def stands_at_def dest: find_match_span)

section \<open>Enough fuel\<close>

text \<open>The contexts that differ for a match are finitely many, so one fuel is enough for all calls.\<close>

definition start_context :: "int list \<Rightarrow> Regex \<Rightarrow> nat \<Rightarrow> bool \<Rightarrow> MatchContext" where
  "start_context cps regex k pf = \<lparr>ctx_input = \<lparr>input_text = text_of cps, input_iter = offset_of cps k\<rparr>,
     ctx_captureGroupCount = regex_captureGroupCount regex, ctx_prefilter = pf, ctx_captures = [],
     ctx_loops = replicate (unat (regex_loopCount regex)) init_loop\<rparr>"

lemma canon_stands: "stands_at cps regex ctx k \<Longrightarrow> canon ctx = start_context cps regex k (ctx_prefilter ctx)"
  by (simp add: canon_def stands_at_def start_context_def)

lemma session_fuel:
  assumes "prepared env tree regex" "text_ok cps"
  shows "\<exists>F. \<forall>fuel \<ge> F. session_ok \<lparr>s_env = env, s_tree = tree, s_regex = regex, s_timers = timers, s_cps = cps, s_fuel = fuel\<rparr>"
proof -
  let ?A = "{..length cps} \<times> (UNIV :: bool set) \<times> {..length cps}"
  let ?m = "\<lambda>fuel (k, pf, i). vm_match fuel env regex (start_context cps regex k pf) (timers i)"
  have "\<exists>fuel. ?m fuel x \<noteq> None" if "x \<in> ?A" for x
  proof -
    obtain k pf i where x: "x = (k, pf, i)" by (cases x)
    have "stands_at cps regex (start_context cps regex k pf) k" using that x by (simp add: stands_at_def start_context_def)
    from match_from [OF assms this, of "timers i"] x show ?thesis by auto
  qed
  then obtain f where f: "\<And>x. x \<in> ?A \<Longrightarrow> ?m (f x) x \<noteq> None" by metis
  have "session_ok \<lparr>s_env = env, s_tree = tree, s_regex = regex, s_timers = timers, s_cps = cps, s_fuel = fuel\<rparr>"
    if F: "Max (f ` ?A) \<le> fuel" for fuel
  proof -
    have "vm_match fuel env regex ctx (timers i) \<noteq> None" if c: "stands_at cps regex ctx k" "i \<le> length cps" for ctx k i
    proof -
      let ?x = "(k, ctx_prefilter ctx, i)"
      have A: "?x \<in> ?A" using c by (auto simp: stands_at_def)
      then have "f ?x \<le> Max (f ` ?A)" by (intro Max_ge finite_imageI imageI) auto
      then have "f ?x \<le> fuel" using F by (rule order_trans)
      with f [OF A] have "?m fuel ?x \<noteq> None" using vm_match_more by simp
      then have "vm_match fuel env regex (canon ctx) (timers i) \<noteq> None" unfolding canon_stands [OF c(1)] by simp
      then show ?thesis unfolding canon_match .
    qed
    with assms show ?thesis by (simp add: session_ok_def)
  qed
  then show ?thesis by blast
qed

section \<open>What the pieces say\<close>

text \<open>Replacing every match by itself gives the text back, however many matches there are and whether or
  not they are empty.\<close>

lemma slice_drop: "k \<le> i \<Longrightarrow> i \<le> length cps \<Longrightarrow> text_of (slice cps k i) @ text_of (drop i cps) = text_of (drop k cps)"
  by (metis append_take_drop_id drop_drop le_add_diff_inverse2 slice_def text_of_simps(3))

lemma replace_self:
  assumes span: "\<And>k i j c. k \<le> length cps \<Longrightarrow> srch k = Some (i, j, c) \<Longrightarrow> k \<le> i \<and> i \<le> j \<and> j \<le> length cps"
    and self: "\<And>i j c. concat (repl (i, j, c)) = text_of (slice cps i j)"
  shows "k \<le> length cps \<Longrightarrow> length cps - k < n \<Longrightarrow> concat (replace_pieces n srch repl glob cps k) = text_of (drop k cps)"
proof (induction n arbitrary: k)
  case (Suc n)
  show ?case
  proof (cases "srch k")
    case (Some m)
    obtain i j c where m: "m = (i, j, c)" by (cases m)
    let ?k = "next_pos (length cps) k j"
    have sp: "k \<le> i" "i \<le> j" "j \<le> length cps" using span [OF Suc.prems(1)] Some m by blast+
    have b: "k \<le> ?k" "?k \<le> length cps" using sp Suc.prems by (auto simp: next_pos_def)
    have over: "concat (step_over cps k j) @ text_of (drop ?k cps) = text_of (drop j cps)"
      using slice_drop [of k "k + 1" cps] by (auto simp: step_over_def next_pos_def)
    have tl: "concat (if glob \<and> ?k \<noteq> k then replace_pieces n srch repl glob cps ?k else [text_of (drop ?k cps)]) = text_of (drop ?k cps)"
      using Suc.IH [OF b(2)] b Suc.prems by auto
    have "concat (replace_pieces (Suc n) srch repl glob cps k) =
        text_of (slice cps k i) @ text_of (slice cps i j) @ concat (step_over cps k j) @ text_of (drop ?k cps)"
      using Some m self tl by (simp add: Let_def)
    also have "\<dots> = text_of (drop k cps)" unfolding over using slice_drop [OF sp(2,3)] slice_drop [OF sp(1)] sp by simp
    finally show ?thesis .
  qed simp
qed simp

lemma text_length: "code_points cps \<Longrightarrow> length cps \<le> length (text_of cps)"
  using offset_count [of cps 0 "length cps"] by simp

lemma session_start:
  assumes "prepared env tree regex" "tryToCreateMatchContext regex s off [] = Inr ctx" "length s + 2 ^ 16 < 2 ^ 32"
  obtains cps F where "code_points cps" "s = text_of cps" "stands_at cps regex ctx (min off (length cps))" "length cps \<le> length s"
    "\<forall>fuel \<ge> F.
      session_ok \<lparr>s_env = env, s_tree = tree, s_regex = regex, s_timers = timers, s_cps = cps, s_fuel = fuel\<rparr>"
proof -
  obtain cps where cps: "code_points cps" "s = text_of cps" and at: "stands_at cps regex ctx (min off (length cps))"
    using create_stands [OF assms(2)] .
  have T: "text_ok cps" using cps assms(3) by (simp add: text_ok_def)
  obtain F where "\<forall>fuel \<ge> F.
      session_ok \<lparr>s_env = env, s_tree = tree, s_regex = regex, s_timers = timers, s_cps = cps, s_fuel = fuel\<rparr>"
    using session_fuel [OF assms(1) T] by blast
  with that cps at text_length [OF cps(1)] show thesis by blast
qed

lemma prepared_fields:
  assumes "prepared env tree regex"
  shows "regex_captureGroupCount regex = tree_captureGroupCount tree" "regex_named regex = tree_namedCaptureGroups tree"
  using assms codegen_fields by (auto simp: prepared_def)

lemma feed_collect: "feed (\<lambda>x st. (True, st @ x)) xs st = (True, st @ concat xs)"
  by (induction xs arbitrary: st) simp_all

lemma replace_feeds:
  assumes p: "prepared env tree regex" and c: "tryToCreateMatchContext regex s 0 [] = Inr ctx" and l: "length s + 2 ^ 16 < 2 ^ 32"
    and t: "template_ok regex t" and param: "param_text param = s" "param_replacement param = template_text t"
  shows "\<exists>cps. code_points cps \<and> s = text_of cps \<and>
    (\<exists>F. \<forall>fuel \<ge> F. \<exists>status st' err. replace (vm_engine fuel env regex timers) regex param consumer st = Some (status, st', err) \<and>
      (is_limit status \<or> (status, st', err) = fed_replace (feed consumer
         (replace_pieces (length s + 2) (tree_find env tree cps)
            (\<lambda>m. template_pieces (text_value (tree_namedCaptureGroups tree) cps m) t) (param_global param) cps 0) st)))"
proof -
  obtain cps F where cps: "code_points cps" "s = text_of cps" "stands_at cps regex ctx (min 0 (length cps))" "length cps \<le> length s"
    and F: "\<forall>fuel \<ge> F.
      session_ok \<lparr>s_env = env, s_tree = tree, s_regex = regex, s_timers = timers, s_cps = cps, s_fuel = fuel\<rparr>"
    using session_start [OF p c l, where timers = timers] .
  note f = prepared_fields [OF p]
  have "\<exists>status st' err. replace (vm_engine fuel env regex timers) regex param consumer st = Some (status, st', err) \<and>
      (is_limit status \<or> (status, st', err) = fed_replace (feed consumer
         (replace_pieces (length s + 2) (tree_find env tree cps)
            (\<lambda>m. template_pieces (text_value (tree_namedCaptureGroups tree) cps m) t) (param_global param) cps 0) st))"
    if "F \<le> fuel" for fuel
    using vm.replace_loop_feeds [OF F [rule_format, OF that] t, of param ctx 0 "length s + 2" 0 consumer st] cps f param c
    by (simp add: replace_def)
  with cps show ?thesis by blast
qed

lemma matchAll_feeds:
  assumes "prepared env tree regex" "tryToCreateMatchContext regex s off [] = Inr ctx" "length s + 2 ^ 16 < 2 ^ 32"
  shows "\<exists>cps. code_points cps \<and> s = text_of cps \<and>
    (\<exists>F. \<forall>fuel \<ge> F. \<exists>status st'. matchAll (vm_engine fuel env regex timers) regex s off consumer st = Some (status, st') \<and>
      (is_limit status \<or> (status, st') = fed_status (feed consumer
         (map (result_captures (tree_captureGroupCount tree) cps)
            (all_matches (length s + 2) (tree_find env tree cps) (length cps) (min off (length cps)))) st)))"
proof -
  obtain cps F where cps: "code_points cps" "s = text_of cps" "stands_at cps regex ctx (min off (length cps))" "length cps \<le> length s"
    and F: "\<forall>fuel \<ge> F.
      session_ok \<lparr>s_env = env, s_tree = tree, s_regex = regex, s_timers = timers, s_cps = cps, s_fuel = fuel\<rparr>"
    using session_start [OF assms, where timers = timers] .
  have "\<exists>status st'. matchAll (vm_engine fuel env regex timers) regex s off consumer st = Some (status, st') \<and>
      (is_limit status \<or> (status, st') = fed_status (feed consumer
         (map (result_captures (tree_captureGroupCount tree) cps)
            (all_matches (length s + 2) (tree_find env tree cps) (length cps) (min off (length cps)))) st))" if "F \<le> fuel" for fuel
    using vm.matchAll_loop_feeds [OF F [rule_format, OF that], of ctx "min off (length cps)" "length s + 2" 0 consumer st] cps assms(2)
    by (simp add: matchAll_def)
  with cps show ?thesis by blast
qed

section \<open>Properties\<close>

text \<open>C2. \<open>matchAll\<close>: on a text accepted by \<open>Input::create\<close>, given enough fuel for the single matches, it
  returns, and unless a limit stops it the consumer has received, in order and until it refused, exactly the
  captures of the matches of the specification, each searched from where the one before ended, one code
  point further when that one ended where its own search started.\<close>

theorem matchAll_reports:
  assumes "prepared env tree regex" "tryToCreateMatchContext regex s off [] = Inr ctx" "length s + 2 ^ 16 < 2 ^ 32"
  shows "\<exists>cps. code_points cps \<and> s = text_of cps \<and>
    (\<exists>F. \<forall>fuel \<ge> F. \<exists>status st'. matchAll (vm_engine fuel env regex timers) regex s off consumer st = Some (status, st') \<and>
      (is_limit status \<or> (status, st') = fed_status (feed consumer
         (map (result_captures (tree_captureGroupCount tree) cps)
            (all_matches (length s + 2) (tree_find env tree cps) (length cps) (min off (length cps)))) st)))"
  by (rule matchAll_feeds [OF assms])

theorem matchAll_reports_witness:
  "\<exists>regex F. codegen sample_env pick_tree = Inr regex \<and>
     (\<forall>fuel \<ge> F. \<exists>status out. matchAll (vm_engine fuel sample_env regex (\<lambda>i. None)) regex [120, 98] 0 (\<lambda>x out. (True, out @ [x])) [] = Some (status, out) \<and>
        (is_limit status \<or> status = MATCH_OK \<and> out = [[\<lparr>cap_offset = 1, cap_size = 1\<rparr>, \<lparr>cap_offset = 1, cap_size = 1\<rparr>]]))"
proof -
  obtain regex where r: "prepared sample_env pick_tree regex" by (rule pick_prepared)
  have s: "length [120, 98 :: byte] + 2 ^ 16 < 2 ^ 32" by simp
  note m = matchAll_reports [OF r pick_create s, where timers = "\<lambda>i. None" and consumer = "\<lambda>x out. (True, out @ [x])" and st = "[]"]
  obtain cps where cps: "code_points cps" "[120, 98] = text_of cps" and F: "\<exists>F. \<forall>fuel \<ge> F. \<exists>status out.
      matchAll (vm_engine fuel sample_env regex (\<lambda>i. None)) regex [120, 98] 0 (\<lambda>x out. (True, out @ [x])) [] = Some (status, out) \<and>
      (is_limit status \<or> (status, out) = fed_status (feed (\<lambda>x out. (True, out @ [x]))
         (map (result_captures (tree_captureGroupCount pick_tree) cps)
            (all_matches (length [120, 98 :: byte] + 2) (tree_find sample_env pick_tree cps) (length cps) (min 0 (length cps)))) []))"
    using m by blast
  have "cps = [120, 98]" using text_of_inj [OF cps(1) pick_text(2)] cps(2) pick_text(1) by simp
  then have "fed_status (feed (\<lambda>x out. (True, out @ [x])) (map (result_captures (tree_captureGroupCount pick_tree) cps)
      (all_matches (length [120, 98 :: byte] + 2) (tree_find sample_env pick_tree cps) (length cps) (min 0 (length cps)))) []) =
      (MATCH_OK, [[\<lparr>cap_offset = 1, cap_size = 1\<rparr>, \<lparr>cap_offset = 1, cap_size = 1\<rparr>]])"
    by (simp add: pick_find pick_find_end numeral_3_eq_3 next_pos_def fed_status_def result_captures_def pick_tree_def [THEN arg_cong, of tree_captureGroupCount]
        offset_of_def codePointToUtf8_def code_point_defs)
  with F r show ?thesis by (simp add: prepared_def)
qed

text \<open>C3. \<open>replace\<close> with the text of a well-formed template: it returns, and unless a limit stops it the consumer
  has received the text before each match, the literals and item values of the template for that match, the
  code point stepped over after a match that did not advance, and the rest of the text; \<open>$&\<close>, \<open>$`\<close>, \<open>$'\<close>, \<open>$n\<close>
  and \<open>$<name>\<close> stand for the match, the text before and behind it, and the text of the groups.\<close>

theorem replace_writes:
  assumes "prepared env tree regex" "tryToCreateMatchContext regex s 0 [] = Inr ctx" "length s + 2 ^ 16 < 2 ^ 32"
    "template_ok regex t" "param_text param = s" "param_replacement param = template_text t"
  shows "\<exists>cps. code_points cps \<and> s = text_of cps \<and>
    (\<exists>F. \<forall>fuel \<ge> F. \<exists>status st' err. replace (vm_engine fuel env regex timers) regex param consumer st = Some (status, st', err) \<and>
      (is_limit status \<or> (status, st', err) = fed_replace (feed consumer
         (replace_pieces (length s + 2) (tree_find env tree cps)
            (\<lambda>m. template_pieces (text_value (tree_namedCaptureGroups tree) cps m) t) (param_global param) cps 0) st)))"
  by (rule replace_feeds [OF assms])

theorem replace_writes_witness:
  "\<exists>regex F. codegen sample_env pick_tree = Inr regex \<and>
     (\<forall>fuel \<ge> F. \<exists>status out err. replace (vm_engine fuel sample_env regex (\<lambda>i. None)) regex
          \<lparr>param_text = [120, 98], param_replacement = [60, 36, 49, 62], param_global = True\<rparr> (\<lambda>x out. (True, out @ x)) [] = Some (status, out, err) \<and>
        (is_limit status \<or> status = MATCH_OK \<and> out = [120, 60, 98, 62]))"
proof -
  obtain regex where r: "prepared sample_env pick_tree regex" by (rule pick_prepared)
  have s: "length [120, 98 :: byte] + 2 ^ 16 < 2 ^ 32" by simp
  let ?t = "([60], [(Group 1, [62])]) :: template"
  let ?param = "\<lparr>param_text = [120, 98], param_replacement = [60, 36, 49, 62], param_global = True\<rparr>"
  have gc: "regex_captureGroupCount regex = 1" using prepared_fields(1) [OF r] by (simp add: pick_tree_def)
  have t: "template_ok regex ?t" "param_text ?param = [120, 98]" "param_replacement ?param = template_text ?t"
    by (simp_all add: template_ok_def template_text_def gc isDecimal_def dec_string.simps)
  obtain cps where cps: "code_points cps" "[120, 98] = text_of cps" and F: "\<exists>F. \<forall>fuel \<ge> F. \<exists>status out err.
      replace (vm_engine fuel sample_env regex (\<lambda>i. None)) regex ?param (\<lambda>x out. (True, out @ x)) [] = Some (status, out, err) \<and>
      (is_limit status \<or> (status, out, err) = fed_replace (feed (\<lambda>x out. (True, out @ x))
         (replace_pieces (length [120, 98 :: byte] + 2) (tree_find sample_env pick_tree cps)
            (\<lambda>m. template_pieces (text_value (tree_namedCaptureGroups pick_tree) cps m) ?t) (param_global ?param) cps 0) []))"
    using replace_writes [OF r pick_create s t, where timers = "\<lambda>i. None" and consumer = "\<lambda>x out. (True, out @ x)" and st = "[]"]
    by blast
  have "cps = [120, 98]" using text_of_inj [OF cps(1) pick_text(2)] cps(2) pick_text(1) by simp
  then have "concat (replace_pieces (length [120, 98 :: byte] + 2) (tree_find sample_env pick_tree cps)
      (\<lambda>m. template_pieces (text_value (tree_namedCaptureGroups pick_tree) cps m) ?t) (param_global ?param) cps 0) = [120, 60, 98, 62]"
    by (simp add: pick_find pick_find_end numeral_3_eq_3 next_pos_def step_over_def template_pieces_def group_text_def slice_def
        codePointToUtf8_def code_point_defs)
  with F r show ?thesis by (simp add: prepared_def feed_collect fed_replace_def del: replace_pieces.simps) blast
qed

text \<open>C5. Replacing every match by itself changes nothing: with the replacement \<open>$&\<close> the written text is the
  input, with and without the global flag, whatever the pattern matches.\<close>

theorem replace_identity:
  assumes "prepared env tree regex" "tryToCreateMatchContext regex s 0 [] = Inr ctx" "length s + 2 ^ 16 < 2 ^ 32"
  shows "\<exists>F. \<forall>fuel \<ge> F. \<exists>status out err. replace (vm_engine fuel env regex timers) regex
      \<lparr>param_text = s, param_replacement = [36, 38], param_global = glob\<rparr> (\<lambda>x out. (True, out @ x)) [] = Some (status, out, err) \<and>
    (is_limit status \<or> status = MATCH_OK \<and> out = s)"
proof -
  let ?t = "([], [(Whole, [])]) :: template"
  let ?param = "\<lparr>param_text = s, param_replacement = [36, 38], param_global = glob\<rparr>"
  have t: "template_ok regex ?t" "param_replacement ?param = template_text ?t" by (simp_all add: template_ok_def template_text_def)
  obtain cps where cps: "code_points cps" "s = text_of cps"
    and r: "\<exists>F. \<forall>fuel \<ge> F. \<exists>status st' err. replace (vm_engine fuel env regex timers) regex ?param (\<lambda>x out. (True, out @ x)) [] = Some (status, st', err) \<and>
      (is_limit status \<or> (status, st', err) = fed_replace (feed (\<lambda>x out. (True, out @ x))
         (replace_pieces (length s + 2) (tree_find env tree cps)
            (\<lambda>m. template_pieces (text_value (tree_namedCaptureGroups tree) cps m) ?t) (param_global ?param) cps 0) []))"
    using replace_feeds [OF assms t(1) _ t(2), where timers = timers and consumer = "\<lambda>x out. (True, out @ x)" and st = "[]"] by auto
  have "concat (replace_pieces (length s + 2) (tree_find env tree cps)
      (\<lambda>m. template_pieces (text_value (tree_namedCaptureGroups tree) cps m) ?t) glob cps 0) = text_of (drop 0 cps)"
  proof (rule replace_self)
    show "k \<le> length cps \<Longrightarrow> tree_find env tree cps k = Some (i, j, c) \<Longrightarrow> k \<le> i \<and> i \<le> j \<and> j \<le> length cps" for k i j c
      using find_match_span by blast
    show "concat (template_pieces (text_value (tree_namedCaptureGroups tree) cps (i, j, c)) ?t) = text_of (slice cps i j)" for i j c
      by (simp add: template_pieces_def)
    show "length cps - 0 < length s + 2" using text_length [OF cps(1)] cps(2) by simp
  qed simp
  with r cps(2) show ?thesis by (simp add: feed_collect fed_replace_def del: replace_pieces.simps) blast
qed

theorem replace_identity_witness:
  "\<exists>regex F. codegen sample_env pick_tree = Inr regex \<and>
     (\<forall>fuel \<ge> F. \<exists>status out err. replace (vm_engine fuel sample_env regex (\<lambda>i. None)) regex
          \<lparr>param_text = [120, 98], param_replacement = [36, 38], param_global = True\<rparr> (\<lambda>x out. (True, out @ x)) [] = Some (status, out, err) \<and>
        (is_limit status \<or> status = MATCH_OK \<and> out = [120, 98]))"
proof -
  obtain regex where r: "prepared sample_env pick_tree regex" by (rule pick_prepared)
  have s: "length [120, 98 :: byte] + 2 ^ 16 < 2 ^ 32" by simp
  from replace_identity [OF r pick_create s, where timers = "\<lambda>i. None" and glob = True] r show ?thesis
    by (auto simp: prepared_def)
qed

text \<open>C4. \<open>split\<close>: with a positive limit it returns, and unless a limit of the machine stops it the consumer has
  received the pieces of the specification: at most \<open>limit\<close> of them, the last one being the rest of the text.\<close>

theorem split_delivers:
  assumes "prepared env tree regex" "tryToCreateMatchContext regex s 0 [] = Inr ctx" "length s + 2 ^ 16 < 2 ^ 32" "0 < limit"
  shows "\<exists>cps. code_points cps \<and> s = text_of cps \<and>
    length (split_pieces (limit - 1) (tree_find env tree cps) cps 0) \<le> limit \<and>
    (\<exists>F. \<forall>fuel \<ge> F. \<exists>status st'. split (vm_engine fuel env regex timers) regex s limit consumer st = Some (status, st') \<and>
      (is_limit status \<or> (status, st') = fed_status (feed consumer (split_pieces (limit - 1) (tree_find env tree cps) cps 0) st)))"
proof -
  obtain cps F where cps: "code_points cps" "s = text_of cps" "stands_at cps regex ctx (min 0 (length cps))" "length cps \<le> length s"
    and F: "\<forall>fuel \<ge> F.
      session_ok \<lparr>s_env = env, s_tree = tree, s_regex = regex, s_timers = timers, s_cps = cps, s_fuel = fuel\<rparr>"
    using session_start [OF assms(1-3), where timers = timers] .
  have len: "length (split_pieces n srch cps k) \<le> Suc n" for n srch k
    by (induction n arbitrary: k) (auto split: option.split)
  have "\<exists>status st'. split (vm_engine fuel env regex timers) regex s limit consumer st = Some (status, st') \<and>
      (is_limit status \<or> (status, st') = fed_status (feed consumer (split_pieces (limit - 1) (tree_find env tree cps) cps 0) st))"
    if "F \<le> fuel" for fuel
  proof (cases "limit = 1")
    case True
    then show ?thesis using cps(2) by (simp add: split_def fed_status_def split: prod.split bool.split)
  next
    case False
    then show ?thesis
      using vm.split_loop_feeds [OF F [rule_format, OF that], of ctx 0 0 "limit - 1" consumer st] cps assms(2,4)
      by (simp add: split_def)
  qed
  with cps len [of "limit - 1"] assms(4) show ?thesis by auto
qed

theorem split_delivers_witness:
  "\<exists>regex F. codegen sample_env pick_tree = Inr regex \<and>
     (\<forall>fuel \<ge> F. \<exists>status out. split (vm_engine fuel sample_env regex (\<lambda>i. None)) regex [120, 98] 5 (\<lambda>x out. (True, out @ [x])) [] = Some (status, out) \<and>
        (is_limit status \<or> status = MATCH_OK \<and> out = [[120], []]))"
proof -
  obtain regex where r: "prepared sample_env pick_tree regex" by (rule pick_prepared)
  have s: "length [120, 98 :: byte] + 2 ^ 16 < 2 ^ 32" "(0 :: nat) < 5" by simp_all
  obtain cps where cps: "code_points cps" "[120, 98] = text_of cps" and F: "\<exists>F. \<forall>fuel \<ge> F. \<exists>status out.
      split (vm_engine fuel sample_env regex (\<lambda>i. None)) regex [120, 98] 5 (\<lambda>x out. (True, out @ [x])) [] = Some (status, out) \<and>
      (is_limit status \<or> (status, out) = fed_status (feed (\<lambda>x out. (True, out @ [x])) (split_pieces (5 - 1) (tree_find sample_env pick_tree cps) cps 0) []))"
    using split_delivers [OF r pick_create s, where timers = "\<lambda>i. None" and consumer = "\<lambda>x out. (True, out @ [x])" and st = "[]"] by blast
  have "cps = [120, 98]" using text_of_inj [OF cps(1) pick_text(2)] cps(2) pick_text(1) by simp
  then have "split_pieces 4 (tree_find sample_env pick_tree cps) cps 0 = [[120], []]"
    by (simp add: pick_find pick_find_end [unfolded numeral_2_eq_2] numeral_eq_Suc slice_def codePointToUtf8_def code_point_defs)
  with F r show ?thesis by (simp add: prepared_def fed_status_def)
qed

end
