(* ===== verification/Regex_Escape.thy ===== *)
theory Regex_Escape
  imports Regex_Api
begin

text \<open>
  \<open>escape\<close> writes a text as a pattern for that text: reading the escapes of its result gives the text
  back. \<open>unescape\<close> reads the escapes the pattern syntax has.
\<close>

section \<open>Reading escapes\<close>

definition hex_value :: "byte \<Rightarrow> nat" where
  "hex_value ch = (if ch \<le> 57 then unat ch - 48 else unat ch - 87)"

definition hex_number :: "bytes \<Rightarrow> nat" where
  "hex_number ds = foldl (\<lambda>n d. n * 16 + hex_value d) 0 ds"

definition letter_control :: "byte \<Rightarrow> byte option" where
  "letter_control l = (if l = 102 then Some 12 else if l = 110 then Some 10 else if l = 114 then Some 13
     else if l = 116 then Some 9 else if l = 118 then Some 11 else None)"

function unescape :: "bytes \<Rightarrow> bytes" where
  "unescape s =
     (case s of
        [] \<Rightarrow> []
      | c # r \<Rightarrow>
          if c \<noteq> 92 \<or> r = [] then c # unescape r
          else (let e = hd r; t = tl r in
                if e = 120 then codePointToUtf8 (int (hex_number (take 2 t))) @ unescape (drop 2 t)
                else if e = 117 then codePointToUtf8 (int (hex_number (take 4 t))) @ unescape (drop 4 t)
                else (case letter_control e of Some b \<Rightarrow> b # unescape t | None \<Rightarrow> e # unescape t)))"
  by pat_completeness auto
termination
  by (relation "measure length") auto

declare unescape.simps [simp del]

section \<open>Each turn can be read back\<close>

lemma unescape_Nil [simp]: "unescape [] = []"
  by (simp add: unescape.simps)






















section \<open>Properties\<close>



end
