(* ===== verification/Regex_Stack.thy ===== *)
theory Regex_Stack
  imports Regex_VM
begin

text \<open>
  The backtrack stack stays within its limit: the capacity only takes the values of the growth
  sequence that \<open>computeMaxStackCap\<close> enumerates, so the comparison for equality in \<open>push\<close> is enough,
  and no instruction of the machine, no backtracking and no new start position breaks the invariant.
\<close>

section \<open>Growth\<close>

text \<open>Growing from the capacity ends at the same maximum, and the entries fit.\<close>

definition bts_ok :: "BacktrackStack \<Rightarrow> bool" where
  "bts_ok s \<longleftrightarrow> 2 \<le> bts_cap s \<and> bts_cap s \<le> MAX_STACK_DEPTH \<and> length (bts_entries s) \<le> bts_cap s \<and>
     maxStackCap_loop (bts_cap s) (bts_cap s) = computeMaxStackCap"

lemma loop_last:
  assumes "2 \<le> n" "n \<le> MAX_STACK_DEPTH"
  shows "maxStackCap_loop n c = maxStackCap_loop (n + n div 2) n"
  using assms by (subst maxStackCap_loop.simps) simp

lemma loop_start: "2 \<le> n \<Longrightarrow> n \<le> MAX_STACK_DEPTH \<Longrightarrow> maxStackCap_loop n c = maxStackCap_loop n c'"
  using loop_last [of n c] loop_last [of n c'] by simp

lemma loop_bounds: "n \<le> MAX_STACK_DEPTH \<Longrightarrow> 2 \<le> n \<Longrightarrow> n \<le> maxStackCap_loop n c \<and> maxStackCap_loop n c \<le> MAX_STACK_DEPTH"
proof (induction n c rule: maxStackCap_loop.induct)
  case (1 n c)
  show ?case
  proof (cases "n + n div 2 \<le> MAX_STACK_DEPTH")
    case True
    with 1 show ?thesis using loop_last [of n c] by simp
  next
    case False
    then have "maxStackCap_loop (n + n div 2) n = n" by (subst maxStackCap_loop.simps) simp
    with 1 show ?thesis using loop_last [of n c] by simp
  qed
qed

lemma grow_ok:
  assumes "bts_ok s" "bts_cap s \<noteq> computeMaxStackCap"
  shows "bts_cap s + bts_cap s div 2 \<le> MAX_STACK_DEPTH"
    "maxStackCap_loop (bts_cap s + bts_cap s div 2) (bts_cap s + bts_cap s div 2) = computeMaxStackCap"
proof -
  let ?n = "bts_cap s"
  have n: "2 \<le> ?n" "?n \<le> MAX_STACK_DEPTH" "maxStackCap_loop ?n ?n = computeMaxStackCap" using assms(1) by (simp_all add: bts_ok_def)
  show le: "?n + ?n div 2 \<le> MAX_STACK_DEPTH"
  proof (rule ccontr)
    assume "\<not> ?n + ?n div 2 \<le> MAX_STACK_DEPTH"
    then have "maxStackCap_loop (?n + ?n div 2) ?n = ?n" by (subst maxStackCap_loop.simps) simp
    with n assms(2) loop_last [OF n(1,2), of ?n] show False by simp
  qed
  show "maxStackCap_loop (?n + ?n div 2) (?n + ?n div 2) = computeMaxStackCap"
    using loop_start [OF _ le, of "?n + ?n div 2" ?n] loop_last [OF n(1,2), of ?n] n(1,3) by simp
qed

lemma push_spec:
  assumes "bts_ok s"
  shows "bts_push bt s = None \<longleftrightarrow> length (bts_entries s) = computeMaxStackCap"
    "bts_push bt s = Some s' \<Longrightarrow> bts_ok s' \<and> bts_entries s' = bt # bts_entries s"
proof -
  have le: "bts_cap s \<le> computeMaxStackCap" using assms loop_bounds by (metis bts_ok_def)
  show "bts_push bt s = None \<longleftrightarrow> length (bts_entries s) = computeMaxStackCap"
    using assms le by (auto simp: bts_push_def bts_ok_def)
  assume p: "bts_push bt s = Some s'"
  show "bts_ok s' \<and> bts_entries s' = bt # bts_entries s"
  proof (cases "length (bts_entries s) = bts_cap s")
    case True
    with p have s': "s' = s\<lparr>bts_entries := bt # bts_entries s, bts_cap := bts_cap s + bts_cap s div 2\<rparr>" "bts_cap s \<noteq> computeMaxStackCap"
      by (auto simp: bts_push_def split: if_splits)
    have "2 \<le> bts_cap s" using assms by (simp add: bts_ok_def)
    with grow_ok [OF assms s'(2)] s'(1) True show ?thesis by (simp add: bts_ok_def)
  next
    case False
    with p assms show ?thesis by (auto simp: bts_push_def bts_ok_def)
  qed
qed

lemma init_stack_ok: "bts_ok \<lparr>bts_entries = [], bts_cap = INIT_CAP\<rparr>"
  using loop_start [of INIT_CAP INIT_CAP 0] by (simp add: bts_ok_def computeMaxStackCap_def INIT_CAP_def MAX_STACK_DEPTH_def)

lemma max_cap_bound: "computeMaxStackCap \<le> MAX_STACK_DEPTH"
  using loop_bounds [of INIT_CAP 0] by (simp add: computeMaxStackCap_def INIT_CAP_def MAX_STACK_DEPTH_def)

section \<open>Preservation\<close>

abbreviation vm_ok :: "VM \<Rightarrow> bool" where
  "vm_ok vm \<equiv> bts_ok (vm_bts vm)"

fun next_ok :: "vm_next \<Rightarrow> bool" where
  "next_ok (VNext vm) = vm_ok vm"
| "next_ok (VBack vm) = vm_ok vm"
| "next_ok (VMatch vm) = vm_ok vm"
| "next_ok (VLimit vm) = vm_ok vm"
| "next_ok VFault = True"

lemma bts_ok_shrink: "bts_ok s \<Longrightarrow> length es \<le> length (bts_entries s) \<Longrightarrow> bts_ok (s\<lparr>bts_entries := es\<rparr>)"
  by (simp add: bts_ok_def)

lemma with_entries_ok: "vm_ok vm \<Longrightarrow> length es \<le> length (bts_entries (vm_bts vm)) \<Longrightarrow> vm_ok (with_entries es vm)"
  by (simp add: with_entries_def bts_ok_shrink)

lemma push_then_ok:
  "vm_ok vm \<Longrightarrow> (\<And>s. bts_ok s \<Longrightarrow> next_ok (k (vm\<lparr>vm_bts := s\<rparr>))) \<Longrightarrow> next_ok (push_then bt vm k)"
  using push_spec(2) [of "vm_bts vm" bt] by (auto simp: push_then_def split: option.splits)

lemma prepareLoopBody_ok: "vm_ok vm \<Longrightarrow> prepareLoopBody l vm = Some vm' \<Longrightarrow> vm_ok vm'"
  using push_spec(2) [of "vm_bts vm"] by (auto simp: prepareLoopBody_def Let_def split: option.splits)

lemma advance_ok [simp]: "next_ok (advance i vm) \<longleftrightarrow> vm_ok vm" "next_ok (goto_addr a vm) \<longleftrightarrow> vm_ok vm"
  "next_ok (advance_if b i vm) \<longleftrightarrow> vm_ok vm"
  by (simp_all add: advance_def goto_addr_def advance_if_def)

lemma consume_ok [simp]: "next_ok (consume_if f i vm) \<longleftrightarrow> vm_ok vm" "next_ok (consume_back_if f i vm) \<longleftrightarrow> vm_ok vm"
  by (simp_all add: consume_if_def consume_back_if_def split: prod.splits)

lemma loop_body_ok: "vm_ok vm \<Longrightarrow> next_ok (loop_body i l vm)"
  using prepareLoopBody_ok [of vm l] by (auto simp: loop_body_def split: option.splits)

lemma step_LOOP_ok: "vm_ok vm \<Longrightarrow> next_ok (step_LOOP i vm)"
  by (cases i) (auto simp: step_LOOP_def Let_def intro!: push_then_ok loop_body_ok)

lemma reset_captures_ok: "vm_ok vm \<Longrightarrow> next_ok (reset_captures js vm (advance i))"
  by (induction js arbitrary: vm) (auto intro!: push_then_ok)

lemma radix_ok: "vm_ok vm \<Longrightarrow> next_ok (radix_or_emoji env ms i vm)" "vm_ok vm \<Longrightarrow> next_ok (lbradix_or_emoji env ms i vm)"
  by (cases i; auto simp: radix_or_emoji_def lbradix_or_emoji_def split: list.splits Backtrack.splits option.splits
      intro!: push_then_ok with_entries_ok)+

lemma cleanup_loop_ok:
  "cleanup_loop negate es vm = Some (matched, vm') \<Longrightarrow> length es \<le> length (bts_entries (vm_bts vm)) \<Longrightarrow> vm_ok vm \<Longrightarrow> vm_ok vm'"
  by (induction negate es vm rule: cleanup_loop.induct) (auto intro!: with_entries_ok split: if_splits)

lemma step_look_ok: "vm_ok vm \<Longrightarrow> next_ok (step_look i vm)"
proof (cases i)
  case EndLookAroundIns
  assume ok: "vm_ok vm"
  show ?thesis
  proof (cases "cleanupLookAround vm")
    case (Some r)
    then obtain matched vm' where r: "cleanupLookAround vm = Some (matched, vm')" by (cases r) auto
    then have "vm_ok vm'" using ok cleanup_loop_ok unfolding cleanupLookAround_def by blast
    with r show ?thesis by (simp add: step_look_def EndLookAroundIns)
  qed (simp add: step_look_def EndLookAroundIns)
qed (auto simp: step_look_def intro!: push_then_ok)

lemma step_radix_ok: "vm_ok vm \<Longrightarrow> next_ok (step_radix env ms i vm)" "vm_ok vm \<Longrightarrow> next_ok (step_lbradix env ms i vm)"
  by (auto simp: step_radix_def step_lbradix_def Let_def split: list.splits Backtrack.splits intro!: radix_ok with_entries_ok)

lemma step_prepare_ok:
  "vm_ok vm \<Longrightarrow> next_ok (step_prepare_radix env code ms vm)" "vm_ok vm \<Longrightarrow> next_ok (step_prepare_lbradix env code ms vm)"
  by (auto simp: step_prepare_radix_def step_prepare_lbradix_def Let_def split: option.splits inst.splits
      intro!: push_then_ok radix_ok)

lemma step_capture_ok: "vm_ok vm \<Longrightarrow> next_ok (step_capture i vm)"
  by (cases i) (auto simp: step_capture_def Let_def intro!: push_then_ok reset_captures_ok simp del: upt_Suc)

lemma backref_then_ok: "vm_ok vm \<Longrightarrow> next_ok (backref_then f regex index isnamed i vm)"
  by (auto simp: backref_then_def split: option.splits)

lemma exec_inst_ok: "vm_ok vm \<Longrightarrow> next_ok (exec_inst env regex i vm)"
  by (cases i)
    (auto simp: exec_inst_def step_branch_def step_start_def step_end_def step_word_def step_iword_def step_any_def
      step_grapheme_def step_char_def step_charset_def step_string_def step_backref_def step_begin_loop_def step_end_loop_def
      Let_def step_prepare_ok step_radix_ok step_capture_ok step_look_ok split: option.splits
      intro!: push_then_ok step_LOOP_ok backref_then_ok)

lemma vm_step_ok: "vm_ok vm \<Longrightarrow> next_ok (vm_step env regex vm)"
  by (simp add: vm_step_def exec_inst_ok split: option.split)

fun bt_ok :: "bt_result \<Rightarrow> bool" where
  "bt_ok (Resumed vm) = vm_ok vm"
| "bt_ok (Exhausted vm) = vm_ok vm"
| "bt_ok BtFault = True"

lemma backtrack_ok: "length es \<le> length (bts_entries (vm_bts vm)) \<Longrightarrow> vm_ok vm \<Longrightarrow> bt_ok (backtrack es vm)"
proof (induction es vm rule: backtrack.induct)
  case (5 l st s vm)
  show ?case
  proof (cases "\<exists>target it s'. s = SetIns target it # s'")
    case True
    then obtain target it s' where s: "s = SetIns target it # s'" by blast
    let ?vm = "with_entries s' (vm\<lparr>vm_loops := (vm_loops vm)[unat l := st], vm_inst := unat target + sizeof_BeginLoop,
      vm_input := setIter (vm_input vm) it\<rparr>)"
    have "vm_ok ?vm" using 5 s by (intro with_entries_ok) simp_all
    then show ?thesis using s prepareLoopBody_ok [of ?vm l] by (auto simp: Let_def split: option.splits)
  qed (auto split: list.splits Backtrack.splits)
qed (auto intro!: with_entries_ok)

fun outcome_ok :: "outcome \<Rightarrow> bool" where
  "outcome_ok (Running m) = vm_ok (m_vm m)"
| "outcome_ok (Finished st vm) = vm_ok vm"
| "outcome_ok Crashed = True"

lemma searchPrefix_ok: "vm_ok vm \<Longrightarrow> searchPrefix regex vm old = Some (vm', old', b) \<Longrightarrow> vm_ok vm'"
  by (auto simp: searchPrefix_def search_needle_def Let_def split: option.splits inst.splits if_splits prod.splits)

lemma start_at_ok: "vm_ok (m_vm m) \<Longrightarrow> outcome_ok (start_at regex ctx m)"
  using searchPrefix_ok [of "m_vm m" regex "m_oldIter m"] by (auto simp: start_at_def split: option.splits)

lemma machine_step_ok:
  assumes "vm_ok (m_vm m)"
  shows "outcome_ok (machine_step env regex ctx timer m)"
proof (cases "m_back m")
  case True
  show ?thesis
  proof (cases "backtrack (bts_entries (vm_bts (m_vm m))) (m_vm m)")
    case (Resumed vm)
    then have "vm_ok vm" using backtrack_ok [OF order.refl assms] by simp
    then show ?thesis using True Resumed
      by (simp add: machine_step_def step_back_def check_timer_def split: option.split TimerStatus.split)
  next
    case (Exhausted vm)
    then have "vm_ok vm" using backtrack_ok [OF order.refl assms] by simp
    then show ?thesis using True Exhausted
      by (simp add: machine_step_def step_back_def next_start_def Let_def start_at_ok split: prod.split)
  qed (simp add: machine_step_def step_back_def True)
next
  case False
  then show ?thesis using vm_step_ok [OF assms, of env regex]
    by (cases "vm_step env regex (m_vm m)") (simp_all add: machine_step_def step_run_def set_match_def)
qed

lemma machine_run_ok: "outcome_ok out \<Longrightarrow> outcome_ok (machine_run fuel env regex ctx timer out)"
proof (induction fuel arbitrary: out)
  case (Suc fuel)
  then show ?case using machine_step_ok by (cases out) simp_all
qed simp

lemma match_start_ok: "outcome_ok (match_start regex ctx)"
  unfolding match_start_def by (auto intro!: start_at_ok init_stack_ok split: prod.split)

section \<open>Statuses\<close>

text \<open>The statuses a match may end with: the two limits of the timer only when the timer reported them.\<close>

definition allowed_status :: "(nat \<Rightarrow> TimerStatus) option \<Rightarrow> MatchStatus set" where
  "allowed_status timer = {MATCH_OK, MATCH_FAIL, MATCH_STACK_LIMIT}
     \<union> {MATCH_CANCEL |check n. timer = Some check \<and> check n = T_Canceled}
     \<union> {MATCH_TIMEOUT |check n. timer = Some check \<and> check n = T_Expired}"

fun status_ok :: "(nat \<Rightarrow> TimerStatus) option \<Rightarrow> outcome \<Rightarrow> bool" where
  "status_ok timer (Finished st vm) = (st \<in> allowed_status timer)"
| "status_ok timer _ = True"

lemma start_at_status: "status_ok timer (start_at regex ctx m)"
  by (simp add: start_at_def split: option.split)

lemma check_timer_status: "status_ok timer (check_timer timer m)"
  by (auto simp: check_timer_def allowed_status_def split: option.split TimerStatus.split)

lemma machine_step_status: "status_ok timer (machine_step env regex ctx timer m)"
  by (auto simp: machine_step_def step_back_def step_run_def next_start_def Let_def check_timer_status start_at_status
      allowed_status_def split: bt_result.split vm_next.split prod.split)

lemma machine_run_status: "status_ok timer out \<Longrightarrow> status_ok timer (machine_run fuel env regex ctx timer out)"
proof (induction fuel arbitrary: out)
  case (Suc fuel)
  then show ?case using machine_step_status by (cases out) simp_all
qed simp

section \<open>Properties\<close>

text \<open>C14. The limit of the backtrack stack: whatever instructions the machine has executed, the stack
  fits its capacity, the capacity is at most \<open>MAX_STACK_DEPTH\<close>, and a push is refused exactly when the
  stack holds \<open>computeMaxStackCap\<close> entries, the largest capacity the growth by half reaches; so
  comparing for equality in \<open>push\<close> never lets the stack grow past the limit.\<close>

theorem stack_bounded:
  "case machine_run fuel env regex ctx timer (match_start regex ctx) of
     Crashed \<Rightarrow> True
   | Finished st vm \<Rightarrow> length (bts_entries (vm_bts vm)) \<le> bts_cap (vm_bts vm) \<and> bts_cap (vm_bts vm) \<le> MAX_STACK_DEPTH
   | Running m \<Rightarrow>
       length (bts_entries (vm_bts (m_vm m))) \<le> bts_cap (vm_bts (m_vm m)) \<and> bts_cap (vm_bts (m_vm m)) \<le> MAX_STACK_DEPTH \<and>
       (\<forall>bt. bts_push bt (vm_bts (m_vm m)) = None \<longleftrightarrow> length (bts_entries (vm_bts (m_vm m))) = computeMaxStackCap)"
proof -
  have "outcome_ok (machine_run fuel env regex ctx timer (match_start regex ctx))"
    by (rule machine_run_ok [OF match_start_ok])
  then show ?thesis using push_spec(1) by (auto simp: bts_ok_def split: outcome.split)
qed

text \<open>C15. The statuses of a match: success, failure or the stack limit; a cancellation or a timeout
  only when one of the checks of the timer reported it, and so never without a timer.\<close>

theorem match_status:
  "map_option fst (vm_match fuel env regex ctx timer) \<in> insert None (Some ` allowed_status timer)"
proof -
  have "status_ok timer (machine_run fuel env regex ctx timer (match_start regex ctx))"
    by (rule machine_run_status) (simp add: match_start_def start_at_status split: prod.split)
  then show ?thesis by (auto simp: vm_match_def split: outcome.split)
qed

end
