(* ===== verification/Ucp_Property.thy ===== *)
theory Ucp_Property
  imports Set_Builder Radix_Tree Regex_Node
begin

text \<open>
  \<open>unicode/property.cpp\<close>: the sets of code points of the Unicode properties a pattern may name. Prime
  properties are slices of generated range tables; the others are computed with the set builder.
  The tables and the names (\<open>ucp_*.in\<close>, written by a script from the Unicode database) are fields
  of a record that every operation takes.
\<close>

section \<open>Enumerations\<close>

text \<open>The three \<open>enum class\<close> types have the underlying type \<open>unsigned char\<close>, and a \<open>Property\<close> holds
  the underlying value: values outside the enumeration exist and are refused.\<close>

type_synonym Category = byte
type_synonym Script = byte
type_synonym Lone = byte

abbreviation (input) Gc_Lu :: Category where "Gc_Lu \<equiv> 0"
abbreviation (input) Gc_Ll :: Category where "Gc_Ll \<equiv> 1"
abbreviation (input) Gc_Lt :: Category where "Gc_Lt \<equiv> 2"
abbreviation (input) Gc_Lm :: Category where "Gc_Lm \<equiv> 3"
abbreviation (input) Gc_Lo :: Category where "Gc_Lo \<equiv> 4"
abbreviation (input) Gc_Mn :: Category where "Gc_Mn \<equiv> 5"
abbreviation (input) Gc_Mc :: Category where "Gc_Mc \<equiv> 6"
abbreviation (input) Gc_Me :: Category where "Gc_Me \<equiv> 7"
abbreviation (input) Gc_Nd :: Category where "Gc_Nd \<equiv> 8"
abbreviation (input) Gc_Nl :: Category where "Gc_Nl \<equiv> 9"
abbreviation (input) Gc_No :: Category where "Gc_No \<equiv> 10"
abbreviation (input) Gc_Sm :: Category where "Gc_Sm \<equiv> 11"
abbreviation (input) Gc_Sc :: Category where "Gc_Sc \<equiv> 12"
abbreviation (input) Gc_Sk :: Category where "Gc_Sk \<equiv> 13"
abbreviation (input) Gc_So :: Category where "Gc_So \<equiv> 14"
abbreviation (input) Gc_Pc :: Category where "Gc_Pc \<equiv> 15"
abbreviation (input) Gc_Pd :: Category where "Gc_Pd \<equiv> 16"
abbreviation (input) Gc_Ps :: Category where "Gc_Ps \<equiv> 17"
abbreviation (input) Gc_Pe :: Category where "Gc_Pe \<equiv> 18"
abbreviation (input) Gc_Pi :: Category where "Gc_Pi \<equiv> 19"
abbreviation (input) Gc_Pf :: Category where "Gc_Pf \<equiv> 20"
abbreviation (input) Gc_Po :: Category where "Gc_Po \<equiv> 21"
abbreviation (input) Gc_Zs :: Category where "Gc_Zs \<equiv> 22"
abbreviation (input) Gc_Zl :: Category where "Gc_Zl \<equiv> 23"
abbreviation (input) Gc_Zp :: Category where "Gc_Zp \<equiv> 24"
abbreviation (input) Gc_Cc :: Category where "Gc_Cc \<equiv> 25"
abbreviation (input) Gc_Cf :: Category where "Gc_Cf \<equiv> 26"
abbreviation (input) Gc_Cs :: Category where "Gc_Cs \<equiv> 27"
abbreviation (input) Gc_Co :: Category where "Gc_Co \<equiv> 28"
abbreviation (input) Gc_LC :: Category where "Gc_LC \<equiv> 29"
abbreviation (input) Gc_L :: Category where "Gc_L \<equiv> 30"
abbreviation (input) Gc_M :: Category where "Gc_M \<equiv> 31"
abbreviation (input) Gc_N :: Category where "Gc_N \<equiv> 32"
abbreviation (input) Gc_P :: Category where "Gc_P \<equiv> 33"
abbreviation (input) Gc_S :: Category where "Gc_S \<equiv> 34"
abbreviation (input) Gc_Z :: Category where "Gc_Z \<equiv> 35"
abbreviation (input) Gc_Cn :: Category where "Gc_Cn \<equiv> 36"
abbreviation (input) Gc_C :: Category where "Gc_C \<equiv> 37"
definition CATEGORY_PRIME_SIZE :: nat where
  "CATEGORY_PRIME_SIZE = 29"

abbreviation (input) Script_Zyyy :: Script where "Script_Zyyy \<equiv> 0"
abbreviation (input) Script_Zinh :: Script where "Script_Zinh \<equiv> 40"
abbreviation (input) Script_Zzzz :: Script where "Script_Zzzz \<equiv> 177"

definition SCRIPT_PRIME_SIZE :: nat where
  "SCRIPT_PRIME_SIZE = 177"

abbreviation (input) Lone_Other_Alphabetic :: Lone where "Lone_Other_Alphabetic \<equiv> 0"
abbreviation (input) Lone_Other_Default_Ignorable_Code_Point :: Lone where "Lone_Other_Default_Ignorable_Code_Point \<equiv> 1"
abbreviation (input) Lone_Prepended_Concatenation_Mark :: Lone where "Lone_Prepended_Concatenation_Mark \<equiv> 2"
abbreviation (input) Lone_Other_Grapheme_Extend :: Lone where "Lone_Other_Grapheme_Extend \<equiv> 3"
abbreviation (input) Lone_Other_ID_Continue :: Lone where "Lone_Other_ID_Continue \<equiv> 4"
abbreviation (input) Lone_Other_ID_Start :: Lone where "Lone_Other_ID_Start \<equiv> 5"
abbreviation (input) Lone_Other_Lowercase :: Lone where "Lone_Other_Lowercase \<equiv> 6"
abbreviation (input) Lone_Other_Math :: Lone where "Lone_Other_Math \<equiv> 7"
abbreviation (input) Lone_Other_Uppercase :: Lone where "Lone_Other_Uppercase \<equiv> 8"
abbreviation (input) Lone_InCB_Linker :: Lone where "Lone_InCB_Linker \<equiv> 9"
abbreviation (input) Lone_InCB_Consonant :: Lone where "Lone_InCB_Consonant \<equiv> 10"
abbreviation (input) Lone_InCB_Extend :: Lone where "Lone_InCB_Extend \<equiv> 11"
abbreviation (input) Lone_MidLetter :: Lone where "Lone_MidLetter \<equiv> 12"
abbreviation (input) Lone_MidNumLet :: Lone where "Lone_MidNumLet \<equiv> 13"
abbreviation (input) Lone_Single_Quote :: Lone where "Lone_Single_Quote \<equiv> 14"
abbreviation (input) Lone_XID_Continue_Delta :: Lone where "Lone_XID_Continue_Delta \<equiv> 15"
abbreviation (input) Lone_XID_Start_Delta :: Lone where "Lone_XID_Start_Delta \<equiv> 16"
abbreviation (input) Lone_ESRegexClassSpace :: Lone where "Lone_ESRegexClassSpace \<equiv> 17"
abbreviation (input) Lone_ESRegexClassDigit :: Lone where "Lone_ESRegexClassDigit \<equiv> 18"
abbreviation (input) Lone_ESRegexClassWord :: Lone where "Lone_ESRegexClassWord \<equiv> 19"
abbreviation (input) Lone_ESRegexClassExtendWord :: Lone where "Lone_ESRegexClassExtendWord \<equiv> 20"
abbreviation (input) Lone_Extended_Pictographic :: Lone where "Lone_Extended_Pictographic \<equiv> 40"
abbreviation (input) Lone_Pattern_Syntax :: Lone where "Lone_Pattern_Syntax \<equiv> 49"
abbreviation (input) Lone_Pattern_White_Space :: Lone where "Lone_Pattern_White_Space \<equiv> 50"
abbreviation (input) Lone_Variation_Selector :: Lone where "Lone_Variation_Selector \<equiv> 58"
abbreviation (input) Lone_White_Space :: Lone where "Lone_White_Space \<equiv> 59"
abbreviation (input) Lone_Alphabetic :: Lone where "Lone_Alphabetic \<equiv> 60"
abbreviation (input) Lone_Assigned :: Lone where "Lone_Assigned \<equiv> 61"
abbreviation (input) Lone_Case_Ignorable :: Lone where "Lone_Case_Ignorable \<equiv> 62"
abbreviation (input) Lone_Cased :: Lone where "Lone_Cased \<equiv> 63"
abbreviation (input) Lone_Default_Ignorable_Code_Point :: Lone where "Lone_Default_Ignorable_Code_Point \<equiv> 64"
abbreviation (input) Lone_Grapheme_Base :: Lone where "Lone_Grapheme_Base \<equiv> 65"
abbreviation (input) Lone_Grapheme_Extend :: Lone where "Lone_Grapheme_Extend \<equiv> 66"
abbreviation (input) Lone_ID_Continue :: Lone where "Lone_ID_Continue \<equiv> 67"
abbreviation (input) Lone_ID_Start :: Lone where "Lone_ID_Start \<equiv> 68"
abbreviation (input) Lone_Lowercase :: Lone where "Lone_Lowercase \<equiv> 69"
abbreviation (input) Lone_Math :: Lone where "Lone_Math \<equiv> 70"
abbreviation (input) Lone_Uppercase :: Lone where "Lone_Uppercase \<equiv> 71"
abbreviation (input) Lone_XID_Continue :: Lone where "Lone_XID_Continue \<equiv> 72"
abbreviation (input) Lone_XID_Start :: Lone where "Lone_XID_Start \<equiv> 73"
definition LONE_PRIME_INTERNAL_SIZE :: nat where
  "LONE_PRIME_INTERNAL_SIZE = 21"

definition LONE_PRIME_SIZE :: nat where
  "LONE_PRIME_SIZE = 60"

definition LONE_PROPERTY_SIZE :: nat where
  "LONE_PROPERTY_SIZE = 74"

datatype PropertyName = General_Category | Script | Script_Extensions | Lone

record Property =
  property_name :: PropertyName
  property_value :: byte

abbreviation (input) Property_category :: "Category \<Rightarrow> Property" where
  "Property_category c \<equiv> \<lparr>property_name = General_Category, property_value = c\<rparr>"

abbreviation (input) Property_lone :: "Lone \<Rightarrow> Property" where
  "Property_lone l \<equiv> \<lparr>property_name = Lone, property_value = l\<rparr>"

section \<open>Tables\<close>

record OffsetEntry =
  oe_offset :: nat
  oe_bmpSize :: nat
  oe_packedSize :: nat
  oe_tableSize :: nat

record ucp_tables =
  category_set_table :: "u32 list"
  category_offsets :: "OffsetEntry list"
  script_set_table :: "u32 list"
  script_offsets :: "OffsetEntry list"
  scriptx_set_table :: "u32 list"
  script_extension :: "(Script \<times> OffsetEntry) list"
  lone_set_table :: "u32 list"
  lone_offsets :: "OffsetEntry list"
  categoryNames :: "string list"
  scriptNames :: "string list"
  loneNames :: "string list"
  emoji_trie :: PackedRadixTree

definition table_ref :: "u32 list \<Rightarrow> OffsetEntry \<Rightarrow> CodePointSetRef" where
  "table_ref table e =
     \<lparr>set_ptr = take (oe_tableSize e) (drop (oe_offset e) table),
      set_bmpSize = oe_bmpSize e, set_packedNonBmpSize = oe_packedSize e\<rparr>"

definition categoryTableSize :: "ucp_tables \<Rightarrow> nat" where
  "categoryTableSize T = length (category_offsets T)"

definition getCategoryTable :: "ucp_tables \<Rightarrow> nat \<Rightarrow> CodePointSetRef" where
  "getCategoryTable T index = table_ref (category_set_table T) (category_offsets T ! index)"

definition scriptTableSize :: "ucp_tables \<Rightarrow> nat" where
  "scriptTableSize T = length (script_offsets T)"

definition getScriptTable :: "ucp_tables \<Rightarrow> nat \<Rightarrow> CodePointSetRef" where
  "getScriptTable T index = table_ref (script_set_table T) (script_offsets T ! index)"

definition primeLoneTableSize :: "ucp_tables \<Rightarrow> nat" where
  "primeLoneTableSize T = length (lone_offsets T)"

definition getLonePrimeTable :: "ucp_tables \<Rightarrow> nat \<Rightarrow> CodePointSetRef" where
  "getLonePrimeTable T index = table_ref (lone_set_table T) (lone_offsets T ! index)"

section \<open>The property of a code point\<close>

text \<open>The loop over the tables; the first that contains the code point wins.\<close>

fun first_table :: "(nat \<Rightarrow> CodePointSetRef) \<Rightarrow> int \<Rightarrow> nat list \<Rightarrow> nat option" where
  "first_table table codePoint [] = None"
| "first_table table codePoint (i # is) =
     (if set_contains (table i) codePoint then Some i else first_table table codePoint is)"

definition getCategory :: "ucp_tables \<Rightarrow> int \<Rightarrow> Category option" where
  "getCategory T codePoint =
     (if isCodePoint codePoint
      then (case first_table (getCategoryTable T) codePoint [0..<categoryTableSize T] of
              Some i \<Rightarrow> Some (of_nat i) | None \<Rightarrow> Some Gc_Cn)
      else None)"

definition getScript :: "ucp_tables \<Rightarrow> int \<Rightarrow> Script option" where
  "getScript T codePoint =
     (if isCodePoint codePoint
      then (case first_table (getScriptTable T) codePoint [0..<scriptTableSize T] of
              Some i \<Rightarrow> Some (of_nat i) | None \<Rightarrow> Some Script_Zzzz)
      else None)"

section \<open>The set of a category\<close>

text \<open>\<open>BuilderOrSet\<close>: the destination, a builder that is added to or a set that is overwritten.\<close>

datatype BuilderOrSet = ToBuilder CodePointSetBuilder | ToSet CodePointSetRef

definition empty_set :: CodePointSetRef where
  "empty_set = \<lparr>set_ptr = [], set_bmpSize = 0, set_packedNonBmpSize = 0\<rparr>"

fun out_builder :: "BuilderOrSet \<Rightarrow> CodePointSetBuilder" where
  "out_builder (ToBuilder b) = b"
| "out_builder (ToSet s) = empty_builder"

fun out_set :: "BuilderOrSet \<Rightarrow> CodePointSetRef" where
  "out_set (ToSet s) = s"
| "out_set (ToBuilder b) = empty_set"

text \<open>The two ways a result is delivered: a table, or the contents of a temporary builder.\<close>

fun put_ref :: "CodePointSetRef \<Rightarrow> BuilderOrSet \<Rightarrow> BuilderOrSet" where
  "put_ref ref (ToBuilder b) = ToBuilder (addSet b ref)"
| "put_ref ref (ToSet s) = ToSet ref"

fun put_builder :: "CodePointSetBuilder \<Rightarrow> BuilderOrSet \<Rightarrow> BuilderOrSet" where
  "put_builder builder (ToBuilder b) = ToBuilder (addBuilder b builder)"
| "put_builder builder (ToSet s) = ToSet (fst (build builder))"

text \<open>\<open>Category combination[7]\<close>: the elements an initializer leaves out are zero.\<close>

definition combination7 :: "Category list \<Rightarrow> Category list" where
  "combination7 cs = cs @ replicate (7 - length cs) 0"

definition categoryCombinations :: "(Category \<times> Category list) list" where
  "categoryCombinations =
     [(Gc_LC, combination7 [Gc_Lu, Gc_Ll, Gc_Lt, Gc_Cn]),
      (Gc_L, combination7 [Gc_Lu, Gc_Ll, Gc_Lt, Gc_Lm, Gc_Lo, Gc_Cn]),
      (Gc_M, combination7 [Gc_Mn, Gc_Mc, Gc_Me, Gc_Cn]),
      (Gc_N, combination7 [Gc_Nd, Gc_Nl, Gc_No, Gc_Cn]),
      (Gc_P, combination7 [Gc_Pc, Gc_Pd, Gc_Ps, Gc_Pe, Gc_Pi, Gc_Pf, Gc_Po]),
      (Gc_S, combination7 [Gc_Sm, Gc_Sc, Gc_Sk, Gc_So, Gc_Cn]),
      (Gc_Z, combination7 [Gc_Zs, Gc_Zl, Gc_Zp, Gc_Cn])]"

definition lookupCategoryCombination :: "Category \<Rightarrow> Category list" where
  "lookupCategoryCombination c =
     (case map_of categoryCombinations c of Some cs \<Rightarrow> cs | None \<Rightarrow> combination7 [Gc_Cn])"

fun add_combination :: "ucp_tables \<Rightarrow> CodePointSetBuilder \<Rightarrow> Category list \<Rightarrow> CodePointSetBuilder" where
  "add_combination T b [] = b"
| "add_combination T b (c # cs) =
     (if unat c < categoryTableSize T then add_combination T (addSet b (getCategoryTable T (unat c))) cs else b)"

definition add_categories :: "ucp_tables \<Rightarrow> CodePointSetBuilder \<Rightarrow> nat list \<Rightarrow> CodePointSetBuilder" where
  "add_categories T b is = foldl (\<lambda>b i. addSet b (getCategoryTable T i)) b is"

definition getCategorySet :: "ucp_tables \<Rightarrow> Category \<Rightarrow> BuilderOrSet \<Rightarrow> bool \<times> BuilderOrSet" where
  "getCategorySet T c out =
     (if unat c < CATEGORY_PRIME_SIZE then (True, put_ref (getCategoryTable T (unat c)) out)
      else if c \<in> {Gc_LC, Gc_L, Gc_M, Gc_N, Gc_P, Gc_S, Gc_Z}
      then (True, case out of
              ToBuilder b \<Rightarrow> ToBuilder (add_combination T b (lookupCategoryCombination c))
            | ToSet s \<Rightarrow> ToSet (fst (build (add_combination T empty_builder (lookupCategoryCombination c)))))
      else if c = Gc_Cn \<or> c = Gc_C
      then (let builder = complement (add_categories T empty_builder [0..<categoryTableSize T]);
                builder' = (if c = Gc_C
                            then add_categories T builder (map unat [Gc_Cc, Gc_Cf, Gc_Cs, Gc_Co])
                            else builder) in
            (True, put_builder builder' out))
      else (False, out))"

section \<open>The set of a script\<close>

definition getScriptSet :: "ucp_tables \<Rightarrow> Script \<Rightarrow> BuilderOrSet \<Rightarrow> bool \<times> BuilderOrSet" where
  "getScriptSet T s out =
     (if unat s < SCRIPT_PRIME_SIZE then (True, put_ref (getScriptTable T (unat s)) out)
      else if s = Script_Zzzz
      then (True, put_builder (complement
              (foldl (\<lambda>b i. addSet b (getScriptTable T i)) empty_builder [0..<scriptTableSize T])) out)
      else (False, out))"

text \<open>The \<open>switch\<close> over \<open>EACH_UCP_SCRIPT_EXTENSION\<close>: the reference stays empty for the other scripts.\<close>

definition scriptx_ref :: "ucp_tables \<Rightarrow> Script \<Rightarrow> CodePointSetRef" where
  "scriptx_ref T s =
     (case map_of (script_extension T) s of
        Some e \<Rightarrow> table_ref (scriptx_set_table T) e | None \<Rightarrow> empty_set)"

definition getScriptXSet :: "ucp_tables \<Rightarrow> Script \<Rightarrow> BuilderOrSet \<Rightarrow> bool \<times> BuilderOrSet" where
  "getScriptXSet T s out =
     (let ref = scriptx_ref T s in
      if s = Script_Zyyy \<or> s = Script_Zinh then (True, put_ref ref out)
      else (let builder = (if getSize ref \<noteq> 0 then addSet empty_builder ref else empty_builder) in
            case getScriptSet T s (ToBuilder builder) of
              (True, b) \<Rightarrow> (True, put_builder (out_builder b) out)
            | (False, b) \<Rightarrow> (False, out)))"

section \<open>The set of a lone property\<close>

text \<open>How deep the definition of a combined property nests others; the recursion of \<open>getLoneSet\<close>
  through \<open>getPropertySet\<close> descends along it.\<close>

definition lone_rank :: "Lone \<Rightarrow> nat" where
  "lone_rank l =
     (if unat l < LONE_PRIME_SIZE then 0
      else if l \<in> {Lone_Lowercase, Lone_Uppercase, Lone_Math, Lone_Grapheme_Extend, Lone_ID_Start, Lone_Assigned,
                   Lone_Case_Ignorable, Lone_Default_Ignorable_Code_Point} then 1
      else if l \<in> {Lone_Alphabetic, Lone_Cased, Lone_Grapheme_Base, Lone_ID_Continue, Lone_XID_Start} then 2
      else 3)"

text \<open>The interlinear annotation and hieroglyph format characters are removed with one temporary
  builder that is cleared in between.\<close>

definition without_formats :: "CodePointSetBuilder \<Rightarrow> CodePointSetBuilder" where
  "without_formats b =
     (let (b', tmp) = removeBuilder b (addRange (\<lambda>c. c) empty_builder 0xFFF9 0xFFFB False) False
      in sub b' (addRange (\<lambda>c. c) (clear_builder tmp) 0x13430 0x1343F False))"

text \<open>The \<open>switch\<close> of \<open>getPropertySet\<close>; its last branch is the argument \<open>getLone\<close>.\<close>

definition property_switch :: "ucp_tables \<Rightarrow> (Lone \<Rightarrow> BuilderOrSet \<Rightarrow> bool \<times> BuilderOrSet) \<Rightarrow> Property
    \<Rightarrow> BuilderOrSet \<Rightarrow> bool \<times> BuilderOrSet" where
  "property_switch T getLone p out =
     (case property_name p of
        General_Category \<Rightarrow> getCategorySet T (property_value p) out
      | Script \<Rightarrow> getScriptSet T (property_value p) out
      | Script_Extensions \<Rightarrow> getScriptXSet T (property_value p) out
      | Lone \<Rightarrow> getLone (property_value p) out)"

lemma property_switch_cong [fundef_cong]:
  "T = T' \<Longrightarrow> p = p' \<Longrightarrow> out = out' \<Longrightarrow> (property_name p' = Lone \<Longrightarrow> f (property_value p') out' = g (property_value p') out')
     \<Longrightarrow> property_switch T f p out = property_switch T' g p' out'"
  by (simp add: property_switch_def split: PropertyName.split)

function getLoneSet :: "ucp_tables \<Rightarrow> Lone \<Rightarrow> BuilderOrSet \<Rightarrow> bool \<times> BuilderOrSet" where
  "getLoneSet T l out =
     (if unat l < LONE_PRIME_SIZE then (True, put_ref (getLonePrimeTable T (unat l)) out)
      else if l = Lone_Alphabetic then
        (True, put_builder (foldl (\<lambda>b p. out_builder (snd (property_switch T (getLoneSet T) p (ToBuilder b)))) empty_builder
           [Property_lone Lone_Lowercase, Property_lone Lone_Uppercase, Property_category Gc_Lt, Property_category Gc_Lm, Property_category Gc_Lo,
            Property_category Gc_Nl, Property_lone Lone_Other_Alphabetic]) out)
      else if l = Lone_Assigned then
        (True, put_builder (complement (out_builder
           (snd (property_switch T (getLoneSet T) (Property_category Gc_Cn) (ToBuilder empty_builder))))) out)
      else if l = Lone_Case_Ignorable then
        (True, put_builder (foldl (\<lambda>b p. out_builder (snd (property_switch T (getLoneSet T) p (ToBuilder b)))) empty_builder
           [Property_category Gc_Mn, Property_category Gc_Me, Property_category Gc_Cf, Property_category Gc_Lm, Property_category Gc_Sk,
            Property_lone Lone_MidLetter, Property_lone Lone_MidNumLet, Property_lone Lone_Single_Quote]) out)
      else if l = Lone_Cased then
        (True, put_builder (foldl (\<lambda>b p. out_builder (snd (property_switch T (getLoneSet T) p (ToBuilder b)))) empty_builder
           [Property_lone Lone_Lowercase, Property_lone Lone_Uppercase, Property_category Gc_Lt]) out)
      else if l = Lone_Default_Ignorable_Code_Point then
        (let builder = foldl (\<lambda>b p. out_builder (snd (property_switch T (getLoneSet T) p (ToBuilder b)))) empty_builder
           [Property_lone Lone_Other_Default_Ignorable_Code_Point, Property_category Gc_Cf, Property_lone Lone_Variation_Selector];
             builder1 = removeSet builder
               (out_set (snd (property_switch T (getLoneSet T) (Property_lone Lone_White_Space) (ToSet empty_set)))) False;
             builder2 = removeSet (without_formats builder1)
               (out_set (snd (property_switch T (getLoneSet T) (Property_lone Lone_Prepended_Concatenation_Mark) (ToSet empty_set)))) False
         in (True, put_builder builder2 out))
      else if l = Lone_Grapheme_Base then
        (True, put_builder (complement
           (foldl (\<lambda>b p. out_builder (snd (property_switch T (getLoneSet T) p (ToBuilder b)))) empty_builder
              [Property_category Gc_C, Property_category Gc_Zl, Property_category Gc_Zp, Property_lone Lone_Grapheme_Extend])) out)
      else if l = Lone_Grapheme_Extend then
        (True, put_builder (foldl (\<lambda>b p. out_builder (snd (property_switch T (getLoneSet T) p (ToBuilder b)))) empty_builder
           [Property_category Gc_Me, Property_category Gc_Mn, Property_lone Lone_Other_Grapheme_Extend]) out)
      else if l = Lone_ID_Continue then
        (True, put_builder (removeSet (removeSet
           (foldl (\<lambda>b p. out_builder (snd (property_switch T (getLoneSet T) p (ToBuilder b)))) empty_builder
              [Property_lone Lone_ID_Start, Property_category Gc_Mn, Property_category Gc_Mc, Property_category Gc_Nd, Property_category Gc_Pc,
               Property_lone Lone_Other_ID_Continue])
           (out_set (snd (property_switch T (getLoneSet T) (Property_lone Lone_Pattern_Syntax) (ToSet empty_set)))) False)
           (out_set (snd (property_switch T (getLoneSet T) (Property_lone Lone_Pattern_White_Space) (ToSet empty_set)))) False) out)
      else if l = Lone_ID_Start then
        (True, put_builder (removeSet (removeSet
           (foldl (\<lambda>b p. out_builder (snd (property_switch T (getLoneSet T) p (ToBuilder b)))) empty_builder
              [Property_category Gc_L, Property_category Gc_Nl, Property_lone Lone_Other_ID_Start])
           (out_set (snd (property_switch T (getLoneSet T) (Property_lone Lone_Pattern_Syntax) (ToSet empty_set)))) False)
           (out_set (snd (property_switch T (getLoneSet T) (Property_lone Lone_Pattern_White_Space) (ToSet empty_set)))) False) out)
      else if l = Lone_Lowercase then
        (True, put_builder (foldl (\<lambda>b p. out_builder (snd (property_switch T (getLoneSet T) p (ToBuilder b)))) empty_builder
           [Property_category Gc_Ll, Property_lone Lone_Other_Lowercase]) out)
      else if l = Lone_Math then
        (True, put_builder (foldl (\<lambda>b p. out_builder (snd (property_switch T (getLoneSet T) p (ToBuilder b)))) empty_builder
           [Property_category Gc_Sm, Property_lone Lone_Other_Math]) out)
      else if l = Lone_Uppercase then
        (True, put_builder (foldl (\<lambda>b p. out_builder (snd (property_switch T (getLoneSet T) p (ToBuilder b)))) empty_builder
           [Property_category Gc_Lu, Property_lone Lone_Other_Uppercase]) out)
      else if l = Lone_XID_Continue then
        (True, put_builder (removeSet
           (foldl (\<lambda>b p. out_builder (snd (property_switch T (getLoneSet T) p (ToBuilder b)))) empty_builder [Property_lone Lone_ID_Continue])
           (out_set (snd (property_switch T (getLoneSet T) (Property_lone Lone_XID_Continue_Delta) (ToSet empty_set)))) False) out)
      else if l = Lone_XID_Start then
        (True, put_builder (removeSet
           (foldl (\<lambda>b p. out_builder (snd (property_switch T (getLoneSet T) p (ToBuilder b)))) empty_builder [Property_lone Lone_ID_Start])
           (out_set (snd (property_switch T (getLoneSet T) (Property_lone Lone_XID_Start_Delta) (ToSet empty_set)))) False) out)
      else (False, out))"
  by pat_completeness auto
termination
  by (relation "measure (\<lambda>(T, l, out). lone_rank l)") (auto simp: lone_rank_def LONE_PRIME_SIZE_def)

declare getLoneSet.simps [simp del]

definition getPropertySet :: "ucp_tables \<Rightarrow> Property \<Rightarrow> BuilderOrSet \<Rightarrow> bool \<times> BuilderOrSet" where
  "getPropertySet T p out = property_switch T (getLoneSet T) p out"

text \<open>\<open>getPropertySet(Property)\<close>\<close>

definition propertySet :: "ucp_tables \<Rightarrow> Property \<Rightarrow> CodePointSetRef" where
  "propertySet T p = out_set (snd (getPropertySet T p (ToSet empty_set)))"

definition hasPrimeLoneProperty :: "ucp_tables \<Rightarrow> int \<Rightarrow> Lone \<Rightarrow> bool" where
  "hasPrimeLoneProperty T codePoint l =
     (unat l < primeLoneTableSize T \<and> set_contains (propertySet T (Property_lone l)) codePoint)"

definition isExtendedPictographic :: "ucp_tables \<Rightarrow> int \<Rightarrow> bool" where
  "isExtendedPictographic T codePoint = hasPrimeLoneProperty T codePoint Lone_Extended_Pictographic"

section \<open>Names\<close>

text \<open>The pieces \<open>splitByDelim\<close> passes to its callback, as long as that returns true.\<close>

fun splitByDelim :: "char \<Rightarrow> string \<Rightarrow> string list" where
  "splitByDelim d [] = [[]]"
| "splitByDelim d (c # cs) =
     (if c = d then [] # splitByDelim d cs
      else case splitByDelim d cs of [] \<Rightarrow> [[c]] | p # ps \<Rightarrow> (c # p) # ps)"

text \<open>The maps from names to values are filled in order by \<open>emplace\<close>, which keeps the first entry of a
  key; the value of the entry at index \<open>i\<close> is \<open>start + i\<close>.\<close>

definition name_map :: "string list \<Rightarrow> nat \<Rightarrow> string \<Rightarrow> nat option" where
  "name_map names start = map_of (concat
     (map (\<lambda>(i, n). map (\<lambda>s. (s, start + i)) (splitByDelim (CHR ''|'') n)) (enumerate 0 names)))"

definition parseCategory :: "ucp_tables \<Rightarrow> string \<Rightarrow> Category option" where
  "parseCategory T ref = map_option of_nat (name_map (categoryNames T) 0 ref)"

definition parseScript :: "ucp_tables \<Rightarrow> string \<Rightarrow> Script option" where
  "parseScript T ref = map_option of_nat (name_map (scriptNames T) 0 ref)"

definition parseLone :: "ucp_tables \<Rightarrow> string \<Rightarrow> Lone option" where
  "parseLone T ref = map_option of_nat (name_map (loneNames T) LONE_PRIME_INTERNAL_SIZE ref)"

definition toStringValue :: "ucp_tables \<Rightarrow> Property \<Rightarrow> bool \<Rightarrow> string" where
  "toStringValue T p longName =
     (let v = unat (property_value p);
          (nameEntry, limit) =
            (case property_name p of
               General_Category \<Rightarrow>
                 (if v < length (categoryNames T) then categoryNames T ! v else [], if longName then 2 else 1)
             | Script \<Rightarrow> (if v < length (scriptNames T) then scriptNames T ! v else [], if longName then 2 else 1)
             | Script_Extensions \<Rightarrow>
                 (if v < length (scriptNames T) then scriptNames T ! v else [], if longName then 2 else 1)
             | Lone \<Rightarrow>
                 (if v \<ge> LONE_PRIME_INTERNAL_SIZE \<and> v < LONE_PROPERTY_SIZE
                  then loneNames T ! (v - LONE_PRIME_INTERNAL_SIZE) else [], if longName then 1 else 2));
          taken = take limit (splitByDelim (CHR ''|'') nameEntry)
      in if length taken = limit then last taken else [])"

definition propertyNames :: "(string \<times> PropertyName) list" where
  "propertyNames = [(''General_Category'', General_Category), (''gc'', General_Category),
     (''Script'', Script), (''sc'', Script), (''Script_Extensions'', Script_Extensions), (''scx'', Script_Extensions)]"

text \<open>\<open>parseProperty\<close>; the left value is the message appended to \<open>err\<close>.\<close>

definition parseProperty :: "ucp_tables \<Rightarrow> string \<Rightarrow> string \<Rightarrow> string + Property" where
  "parseProperty T name val =
     (case (if name = [] then Some Lone else map_of propertyNames name) of
        None \<Rightarrow> Inl (''unrecognized property name: '' @ name)
      | Some prefix \<Rightarrow>
          let res = (case prefix of
             General_Category \<Rightarrow> map_option Property_category (parseCategory T val)
           | Script \<Rightarrow> map_option (\<lambda>v. \<lparr>property_name = prefix, property_value = v\<rparr>) (parseScript T val)
           | Script_Extensions \<Rightarrow> map_option (\<lambda>v. \<lparr>property_name = prefix, property_value = v\<rparr>) (parseScript T val)
           | Lone \<Rightarrow> (case parseCategory T val of
                         Some c \<Rightarrow> Some (Property_category c)
                       | None \<Rightarrow> map_option Property_lone (parseLone T val)))
          in case res of Some p \<Rightarrow> Inr p | None \<Rightarrow> Inl (''unrecognized property value: '' @ val))"

section \<open>Emoji sequences\<close>

text \<open>\<open>RGIEmojiSeq\<close>: one bit per kind of sequence, \<open>RGI_Emoji\<close> all of them.\<close>

definition rgi_emoji_seqs :: "(string \<times> byte) list" where
  "rgi_emoji_seqs =
     [(''Basic_Emoji'', 1), (''Emoji_Keycap_Sequence'', 2), (''RGI_Emoji_Modifier_Sequence'', 4),
      (''RGI_Emoji_Flag_Sequence'', 8), (''RGI_Emoji_Tag_Sequence'', 16), (''RGI_Emoji_ZWJ_Sequence'', 32),
      (''RGI_Emoji'', 63)]"

definition rgi_toString :: "byte \<Rightarrow> string" where
  "rgi_toString p = (case map_of (map prod.swap rgi_emoji_seqs) p of Some s \<Rightarrow> s | None \<Rightarrow> [])"

definition parseEmojiProperty :: "string \<Rightarrow> byte option" where
  "parseEmojiProperty ref = map_of (map (\<lambda>(_, p). (rgi_toString p, p)) rgi_emoji_seqs) ref"

definition getEmojiProperty :: "ucp_tables \<Rightarrow> bytes \<Rightarrow> byte option" where
  "getEmojiProperty T ref =
     map_option (\<lambda>p. if hasFlag p RGI_CASE_IGNORE then 0 else p) (packed_find (emoji_trie T) ref)"

section \<open>What the properties denote\<close>

text \<open>The denotation of every property in terms of the prime tables, after the derivations of the
  Unicode database (\<open>DerivedCoreProperties\<close>, UTS 18 annex C).\<close>

definition ref_ok :: "CodePointSetRef \<Rightarrow> bool" where
  "ref_ok ref \<longleftrightarrow> set_wf ref \<and> set_points ref \<subseteq> {..CODE_POINT_MAX}"

definition tables_ok :: "ucp_tables \<Rightarrow> bool" where
  "tables_ok T \<longleftrightarrow>
     categoryTableSize T = CATEGORY_PRIME_SIZE \<and> scriptTableSize T = SCRIPT_PRIME_SIZE \<and>
     primeLoneTableSize T = LONE_PRIME_SIZE \<and>
     (\<forall>i < CATEGORY_PRIME_SIZE. ref_ok (getCategoryTable T i)) \<and>
     (\<forall>i < SCRIPT_PRIME_SIZE. ref_ok (getScriptTable T i)) \<and>
     (\<forall>i < LONE_PRIME_SIZE. ref_ok (getLonePrimeTable T i)) \<and>
     (\<forall>s. ref_ok (scriptx_ref T s))"

definition gc_points :: "ucp_tables \<Rightarrow> Category list \<Rightarrow> int set" where
  "gc_points T cs = (\<Union>c\<in>set cs. set_points (getCategoryTable T (unat c)))"

definition unassigned_points :: "ucp_tables \<Rightarrow> int set" where
  "unassigned_points T = {0..CODE_POINT_MAX} - (\<Union>i<CATEGORY_PRIME_SIZE. set_points (getCategoryTable T i))"

definition category_points :: "ucp_tables \<Rightarrow> Category \<Rightarrow> int set" where
  "category_points T c =
     (if c = Gc_LC then gc_points T [Gc_Lu, Gc_Ll, Gc_Lt]
      else if c = Gc_L then gc_points T [Gc_Lu, Gc_Ll, Gc_Lt, Gc_Lm, Gc_Lo]
      else if c = Gc_M then gc_points T [Gc_Mn, Gc_Mc, Gc_Me]
      else if c = Gc_N then gc_points T [Gc_Nd, Gc_Nl, Gc_No]
      else if c = Gc_P then gc_points T [Gc_Pc, Gc_Pd, Gc_Ps, Gc_Pe, Gc_Pi, Gc_Pf, Gc_Po]
      else if c = Gc_S then gc_points T [Gc_Sm, Gc_Sc, Gc_Sk, Gc_So]
      else if c = Gc_Z then gc_points T [Gc_Zs, Gc_Zl, Gc_Zp]
      else if c = Gc_Cn then unassigned_points T
      else if c = Gc_C then gc_points T [Gc_Cc, Gc_Cf, Gc_Cs, Gc_Co] \<union> unassigned_points T
      else gc_points T [c])"

definition script_points :: "ucp_tables \<Rightarrow> Script \<Rightarrow> int set" where
  "script_points T s =
     (if s = Script_Zzzz then {0..CODE_POINT_MAX} - (\<Union>i<SCRIPT_PRIME_SIZE. set_points (getScriptTable T i))
      else set_points (getScriptTable T (unat s)))"

definition scriptx_points :: "ucp_tables \<Rightarrow> Script \<Rightarrow> int set" where
  "scriptx_points T s = set_points (scriptx_ref T s) \<union>
     (if s = Script_Zyyy \<or> s = Script_Zinh then {} else script_points T s)"

definition prime_points :: "ucp_tables \<Rightarrow> Lone \<Rightarrow> int set" where
  "prime_points T l = set_points (getLonePrimeTable T (unat l))"

definition lowercase_points :: "ucp_tables \<Rightarrow> int set" where
  "lowercase_points T = gc_points T [Gc_Ll] \<union> prime_points T Lone_Other_Lowercase"

definition uppercase_points :: "ucp_tables \<Rightarrow> int set" where
  "uppercase_points T = gc_points T [Gc_Lu] \<union> prime_points T Lone_Other_Uppercase"

definition grapheme_extend_points :: "ucp_tables \<Rightarrow> int set" where
  "grapheme_extend_points T = gc_points T [Gc_Me, Gc_Mn] \<union> prime_points T Lone_Other_Grapheme_Extend"

definition pattern_points :: "ucp_tables \<Rightarrow> int set" where
  "pattern_points T = prime_points T Lone_Pattern_Syntax \<union> prime_points T Lone_Pattern_White_Space"

definition id_start_points :: "ucp_tables \<Rightarrow> int set" where
  "id_start_points T =
     gc_points T [Gc_Lu, Gc_Ll, Gc_Lt, Gc_Lm, Gc_Lo, Gc_Nl] \<union> prime_points T Lone_Other_ID_Start - pattern_points T"

definition id_continue_points :: "ucp_tables \<Rightarrow> int set" where
  "id_continue_points T =
     id_start_points T \<union> gc_points T [Gc_Mn, Gc_Mc, Gc_Nd, Gc_Pc] \<union> prime_points T Lone_Other_ID_Continue
       - pattern_points T"

definition lone_points :: "ucp_tables \<Rightarrow> Lone \<Rightarrow> int set" where
  "lone_points T l =
     (if l = Lone_Alphabetic then lowercase_points T \<union> uppercase_points T \<union> gc_points T [Gc_Lt, Gc_Lm, Gc_Lo, Gc_Nl]
         \<union> prime_points T Lone_Other_Alphabetic
      else if l = Lone_Assigned then {0..CODE_POINT_MAX} - unassigned_points T
      else if l = Lone_Case_Ignorable then gc_points T [Gc_Mn, Gc_Me, Gc_Cf, Gc_Lm, Gc_Sk]
         \<union> prime_points T Lone_MidLetter \<union> prime_points T Lone_MidNumLet \<union> prime_points T Lone_Single_Quote
      else if l = Lone_Cased then lowercase_points T \<union> uppercase_points T \<union> gc_points T [Gc_Lt]
      else if l = Lone_Default_Ignorable_Code_Point then
        prime_points T Lone_Other_Default_Ignorable_Code_Point \<union> gc_points T [Gc_Cf] \<union> prime_points T Lone_Variation_Selector
          - prime_points T Lone_White_Space - {0xFFF9..0xFFFB} - {0x13430..0x1343F}
          - prime_points T Lone_Prepended_Concatenation_Mark
      else if l = Lone_Grapheme_Base then
        {0..CODE_POINT_MAX} - (category_points T Gc_C \<union> gc_points T [Gc_Zl, Gc_Zp] \<union> grapheme_extend_points T)
      else if l = Lone_Grapheme_Extend then grapheme_extend_points T
      else if l = Lone_ID_Continue then id_continue_points T
      else if l = Lone_ID_Start then id_start_points T
      else if l = Lone_Lowercase then lowercase_points T
      else if l = Lone_Math then gc_points T [Gc_Sm] \<union> prime_points T Lone_Other_Math
      else if l = Lone_Uppercase then uppercase_points T
      else if l = Lone_XID_Continue then id_continue_points T - prime_points T Lone_XID_Continue_Delta
      else if l = Lone_XID_Start then id_start_points T - prime_points T Lone_XID_Start_Delta
      else prime_points T l)"

definition property_points :: "ucp_tables \<Rightarrow> Property \<Rightarrow> int set" where
  "property_points T p =
     (case property_name p of
        General_Category \<Rightarrow> category_points T (property_value p)
      | Script \<Rightarrow> script_points T (property_value p)
      | Script_Extensions \<Rightarrow> scriptx_points T (property_value p)
      | Lone \<Rightarrow> lone_points T (property_value p))"

definition property_exists :: "Property \<Rightarrow> bool" where
  "property_exists p \<longleftrightarrow>
     unat (property_value p) <
       (case property_name p of General_Category \<Rightarrow> 38 | Script \<Rightarrow> 178 | Script_Extensions \<Rightarrow> 178 | Lone \<Rightarrow> LONE_PROPERTY_SIZE)"

section \<open>Delivery\<close>

text \<open>An operation hands over a set when it adds it to a builder, and overwrites a set with it.\<close>

definition hands_over :: "(BuilderOrSet \<Rightarrow> bool \<times> BuilderOrSet) \<Rightarrow> int set \<Rightarrow> bool" where
  "hands_over f A \<longleftrightarrow>
     (\<forall>b. builder_ok b \<longrightarrow> (\<exists>b'. f (ToBuilder b) = (True, ToBuilder b') \<and> builder_ok b' \<and>
        builder_points b' = builder_points b \<union> A)) \<and>
     (\<forall>s. \<exists>s'. f (ToSet s) = (True, ToSet s') \<and> ref_ok s' \<and> set_points s' = A)"

lemma hands_over_ref: "ref_ok ref \<Longrightarrow> hands_over (\<lambda>out. (True, put_ref ref out)) (set_points ref)"
  using addSet_spec by (simp add: hands_over_def ref_ok_def)

lemma ref_ok_build: "builder_ok b \<Longrightarrow> ref_ok (fst (build b)) \<and> set_points (fst (build b)) = builder_points b"
  using build_spec [of b] builder.bounded [of b] by (auto simp: ref_ok_def)

lemma hands_over_builder: "builder_ok b \<Longrightarrow> hands_over (\<lambda>out. (True, put_builder b out)) (builder_points b)"
  using addBuilder_spec ref_ok_build by (simp add: hands_over_def)

lemma hands_over_to_builder:
  "hands_over f A \<Longrightarrow> builder_ok b \<Longrightarrow> builder_ok (out_builder (snd (f (ToBuilder b)))) \<and>
     builder_points (out_builder (snd (f (ToBuilder b)))) = builder_points b \<union> A"
  by (fastforce simp: hands_over_def)

lemma hands_over_to_set:
  "hands_over f A \<Longrightarrow> ref_ok (out_set (snd (f (ToSet s)))) \<and> set_points (out_set (snd (f (ToSet s)))) = A"
  by (metis hands_over_def out_set.simps(1) snd_conv)

lemma removeSet_spec:
  assumes "builder_ok b" "ref_ok ref"
  shows "builder_ok (removeSet b ref False) \<and> builder_points (removeSet b ref False) = builder_points b - set_points ref"
proof -
  have "builder_ok (addSet empty_builder ref) \<and> builder_points (addSet empty_builder ref) = set_points ref"
    using addSet_spec [of empty_builder ref] builder.empty assms(2) by (simp add: ref_ok_def)
  with removeBuilder_spec [OF assms(1), of "addSet empty_builder ref" False] show ?thesis
    by (simp add: removeSet_def)
qed

lemma add_tables_spec:
  assumes "builder_ok b" "\<forall>i\<in>set is. ref_ok (table i)"
  shows "builder_ok (foldl (\<lambda>b i. addSet b (table i)) b is) \<and>
    builder_points (foldl (\<lambda>b i. addSet b (table i)) b is) = builder_points b \<union> (\<Union>i\<in>set is. set_points (table i))"
  using assms
proof (induction "is" arbitrary: b)
  case (Cons i "is")
  have "builder_ok (addSet b (table i)) \<and> builder_points (addSet b (table i)) = builder_points b \<union> set_points (table i)"
    using Cons.prems addSet_spec by (simp add: ref_ok_def)
  with Cons.IH [of "addSet b (table i)"] Cons.prems(2) show ?case by (simp add: Un_assoc)
qed simp

lemma add_properties_spec:
  assumes "\<forall>p\<in>set ps. hands_over (getPropertySet T p) (A p)" "builder_ok b"
  shows "builder_ok (foldl (\<lambda>b p. out_builder (snd (getPropertySet T p (ToBuilder b)))) b ps) \<and>
    builder_points (foldl (\<lambda>b p. out_builder (snd (getPropertySet T p (ToBuilder b)))) b ps) =
      builder_points b \<union> (\<Union>p\<in>set ps. A p)"
  using assms
proof (induction ps arbitrary: b)
  case (Cons p ps)
  have "hands_over (getPropertySet T p) (A p)" using Cons.prems(1) by simp
  from hands_over_to_builder [OF this Cons.prems(2)]
  show ?case using Cons.IH [of "out_builder (snd (getPropertySet T p (ToBuilder b)))"] Cons.prems(1)
    by (simp add: Un_assoc)
qed simp

section \<open>Categories and scripts\<close>

lemma empty_builder_ok [simp]: "builder_ok empty_builder" "builder_points empty_builder = {}"
  using builder.empty by simp_all

lemma tables_okD:
  assumes "tables_ok T"
  shows "categoryTableSize T = 29" "scriptTableSize T = 177" "primeLoneTableSize T = 60"
    "i < 29 \<Longrightarrow> ref_ok (getCategoryTable T i)" "i < 177 \<Longrightarrow> ref_ok (getScriptTable T i)"
    "i < 60 \<Longrightarrow> ref_ok (getLonePrimeTable T i)" "ref_ok (scriptx_ref T s)"
  using assms by (simp_all add: tables_ok_def CATEGORY_PRIME_SIZE_def SCRIPT_PRIME_SIZE_def LONE_PRIME_SIZE_def)

lemma add_combination_spec:
  assumes "tables_ok T" "builder_ok b"
  shows "builder_ok (add_combination T b cs) \<and>
    builder_points (add_combination T b cs) = builder_points b \<union> gc_points T (takeWhile (\<lambda>c. unat c < 29) cs)"
  using assms(2)
proof (induction cs arbitrary: b)
  case (Cons c cs)
  show ?case
  proof (cases "unat c < 29")
    case True
    have "builder_ok (addSet b (getCategoryTable T (unat c))) \<and>
        builder_points (addSet b (getCategoryTable T (unat c))) = builder_points b \<union> set_points (getCategoryTable T (unat c))"
      using tables_okD(4) [OF assms(1) True] addSet_spec Cons.prems by (simp add: ref_ok_def)
    with Cons.IH [of "addSet b (getCategoryTable T (unat c))"] True tables_okD(1) [OF assms(1)] show ?thesis
      by (simp add: gc_points_def Un_assoc)
  qed (use Cons.prems tables_okD(1) [OF assms(1)] in \<open>simp add: gc_points_def\<close>)
qed (simp add: gc_points_def)

lemma combinations:
  "takeWhile (\<lambda>c. unat c < 29) (lookupCategoryCombination Gc_LC) = [Gc_Lu, Gc_Ll, Gc_Lt]"
  "takeWhile (\<lambda>c. unat c < 29) (lookupCategoryCombination Gc_L) = [Gc_Lu, Gc_Ll, Gc_Lt, Gc_Lm, Gc_Lo]"
  "takeWhile (\<lambda>c. unat c < 29) (lookupCategoryCombination Gc_M) = [Gc_Mn, Gc_Mc, Gc_Me]"
  "takeWhile (\<lambda>c. unat c < 29) (lookupCategoryCombination Gc_N) = [Gc_Nd, Gc_Nl, Gc_No]"
  "takeWhile (\<lambda>c. unat c < 29) (lookupCategoryCombination Gc_P) = [Gc_Pc, Gc_Pd, Gc_Ps, Gc_Pe, Gc_Pi, Gc_Pf, Gc_Po]"
  "takeWhile (\<lambda>c. unat c < 29) (lookupCategoryCombination Gc_S) = [Gc_Sm, Gc_Sc, Gc_Sk, Gc_So]"
  "takeWhile (\<lambda>c. unat c < 29) (lookupCategoryCombination Gc_Z) = [Gc_Zs, Gc_Zl, Gc_Zp]"
  by code_simp+

lemma combination_points:
  assumes "c \<in> {Gc_LC, Gc_L, Gc_M, Gc_N, Gc_P, Gc_S, Gc_Z}"
  shows "gc_points T (takeWhile (\<lambda>c. unat c < 29) (lookupCategoryCombination c)) = category_points T c"
  using assms by (elim insertE emptyE) (simp_all add: combinations category_points_def)

lemma hands_over_combination:
  assumes "tables_ok T"
  shows "hands_over (\<lambda>out. (True, case out of ToBuilder b \<Rightarrow> ToBuilder (add_combination T b cs)
      | ToSet s \<Rightarrow> ToSet (fst (build (add_combination T empty_builder cs)))))
    (gc_points T (takeWhile (\<lambda>c. unat c < 29) cs))"
  using add_combination_spec [OF assms] ref_ok_build by (simp add: hands_over_def)

lemma unassigned_spec:
  assumes "tables_ok T"
  shows "builder_ok (complement (add_categories T empty_builder [0..<categoryTableSize T])) \<and>
    builder_points (complement (add_categories T empty_builder [0..<categoryTableSize T])) = unassigned_points T"
proof -
  have "builder_ok (add_categories T empty_builder [0..<categoryTableSize T]) \<and>
     builder_points (add_categories T empty_builder [0..<categoryTableSize T]) = (\<Union>i<29. set_points (getCategoryTable T i))"
    using add_tables_spec [of empty_builder "[0..<categoryTableSize T]" "getCategoryTable T"] tables_okD(1,4) [OF assms]
    by (simp add: add_categories_def lessThan_atLeast0)
  with builder.compl show ?thesis by (simp add: unassigned_points_def CATEGORY_PRIME_SIZE_def)
qed

lemma getCategorySet_hands_over:
  assumes T: "tables_ok T" and c: "unat c < 38"
  shows "hands_over (getCategorySet T c) (category_points T c)"
proof -
  consider "unat c < 29" | "c \<in> {Gc_LC, Gc_L, Gc_M, Gc_N, Gc_P, Gc_S, Gc_Z}" | "c = Gc_Cn" | "c = Gc_C"
  proof -
    have "unat c < 29 \<or> unat c \<in> {29, 30, 31, 32, 33, 34, 35, 36, 37}" using c by auto
    then show thesis using that by (auto simp: word_unat_eq_iff)
  qed
  then show ?thesis
  proof cases
    case 1
    then have "c \<notin> {29, 30, 31, 32, 33, 34, 35, 36, 37}" by auto
    then have "category_points T c = set_points (getCategoryTable T (unat c))"
      by (simp add: category_points_def gc_points_def)
    with hands_over_ref [OF tables_okD(4) [OF T 1]] 1 show ?thesis
      by (simp add: getCategorySet_def [abs_def] CATEGORY_PRIME_SIZE_def)
  next
    case 2
    then have "\<not> unat c < 29" by auto
    then have "getCategorySet T c = (\<lambda>out. (True, case out of ToBuilder b \<Rightarrow> ToBuilder (add_combination T b (lookupCategoryCombination c))
        | ToSet s \<Rightarrow> ToSet (fst (build (add_combination T empty_builder (lookupCategoryCombination c))))))"
      using 2 by (intro ext) (simp add: getCategorySet_def CATEGORY_PRIME_SIZE_def)
    with hands_over_combination [OF T, of "lookupCategoryCombination c"] combination_points [OF 2, of T] show ?thesis by simp
  next
    case 3
    with hands_over_builder [OF conjunct1 [OF unassigned_spec [OF T]]] unassigned_spec [OF T] show ?thesis
      by (simp add: getCategorySet_def [abs_def] CATEGORY_PRIME_SIZE_def category_points_def)
  next
    case 4
    let ?b = "complement (add_categories T empty_builder [0..<categoryTableSize T])"
    have "builder_ok (add_categories T ?b (map unat [Gc_Cc, Gc_Cf, Gc_Cs, Gc_Co])) \<and>
        builder_points (add_categories T ?b (map unat [Gc_Cc, Gc_Cf, Gc_Cs, Gc_Co])) = category_points T Gc_C"
      using add_tables_spec [of ?b "map unat [Gc_Cc, Gc_Cf, Gc_Cs, Gc_Co]" "getCategoryTable T"]
        unassigned_spec [OF T] tables_okD(4) [OF T]
      by (auto simp: add_categories_def category_points_def gc_points_def)
    with hands_over_builder [of "add_categories T ?b (map unat [Gc_Cc, Gc_Cf, Gc_Cs, Gc_Co])"] 4 show ?thesis
      by (simp add: getCategorySet_def [abs_def] CATEGORY_PRIME_SIZE_def Let_def)
  qed
qed

lemma getScriptSet_hands_over:
  assumes T: "tables_ok T" and s: "unat s < 178"
  shows "hands_over (getScriptSet T s) (script_points T s)"
proof (cases "unat s < 177")
  case True
  then have "s \<noteq> 177" by auto
  with True hands_over_ref [OF tables_okD(5) [OF T True]] show ?thesis
    by (simp add: getScriptSet_def [abs_def] SCRIPT_PRIME_SIZE_def script_points_def)
next
  case False
  then have "unat s = 177" using s by simp
  then have s: "s = 177" by (simp add: word_unat_eq_iff)
  let ?b = "foldl (\<lambda>b i. addSet b (getScriptTable T i)) empty_builder [0..<scriptTableSize T]"
  have "builder_ok ?b \<and> builder_points ?b = (\<Union>i<177. set_points (getScriptTable T i))"
    using add_tables_spec [of empty_builder "[0..<scriptTableSize T]" "getScriptTable T"] tables_okD(2,5) [OF T]
    by (simp add: lessThan_atLeast0)
  with builder.compl [of ?b] have "builder_ok (complement ?b) \<and> builder_points (complement ?b) = script_points T s"
    by (simp add: script_points_def SCRIPT_PRIME_SIZE_def s)
  with hands_over_builder [of "complement ?b"] show ?thesis by (simp add: getScriptSet_def [abs_def] SCRIPT_PRIME_SIZE_def s)
qed

lemma getScriptXSet_hands_over:
  assumes T: "tables_ok T" and s: "unat s < 178"
  shows "hands_over (getScriptXSet T s) (scriptx_points T s)"
proof (cases "s = Script_Zyyy \<or> s = Script_Zinh")
  case True
  with hands_over_ref [OF tables_okD(7) [OF T]] show ?thesis
    by (auto simp: getScriptXSet_def [abs_def] scriptx_points_def Let_def)
next
  case False
  let ?r = "scriptx_ref T s"
  let ?b = "if getSize ?r \<noteq> 0 then addSet empty_builder ?r else empty_builder"
  have "getSize ?r = 0 \<Longrightarrow> set_points ?r = {}"
    by (simp add: getSize_def set_points_def getBMPRanges_def getPackedNonBMPRanges_def getNonBMPRanges_def)
  then have b: "builder_ok ?b \<and> builder_points ?b = set_points ?r"
    using addSet_spec [of empty_builder ?r] tables_okD(7) [OF T, of s] by (simp add: ref_ok_def)
  then obtain b' where b': "getScriptSet T s (ToBuilder ?b) = (True, ToBuilder b')" "builder_ok b'"
      "builder_points b' = set_points ?r \<union> script_points T s"
    using getScriptSet_hands_over [OF T s] by (metis hands_over_def)
  have "getScriptXSet T s = (\<lambda>out. (True, put_builder b' out))"
    using False b'(1) by (intro ext) (simp add: getScriptXSet_def Let_def)
  with hands_over_builder [OF b'(2)] b'(3) False show ?thesis by (simp add: scriptx_points_def)
qed

section \<open>Lone properties\<close>

definition prop_holds :: "ucp_tables \<Rightarrow> Property \<Rightarrow> bool" where
  "prop_holds T p \<longleftrightarrow> hands_over (getPropertySet T p) (property_points T p)"

abbreviation add_all :: "ucp_tables \<Rightarrow> Property list \<Rightarrow> CodePointSetBuilder" where
  "add_all T ps \<equiv> foldl (\<lambda>b p. out_builder (snd (getPropertySet T p (ToBuilder b)))) empty_builder ps"

lemma getPropertySet_cases:
  "getPropertySet T (Property_category c) = getCategorySet T c"
  "getPropertySet T \<lparr>property_name = Script, property_value = s\<rparr> = getScriptSet T s"
  "getPropertySet T \<lparr>property_name = Script_Extensions, property_value = s\<rparr> = getScriptXSet T s"
  "getPropertySet T (Property_lone l) = getLoneSet T l"
  by (rule ext, simp add: getPropertySet_def property_switch_def)+

lemma holds_category: "tables_ok T \<Longrightarrow> unat c < 38 \<Longrightarrow> prop_holds T (Property_category c)"
  by (simp add: prop_holds_def getPropertySet_cases getCategorySet_hands_over property_points_def)

lemma lone_points_prime: "unat l < 60 \<Longrightarrow> lone_points T l = prime_points T l"
  by (auto simp: lone_points_def)

lemma holds_prime:
  assumes "tables_ok T" "unat l < 60"
  shows "prop_holds T (Property_lone l)"
proof -
  have "getLoneSet T l = (\<lambda>out. (True, put_ref (getLonePrimeTable T (unat l)) out))"
    using assms(2) by (intro ext) (simp add: getLoneSet.simps [of T l] LONE_PRIME_SIZE_def)
  with hands_over_ref [OF tables_okD(6) [OF assms]] lone_points_prime [OF assms(2), of T] show ?thesis
    by (simp add: prop_holds_def getPropertySet_cases property_points_def prime_points_def)
qed

lemma adds_spec:
  "\<forall>p\<in>set ps. prop_holds T p \<Longrightarrow> builder_ok (add_all T ps) \<and> builder_points (add_all T ps) = (\<Union>p\<in>set ps. property_points T p)"
  using add_properties_spec [of ps T "property_points T" empty_builder] by (simp add: prop_holds_def)

lemma holds_set:
  "prop_holds T p \<Longrightarrow> ref_ok (out_set (snd (getPropertySet T p (ToSet s)))) \<and>
     set_points (out_set (snd (getPropertySet T p (ToSet s)))) = property_points T p"
  using hands_over_to_set by (simp add: prop_holds_def)

lemma minus_property:
  assumes "builder_ok b" "prop_holds T p"
  shows "builder_ok (removeSet b (out_set (snd (getPropertySet T p (ToSet s)))) False) \<and>
    builder_points (removeSet b (out_set (snd (getPropertySet T p (ToSet s)))) False) = builder_points b - property_points T p"
  using removeSet_spec [OF assms(1)] holds_set [OF assms(2)] by simp

lemma holds_built:
  assumes "\<And>out. getLoneSet T l out = (True, put_builder b out)" "builder_ok b" "builder_points b = lone_points T l"
  shows "prop_holds T (Property_lone l)"
proof -
  have "getLoneSet T l = (\<lambda>out. (True, put_builder b out))" using assms(1) by blast
  with hands_over_builder [OF assms(2)] assms(3) show ?thesis
    by (simp add: prop_holds_def getPropertySet_cases property_points_def)
qed

lemma holds_union:
  assumes "\<And>out. getLoneSet T l out = (True, put_builder (add_all T ps) out)" "\<forall>p\<in>set ps. prop_holds T p"
    "lone_points T l = (\<Union>p\<in>set ps. property_points T p)"
  shows "prop_holds T (Property_lone l)"
  using holds_built [OF assms(1)] adds_spec [OF assms(2)] assms(3) by simp

lemmas points_simps = property_points_def lone_points_def category_points_def gc_points_def

text \<open>The branches of \<open>getLoneSet\<close> for the combined properties.\<close>

lemma getLoneSet_unions:
  "getLoneSet T Lone_Lowercase out = (True, put_builder (add_all T [Property_category Gc_Ll, Property_lone Lone_Other_Lowercase]) out)"
  "getLoneSet T Lone_Uppercase out = (True, put_builder (add_all T [Property_category Gc_Lu, Property_lone Lone_Other_Uppercase]) out)"
  "getLoneSet T Lone_Math out = (True, put_builder (add_all T [Property_category Gc_Sm, Property_lone Lone_Other_Math]) out)"
  "getLoneSet T Lone_Grapheme_Extend out =
     (True, put_builder (add_all T [Property_category Gc_Me, Property_category Gc_Mn, Property_lone Lone_Other_Grapheme_Extend]) out)"
  "getLoneSet T Lone_Case_Ignorable out =
     (True, put_builder (add_all T [Property_category Gc_Mn, Property_category Gc_Me, Property_category Gc_Cf, Property_category Gc_Lm, Property_category Gc_Sk,
        Property_lone Lone_MidLetter, Property_lone Lone_MidNumLet, Property_lone Lone_Single_Quote]) out)"
  "getLoneSet T Lone_Cased out =
     (True, put_builder (add_all T [Property_lone Lone_Lowercase, Property_lone Lone_Uppercase, Property_category Gc_Lt]) out)"
  "getLoneSet T Lone_Alphabetic out =
     (True, put_builder (add_all T [Property_lone Lone_Lowercase, Property_lone Lone_Uppercase, Property_category Gc_Lt, Property_category Gc_Lm,
        Property_category Gc_Lo, Property_category Gc_Nl, Property_lone Lone_Other_Alphabetic]) out)"
  by (subst getLoneSet.simps, simp add: LONE_PRIME_SIZE_def getPropertySet_def)+

abbreviation minus_set :: "ucp_tables \<Rightarrow> CodePointSetBuilder \<Rightarrow> Property \<Rightarrow> CodePointSetBuilder" where
  "minus_set T b p \<equiv> removeSet b (out_set (snd (getPropertySet T p (ToSet empty_set)))) False"

lemma getLoneSet_others:
  "getLoneSet T Lone_Assigned out =
     (True, put_builder (complement (add_all T [Property_category Gc_Cn])) out)"
  "getLoneSet T Lone_Grapheme_Base out =
     (True, put_builder (complement (add_all T [Property_category Gc_C, Property_category Gc_Zl, Property_category Gc_Zp, Property_lone Lone_Grapheme_Extend])) out)"
  "getLoneSet T Lone_ID_Start out =
     (True, put_builder (minus_set T (minus_set T (add_all T [Property_category Gc_L, Property_category Gc_Nl, Property_lone Lone_Other_ID_Start])
        (Property_lone Lone_Pattern_Syntax)) (Property_lone Lone_Pattern_White_Space)) out)"
  "getLoneSet T Lone_ID_Continue out =
     (True, put_builder (minus_set T (minus_set T (add_all T [Property_lone Lone_ID_Start, Property_category Gc_Mn, Property_category Gc_Mc, Property_category Gc_Nd,
        Property_category Gc_Pc, Property_lone Lone_Other_ID_Continue]) (Property_lone Lone_Pattern_Syntax)) (Property_lone Lone_Pattern_White_Space)) out)"
  "getLoneSet T Lone_XID_Start out =
     (True, put_builder (minus_set T (add_all T [Property_lone Lone_ID_Start]) (Property_lone Lone_XID_Start_Delta)) out)"
  "getLoneSet T Lone_XID_Continue out =
     (True, put_builder (minus_set T (add_all T [Property_lone Lone_ID_Continue]) (Property_lone Lone_XID_Continue_Delta)) out)"
  by (subst getLoneSet.simps, simp add: LONE_PRIME_SIZE_def getPropertySet_def)+

lemma holds_case_pairs:
  assumes T: "tables_ok T"
  shows "prop_holds T (Property_lone Lone_Lowercase)" "prop_holds T (Property_lone Lone_Uppercase)" "prop_holds T (Property_lone Lone_Math)"
    "prop_holds T (Property_lone Lone_Grapheme_Extend)" "prop_holds T (Property_lone Lone_Case_Ignorable)"
  by (rule holds_union [OF getLoneSet_unions(1)] holds_union [OF getLoneSet_unions(2)] holds_union [OF getLoneSet_unions(3)]
        holds_union [OF getLoneSet_unions(4)] holds_union [OF getLoneSet_unions(5)],
      simp add: holds_category [OF T] holds_prime [OF T],
      auto simp: points_simps lowercase_points_def uppercase_points_def grapheme_extend_points_def)+

lemma holds_letters:
  assumes T: "tables_ok T"
  shows "prop_holds T (Property_lone Lone_Cased)" "prop_holds T (Property_lone Lone_Alphabetic)"
  by (rule holds_union [OF getLoneSet_unions(6)] holds_union [OF getLoneSet_unions(7)],
      simp add: holds_category [OF T] holds_prime [OF T] holds_case_pairs [OF T],
      auto simp: points_simps)+

lemma points_bounded: "prop_holds T p \<Longrightarrow> property_points T p \<subseteq> {0..CODE_POINT_MAX}"
  using hands_over_to_builder [of "getPropertySet T p" "property_points T p" empty_builder]
    builder.bounded by (metis empty_builder_ok prop_holds_def sup_bot_left)

lemma holds_complements:
  assumes T: "tables_ok T"
  shows "prop_holds T (Property_lone Lone_Assigned)" "prop_holds T (Property_lone Lone_Grapheme_Base)"
proof -
  note h = holds_category [OF T] holds_prime [OF T] holds_case_pairs [OF T]
  have a: "\<forall>p\<in>set [Property_category Gc_Cn]. prop_holds T p"
    "\<forall>p\<in>set [Property_category Gc_C, Property_category Gc_Zl, Property_category Gc_Zp, Property_lone Lone_Grapheme_Extend]. prop_holds T p"
    by (simp_all add: h)
  show "prop_holds T (Property_lone Lone_Assigned)"
    using holds_built [OF getLoneSet_others(1)] builder.compl adds_spec [OF a(1)] by (simp add: points_simps)
  show "prop_holds T (Property_lone Lone_Grapheme_Base)"
    using holds_built [OF getLoneSet_others(2)] builder.compl adds_spec [OF a(2)]
    by (simp add: points_simps Un_assoc)
qed

lemma minus_patterns:
  assumes T: "tables_ok T" and b: "builder_ok b"
  shows "builder_ok (minus_set T (minus_set T b (Property_lone Lone_Pattern_Syntax)) (Property_lone Lone_Pattern_White_Space)) \<and>
    builder_points (minus_set T (minus_set T b (Property_lone Lone_Pattern_Syntax)) (Property_lone Lone_Pattern_White_Space)) =
      builder_points b - pattern_points T"
proof -
  have h: "prop_holds T (Property_lone Lone_Pattern_Syntax)" "prop_holds T (Property_lone Lone_Pattern_White_Space)"
    by (simp_all add: holds_prime [OF T])
  note m = minus_property [OF b h(1), of empty_set]
  with minus_property [OF conjunct1 [OF m] h(2), of empty_set] show ?thesis
    by (auto simp: points_simps pattern_points_def)
qed

lemma holds_id_start:
  assumes T: "tables_ok T"
  shows "prop_holds T (Property_lone Lone_ID_Start)"
proof (rule holds_built [OF getLoneSet_others(3)])
  let ?b = "add_all T [Property_category Gc_L, Property_category Gc_Nl, Property_lone Lone_Other_ID_Start]"
  have a: "builder_ok ?b \<and> builder_points ?b = (\<Union>p\<in>set [Property_category Gc_L, Property_category Gc_Nl, Property_lone Lone_Other_ID_Start].
      property_points T p)"
    by (rule adds_spec) (simp add: holds_category [OF T] holds_prime [OF T])
  note m = minus_patterns [OF T conjunct1 [OF a]]
  show "builder_ok (minus_set T (minus_set T ?b (Property_lone Lone_Pattern_Syntax)) (Property_lone Lone_Pattern_White_Space))"
    using m by blast
  show "builder_points (minus_set T (minus_set T ?b (Property_lone Lone_Pattern_Syntax)) (Property_lone Lone_Pattern_White_Space)) =
      lone_points T Lone_ID_Start"
    using m a by (auto simp: points_simps id_start_points_def)
qed

lemma holds_id_continue:
  assumes T: "tables_ok T"
  shows "prop_holds T (Property_lone Lone_ID_Continue)"
proof (rule holds_built [OF getLoneSet_others(4)])
  let ?ps = "[Property_lone Lone_ID_Start, Property_category Gc_Mn, Property_category Gc_Mc, Property_category Gc_Nd,
      Property_category Gc_Pc, Property_lone Lone_Other_ID_Continue]"
  let ?b = "add_all T ?ps"
  have a: "builder_ok ?b \<and> builder_points ?b = (\<Union>p\<in>set ?ps. property_points T p)"
    by (rule adds_spec) (simp add: holds_category [OF T] holds_prime [OF T] holds_id_start [OF T])
  note m = minus_patterns [OF T conjunct1 [OF a]]
  show "builder_ok (minus_set T (minus_set T ?b (Property_lone Lone_Pattern_Syntax)) (Property_lone Lone_Pattern_White_Space))"
    using m by blast
  show "builder_points (minus_set T (minus_set T ?b (Property_lone Lone_Pattern_Syntax)) (Property_lone Lone_Pattern_White_Space)) =
      lone_points T Lone_ID_Continue"
    using m a by (auto simp: points_simps id_continue_points_def)
qed

lemma holds_xid:
  assumes T: "tables_ok T"
  shows "prop_holds T (Property_lone Lone_XID_Start)" "prop_holds T (Property_lone Lone_XID_Continue)"
proof -
  have p: "\<forall>p\<in>set [Property_lone Lone_ID_Start]. prop_holds T p" "\<forall>p\<in>set [Property_lone Lone_ID_Continue]. prop_holds T p"
    using holds_id_start [OF T] holds_id_continue [OF T] by simp_all
  have h: "prop_holds T (Property_lone Lone_XID_Start_Delta)" "prop_holds T (Property_lone Lone_XID_Continue_Delta)"
    by (simp_all add: holds_prime [OF T])
  note s = minus_property [OF conjunct1 [OF adds_spec [OF p(1)]] h(1), of empty_set]
  note c = minus_property [OF conjunct1 [OF adds_spec [OF p(2)]] h(2), of empty_set]
  show "prop_holds T (Property_lone Lone_XID_Start)"
    by (rule holds_built [OF getLoneSet_others(5)])
      (use s adds_spec [OF p(1)] in \<open>auto simp: points_simps\<close>)
  show "prop_holds T (Property_lone Lone_XID_Continue)"
    by (rule holds_built [OF getLoneSet_others(6)])
      (use c adds_spec [OF p(2)] in \<open>auto simp: points_simps\<close>)
qed

lemma clear_builder_ok [simp]: "builder_ok (clear_builder b)" "builder_points (clear_builder b) = {}"
  by (simp_all add: clear_builder_def builder_ok_def builder_points_def)

lemma without_formats_spec:
  assumes "builder_ok b"
  shows "builder_ok (without_formats b) \<and>
    builder_points (without_formats b) = builder_points b - {0xFFF9..0xFFFB} - {0x13430..0x1343F}"
proof -
  let ?r = "addRange (\<lambda>c. c) empty_builder 0xFFF9 0xFFFB False"
  let ?s = "addRange (\<lambda>c. c) (clear_builder (snd (removeBuilder b ?r False))) 0x13430 0x1343F False"
  have r: "builder_ok ?r \<and> builder_points ?r = {0xFFF9..0xFFFB}"
    using addRange_spec [of empty_builder "0xFFF9" "0xFFFB" False] by (simp add: CODE_POINT_MAX_def)
  have s: "builder_ok ?s \<and> builder_points ?s = {0x13430..0x1343F}"
    using addRange_spec [of "clear_builder (snd (removeBuilder b ?r False))" "0x13430" "0x1343F" False]
    by (simp add: CODE_POINT_MAX_def)
  note d = builder.diff [OF assms conjunct1 [OF r]]
  from builder.diff [OF conjunct1 [OF d] conjunct1 [OF s]] r s d show ?thesis
    by (simp add: without_formats_def split_beta)
qed

lemma getLoneSet_ignorable:
  "getLoneSet T Lone_Default_Ignorable_Code_Point out =
     (True, put_builder (minus_set T (without_formats (minus_set T
        (add_all T [Property_lone Lone_Other_Default_Ignorable_Code_Point, Property_category Gc_Cf, Property_lone Lone_Variation_Selector])
        (Property_lone Lone_White_Space))) (Property_lone Lone_Prepended_Concatenation_Mark)) out)"
  by (subst getLoneSet.simps) (simp add: LONE_PRIME_SIZE_def getPropertySet_def)

lemma holds_ignorable:
  assumes T: "tables_ok T"
  shows "prop_holds T (Property_lone Lone_Default_Ignorable_Code_Point)"
proof (rule holds_built [OF getLoneSet_ignorable])
  let ?ps = "[Property_lone Lone_Other_Default_Ignorable_Code_Point, Property_category Gc_Cf, Property_lone Lone_Variation_Selector]"
  let ?w = "minus_set T (add_all T ?ps) (Property_lone Lone_White_Space)"
  have "\<forall>p\<in>set ?ps. prop_holds T p" by (simp add: holds_category [OF T] holds_prime [OF T])
  note a = adds_spec [OF this]
  have h: "prop_holds T (Property_lone Lone_White_Space)" "prop_holds T (Property_lone Lone_Prepended_Concatenation_Mark)"
    by (simp_all add: holds_prime [OF T])
  note w = minus_property [OF conjunct1 [OF a] h(1), of empty_set]
  note f = without_formats_spec [OF conjunct1 [OF w]]
  note m = minus_property [OF conjunct1 [OF f] h(2), of empty_set]
  show "builder_ok (minus_set T (without_formats ?w) (Property_lone Lone_Prepended_Concatenation_Mark))" using m by blast
  have "builder_points (minus_set T (without_formats ?w) (Property_lone Lone_Prepended_Concatenation_Mark)) =
      builder_points (add_all T ?ps) - property_points T (Property_lone Lone_White_Space) - {0xFFF9..0xFFFB} - {0x13430..0x1343F}
        - property_points T (Property_lone Lone_Prepended_Concatenation_Mark)"
    using m w f by simp
  then show "builder_points (minus_set T (without_formats ?w) (Property_lone Lone_Prepended_Concatenation_Mark)) =
      lone_points T Lone_Default_Ignorable_Code_Point"
    using a by (simp add: points_simps Un_assoc)
qed

lemma holds_lone:
  assumes T: "tables_ok T" and l: "unat l < LONE_PROPERTY_SIZE"
  shows "prop_holds T (Property_lone l)"
proof (cases "unat l < 60")
  case False
  then have "unat l \<in> set [60..<74]" using l unfolding LONE_PROPERTY_SIZE_def set_upt atLeastLessThan_iff by simp
  also have "set [60..<74] = {60, 61, 62, 63, 64, 65, 66, 67, 68, 69, 70, 71, 72, 73 :: nat}" by code_simp
  finally have "unat l \<in> {60, 61, 62, 63, 64, 65, 66, 67, 68, 69, 70, 71, 72, 73}" .
  then have "l \<in> {60, 61, 62, 63, 64, 65, 66, 67, 68, 69, 70, 71, 72, 73}" by (auto simp: word_unat_eq_iff)
  then show ?thesis
    using holds_case_pairs [OF T] holds_letters [OF T] holds_complements [OF T] holds_id_start [OF T]
      holds_id_continue [OF T] holds_xid [OF T] holds_ignorable [OF T] by (elim insertE emptyE) simp_all
qed (rule holds_prime [OF T])

lemma holds_property:
  assumes "tables_ok T" "property_exists p"
  shows "prop_holds T p"
proof (cases p)
  case (fields n v)
  show ?thesis
  proof (cases n)
    case General_Category
    with assms fields show ?thesis by (simp add: holds_category property_exists_def)
  next
    case Script
    with assms fields show ?thesis
      by (simp add: prop_holds_def getPropertySet_cases getScriptSet_hands_over property_points_def property_exists_def)
  next
    case Script_Extensions
    with assms fields show ?thesis
      by (simp add: prop_holds_def getPropertySet_cases getScriptXSet_hands_over property_points_def property_exists_def)
  next
    case Lone
    with assms fields show ?thesis by (simp add: holds_lone property_exists_def)
  qed
qed

lemma propertySet_points:
  "tables_ok T \<Longrightarrow> property_exists p \<Longrightarrow> ref_ok (propertySet T p) \<and> set_points (propertySet T p) = property_points T p"
  using holds_set [OF holds_property] by (simp add: propertySet_def)

lemma hasPrimeLoneProperty_iff:
  assumes "tables_ok T" "unat l < 60" "0 \<le> cp"
  shows "hasPrimeLoneProperty T cp l \<longleftrightarrow> cp \<in> prime_points T l"
proof -
  have "ref_ok (propertySet T (Property_lone l))" "set_points (propertySet T (Property_lone l)) = prime_points T l"
    using propertySet_points [OF assms(1), of "Property_lone l"] lone_points_prime [OF assms(2), of T] assms(2)
    by (simp_all add: property_exists_def LONE_PROPERTY_SIZE_def property_points_def)
  with assms set_contains_iff_aux tables_okD(3) [OF assms(1)] show ?thesis
    by (simp add: hasPrimeLoneProperty_def ref_ok_def)
qed

lemma not_property_exists:
  assumes "\<not> property_exists p"
  shows "getPropertySet T p out = (False, out)"
proof (cases p)
  case (fields n v)
  show ?thesis
  proof (cases n)
    case General_Category
    with assms fields have "\<not> unat v < 38" by (simp add: property_exists_def)
    moreover from this have "v \<notin> {29, 30, 31, 32, 33, 34, 35, 36, 37}" by auto
    ultimately show ?thesis
      using General_Category fields by (simp add: getPropertySet_cases getCategorySet_def CATEGORY_PRIME_SIZE_def)
  next
    case Script
    with assms fields have "\<not> unat v < 178" by (simp add: property_exists_def)
    moreover from this have "v \<noteq> 177" by auto
    ultimately show ?thesis
      using Script fields by (simp add: getPropertySet_cases getScriptSet_def SCRIPT_PRIME_SIZE_def)
  next
    case Script_Extensions
    with assms fields have "\<not> unat v < 178" by (simp add: property_exists_def)
    moreover from this have "v \<notin> {0, 40, 177}" by auto
    ultimately show ?thesis
      using Script_Extensions fields
      by (simp add: getPropertySet_cases getScriptXSet_def getScriptSet_def SCRIPT_PRIME_SIZE_def Let_def)
  next
    case Lone
    with assms fields have "\<not> unat v < 74" by (simp add: property_exists_def LONE_PROPERTY_SIZE_def)
    moreover from this have "v \<notin> {60, 61, 62, 63, 64, 65, 66, 67, 68, 69, 70, 71, 72, 73}" by auto
    ultimately show ?thesis
      using Lone fields by (simp add: getPropertySet_cases) (subst getLoneSet.simps, simp add: LONE_PRIME_SIZE_def)
  qed
qed

section \<open>Properties\<close>

text \<open>C13. Property sets: for tables of well-formed ranges, \<open>getPropertySet\<close> fails exactly for values outside
  the enumerations, leaving its destination alone; otherwise the set it returns contains exactly the
  code points of the property as the Unicode database derives it (\<open>property_points\<close>), and a builder
  passed to it gains exactly these code points.\<close>

theorem property_set_spec:
  assumes "tables_ok T"
  shows "if property_exists p
    then (set_contains (propertySet T p) cp \<longleftrightarrow> cp \<in> property_points T p) \<and>
      (builder_ok b \<longrightarrow> (\<exists>b'. getPropertySet T p (ToBuilder b) = (True, ToBuilder b') \<and> builder_ok b' \<and>
         builder_points b' = builder_points b \<union> property_points T p))
    else getPropertySet T p out = (False, out)"
proof (cases "property_exists p")
  case True
  note h = holds_property [OF assms True]
  have "set_contains (propertySet T p) cp \<longleftrightarrow> cp \<in> property_points T p"
    using propertySet_points [OF assms True] set_contains_iff_aux [of "propertySet T p" cp] points_bounded [OF h]
    by (auto simp: ref_ok_def)
  with True h show ?thesis by (simp add: prop_holds_def hands_over_def)
qed (simp add: not_property_exists)

text \<open>Tables with the ASCII letters as the only assigned code points.\<close>

definition sample_tables :: ucp_tables where
  "sample_tables =
     (let e = \<lparr>oe_offset = 0, oe_bmpSize = 0, oe_packedSize = 0, oe_tableSize = 0\<rparr> in
      \<lparr>category_set_table = [mkBMPCodePointRange 0x41 0x5A, mkBMPCodePointRange 0x61 0x7A],
       category_offsets = \<lparr>oe_offset = 0, oe_bmpSize = 1, oe_packedSize = 0, oe_tableSize = 1\<rparr>
         # \<lparr>oe_offset = 1, oe_bmpSize = 1, oe_packedSize = 0, oe_tableSize = 1\<rparr> # replicate 27 e,
       script_set_table = [], script_offsets = replicate 177 e,
       scriptx_set_table = [], script_extension = [],
       lone_set_table = [], lone_offsets = replicate 60 e,
       categoryNames = [''Lu|Uppercase_Letter'', ''Ll|Lowercase_Letter''], scriptNames = [], loneNames = [],
       emoji_trie = \<lparr>packed_ptr = [], packed_maxCodePointCount = 0\<rparr>\<rparr>)"

lemma ref_ok_single:
  "f \<le> l \<Longrightarrow> ref_ok \<lparr>set_ptr = [mkBMPCodePointRange f l], set_bmpSize = Suc 0, set_packedNonBmpSize = 0\<rparr>"
proof -
  assume "f \<le> l"
  moreover have "uint l \<le> CODE_POINT_MAX"
    using unat_u16_less [of l] unfolding uint_eq_int_unat CODE_POINT_MAX_def by linarith
  ultimately show ?thesis unfolding ref_ok_def set_points_def set_wf_def
    by (auto simp: getBMPRanges_def getPackedNonBMPRanges_def getNonBMPRanges_def bmp_pack_roundtrip)
qed

lemma ref_ok_empty: "ref_ok \<lparr>set_ptr = [], set_bmpSize = 0, set_packedNonBmpSize = 0\<rparr>"
  by (simp add: ref_ok_def set_points_def set_wf_def getBMPRanges_def getPackedNonBMPRanges_def getNonBMPRanges_def)

lemma nth_offsets:
  assumes "\<forall>e\<in>set es. P e" "i < length es"
  shows "P (es ! i)"
  using assms by simp

lemma sample_tables_ok: "tables_ok sample_tables"
proof -
  have s: "scriptx_ref sample_tables s = empty_set" for s
    by (simp add: scriptx_ref_def sample_tables_def Let_def)
  have c: "ref_ok (getCategoryTable sample_tables i)" if "i < 29" for i
    unfolding getCategoryTable_def
    by (rule nth_offsets) (use that in \<open>simp_all add: sample_tables_def Let_def table_ref_def ref_ok_single ref_ok_empty\<close>)
  have sc: "ref_ok (getScriptTable sample_tables i)" if "i < 177" for i
    unfolding getScriptTable_def
    by (rule nth_offsets) (use that in \<open>simp_all add: sample_tables_def Let_def table_ref_def ref_ok_empty\<close>)
  have lo: "ref_ok (getLonePrimeTable sample_tables i)" if "i < 60" for i
    unfolding getLonePrimeTable_def
    by (rule nth_offsets) (use that in \<open>simp_all add: sample_tables_def Let_def table_ref_def ref_ok_empty\<close>)
  show ?thesis
    using c sc lo s ref_ok_empty
    by (simp add: tables_ok_def CATEGORY_PRIME_SIZE_def SCRIPT_PRIME_SIZE_def LONE_PRIME_SIZE_def empty_set_def
        categoryTableSize_def scriptTableSize_def primeLoneTableSize_def)
      (simp add: sample_tables_def Let_def)
qed

theorem property_set_spec_witness:
  "tables_ok sample_tables \<and> set_contains (propertySet sample_tables (Property_lone Lone_Alphabetic)) 0x61 \<and>
    getPropertySet sample_tables (Property_lone 200) (ToBuilder empty_builder) = (False, ToBuilder empty_builder)"
proof -
  have "0x61 \<in> set_points (getCategoryTable sample_tables 1)"
    by (simp add: sample_tables_def Let_def getCategoryTable_def table_ref_def set_points_def getBMPRanges_def bmp_pack_roundtrip)
  then have "0x61 \<in> property_points sample_tables (Property_lone Lone_Alphabetic)"
    by (simp add: points_simps lowercase_points_def)
  then show ?thesis
    using property_set_spec [OF sample_tables_ok, of "Property_lone Lone_Alphabetic" "0x61"]
      property_set_spec [OF sample_tables_ok, of "Property_lone 200" _ _ "ToBuilder empty_builder"] sample_tables_ok
    by (simp add: property_exists_def LONE_PROPERTY_SIZE_def)
qed

end
