(* ===== verification/Text_Scanner.thy ===== *)
theory Text_Scanner
  imports Ucp_Property
begin

text \<open>
  What the grapheme scanner (\<open>unicode/grapheme.h\<close>) and the word scanner (\<open>unicode/word.h\<close>) share: the
  search in a sorted table of \<open>CodePointWithMeta\<close>, the decomposition of a byte string into the pieces a
  \<open>Utf8Stream\<close> decodes, and the segmentation of such a string by a rule that decides between two
  code points from the text on both sides.
\<close>

section \<open>Table search\<close>

text \<open>\<open>std::upper_bound\<close>: the first element the value is less than.\<close>

definition upper_bound :: "('v \<Rightarrow> 'r \<Rightarrow> bool) \<Rightarrow> 'r list \<Rightarrow> 'v \<Rightarrow> nat" where
  "upper_bound less_vr rs v = lower_bound (\<lambda>r v. \<not> less_vr v r) rs v 0 (length rs)"

text \<open>\<open>CodePointWithMeta::Comp\<close>\<close>

definition value_less_meta :: "int \<Rightarrow> CodePointWithMeta \<Rightarrow> bool" where
  "value_less_meta l r \<longleftrightarrow> l < metaCodePoint r"

text \<open>The search of \<open>getBreakProperty\<close> and \<open>getWordBreakProperty\<close>: the meta data of the last entry that
  does not exceed the code point, nothing when no entry exceeds it.\<close>

definition find_meta :: "CodePointWithMeta list \<Rightarrow> int \<Rightarrow> byte option" where
  "find_meta table codePoint =
     (let iter = upper_bound value_less_meta table codePoint in
      if iter \<noteq> length table then Some (getMeta (table ! (iter - 1))) else None)"

definition table_sorted :: "CodePointWithMeta list \<Rightarrow> bool" where
  "table_sorted table \<longleftrightarrow> sorted_wrt (\<lambda>a b. metaCodePoint a < metaCodePoint b) table"

interpretation meta: range_search "\<lambda>r v. \<not> value_less_meta v r" "\<lambda>v r. v < metaCodePoint r - 1"
  "\<lambda>r. metaCodePoint r - 1" "\<lambda>r. metaCodePoint r - 1"
  by unfold_locales (auto simp: value_less_meta_def)

lemma table_ordered: "table_sorted table \<Longrightarrow> meta.ordered table"
  by (auto simp: meta.ordered_def table_sorted_def list_all_iff elim: sorted_wrt_mono_rel [rotated])

lemma upper_bound_spec:
  assumes "table_sorted table"
  shows "upper_bound value_less_meta table cp \<le> length table"
    "\<forall>j < upper_bound value_less_meta table cp. metaCodePoint (table ! j) \<le> cp"
    "\<forall>j. upper_bound value_less_meta table cp \<le> j \<and> j < length table \<longrightarrow> cp < metaCodePoint (table ! j)"
  using meta.lower_bound_spec [OF table_ordered [OF assms], of 0 "length table" cp]
  by (simp_all add: upper_bound_def) force

lemma find_meta_in:
  assumes "table_sorted table" "\<forall>t ts. table = t # ts \<longrightarrow> metaCodePoint t = 0" "0 \<le> cp" "find_meta table cp = Some m"
  shows "\<exists>e\<in>set table. m = getMeta e"
proof -
  let ?i = "upper_bound value_less_meta table cp"
  note u = upper_bound_spec [OF assms(1), of cp]
  have i: "?i < length table" "m = getMeta (table ! (?i - 1))"
    using assms(4) u(1) by (auto simp: find_meta_def Let_def split: if_splits)
  then show ?thesis by (metis less_imp_diff_less nth_mem)
qed

lemma find_meta_entry:
  assumes "table_sorted table" "Suc i < length table" "metaCodePoint (table ! i) \<le> cp"
    "cp < metaCodePoint (table ! Suc i)"
  shows "find_meta table cp = Some (getMeta (table ! i))"
proof -
  let ?i = "upper_bound value_less_meta table cp"
  note u = upper_bound_spec [OF assms(1), of cp]
  have "\<not> ?i \<le> i" using u(3) assms(2,3) by force
  moreover have "\<not> Suc i < ?i" using u(2) assms(4) by force
  ultimately have "?i = Suc i" by simp
  with assms(2) show ?thesis by (simp add: find_meta_def Let_def)
qed

lemma find_meta_beyond:
  assumes "table_sorted table" "table \<noteq> []" "metaCodePoint (last table) \<le> cp"
  shows "find_meta table cp = None"
proof -
  note u = upper_bound_spec [OF assms(1), of cp]
  have "\<not> upper_bound value_less_meta table cp \<le> length table - 1"
    using u(3) assms(2,3) by (force simp: last_conv_nth)
  with u(1) show ?thesis by (simp add: find_meta_def Let_def)
qed

section \<open>The decoded pieces of a text\<close>

type_synonym piece = "bytes \<times> int"

function stream_pieces :: "utf8_stream \<Rightarrow> piece list" where
  "stream_pieces st =
     (if stream_rest st = [] then []
      else (let (cp, st') = nextCodePoint st in
            (take (length (stream_rest st) - length (stream_rest st')) (stream_rest st), cp) # stream_pieces st'))"
  by pat_completeness auto
termination
  by (relation "measure (\<lambda>st. length (stream_rest st))")
    (auto simp: nextCodePoint_def split: prod.splits if_splits)

declare stream_pieces.simps [simp del]

definition piece_bytes :: "piece list \<Rightarrow> bytes" where
  "piece_bytes ps = concat (map fst ps)"

lemma piece_bytes_simps [simp]:
  "piece_bytes [] = []" "piece_bytes (p # ps) = fst p @ piece_bytes ps"
  "piece_bytes (ps @ qs) = piece_bytes ps @ piece_bytes qs"
  by (simp_all add: piece_bytes_def)

lemma nextCodePoint_rest:
  assumes "nextCodePoint st = (cp, st')" "stream_rest st \<noteq> []"
  obtains n where "0 < n" "n \<le> length (stream_rest st)" "stream_rest st' = drop n (stream_rest st)"
    "stream_allowSurrogate st' = stream_allowSurrogate st"
proof -
  obtain size c where s: "utf8ToCodePoint (stream_rest st) (stream_allowSurrogate st) = (size, c)" by fastforce
  show thesis
  proof (cases "size < 1")
    case True
    with assms s that [of 1] show thesis by (auto simp: nextCodePoint_def Suc_le_eq)
  next
    case False
    with assms s that [of "min size (length (stream_rest st))"] show thesis
      by (auto simp: nextCodePoint_def min_def)
  qed
qed

lemma nextCodePoint_shorter:
  "nextCodePoint st = (cp, st') \<Longrightarrow> stream_rest st \<noteq> [] \<Longrightarrow> length (stream_rest st') < length (stream_rest st)"
  by (erule nextCodePoint_rest) auto

lemma stream_pieces_end [simp]: "stream_rest st = [] \<Longrightarrow> stream_pieces st = []"
  by (simp add: stream_pieces.simps)

lemma stream_pieces_next:
  assumes "nextCodePoint st = (cp, st')" "stream_rest st \<noteq> []"
  obtains b where "stream_pieces st = (b, cp) # stream_pieces st'" "stream_rest st = b @ stream_rest st'" "b \<noteq> []"
proof -
  obtain n where n: "0 < n" "n \<le> length (stream_rest st)" "stream_rest st' = drop n (stream_rest st)"
    using nextCodePoint_rest [OF assms] .
  have "stream_pieces st = (take n (stream_rest st), cp) # stream_pieces st'"
    using assms n by (simp add: stream_pieces.simps [of st])
  with n assms(2) show thesis using that [of "take n (stream_rest st)"] by simp
qed

lemma piece_bytes_stream: "piece_bytes (stream_pieces st) = stream_rest st"
proof (induction st rule: stream_pieces.induct)
  case (1 st)
  show ?case
  proof (cases "stream_rest st = []")
    case False
    obtain cp st' where n: "nextCodePoint st = (cp, st')" by fastforce
    obtain b where "stream_pieces st = (b, cp) # stream_pieces st'" "stream_rest st = b @ stream_rest st'"
      using stream_pieces_next [OF n False] by metis
    with 1 [OF False n [symmetric]] show ?thesis by simp
  qed simp
qed

lemma stream_codePoints_pieces: "stream_codePoints st = map snd (stream_pieces st)"
proof (induction st rule: stream_pieces.induct)
  case (1 st)
  show ?case
  proof (cases "stream_rest st = []")
    case False
    obtain cp st' where n: "nextCodePoint st = (cp, st')" by fastforce
    with 1 [OF False n [symmetric]] False show ?thesis
      by (simp add: stream_pieces.simps [of st] stream_codePoints.simps [of st])
  qed (simp add: stream_codePoints.simps)
qed

lemma stream_pieces_nonempty: "p \<in> set (stream_pieces st) \<Longrightarrow> fst p \<noteq> []"
proof (induction st rule: stream_pieces.induct)
  case (1 st)
  show ?case
  proof (cases "stream_rest st = []")
    case False
    obtain cp st' where n: "nextCodePoint st = (cp, st')" by fastforce
    obtain b where "stream_pieces st = (b, cp) # stream_pieces st'" "b \<noteq> []"
      using stream_pieces_next [OF n False] by metis
    with 1(1) [OF False n [symmetric]] 1(2) show ?thesis by auto
  qed (use 1 in simp)
qed

lemma piece_bytes_nonempty: "\<forall>p\<in>set ps. fst p \<noteq> [] \<Longrightarrow> ps \<noteq> [] \<Longrightarrow> piece_bytes ps \<noteq> []"
  by (cases ps) auto

lemma piece_bytes_concat: "concat (map piece_bytes segs) = piece_bytes (concat segs)"
  by (induction segs) simp_all

section \<open>Segmentation\<close>

text \<open>A rule \<open>brk before c after\<close> says whether there is a boundary between the code points \<open>before\<close> (the
  nearest first) and the code point \<open>c\<close> that is followed by \<open>after\<close>. \<open>segments\<close> cuts a text at all
  its boundaries.\<close>

type_synonym break_rule = "int list \<Rightarrow> int \<Rightarrow> int list \<Rightarrow> bool"

fun cut_from :: "break_rule \<Rightarrow> int list \<Rightarrow> piece list \<Rightarrow> piece list \<Rightarrow> piece list list" where
  "cut_from brk before cur [] = [cur]"
| "cut_from brk before cur (p # ps) =
     (if brk before (snd p) (map snd ps) then cur # cut_from brk (snd p # before) [p] ps
      else cut_from brk (snd p # before) (cur @ [p]) ps)"

definition segments :: "break_rule \<Rightarrow> piece list \<Rightarrow> piece list list" where
  "segments brk ps = (case ps of [] \<Rightarrow> [] | p # ps' \<Rightarrow> cut_from brk [snd p] [p] ps')"

lemma cut_from_concat: "concat (cut_from brk h cur ps) = cur @ ps"
  by (induction ps arbitrary: h cur) simp_all

lemma segments_concat: "concat (segments brk ps) = ps"
  by (cases ps) (simp_all add: segments_def cut_from_concat)

lemma cut_from_nonempty: "cur \<noteq> [] \<Longrightarrow> [] \<notin> set (cut_from brk h cur ps)"
  by (induction ps arbitrary: h cur) auto

lemma segments_nonempty: "[] \<notin> set (segments brk ps)"
  by (auto simp: segments_def cut_from_nonempty split: list.splits)

lemma segments_bytes:
  assumes "seg \<in> set (segments brk (stream_pieces st))"
  shows "piece_bytes seg \<noteq> []"
proof (rule piece_bytes_nonempty)
  have "set seg \<subseteq> set (concat (segments brk (stream_pieces st)))" using assms by auto
  then show "\<forall>p\<in>set seg. fst p \<noteq> []" unfolding segments_concat using stream_pieces_nonempty by blast
  show "seg \<noteq> []" using assms segments_nonempty [of brk "stream_pieces st"] by metis
qed

text \<open>A scanner decides with a finite state. It implements a rule when its states are related to the
  texts read so far and its answers are those of the rule; the first code point is no boundary.\<close>

fun run_from :: "('s \<Rightarrow> int \<Rightarrow> int list \<Rightarrow> bool \<times> 's) \<Rightarrow> 's \<Rightarrow> piece list \<Rightarrow> piece list \<Rightarrow> piece list list" where
  "run_from check s cur [] = [cur]"
| "run_from check s cur (p # ps) =
     (case check s (snd p) (map snd ps) of
        (True, s') \<Rightarrow> cur # run_from check s' [p] ps
      | (False, s') \<Rightarrow> run_from check s' (cur @ [p]) ps)"

locale segmenter =
  fixes check :: "'s \<Rightarrow> int \<Rightarrow> int list \<Rightarrow> bool \<times> 's" and rel :: "int list \<Rightarrow> int list \<Rightarrow> 's \<Rightarrow> bool"
    and brk :: break_rule
  assumes first: "rel [] (c # after) s \<Longrightarrow> \<not> fst (check s c after)"
    and step: "rel h (c # after) s \<Longrightarrow> rel (c # h) after (snd (check s c after))"
    and decide: "rel h (c # after) s \<Longrightarrow> h \<noteq> [] \<Longrightarrow> fst (check s c after) = brk h c after"
begin

lemma run_from_cut: "rel h (map snd ps) s \<Longrightarrow> h \<noteq> [] \<Longrightarrow> run_from check s cur ps = cut_from brk h cur ps"
proof (induction ps arbitrary: h s cur)
  case (Cons p ps)
  obtain b s' where b: "check s (snd p) (map snd ps) = (b, s')" by fastforce
  have r: "rel h (snd p # map snd ps) s" using Cons.prems(1) by simp
  have "rel (snd p # h) (map snd ps) s'" using step [OF r] b by simp
  then have "run_from check s' cur' ps = cut_from brk (snd p # h) cur' ps" for cur' by (rule Cons.IH) simp
  moreover have "b = brk h (snd p) (map snd ps)" using decide [OF r Cons.prems(2)] b by simp
  ultimately show ?case using b by (cases b) simp_all
qed simp

lemma run_start:
  assumes "rel [] (map snd (p # ps)) s"
  shows "run_from check s [] (p # ps) = segments brk (p # ps)"
proof -
  have r: "rel [] (snd p # map snd ps) s" using assms by simp
  obtain s' where s': "check s (snd p) (map snd ps) = (False, s')" using first [OF r] by (metis prod.collapse)
  then have "rel [snd p] (map snd ps) s'" using step [OF r] by simp
  from run_from_cut [OF this] s' show ?thesis by (simp add: segments_def)
qed

end

section \<open>Iteration\<close>

text \<open>The loop of \<open>iterateGraphemeUntil\<close> and \<open>iterateWordUntil\<close> on the list of results: the consumer is
  called with each until it refuses; the result is the number of calls.\<close>

fun feed_until :: "('c \<Rightarrow> 's \<Rightarrow> bool \<times> 's) \<Rightarrow> 'c list \<Rightarrow> 's \<Rightarrow> nat \<times> 's" where
  "feed_until consumer [] st = (0, st)"
| "feed_until consumer (c # cs) st =
     (case consumer c st of
        (False, st') \<Rightarrow> (1, st')
      | (True, st') \<Rightarrow> (let (n, st'') = feed_until consumer cs st' in (Suc n, st'')))"

text \<open>The loop of \<open>next\<close> on the pieces: those it reads, and the machine and the piece where it found a
  boundary, with what follows.\<close>

fun scan_next :: "('s \<Rightarrow> int \<Rightarrow> int list \<Rightarrow> bool \<times> 's) \<Rightarrow> 's \<Rightarrow> piece list \<Rightarrow> piece list \<times> ('s \<times> piece \<times> piece list) option" where
  "scan_next check s [] = ([], None)"
| "scan_next check s (p # ps) =
     (case check s (snd p) (map snd ps) of
        (True, s') \<Rightarrow> ([], Some (s', p, ps))
      | (False, s') \<Rightarrow> (let (q, r) = scan_next check s' ps in (p # q, r)))"

lemma run_from_scan:
  "run_from check s cur ps =
     (case scan_next check s ps of
        (q, None) \<Rightarrow> [cur @ q]
      | (q, Some (s', p, ps')) \<Rightarrow> (cur @ q) # run_from check s' [p] ps')"
proof (induction ps arbitrary: s cur)
  case (Cons p ps)
  obtain b s' where b: "check s (snd p) (map snd ps) = (b, s')" by fastforce
  obtain q r where "scan_next check s' ps = (q, r)" by fastforce
  with b Cons [of s' "cur @ [p]"] show ?case by (cases b) (simp_all split: option.split)
qed simp

lemma scan_next_pieces:
  "scan_next check s ps = (q, r) \<Longrightarrow> ps = q @ (case r of None \<Rightarrow> [] | Some (s', p, ps') \<Rightarrow> p # ps')"
proof (induction ps arbitrary: s q)
  case (Cons p ps)
  obtain b s' where b: "check s (snd p) (map snd ps) = (b, s')" by fastforce
  obtain q' r' where "scan_next check s' ps = (q', r')" by fastforce
  with b Cons show ?case by (cases b) auto
qed simp

text \<open>An iterator over pieces: between two calls of \<open>next\<close> it has the machine \<open>s\<close>, has read the pieces
  \<open>cur\<close> of the next result and has the pieces \<open>ps\<close> to read.\<close>

locale piece_iterator =
  fixes check :: "'s \<Rightarrow> int \<Rightarrow> int list \<Rightarrow> bool \<times> 's"
    and hasNext :: "'c \<Rightarrow> bool" and nxt :: "'c \<Rightarrow> 'r \<times> 'c"
    and at :: "'c \<Rightarrow> 's \<Rightarrow> piece list \<Rightarrow> piece list \<Rightarrow> bool" and result :: "piece list \<Rightarrow> 'r \<Rightarrow> bool"
    and loop :: "nat \<Rightarrow> ('r \<Rightarrow> 'a \<Rightarrow> bool \<times> 'a) \<Rightarrow> 'c \<Rightarrow> 'a \<Rightarrow> nat \<times> 'a"
  assumes hasNext: "at c s cur ps \<Longrightarrow> hasNext c \<longleftrightarrow> cur @ ps \<noteq> []"
    and start: "at c s [] (p # ps) \<Longrightarrow> \<not> fst (check s (snd p) (map snd ps))"
    and result_of: "at c s cur ps \<Longrightarrow> hasNext c \<Longrightarrow> nxt c = (ret, c') \<Longrightarrow> scan_next check s ps = (q, r) \<Longrightarrow> result (cur @ q) ret"
    and last: "at c s cur ps \<Longrightarrow> hasNext c \<Longrightarrow> nxt c = (ret, c') \<Longrightarrow> scan_next check s ps = (q, None) \<Longrightarrow> \<not> hasNext c'"
    and more: "at c s cur ps \<Longrightarrow> hasNext c \<Longrightarrow> nxt c = (ret, c') \<Longrightarrow> scan_next check s ps = (q, Some (s', p, ps')) \<Longrightarrow> at c' s' [p] ps'"
    and loop_0: "loop 0 consumer c a = (0, a)"
    and loop_Suc: "loop (Suc n) consumer c a =
      (if \<not> hasNext c then (0, a)
       else (let (ret, c') = nxt c in
             case consumer ret a of
               (False, a') \<Rightarrow> (1, a')
             | (True, a') \<Rightarrow> (let (k, a'') = loop n consumer c' a' in (Suc k, a''))))"
begin

lemma loop_stop: "\<not> hasNext c \<Longrightarrow> loop n consumer c a = (0, a)"
  by (cases n) (simp_all add: loop_0 loop_Suc)

lemma read_some: "at c s cur ps \<Longrightarrow> hasNext c \<Longrightarrow> scan_next check s ps = (q, r) \<Longrightarrow> cur @ q \<noteq> []"
proof (cases ps)
  case (Cons p ps')
  assume a: "at c s cur ps" "hasNext c" "scan_next check s ps = (q, r)"
  show ?thesis
  proof (cases "cur = []")
    case True
    then have "\<not> fst (check s (snd p) (map snd ps'))" using start a(1) Cons by simp
    then obtain s' where "check s (snd p) (map snd ps') = (False, s')" by (metis prod.collapse)
    with a(3) Cons show ?thesis by (auto split: prod.splits)
  qed simp
qed (use hasNext in auto)

lemma loop_results:
  "at c s cur ps \<Longrightarrow> \<exists>rs. list_all2 result (if hasNext c then run_from check s cur ps else []) rs \<and>
     (\<forall>n consumer a. loop n consumer c a = feed_until consumer (take n rs) a)"
proof (induction "length (cur @ ps)" arbitrary: c s cur ps rule: less_induct)
  case less
  show ?case
  proof (cases "hasNext c")
    case False
    with loop_stop show ?thesis by (intro exI [of _ "[]"]) simp
  next
    case True
    obtain ret c' where nx: "nxt c = (ret, c')" by fastforce
    obtain q r where sn: "scan_next check s ps = (q, r)" by fastforce
    note res = result_of [OF less.prems True nx sn]
    have "\<exists>rs. list_all2 result (case r of None \<Rightarrow> [] | Some (s', p, ps') \<Rightarrow> run_from check s' [p] ps') rs \<and>
        (\<forall>n consumer a. loop n consumer c' a = feed_until consumer (take n rs) a)"
    proof (cases r)
      case None
      with last [OF less.prems True nx] sn loop_stop [of c'] show ?thesis by (intro exI [of _ "[]"]) simp
    next
      case (Some r')
      obtain s' p ps' where r': "r = Some (s', p, ps')" using Some by (cases r') simp
      have at': "at c' s' [p] ps'" using more [OF less.prems True nx] sn r' by blast
      have "length ([p] @ ps') < length (cur @ ps)"
        using scan_next_pieces [OF sn] r' read_some [OF less.prems True sn] by (cases cur) auto
      from less.hyps [OF this at'] hasNext [OF at'] r' show ?thesis by simp
    qed
    then obtain rs where rs: "list_all2 result (case r of None \<Rightarrow> [] | Some (s', p, ps') \<Rightarrow> run_from check s' [p] ps') rs"
      "\<forall>n consumer a. loop n consumer c' a = feed_until consumer (take n rs) a" by blast
    have "loop n consumer c a = feed_until consumer (take n (ret # rs)) a" for n consumer a
      using True nx rs(2) by (cases n) (simp_all add: loop_0 loop_Suc split: prod.split bool.split)
    moreover have "run_from check s cur ps = (cur @ q) # (case r of None \<Rightarrow> [] | Some (s', p, ps') \<Rightarrow> run_from check s' [p] ps')"
      using run_from_scan [of check s cur ps] sn by (auto split: option.splits)
    ultimately show ?thesis using True res rs(1) by (intro exI [of _ "ret # rs"]) simp
  qed
qed

end

end
