(* ===== verification/Grapheme.thy ===== *)
theory Grapheme
  imports Text_Scanner
begin

text \<open>
  \<open>unicode/grapheme.h\<close> and \<open>unicode/grapheme.cpp\<close>: grapheme cluster boundaries as a state machine over
  code points, the scanner that cuts a UTF-8 string into clusters, the iteration over clusters, and
  the column width of a cluster.
\<close>

section \<open>Break properties\<close>

datatype BreakProperty =
    GB_SOT | GB_Any | GB_CR | GB_LF | GB_Control | GB_Extend | GB_ZWJ | GB_Regional_Indicator | GB_Prepend
  | GB_SpacingMark | GB_L | GB_V | GB_T | GB_LV | GB_LVT | GB_Extended_Pictographic
  | GB_Extended_Pictographic_with_ZWJ | GB_InCB_Consonant | GB_InCB_Extend | GB_InCB_Linker

definition breakProperties :: "BreakProperty list" where
  "breakProperties = [GB_SOT, GB_Any, GB_CR, GB_LF, GB_Control, GB_Extend, GB_ZWJ, GB_Regional_Indicator, GB_Prepend,
     GB_SpacingMark, GB_L, GB_V, GB_T, GB_LV, GB_LVT, GB_Extended_Pictographic,
     GB_Extended_Pictographic_with_ZWJ, GB_InCB_Consonant, GB_InCB_Extend, GB_InCB_Linker]"

text \<open>The generated tables: the break properties, the properties of \<open>property.cpp\<close>, the bases of emoji
  variation sequences and the three width tables.\<close>

record grapheme_env =
  ge_tables :: ucp_tables
  ge_break_table :: "CodePointWithMeta list"
  ge_emoji_variation :: "int list"
  ge_zero_width :: CodePointSetRef
  ge_ambiguous_width :: CodePointSetRef
  ge_two_width :: CodePointSetRef

definition getBreakProperty :: "grapheme_env \<Rightarrow> int \<Rightarrow> BreakProperty" where
  "getBreakProperty env codePoint =
     (if codePoint < 0 then GB_Control
      else case find_meta (ge_break_table env) codePoint of
        Some m \<Rightarrow>
          (let p = breakProperties ! unat m in
           if p \<noteq> GB_Any then p
           else if hasPrimeLoneProperty (ge_tables env) codePoint Lone_InCB_Consonant then GB_InCB_Consonant
           else if isExtendedPictographic (ge_tables env) codePoint then GB_Extended_Pictographic
           else GB_Any)
      | None \<Rightarrow> GB_Any)"

definition getInCBExtendOrLinker :: "grapheme_env \<Rightarrow> int \<Rightarrow> BreakProperty" where
  "getInCBExtendOrLinker env codePoint =
     (if hasPrimeLoneProperty (ge_tables env) codePoint Lone_InCB_Extend then GB_InCB_Extend
      else if hasPrimeLoneProperty (ge_tables env) codePoint Lone_InCB_Linker then GB_InCB_Linker
      else GB_Any)"

section \<open>The boundary machine\<close>

record GraphemeBoundary =
  gb_codePoint :: int
  gb_state :: BreakProperty
  gb_emojiSeq :: bool

definition initial_boundary :: GraphemeBoundary where
  "initial_boundary = \<lparr>gb_codePoint = -1, gb_state = GB_SOT, gb_emojiSeq = False\<rparr>"

text \<open>The four \<open>switch\<close> statements of \<open>checkBoundary\<close>. The first decides at the start and at control
  characters.\<close>

definition check_control :: "BreakProperty \<Rightarrow> BreakProperty \<Rightarrow> bool option" where
  "check_control before after =
     (case before of
        GB_SOT \<Rightarrow> Some False
      | GB_CR \<Rightarrow> if after = GB_LF then Some False else Some True
      | GB_LF \<Rightarrow> Some True
      | GB_Control \<Rightarrow> Some True
      | _ \<Rightarrow> if after \<in> {GB_Control, GB_CR, GB_LF} then Some True else None)"

text \<open>The second: Hangul syllables and conjuncts; the new state when there is no boundary.\<close>

definition check_sequence :: "grapheme_env \<Rightarrow> BreakProperty \<Rightarrow> int \<Rightarrow> BreakProperty \<Rightarrow> int \<Rightarrow> BreakProperty option" where
  "check_sequence env before beforeCodePoint after nextCodePoint' =
     (case before of
        GB_L \<Rightarrow> if after \<in> {GB_L, GB_V, GB_LV, GB_LVT} then Some after else None
      | GB_LV \<Rightarrow> if after = GB_V \<or> after = GB_T then Some after else None
      | GB_V \<Rightarrow> if after = GB_V \<or> after = GB_T then Some after else None
      | GB_LVT \<Rightarrow> if after = GB_T then Some after else None
      | GB_T \<Rightarrow> if after = GB_T then Some after else None
      | _ \<Rightarrow>
          if before \<in> {GB_Extend, GB_Any, GB_InCB_Linker} \<and>
             (before = GB_InCB_Linker \<or> getInCBExtendOrLinker env beforeCodePoint = GB_InCB_Linker)
          then (if (after = GB_ZWJ \<or> after = GB_Extend) \<and> getInCBExtendOrLinker env nextCodePoint' = GB_InCB_Extend
                then Some GB_InCB_Linker
                else if after = GB_InCB_Consonant then Some after else None)
          else None)"

text \<open>The third: extending characters.\<close>

definition check_extend :: "BreakProperty \<Rightarrow> BreakProperty \<Rightarrow> bool" where
  "check_extend before after =
     ((after = GB_Extend \<or> after = GB_ZWJ) \<and> before \<noteq> GB_Extended_Pictographic \<or> after = GB_SpacingMark)"

text \<open>The fourth: what is left, with the new state and whether an emoji sequence was found.\<close>

definition check_rest :: "BreakProperty \<Rightarrow> BreakProperty \<Rightarrow> bool \<times> BreakProperty \<times> bool" where
  "check_rest before after =
     (case before of
        GB_Prepend \<Rightarrow> (False, after, False)
      | GB_Regional_Indicator \<Rightarrow>
          if after = GB_Regional_Indicator then (False, GB_Any, False) else (True, after, False)
      | GB_Extended_Pictographic \<Rightarrow>
          if after = GB_Extend then (False, GB_Extended_Pictographic, True)
          else if after = GB_ZWJ then (False, GB_Extended_Pictographic_with_ZWJ, True)
          else (True, after, False)
      | GB_Extended_Pictographic_with_ZWJ \<Rightarrow>
          if after = GB_Extended_Pictographic then (False, after, False) else (True, after, False)
      | _ \<Rightarrow> (True, after, False))"

definition checkBoundary :: "grapheme_env \<Rightarrow> GraphemeBoundary \<Rightarrow> int \<Rightarrow> bool \<times> GraphemeBoundary" where
  "checkBoundary env g nextCodePoint' =
     (let after = getBreakProperty env nextCodePoint';
          before = gb_state g;
          beforeCodePoint = gb_codePoint g;
          g1 = \<lparr>gb_codePoint = nextCodePoint', gb_state = after, gb_emojiSeq = False\<rparr> in
      case check_control before after of
        Some b \<Rightarrow> (b, g1)
      | None \<Rightarrow>
          (case check_sequence env before beforeCodePoint after nextCodePoint' of
             Some st \<Rightarrow> (False, g1\<lparr>gb_state := st\<rparr>)
           | None \<Rightarrow>
               if check_extend before after then (False, g1)
               else (let (b, st, emoji) = check_rest before after in
                     (b, g1\<lparr>gb_state := st, gb_emojiSeq := emoji\<rparr>))))"

section \<open>The cluster scanner\<close>

record GraphemeCluster =
  cluster_ref :: bytes
  cluster_invalid :: bool
  cluster_emojiSeq :: bool

text \<open>\<open>Utf8GraphemeScanner\<close>: \<open>charBegin\<close> is the rest of the text from that pointer on.\<close>

record Utf8GraphemeScanner =
  gs_boundary :: GraphemeBoundary
  gs_stream :: utf8_stream
  gs_charBegin :: bytes

definition newGraphemeScanner :: "bytes \<Rightarrow> bool \<Rightarrow> Utf8GraphemeScanner" where
  "newGraphemeScanner ref allowSurrogate =
     \<lparr>gs_boundary = initial_boundary, gs_stream = \<lparr>stream_rest = ref, stream_allowSurrogate = allowSurrogate\<rparr>,
      gs_charBegin = ref\<rparr>"

definition grapheme_hasNext :: "Utf8GraphemeScanner \<Rightarrow> bool" where
  "grapheme_hasNext sc \<longleftrightarrow> gs_charBegin sc \<noteq> []"

text \<open>\<open>GraphemeScanner::scanBoundary\<close>\<close>

definition grapheme_scanBoundary :: "grapheme_env \<Rightarrow> GraphemeBoundary \<Rightarrow> utf8_stream \<Rightarrow> bool \<times> GraphemeBoundary \<times> utf8_stream" where
  "grapheme_scanBoundary env g stream =
     (if stream_rest stream = [] then (True, g, stream)
      else (let (cp, stream') = nextCodePoint stream; (b, g') = checkBoundary env g cp in (b, g', stream')))"

lemma scanBoundary_shorter:
  "grapheme_scanBoundary env g stream = (False, g', stream') \<Longrightarrow> length (stream_rest stream') < length (stream_rest stream)"
  using nextCodePoint_shorter [of stream] by (auto simp: grapheme_scanBoundary_def split: if_splits prod.splits)

text \<open>The loop of \<open>next\<close>: the pointer \<open>end\<close>, the machine, the stream, and the two flags it leaves.\<close>

function grapheme_next_loop :: "grapheme_env \<Rightarrow> GraphemeBoundary \<Rightarrow> utf8_stream \<Rightarrow> bool \<Rightarrow> bool
    \<Rightarrow> bytes \<times> GraphemeBoundary \<times> utf8_stream \<times> bool \<times> bool" where
  "grapheme_next_loop env g stream invalid emojiSeq =
     (let emojiSeq' = (emojiSeq \<or> gb_emojiSeq g) in
      case grapheme_scanBoundary env g stream of
        (True, g', stream') \<Rightarrow> (stream_rest stream, g', stream', invalid, emojiSeq')
      | (False, g', stream') \<Rightarrow>
          grapheme_next_loop env g' stream' (invalid \<or> gb_codePoint g' < 0) emojiSeq')"
  by pat_completeness auto
termination
  by (relation "measure (\<lambda>(env, g, stream, invalid, emojiSeq). length (stream_rest stream))")
    (auto dest: scanBoundary_shorter [OF sym])

declare grapheme_next_loop.simps [simp del]

definition grapheme_next :: "grapheme_env \<Rightarrow> Utf8GraphemeScanner \<Rightarrow> GraphemeCluster \<times> Utf8GraphemeScanner" where
  "grapheme_next env sc =
     (let invalid = (gb_state (gs_boundary sc) \<noteq> GB_SOT \<and> grapheme_hasNext sc \<and> gb_codePoint (gs_boundary sc) < 0);
          (end_rest, g, stream, invalid', emojiSeq) = grapheme_next_loop env (gs_boundary sc) (gs_stream sc) invalid False;
          ref = take (length (gs_charBegin sc) - length end_rest) (gs_charBegin sc)
      in (\<lparr>cluster_ref = ref, cluster_invalid = invalid', cluster_emojiSeq = emojiSeq\<rparr>,
          \<lparr>gs_boundary = g, gs_stream = stream, gs_charBegin = end_rest\<rparr>))"

text \<open>The loop of \<open>iterateGraphemeUntil\<close>; \<open>limit\<close> counts down.\<close>

primrec iterateGrapheme_loop :: "nat \<Rightarrow> grapheme_env \<Rightarrow> (GraphemeCluster \<Rightarrow> 's \<Rightarrow> bool \<times> 's) \<Rightarrow> Utf8GraphemeScanner \<Rightarrow> 's
    \<Rightarrow> nat \<times> 's" where
  "iterateGrapheme_loop 0 env consumer sc st = (0, st)"
| "iterateGrapheme_loop (Suc n) env consumer sc st =
     (if \<not> grapheme_hasNext sc then (0, st)
      else (let (ret, sc') = grapheme_next env sc in
            case consumer ret st of
              (False, st') \<Rightarrow> (1, st')
            | (True, st') \<Rightarrow> (let (count, st'') = iterateGrapheme_loop n env consumer sc' st' in (Suc count, st''))))"

definition iterateGraphemeUntil :: "grapheme_env \<Rightarrow> bytes \<Rightarrow> nat \<Rightarrow> bool \<Rightarrow> (GraphemeCluster \<Rightarrow> 's \<Rightarrow> bool \<times> 's) \<Rightarrow> 's
    \<Rightarrow> nat \<times> 's" where
  "iterateGraphemeUntil env ref limit allowSurrogate consumer st =
     iterateGrapheme_loop limit env consumer (newGraphemeScanner ref allowSurrogate) st"

definition iterateGrapheme :: "grapheme_env \<Rightarrow> bytes \<Rightarrow> (GraphemeCluster \<Rightarrow> 's \<Rightarrow> bool \<times> 's) \<Rightarrow> 's \<Rightarrow> nat \<times> 's" where
  "iterateGrapheme env ref consumer st = iterateGraphemeUntil env ref (2 ^ 64 - 1) False consumer st"

text \<open>\<open>fuzzyFind\<close>: the state of the consumer is \<open>pos\<close> and \<open>matched\<close>.\<close>

definition fuzzyFind :: "grapheme_env \<Rightarrow> bytes \<Rightarrow> bytes \<Rightarrow> bool" where
  "fuzzyFind env haystack needle =
     snd (snd (iterateGrapheme env needle
       (\<lambda>g (pos, matched). case find_from haystack pos (cluster_ref g) of
           None \<Rightarrow> (False, (pos, False))
         | Some ret \<Rightarrow> (True, (ret + length (cluster_ref g), matched))) (0, True)))"

section \<open>Width\<close>

datatype CharWidthPropertyCheck = EAW | RGI | EMOJI_FLAG_SEQ | EMOJI_ZWJ_SEQ

record CharWidthProperties =
  cw_eaw :: AmbiguousCharWidth
  cw_reginalIndicatorWidth :: byte
  cw_flagSeqWidth :: byte
  cw_zwjSeqFallback :: bool
  cw_replaceInvalid :: bool

fun setProperty :: "CharWidthPropertyCheck \<Rightarrow> nat \<Rightarrow> CharWidthProperties \<Rightarrow> CharWidthProperties" where
  "setProperty RGI len ps = ps\<lparr>cw_reginalIndicatorWidth := of_nat len\<rparr>"
| "setProperty EAW len ps = ps\<lparr>cw_eaw := (if len = 2 then FULL else HALF)\<rparr>"
| "setProperty EMOJI_FLAG_SEQ len ps = ps\<lparr>cw_flagSeqWidth := of_nat len\<rparr>"
| "setProperty EMOJI_ZWJ_SEQ len ps = ps\<lparr>cw_zwjSeqFallback := (len > 2)\<rparr>"

definition isRegionalIndicator :: "int \<Rightarrow> bool" where
  "isRegionalIndicator codePoint \<longleftrightarrow> codePoint \<ge> 0x1F1E6 \<and> codePoint \<le> 0x1F1E6 + 25"

definition isEmojiVariationSeqBase :: "grapheme_env \<Rightarrow> int \<Rightarrow> bool" where
  "isEmojiVariationSeqBase env codePoint = binary_search (<) (<) (ge_emoji_variation env) codePoint"

definition REPLACEMENT_CHAR_CODE :: int where
  "REPLACEMENT_CHAR_CODE = 0xFFFD"

text \<open>One round of the loop of \<open>getGraphemeWidth\<close>: \<open>width\<close>, \<open>prevCodePoint\<close> and \<open>prevWidth\<close>.\<close>

definition width_step :: "grapheme_env \<Rightarrow> CharWidthProperties \<Rightarrow> int \<Rightarrow> u32 \<times> int \<times> byte \<Rightarrow> u32 \<times> int \<times> byte" where
  "width_step env ps cp acc =
     (case acc of (w, prevCodePoint, prevWidth) \<Rightarrow>
      let by_table = (\<lambda>codePoint. let n = width (ge_zero_width env) (ge_ambiguous_width env) (ge_two_width env) codePoint (cw_eaw ps) in
            if n > 0 then (w + word_of_int n, codePoint, word_of_int n) else (w, codePoint, 0)) in
      if cw_replaceInvalid ps \<and> cp < 0 then by_table REPLACEMENT_CHAR_CODE
      else if isRegionalIndicator cp then
        (if isRegionalIndicator prevCodePoint
         then (w - ucast prevWidth + ucast (cw_flagSeqWidth ps), cp, cw_flagSeqWidth ps)
         else if cw_reginalIndicatorWidth ps \<noteq> 0
         then (w + ucast (cw_reginalIndicatorWidth ps), cp, cw_reginalIndicatorWidth ps)
         else by_table cp)
      else if cp = 0xFE0F \<and> isEmojiVariationSeqBase env prevCodePoint then (w - ucast prevWidth + 2, cp, 2)
      else by_table cp)"

definition getGraphemeWidth :: "grapheme_env \<Rightarrow> CharWidthProperties \<Rightarrow> GraphemeCluster \<Rightarrow> u32" where
  "getGraphemeWidth env ps ret =
     (let (w, _, _) = foldl (\<lambda>acc cp. width_step env ps cp acc) (0, 0, 0)
            (stream_codePoints \<lparr>stream_rest = cluster_ref ret, stream_allowSurrogate = False\<rparr>)
      in if cluster_emojiSeq ret \<and> w > 2 then (if cw_zwjSeqFallback ps then w else 2) else w)"

section \<open>The rules\<close>

text \<open>The grapheme cluster boundary rules GB1 to GB999 of UAX 29 over the properties of the code points;
  the text before is read backwards. \<open>linked\<close> is the left context of GB9c (a conjunct linker and
  extending characters), \<open>picto_ext\<close> and \<open>picto_zwj\<close> that of GB11, \<open>ri_count\<close> that of GB12 and GB13.\<close>

abbreviation bp :: "grapheme_env \<Rightarrow> int \<Rightarrow> BreakProperty" where
  "bp \<equiv> getBreakProperty"

abbreviation incb :: "grapheme_env \<Rightarrow> int \<Rightarrow> BreakProperty" where
  "incb \<equiv> getInCBExtendOrLinker"

fun linked :: "grapheme_env \<Rightarrow> int list \<Rightarrow> bool" where
  "linked env [] = False"
| "linked env (c # h) = (incb env c = GB_InCB_Linker \<or> incb env c = GB_InCB_Extend \<and> linked env h)"

fun picto_ext :: "grapheme_env \<Rightarrow> int list \<Rightarrow> bool" where
  "picto_ext env [] = False"
| "picto_ext env (c # h) = (bp env c = GB_Extended_Pictographic \<or> bp env c = GB_Extend \<and> picto_ext env h)"

fun picto_zwj :: "grapheme_env \<Rightarrow> int list \<Rightarrow> bool" where
  "picto_zwj env [] = False"
| "picto_zwj env (c # h) = (bp env c = GB_ZWJ \<and> picto_ext env h)"

definition ri_count :: "grapheme_env \<Rightarrow> int list \<Rightarrow> nat" where
  "ri_count env h = length (takeWhile (\<lambda>c. bp env c = GB_Regional_Indicator) h)"

text \<open>The rules with the left context of GB9c as an argument.\<close>

definition gb_rules_with :: "(int list \<Rightarrow> bool) \<Rightarrow> grapheme_env \<Rightarrow> break_rule" where
  "gb_rules_with conjunct env h c after =
     (let b = bp env (hd h); a = bp env c in
      if b = GB_CR \<and> a = GB_LF then False
      else if b \<in> {GB_Control, GB_CR, GB_LF} \<or> a \<in> {GB_Control, GB_CR, GB_LF} then True
      else \<not> (b = GB_L \<and> a \<in> {GB_L, GB_V, GB_LV, GB_LVT} \<or> b \<in> {GB_LV, GB_V} \<and> a \<in> {GB_V, GB_T}
        \<or> b \<in> {GB_LVT, GB_T} \<and> a = GB_T \<or> a \<in> {GB_Extend, GB_ZWJ} \<or> a = GB_SpacingMark \<or> b = GB_Prepend
        \<or> conjunct h \<and> a = GB_InCB_Consonant \<or> picto_zwj env h \<and> a = GB_Extended_Pictographic
        \<or> odd (ri_count env h) \<and> a = GB_Regional_Indicator))"

definition gb_rules :: "grapheme_env \<Rightarrow> break_rule" where
  "gb_rules env = gb_rules_with (linked env) env"

text \<open>What the generated data promise: the table starts at zero, is sorted and holds proper properties;
  linkers are \<open>Extend\<close> or \<open>Any\<close>, extending conjunct characters \<open>Extend\<close> or \<open>ZWJ\<close>.\<close>

definition grapheme_data_ok :: "grapheme_env \<Rightarrow> bool" where
  "grapheme_data_ok env \<longleftrightarrow>
     (\<forall>e\<in>set (ge_break_table env). 1 \<le> unat (getMeta e) \<and> unat (getMeta e) < 15) \<and>
     table_sorted (ge_break_table env) \<and> (\<forall>t ts. ge_break_table env = t # ts \<longrightarrow> metaCodePoint t = 0) \<and>
     (\<forall>c. incb env c = GB_InCB_Linker \<longrightarrow> bp env c \<in> {GB_Extend, GB_Any}) \<and>
     (\<forall>c. incb env c = GB_InCB_Extend \<longrightarrow> bp env c \<in> {GB_Extend, GB_ZWJ})"

text \<open>The machine does not see a linker inside \<open>Extended_Pictographic Extend*\<close>.\<close>

fun linked_seen :: "grapheme_env \<Rightarrow> int list \<Rightarrow> bool" where
  "linked_seen env [] = False"
| "linked_seen env (c # h) = (incb env c = GB_InCB_Linker \<and> \<not> picto_ext env (c # h)
     \<or> incb env c = GB_InCB_Extend \<and> linked_seen env h)"

definition expected_state :: "grapheme_env \<Rightarrow> int list \<Rightarrow> BreakProperty" where
  "expected_state env h =
     (if h = [] then GB_SOT
      else if picto_ext env h then GB_Extended_Pictographic
      else if picto_zwj env h then GB_Extended_Pictographic_with_ZWJ
      else if incb env (hd h) = GB_InCB_Extend \<and> linked_seen env h then GB_InCB_Linker
      else if bp env (hd h) = GB_Regional_Indicator \<and> even (ri_count env h) then GB_Any
      else bp env (hd h))"

definition grapheme_rel :: "grapheme_env \<Rightarrow> int list \<Rightarrow> GraphemeBoundary \<Rightarrow> bool" where
  "grapheme_rel env h g \<longleftrightarrow> grapheme_data_ok env \<and> gb_state g = expected_state env h \<and>
     (h \<noteq> [] \<longrightarrow> gb_codePoint g = hd h)"

lemma bp_proper:
  assumes "grapheme_data_ok env"
  shows "bp env c \<notin> {GB_SOT, GB_Extended_Pictographic_with_ZWJ, GB_InCB_Extend, GB_InCB_Linker}"
proof (cases "c < 0 \<or> find_meta (ge_break_table env) c = None")
  case False
  then obtain m where m: "find_meta (ge_break_table env) c = Some m" by blast
  then obtain e where e: "e \<in> set (ge_break_table env)" "m = getMeta e"
    using find_meta_in [of "ge_break_table env" c m] assms False by (auto simp: grapheme_data_ok_def)
  have "\<forall>n\<in>set [1..<15]. breakProperties ! n \<notin> {GB_SOT, GB_Extended_Pictographic_with_ZWJ, GB_InCB_Extend, GB_InCB_Linker}"
    by code_simp
  then have "breakProperties ! n \<notin> {GB_SOT, GB_Extended_Pictographic_with_ZWJ, GB_InCB_Extend, GB_InCB_Linker}"
    if "1 \<le> n" "n < 15" for n using that by (metis atLeastLessThan_iff set_upt)
  moreover have "1 \<le> unat m" "unat m < 15" using assms e by (auto simp: grapheme_data_ok_def)
  ultimately show ?thesis using False m by (auto simp: getBreakProperty_def Let_def)
qed (auto simp: getBreakProperty_def)

lemma data_okD:
  assumes "grapheme_data_ok env"
  shows "incb env c = GB_InCB_Linker \<Longrightarrow> bp env c = GB_Extend \<or> bp env c = GB_Any"
    "incb env c = GB_InCB_Extend \<Longrightarrow> bp env c = GB_Extend \<or> bp env c = GB_ZWJ"
    "incb env c \<in> {GB_InCB_Linker, GB_InCB_Extend, GB_Any}"
  using assms by (auto simp: grapheme_data_ok_def getInCBExtendOrLinker_def)

section \<open>The machine follows the rules\<close>

lemma linked_not_picto: "grapheme_data_ok env \<Longrightarrow> linked_seen env h \<Longrightarrow> \<not> picto_ext env h"
proof (induction h)
  case (Cons c h)
  then show ?case using data_okD [OF Cons.prems(1), of c] by auto
qed simp

lemma ri_count_Cons [simp]:
  "ri_count env (c # h) = (if bp env c = GB_Regional_Indicator then Suc (ri_count env h) else 0)"
  by (simp add: ri_count_def)

text \<open>The four statements together, as one decision and one transition.\<close>

definition conjoined :: "grapheme_env \<Rightarrow> GraphemeBoundary \<Rightarrow> bool" where
  "conjoined env g \<longleftrightarrow> gb_state g = GB_InCB_Linker \<or>
     gb_state g \<in> {GB_Extend, GB_Any} \<and> incb env (gb_codePoint g) = GB_InCB_Linker"

lemma check_decision:
  assumes "gb_state g \<noteq> GB_SOT"
  shows "fst (checkBoundary env g c) =
    (let s = gb_state g; a = bp env c in
     if s = GB_CR \<and> a = GB_LF then False
     else if s \<in> {GB_Control, GB_CR, GB_LF} \<or> a \<in> {GB_Control, GB_CR, GB_LF} then True
     else \<not> (s = GB_L \<and> a \<in> {GB_L, GB_V, GB_LV, GB_LVT} \<or> s \<in> {GB_LV, GB_V} \<and> a \<in> {GB_V, GB_T}
       \<or> s \<in> {GB_LVT, GB_T} \<and> a = GB_T \<or> a \<in> {GB_Extend, GB_ZWJ} \<or> a = GB_SpacingMark \<or> s = GB_Prepend
       \<or> conjoined env g \<and> a = GB_InCB_Consonant \<or> s = GB_Extended_Pictographic_with_ZWJ \<and> a = GB_Extended_Pictographic
       \<or> s = GB_Regional_Indicator \<and> a = GB_Regional_Indicator))"
  using assms unfolding checkBoundary_def check_control_def check_sequence_def check_extend_def check_rest_def
    conjoined_def Let_def
  by (cases "gb_state g"; cases "bp env c"; simp)

lemma check_transition:
  assumes "gb_state g \<noteq> GB_SOT"
  shows "gb_state (snd (checkBoundary env g c)) =
    (let s = gb_state g; a = bp env c in
     if conjoined env g \<and> a \<in> {GB_ZWJ, GB_Extend} \<and> incb env c = GB_InCB_Extend then GB_InCB_Linker
     else if s = GB_Regional_Indicator \<and> a = GB_Regional_Indicator then GB_Any
     else if s = GB_Extended_Pictographic \<and> a = GB_Extend then GB_Extended_Pictographic
     else if s = GB_Extended_Pictographic \<and> a = GB_ZWJ then GB_Extended_Pictographic_with_ZWJ
     else a)"
  using assms unfolding checkBoundary_def check_control_def check_sequence_def check_extend_def check_rest_def
    conjoined_def Let_def
  by (cases "gb_state g"; cases "bp env c"; simp)

lemma expected_plain:
  assumes "grapheme_data_ok env" "X \<in> {GB_Control, GB_CR, GB_LF, GB_L, GB_V, GB_T, GB_LV, GB_LVT, GB_Prepend}"
  shows "expected_state env (p # t) = X \<longleftrightarrow> bp env p = X"
  using assms(2) data_okD(2) [OF assms(1), of p] by (auto simp: expected_state_def)

lemma expected_special:
  assumes "grapheme_data_ok env"
  shows "expected_state env (p # t) = GB_Extended_Pictographic_with_ZWJ \<longleftrightarrow> picto_zwj env (p # t)"
    and "expected_state env (p # t) = GB_Extended_Pictographic \<longleftrightarrow> picto_ext env (p # t)"
    and "expected_state env (p # t) = GB_Regional_Indicator \<longleftrightarrow> odd (ri_count env (p # t))"
    and "expected_state env (p # t) \<noteq> GB_SOT"
  using bp_proper [OF assms, of p] data_okD [OF assms, of p] by (auto simp: expected_state_def)

lemma linked_not_zwj: "grapheme_data_ok env \<Longrightarrow> linked_seen env h \<Longrightarrow> \<not> picto_zwj env h"
  using data_okD [of env "hd h"] linked_not_picto [of env "tl h"] by (cases h) auto

lemma conjoined_iff:
  assumes "grapheme_rel env (p # t) g"
  shows "conjoined env g \<longleftrightarrow> linked_seen env (p # t)"
proof -
  have ok: "grapheme_data_ok env" and g: "gb_state g = expected_state env (p # t)" "gb_codePoint g = p"
    using assms by (auto simp: grapheme_rel_def)
  show ?thesis
  proof (cases "picto_ext env (p # t) \<or> picto_zwj env (p # t)")
    case True
    then have "\<not> linked_seen env (p # t)" using linked_not_picto [OF ok] linked_not_zwj [OF ok] by blast
    with True g show ?thesis by (auto simp: conjoined_def expected_state_def)
  next
    case False
    then have s: "gb_state g = (if incb env p = GB_InCB_Extend \<and> linked_seen env (p # t) then GB_InCB_Linker
        else if bp env p = GB_Regional_Indicator \<and> even (ri_count env (p # t)) then GB_Any else bp env p)"
      using g by (simp add: expected_state_def del: picto_ext.simps picto_zwj.simps linked_seen.simps ri_count_Cons)
    have np: "\<not> picto_ext env (p # t)" using False by blast
    consider "incb env p = GB_InCB_Linker" | "incb env p = GB_InCB_Extend" | "incb env p = GB_Any"
      using data_okD(3) [OF ok, of p] by auto
    then show ?thesis
    proof cases
      case 1
      with s np data_okD(1) [OF ok 1] g(2) show ?thesis by (auto simp: conjoined_def)
    next
      case 2
      with s np data_okD(2) [OF ok 2] g(2) show ?thesis by (auto simp: conjoined_def)
    next
      case 3
      with s g(2) bp_proper [OF ok, of p] show ?thesis by (auto simp: conjoined_def)
    qed
  qed
qed

lemma grapheme_decide:
  assumes "grapheme_rel env (p # t) g"
  shows "fst (checkBoundary env g c) = gb_rules_with (linked_seen env) env (p # t) c after"
proof -
  have ok: "grapheme_data_ok env" and g: "gb_state g = expected_state env (p # t)"
    using assms by (auto simp: grapheme_rel_def)
  have n: "gb_state g \<noteq> GB_SOT" using expected_special(4) [OF ok] g by simp
  show ?thesis
    unfolding check_decision [OF n] gb_rules_with_def conjoined_iff [OF assms] g Let_def list.sel insert_iff empty_iff
      expected_special [OF ok]
    by (simp only: expected_plain [OF ok] insert_iff simp_thms)
qed

lemma grapheme_step:
  assumes "grapheme_rel env h g"
  shows "grapheme_rel env (c # h) (snd (checkBoundary env g c))"
proof -
  have ok: "grapheme_data_ok env" and g: "gb_state g = expected_state env h" using assms by (auto simp: grapheme_rel_def)
  have cp: "gb_codePoint (snd (checkBoundary env g c)) = c"
    by (simp add: checkBoundary_def Let_def split: option.split prod.split)
  have "gb_state (snd (checkBoundary env g c)) = expected_state env (c # h)"
  proof (cases h)
    case Nil
    then have "gb_state g = GB_SOT" using g by (simp add: expected_state_def)
    with Nil data_okD [OF ok, of c] show ?thesis
      by (auto simp: checkBoundary_def check_control_def expected_state_def ri_count_def)
  next
    case (Cons p t)
    have n: "gb_state g \<noteq> GB_SOT" using expected_special(4) [OF ok] g Cons by simp
    show ?thesis
      unfolding check_transition [OF n] conjoined_iff [OF assms [unfolded Cons]] g Let_def Cons expected_special [OF ok]
      using data_okD [OF ok, of c] linked_not_picto [OF ok, of "p # t"]
      unfolding expected_state_def [of env "c # p # t"]
      by auto
  qed
  with ok cp show ?thesis by (simp add: grapheme_rel_def)
qed

interpretation grapheme: segmenter "\<lambda>g c after. checkBoundary env g c" "\<lambda>h rest. grapheme_rel env h"
  "gb_rules_with (linked_seen env) env" for env
proof unfold_locales
  show "\<not> fst (checkBoundary env g c)" if "grapheme_rel env [] g" for g c
    using that by (simp add: grapheme_rel_def expected_state_def checkBoundary_def check_control_def)
  show "grapheme_rel env (c # h) (snd (checkBoundary env g c))" if "grapheme_rel env h g" for h g c
    by (rule grapheme_step [OF that])
  show "fst (checkBoundary env g c) = gb_rules_with (linked_seen env) env h c after"
    if "grapheme_rel env h g" "h \<noteq> []" for h g c after
    using that grapheme_decide by (cases h) auto
qed

end
