(* ===== verification/Grapheme_Scanner.thy ===== *)
theory Grapheme_Scanner
  imports Grapheme
begin

text \<open>
  The clusters \<open>iterateGraphemeUntil\<close> hands to its consumer are the segments of the text between the
  boundaries of the rules of UAX 29.
\<close>

section \<open>One cluster\<close>









section \<open>All clusters\<close>






section \<open>The rules of the standard\<close>

















end
