(* ===== verification/Word_Break.thy ===== *)
theory Word_Break
  imports Text_Scanner
begin

text \<open>
  \<open>unicode/word.h\<close> and \<open>unicode/word.cpp\<close>: word boundaries as a state machine over code points with
  a look-ahead in the stream, and the scanner that cuts a UTF-8 string into words.
\<close>

section \<open>Break properties\<close>

datatype WordBreakProperty =
    WB_SOT | WB_EOT | WB_Any | WB_CR | WB_LF | WB_Newline | WB_Extend | WB_ZWJ | WB_Regional_Indicator | WB_Format
  | WB_Katakana | WB_Hebrew_Letter | WB_ALetter | WB_Single_Quote | WB_Double_Quote | WB_MidNumLet | WB_MidLetter
  | WB_MidNum | WB_Numeric | WB_ExtendNumLet | WB_WSegSpace
  | WB_WSegSpace_EFZ | WB_AHLetter_Mid_NumLetQ | WB_Hebrew_Letter_DQ | WB_Numeric_Mid_NumLetQ

definition wordBreakProperties :: "WordBreakProperty list" where
  "wordBreakProperties = [WB_SOT, WB_EOT, WB_Any, WB_CR, WB_LF, WB_Newline, WB_Extend, WB_ZWJ, WB_Regional_Indicator, WB_Format,
     WB_Katakana, WB_Hebrew_Letter, WB_ALetter, WB_Single_Quote, WB_Double_Quote, WB_MidNumLet, WB_MidLetter,
     WB_MidNum, WB_Numeric, WB_ExtendNumLet, WB_WSegSpace,
     WB_WSegSpace_EFZ, WB_AHLetter_Mid_NumLetQ, WB_Hebrew_Letter_DQ, WB_Numeric_Mid_NumLetQ]"

record word_env =
  we_tables :: ucp_tables
  we_break_table :: "CodePointWithMeta list"

definition getWordBreakProperty :: "word_env \<Rightarrow> int \<Rightarrow> WordBreakProperty" where
  "getWordBreakProperty env codePoint =
     (if codePoint < 0 then WB_Newline
      else case find_meta (we_break_table env) codePoint of
        Some m \<Rightarrow>
          (let p = wordBreakProperties ! unat m in
           if p \<noteq> WB_Any then p
           else if hasPrimeLoneProperty (we_tables env) codePoint Lone_MidLetter then WB_MidLetter
           else if hasPrimeLoneProperty (we_tables env) codePoint Lone_MidNumLet then WB_MidNumLet
           else if hasPrimeLoneProperty (we_tables env) codePoint Lone_Single_Quote then WB_Single_Quote
           else WB_Any)
      | None \<Rightarrow> WB_Any)"

section \<open>The boundary machine\<close>

record WordScanner =
  ws_state :: WordBreakProperty
  ws_zwj :: bool

definition initial_word :: WordScanner where
  "initial_word = \<lparr>ws_state = WB_SOT, ws_zwj = False\<rparr>"

text \<open>\<open>lookahead\<close>: the property of the next code point that is not \<open>Extend\<close>, \<open>Format\<close> or \<open>ZWJ\<close>, of the last
  one when there are only such, \<open>EOT\<close> at the end. The stream is restored, so the function reads the
  code points to come.\<close>

fun lookahead_from :: "word_env \<Rightarrow> WordBreakProperty \<Rightarrow> int list \<Rightarrow> WordBreakProperty" where
  "lookahead_from env p [] = p"
| "lookahead_from env p (c # cs) =
     (let p' = getWordBreakProperty env c in
      if p' \<in> {WB_Extend, WB_Format, WB_ZWJ} then lookahead_from env p' cs else p')"

definition lookahead :: "word_env \<Rightarrow> int list \<Rightarrow> WordBreakProperty" where
  "lookahead env cs = lookahead_from env WB_EOT cs"

text \<open>The statements of \<open>scanBoundary\<close>. The first decides at the start, at line ends and at ignored
  characters: the answer and the new state.\<close>

definition word_start :: "WordBreakProperty \<Rightarrow> WordBreakProperty \<Rightarrow> (bool \<times> WordBreakProperty) option" where
  "word_start before after =
     (case before of
        WB_SOT \<Rightarrow> Some (False, after)
      | WB_CR \<Rightarrow> if after = WB_LF then Some (False, after) else Some (True, after)
      | WB_Newline \<Rightarrow> Some (True, after)
      | WB_LF \<Rightarrow> Some (True, after)
      | _ \<Rightarrow>
          if after \<in> {WB_Newline, WB_CR, WB_LF} then Some (True, after)
          else if after \<in> {WB_Extend, WB_Format, WB_ZWJ}
          then (if before = WB_WSegSpace then Some (False, WB_WSegSpace_EFZ) else Some (False, before))
          else None)"

text \<open>The next three return \<open>None\<close> where the code returns false, and otherwise \<open>requiredProperty\<close>.\<close>

definition word_letter :: "WordBreakProperty \<Rightarrow> WordBreakProperty \<Rightarrow> WordBreakProperty option" where
  "word_letter before after =
     (case before of
        WB_WSegSpace \<Rightarrow> if after = WB_WSegSpace then None else Some WB_SOT
      | WB_AHLetter_Mid_NumLetQ \<Rightarrow> if after = WB_ALetter \<or> after = WB_Hebrew_Letter then None else Some WB_SOT
      | _ \<Rightarrow>
          if before = WB_ALetter \<or> before = WB_Hebrew_Letter
          then (if after = WB_ALetter \<or> after = WB_Hebrew_Letter then None
                else if after \<in> {WB_MidLetter, WB_MidNumLet, WB_Single_Quote} then Some WB_AHLetter_Mid_NumLetQ
                else Some WB_SOT)
          else Some WB_SOT)"

definition word_hebrew :: "WordBreakProperty \<Rightarrow> WordBreakProperty \<Rightarrow> WordBreakProperty \<Rightarrow> WordBreakProperty option" where
  "word_hebrew before after requiredProperty =
     (if before = WB_Hebrew_Letter
      then (if after = WB_Single_Quote then None
            else if after = WB_Double_Quote then Some WB_Hebrew_Letter_DQ else Some requiredProperty)
      else if before = WB_Hebrew_Letter_DQ \<and> after = WB_Hebrew_Letter then None
      else Some requiredProperty)"

definition word_numeric :: "WordBreakProperty \<Rightarrow> WordBreakProperty \<Rightarrow> WordBreakProperty \<Rightarrow> WordBreakProperty option" where
  "word_numeric before after requiredProperty =
     (if before \<in> {WB_Numeric, WB_ALetter, WB_Hebrew_Letter} \<and> after = WB_Numeric then None
      else case before of
        WB_Numeric \<Rightarrow>
          if after = WB_ALetter \<or> after = WB_Hebrew_Letter then None
          else if after \<in> {WB_MidNum, WB_MidNumLet, WB_Single_Quote} then Some WB_Numeric_Mid_NumLetQ
          else Some requiredProperty
      | WB_Numeric_Mid_NumLetQ \<Rightarrow> if after = WB_Numeric then None else Some requiredProperty
      | WB_Katakana \<Rightarrow> if after = WB_Katakana then None else Some requiredProperty
      | _ \<Rightarrow> Some requiredProperty)"

definition word_required :: "WordBreakProperty \<Rightarrow> WordBreakProperty \<Rightarrow> bool" where
  "word_required requiredProperty nxt =
     (requiredProperty = WB_Numeric_Mid_NumLetQ \<and> nxt = WB_Numeric
      \<or> requiredProperty = WB_Hebrew_Letter_DQ \<and> nxt = WB_Hebrew_Letter
      \<or> requiredProperty = WB_AHLetter_Mid_NumLetQ \<and> (nxt = WB_ALetter \<or> nxt = WB_Hebrew_Letter))"

text \<open>The last statement: the answer and the new state.\<close>

definition word_rest :: "WordBreakProperty \<Rightarrow> WordBreakProperty \<Rightarrow> bool \<times> WordBreakProperty" where
  "word_rest before after =
     (case before of
        WB_ExtendNumLet \<Rightarrow>
          (after \<notin> {WB_ExtendNumLet, WB_ALetter, WB_Hebrew_Letter, WB_Numeric, WB_Katakana}, after)
      | WB_Regional_Indicator \<Rightarrow>
          if after = WB_Regional_Indicator then (False, WB_Any) else (True, after)
      | _ \<Rightarrow>
          if before \<in> {WB_ALetter, WB_Hebrew_Letter, WB_Numeric, WB_Katakana} \<and> after = WB_ExtendNumLet
          then (False, after) else (True, after))"

text \<open>The statements after the first, with the property \<open>nxt\<close> the look-ahead finds: the answer and the
  new state.\<close>

definition word_middle :: "WordBreakProperty \<Rightarrow> WordBreakProperty \<Rightarrow> WordBreakProperty \<Rightarrow> bool \<times> WordBreakProperty" where
  "word_middle before after nxt =
     (case word_letter before after of
        None \<Rightarrow> (False, after)
      | Some r1 \<Rightarrow>
          (case word_hebrew before after r1 of
             None \<Rightarrow> (False, after)
           | Some r2 \<Rightarrow>
               (case word_numeric before after r2 of
                  None \<Rightarrow> (False, after)
                | Some r3 \<Rightarrow>
                    if r3 \<noteq> WB_SOT \<and> word_required r3 nxt then (False, r3) else word_rest before after)))"

text \<open>\<open>scanBoundary\<close> on a stream that is not empty: \<open>codePoint\<close> is the code point it reads, \<open>rest\<close> those that
  follow.\<close>

definition word_check :: "word_env \<Rightarrow> WordScanner \<Rightarrow> int \<Rightarrow> int list \<Rightarrow> bool \<times> WordScanner" where
  "word_check env ws codePoint rest =
     (let after = getWordBreakProperty env codePoint;
          before = ws_state ws;
          prevZWJ = ws_zwj ws;
          (b, st) =
            (if prevZWJ \<and> isExtendedPictographic (we_tables env) codePoint then (False, after)
             else case word_start before after of
               Some r \<Rightarrow> r
             | None \<Rightarrow> word_middle before after (lookahead env rest))
      in (b, \<lparr>ws_state = st, ws_zwj = (after = WB_ZWJ)\<rparr>))"

section \<open>The word scanner\<close>

record Utf8WordScanner =
  wsc_scanner :: WordScanner
  wsc_stream :: utf8_stream
  wsc_wordBegin :: bytes

definition newWordScanner :: "bytes \<Rightarrow> Utf8WordScanner" where
  "newWordScanner ref = \<lparr>wsc_scanner = initial_word,
     wsc_stream = \<lparr>stream_rest = ref, stream_allowSurrogate = False\<rparr>, wsc_wordBegin = ref\<rparr>"

definition word_hasNext :: "Utf8WordScanner \<Rightarrow> bool" where
  "word_hasNext sc \<longleftrightarrow> wsc_wordBegin sc \<noteq> []"

definition word_scanBoundary :: "word_env \<Rightarrow> WordScanner \<Rightarrow> utf8_stream \<Rightarrow> bool \<times> WordScanner \<times> utf8_stream" where
  "word_scanBoundary env ws stream =
     (if stream_rest stream = [] then (True, ws, stream)
      else (let (cp, stream') = nextCodePoint stream; (b, ws') = word_check env ws cp (stream_codePoints stream')
            in (b, ws', stream')))"

lemma word_scanBoundary_shorter:
  "word_scanBoundary env ws stream = (False, ws', stream') \<Longrightarrow> length (stream_rest stream') < length (stream_rest stream)"
  using nextCodePoint_shorter [of stream] by (auto simp: word_scanBoundary_def split: if_splits prod.splits)

function word_next_loop :: "word_env \<Rightarrow> WordScanner \<Rightarrow> utf8_stream \<Rightarrow> bytes \<times> WordScanner \<times> utf8_stream" where
  "word_next_loop env ws stream =
     (case word_scanBoundary env ws stream of
        (True, ws', stream') \<Rightarrow> (stream_rest stream, ws', stream')
      | (False, ws', stream') \<Rightarrow> word_next_loop env ws' stream')"
  by pat_completeness auto
termination
  by (relation "measure (\<lambda>(env, ws, stream). length (stream_rest stream))")
    (auto dest: word_scanBoundary_shorter [OF sym])

declare word_next_loop.simps [simp del]

definition word_next :: "word_env \<Rightarrow> Utf8WordScanner \<Rightarrow> bytes \<times> Utf8WordScanner" where
  "word_next env sc =
     (let (end_rest, ws, stream) = word_next_loop env (wsc_scanner sc) (wsc_stream sc) in
      (take (length (wsc_wordBegin sc) - length end_rest) (wsc_wordBegin sc),
       \<lparr>wsc_scanner = ws, wsc_stream = stream, wsc_wordBegin = end_rest\<rparr>))"

primrec iterateWord_loop :: "nat \<Rightarrow> word_env \<Rightarrow> (bytes \<Rightarrow> 's \<Rightarrow> bool \<times> 's) \<Rightarrow> Utf8WordScanner \<Rightarrow> 's \<Rightarrow> nat \<times> 's" where
  "iterateWord_loop 0 env consumer sc st = (0, st)"
| "iterateWord_loop (Suc n) env consumer sc st =
     (if \<not> word_hasNext sc then (0, st)
      else (let (ret, sc') = word_next env sc in
            case consumer ret st of
              (False, st') \<Rightarrow> (1, st')
            | (True, st') \<Rightarrow> (let (count, st'') = iterateWord_loop n env consumer sc' st' in (Suc count, st''))))"

definition iterateWordUntil :: "word_env \<Rightarrow> bytes \<Rightarrow> nat \<Rightarrow> (bytes \<Rightarrow> 's \<Rightarrow> bool \<times> 's) \<Rightarrow> 's \<Rightarrow> nat \<times> 's" where
  "iterateWordUntil env ref limit consumer st = iterateWord_loop limit env consumer (newWordScanner ref) st"

definition iterateWord :: "word_env \<Rightarrow> bytes \<Rightarrow> (bytes \<Rightarrow> 's \<Rightarrow> bool \<times> 's) \<Rightarrow> 's \<Rightarrow> nat \<times> 's" where
  "iterateWord env ref consumer st = iterateWordUntil env ref (2 ^ 64 - 1) consumer st"

section \<open>The rules\<close>

text \<open>The word boundary rules WB1 to WB999 of UAX 29 (revision 39). By WB4 ignored characters belong to
  the character before them, unless that ends a line or there is none: \<open>base\<close> strips them from a text
  read backwards. \<open>prop1\<close> and \<open>prop2\<close> are the properties of the two nearest characters,
  \<open>ri_run\<close> the number of regional indicators at the end.\<close>

abbreviation wp :: "word_env \<Rightarrow> int \<Rightarrow> WordBreakProperty" where
  "wp \<equiv> getWordBreakProperty"

abbreviation ignored :: "WordBreakProperty \<Rightarrow> bool" where
  "ignored p \<equiv> p = WB_Extend \<or> p = WB_Format \<or> p = WB_ZWJ"

abbreviation line_end :: "WordBreakProperty \<Rightarrow> bool" where
  "line_end p \<equiv> p = WB_Newline \<or> p = WB_CR \<or> p = WB_LF"

abbreviation ahletter :: "WordBreakProperty \<Rightarrow> bool" where
  "ahletter p \<equiv> p = WB_ALetter \<or> p = WB_Hebrew_Letter"

abbreviation mid_letter :: "WordBreakProperty \<Rightarrow> bool" where
  "mid_letter p \<equiv> p = WB_MidLetter \<or> p = WB_MidNumLet \<or> p = WB_Single_Quote"

abbreviation mid_num :: "WordBreakProperty \<Rightarrow> bool" where
  "mid_num p \<equiv> p = WB_MidNum \<or> p = WB_MidNumLet \<or> p = WB_Single_Quote"

fun base :: "word_env \<Rightarrow> int list \<Rightarrow> int list" where
  "base env [] = []"
| "base env [c] = [c]"
| "base env (c # d # h) = (if ignored (wp env c) \<and> \<not> line_end (wp env d) then base env (d # h) else c # d # h)"

definition prop1 :: "word_env \<Rightarrow> int list \<Rightarrow> WordBreakProperty" where
  "prop1 env h = (case base env h of [] \<Rightarrow> WB_SOT | c # _ \<Rightarrow> wp env c)"

definition prop2 :: "word_env \<Rightarrow> int list \<Rightarrow> WordBreakProperty" where
  "prop2 env h = prop1 env (tl (base env h))"

lemma length_base: "length (base env h) \<le> length h"
  by (induction env h rule: base.induct) auto

function ri_run :: "word_env \<Rightarrow> int list \<Rightarrow> nat" where
  "ri_run env h = (if h \<noteq> [] \<and> prop1 env h = WB_Regional_Indicator then Suc (ri_run env (tl (base env h))) else 0)"
  by pat_completeness auto
termination
proof (relation "measure (\<lambda>(env, h). length h)")
  fix env :: word_env and h :: "int list"
  assume "h \<noteq> [] \<and> prop1 env h = WB_Regional_Indicator"
  then show "((env, tl (base env h)), env, h) \<in> measure (\<lambda>(env, h). length h)"
    using length_base [of env h] by (cases h) auto
qed simp

declare ri_run.simps [simp del]

text \<open>The property of the next character that is not ignored.\<close>

definition next_prop :: "word_env \<Rightarrow> int list \<Rightarrow> WordBreakProperty" where
  "next_prop env cs = (case dropWhile (\<lambda>c. ignored (wp env c)) cs of [] \<Rightarrow> WB_EOT | c # _ \<Rightarrow> wp env c)"

text \<open>The left context of WB7, and the rules with it as an argument.\<close>

definition letter_mid :: "word_env \<Rightarrow> int list \<Rightarrow> bool" where
  "letter_mid env h \<longleftrightarrow> ahletter (prop2 env h) \<and> mid_letter (prop1 env h)"

definition wb_rules_with :: "(int list \<Rightarrow> bool) \<Rightarrow> word_env \<Rightarrow> break_rule" where
  "wb_rules_with lm env h c rest =
     (let b = wp env (hd h); a = wp env c; p = prop1 env h; n = next_prop env rest in
      if b = WB_CR \<and> a = WB_LF then False
      else if line_end b \<or> line_end a then True
      else \<not> (b = WB_ZWJ \<and> isExtendedPictographic (we_tables env) c
        \<or> b = WB_WSegSpace \<and> a = WB_WSegSpace \<or> ignored a
        \<or> ahletter p \<and> ahletter a
        \<or> ahletter p \<and> mid_letter a \<and> ahletter n
        \<or> lm h \<and> ahletter a
        \<or> p = WB_Hebrew_Letter \<and> a = WB_Single_Quote
        \<or> p = WB_Hebrew_Letter \<and> a = WB_Double_Quote \<and> n = WB_Hebrew_Letter
        \<or> prop2 env h = WB_Hebrew_Letter \<and> p = WB_Double_Quote \<and> a = WB_Hebrew_Letter
        \<or> p = WB_Numeric \<and> a = WB_Numeric \<or> ahletter p \<and> a = WB_Numeric \<or> p = WB_Numeric \<and> ahletter a
        \<or> prop2 env h = WB_Numeric \<and> mid_num p \<and> a = WB_Numeric
        \<or> p = WB_Numeric \<and> mid_num a \<and> n = WB_Numeric
        \<or> p = WB_Katakana \<and> a = WB_Katakana
        \<or> (ahletter p \<or> p = WB_Numeric \<or> p = WB_Katakana \<or> p = WB_ExtendNumLet) \<and> a = WB_ExtendNumLet
        \<or> p = WB_ExtendNumLet \<and> (ahletter a \<or> a = WB_Numeric \<or> a = WB_Katakana)
        \<or> odd (ri_run env h) \<and> a = WB_Regional_Indicator))"

definition wb_rules :: "word_env \<Rightarrow> break_rule" where
  "wb_rules env = wb_rules_with (letter_mid env) env"

text \<open>What the generated data promise.\<close>

definition word_data_ok :: "word_env \<Rightarrow> bool" where
  "word_data_ok env \<longleftrightarrow>
     (\<forall>e\<in>set (we_break_table env). 2 \<le> unat (getMeta e) \<and> unat (getMeta e) < 21) \<and>
     table_sorted (we_break_table env) \<and> (\<forall>t ts. we_break_table env = t # ts \<longrightarrow> metaCodePoint t = 0) \<and>
     (\<forall>c. isExtendedPictographic (we_tables env) c \<longrightarrow>
        wp env c \<in> {WB_Any, WB_ALetter, WB_Hebrew_Letter, WB_Katakana, WB_Numeric, WB_ExtendNumLet})"

section \<open>The machine follows the rules\<close>

text \<open>The machine misses WB7 after a Hebrew letter and a single quote.\<close>

definition letter_mid_seen :: "word_env \<Rightarrow> int list \<Rightarrow> bool" where
  "letter_mid_seen env h \<longleftrightarrow> letter_mid env h \<and> \<not> (prop2 env h = WB_Hebrew_Letter \<and> prop1 env h = WB_Single_Quote)"

definition state_of :: "WordBreakProperty \<Rightarrow> WordBreakProperty \<Rightarrow> WordBreakProperty \<Rightarrow> bool \<Rightarrow> bool \<Rightarrow> WordBreakProperty" where
  "state_of p p2 n stripped paired =
     (if p = WB_WSegSpace \<and> stripped then WB_WSegSpace_EFZ
      else if ahletter p2 \<and> mid_letter p \<and> \<not> (p2 = WB_Hebrew_Letter \<and> p = WB_Single_Quote) \<and> ahletter n
      then WB_AHLetter_Mid_NumLetQ
      else if p = WB_Double_Quote \<and> p2 = WB_Hebrew_Letter \<and> n = WB_Hebrew_Letter then WB_Hebrew_Letter_DQ
      else if mid_num p \<and> p2 = WB_Numeric \<and> n = WB_Numeric then WB_Numeric_Mid_NumLetQ
      else if p = WB_Regional_Indicator \<and> paired then WB_Any
      else p)"

definition word_expected :: "word_env \<Rightarrow> int list \<Rightarrow> int list \<Rightarrow> WordBreakProperty" where
  "word_expected env h rest =
     (if h = [] then WB_SOT
      else state_of (prop1 env h) (prop2 env h) (next_prop env rest) (base env h \<noteq> h) (even (ri_run env h)))"

definition word_rel :: "word_env \<Rightarrow> int list \<Rightarrow> int list \<Rightarrow> WordScanner \<Rightarrow> bool" where
  "word_rel env h rest ws \<longleftrightarrow> word_data_ok env \<and> ws_state ws = word_expected env h rest \<and>
     (ws_zwj ws \<longleftrightarrow> h \<noteq> [] \<and> wp env (hd h) = WB_ZWJ)"

lemma wp_proper:
  assumes "word_data_ok env"
  shows "wp env c \<notin> {WB_SOT, WB_EOT, WB_WSegSpace_EFZ, WB_AHLetter_Mid_NumLetQ, WB_Hebrew_Letter_DQ, WB_Numeric_Mid_NumLetQ}"
proof (cases "c < 0 \<or> find_meta (we_break_table env) c = None")
  case False
  then obtain m where m: "find_meta (we_break_table env) c = Some m" by blast
  then obtain e where e: "e \<in> set (we_break_table env)" "m = getMeta e"
    using find_meta_in [of "we_break_table env" c m] assms False by (auto simp: word_data_ok_def)
  have "\<forall>n\<in>set [2..<21]. wordBreakProperties ! n \<notin>
      {WB_SOT, WB_EOT, WB_WSegSpace_EFZ, WB_AHLetter_Mid_NumLetQ, WB_Hebrew_Letter_DQ, WB_Numeric_Mid_NumLetQ}" by code_simp
  then have "wordBreakProperties ! n \<notin>
      {WB_SOT, WB_EOT, WB_WSegSpace_EFZ, WB_AHLetter_Mid_NumLetQ, WB_Hebrew_Letter_DQ, WB_Numeric_Mid_NumLetQ}"
    if "2 \<le> n" "n < 21" for n using that by (metis atLeastLessThan_iff set_upt)
  moreover have "2 \<le> unat m" "unat m < 21" using assms e by (auto simp: word_data_ok_def)
  ultimately show ?thesis using False m by (auto simp: getWordBreakProperty_def Let_def)
qed (auto simp: getWordBreakProperty_def)

lemma base_nonempty [simp]: "base env h = [] \<longleftrightarrow> h = []"
  by (induction env h rule: base.induct) auto

lemma base_line_end: "h \<noteq> [] \<Longrightarrow> line_end (wp env (hd (base env h))) \<Longrightarrow> base env h = h"
  by (induction env h rule: base.induct) (auto split: if_splits)

lemma base_plain: "\<not> ignored (wp env c) \<Longrightarrow> base env (c # h) = c # h"
  by (cases h) auto

lemma base_after_end: "h = [] \<or> line_end (wp env (hd h)) \<Longrightarrow> base env (c # h) = c # h"
  by (cases h) auto

lemma base_ignored: "ignored (wp env c) \<Longrightarrow> h \<noteq> [] \<Longrightarrow> \<not> line_end (wp env (hd h)) \<Longrightarrow> base env (c # h) = base env h"
  by (cases h) auto

lemma base_prop: "h \<noteq> [] \<Longrightarrow> prop1 env h = wp env (hd (base env h))"
  by (cases "base env h") (simp_all add: prop1_def)

lemma line_end_prop1: "h \<noteq> [] \<Longrightarrow> line_end (prop1 env h) \<longleftrightarrow> line_end (wp env (hd h))"
  using base_line_end [of h env] base_prop [of h env] by (cases h) (auto simp: base_plain)

lemma line_end_base: "h \<noteq> [] \<Longrightarrow> line_end (wp env (hd h)) \<Longrightarrow> base env h = h"
  by (cases h) (auto simp: base_plain)

lemma props_own: "base env (c # h) = c # h \<Longrightarrow> prop1 env (c # h) = wp env c \<and> prop2 env (c # h) = prop1 env h"
  by (simp add: prop1_def prop2_def)

lemma props_ignored: "base env (c # h) = base env h \<Longrightarrow> h \<noteq> [] \<Longrightarrow>
    prop1 env (c # h) = prop1 env h \<and> prop2 env (c # h) = prop2 env h \<and> ri_run env (c # h) = ri_run env h"
  by (simp add: prop1_def prop2_def ri_run.simps [of env "c # h"] ri_run.simps [of env h])

lemma ri_run_own: "base env (c # h) = c # h \<Longrightarrow>
    ri_run env (c # h) = (if wp env c = WB_Regional_Indicator then Suc (ri_run env h) else 0)"
  by (simp add: ri_run.simps [of env "c # h"] props_own)

lemma ri_run_0: "prop1 env h \<noteq> WB_Regional_Indicator \<Longrightarrow> ri_run env h = 0"
  by (simp add: ri_run.simps)

lemma next_prop_Cons: "next_prop env (c # cs) = (if ignored (wp env c) then next_prop env cs else wp env c)"
  by (auto simp: next_prop_def)

lemma lookahead_from_is:
  "X = WB_Numeric \<or> ahletter X \<Longrightarrow> ignored p \<or> p = WB_EOT \<Longrightarrow> lookahead_from env p cs = X \<longleftrightarrow> next_prop env cs = X"
proof (induction cs arbitrary: p)
  case Nil
  then show ?case by (auto simp: next_prop_def)
next
  case (Cons c cs)
  then show ?case
  proof (cases "ignored (wp env c)")
    case True
    with Cons.IH [OF Cons.prems(1), of "wp env c"] show ?thesis by (simp add: next_prop_Cons Let_def)
  qed (simp add: next_prop_Cons Let_def)
qed

lemma lookahead_is: "X = WB_Numeric \<or> ahletter X \<Longrightarrow> lookahead env cs = X \<longleftrightarrow> next_prop env cs = X"
  using lookahead_from_is [of X WB_EOT] by (simp add: lookahead_def)

lemma required_next: "word_required r (lookahead env cs) = word_required r (next_prop env cs)"
  by (simp add: word_required_def lookahead_is)

lemma word_middle_next: "word_middle s a (lookahead env cs) = word_middle s a (next_prop env cs)"
  unfolding word_middle_def required_next by (rule refl)

text \<open>The statements after the first together.\<close>

lemma word_middle_decision:
  "fst (word_middle s a n) = (\<not> (s = WB_WSegSpace \<and> a = WB_WSegSpace
        \<or> ahletter s \<and> ahletter a \<or> ahletter s \<and> mid_letter a \<and> ahletter n
        \<or> s = WB_AHLetter_Mid_NumLetQ \<and> ahletter a
        \<or> s = WB_Hebrew_Letter \<and> a = WB_Single_Quote
        \<or> s = WB_Hebrew_Letter \<and> a = WB_Double_Quote \<and> n = WB_Hebrew_Letter
        \<or> s = WB_Hebrew_Letter_DQ \<and> a = WB_Hebrew_Letter
        \<or> s = WB_Numeric \<and> a = WB_Numeric \<or> ahletter s \<and> a = WB_Numeric \<or> s = WB_Numeric \<and> ahletter a
        \<or> s = WB_Numeric_Mid_NumLetQ \<and> a = WB_Numeric
        \<or> s = WB_Numeric \<and> mid_num a \<and> n = WB_Numeric
        \<or> s = WB_Katakana \<and> a = WB_Katakana
        \<or> (ahletter s \<or> s = WB_Numeric \<or> s = WB_Katakana \<or> s = WB_ExtendNumLet) \<and> a = WB_ExtendNumLet
        \<or> s = WB_ExtendNumLet \<and> (ahletter a \<or> a = WB_Numeric \<or> a = WB_Katakana)
        \<or> s = WB_Regional_Indicator \<and> a = WB_Regional_Indicator))"
  unfolding word_middle_def word_letter_def word_hebrew_def word_numeric_def word_rest_def word_required_def
  by (cases s) auto

lemma word_middle_transition:
  "snd (word_middle s a n) =
    (if ahletter s \<and> mid_letter a \<and> \<not> (s = WB_Hebrew_Letter \<and> a = WB_Single_Quote) \<and> ahletter n then WB_AHLetter_Mid_NumLetQ
     else if s = WB_Hebrew_Letter \<and> a = WB_Double_Quote \<and> n = WB_Hebrew_Letter then WB_Hebrew_Letter_DQ
     else if s = WB_Numeric \<and> mid_num a \<and> n = WB_Numeric then WB_Numeric_Mid_NumLetQ
     else if s = WB_Regional_Indicator \<and> a = WB_Regional_Indicator then WB_Any
     else a)"
  unfolding word_middle_def word_letter_def word_hebrew_def word_numeric_def word_rest_def word_required_def
  by (cases s) auto

lemma word_check_zwj [simp]: "ws_zwj (snd (word_check env ws c rest)) \<longleftrightarrow> wp env c = WB_ZWJ"
  by (simp add: word_check_def Let_def split: option.split prod.split)

text \<open>What the expected state says of the nearest character.\<close>

lemma state_of_plain:
  "X \<in> {WB_Newline, WB_CR, WB_LF, WB_ALetter, WB_Hebrew_Letter, WB_Numeric, WB_Katakana, WB_ExtendNumLet} \<Longrightarrow>
     state_of p p2 n st pr = X \<longleftrightarrow> p = X"
  unfolding state_of_def by (cases p) auto

lemma state_of_special:
  assumes "p \<notin> {WB_SOT, WB_EOT, WB_WSegSpace_EFZ, WB_AHLetter_Mid_NumLetQ, WB_Hebrew_Letter_DQ, WB_Numeric_Mid_NumLetQ}"
  shows "state_of p p2 n st pr \<noteq> WB_SOT"
    and "state_of p p2 n st pr = WB_WSegSpace \<longleftrightarrow> p = WB_WSegSpace \<and> \<not> st"
    and "state_of p p2 n st pr = WB_Regional_Indicator \<longleftrightarrow> p = WB_Regional_Indicator \<and> \<not> pr"
    and "state_of p p2 n st pr = WB_AHLetter_Mid_NumLetQ \<longleftrightarrow>
      ahletter p2 \<and> mid_letter p \<and> \<not> (p2 = WB_Hebrew_Letter \<and> p = WB_Single_Quote) \<and> ahletter n"
    and "state_of p p2 n st pr = WB_Hebrew_Letter_DQ \<longleftrightarrow> p = WB_Double_Quote \<and> p2 = WB_Hebrew_Letter \<and> n = WB_Hebrew_Letter"
    and "state_of p p2 n st pr = WB_Numeric_Mid_NumLetQ \<longleftrightarrow> mid_num p \<and> p2 = WB_Numeric \<and> n = WB_Numeric"
  using assms unfolding state_of_def by (cases p; auto)+

lemma expected_line_end:
  assumes "h \<noteq> []" "line_end X"
  shows "word_expected env h rest = X \<longleftrightarrow> wp env (hd h) = X"
proof -
  have "word_expected env h rest = X \<longleftrightarrow> prop1 env h = X"
    using assms state_of_plain [of X] by (auto simp: word_expected_def)
  also have "\<dots> \<longleftrightarrow> wp env (hd h) = X"
    using assms base_prop [OF assms(1), of env] base_line_end [OF assms(1), of env] line_end_base [OF assms(1), of env] by metis
  finally show ?thesis .
qed

lemma expected_plain_word:
  "h \<noteq> [] \<Longrightarrow> X \<in> {WB_ALetter, WB_Hebrew_Letter, WB_Numeric, WB_Katakana, WB_ExtendNumLet} \<Longrightarrow>
     word_expected env h rest = X \<longleftrightarrow> prop1 env h = X"
  using state_of_plain [of X] by (auto simp: word_expected_def)

lemma expected_special_word:
  assumes "word_data_ok env" "h \<noteq> []"
  shows "word_expected env h rest \<noteq> WB_SOT"
    and "word_expected env h rest = WB_WSegSpace \<longleftrightarrow> wp env (hd h) = WB_WSegSpace"
    and "word_expected env h rest = WB_Regional_Indicator \<longleftrightarrow> odd (ri_run env h)"
    and "word_expected env h rest = WB_AHLetter_Mid_NumLetQ \<longleftrightarrow> letter_mid_seen env h \<and> ahletter (next_prop env rest)"
    and "word_expected env h rest = WB_Hebrew_Letter_DQ \<longleftrightarrow>
      prop1 env h = WB_Double_Quote \<and> prop2 env h = WB_Hebrew_Letter \<and> next_prop env rest = WB_Hebrew_Letter"
    and "word_expected env h rest = WB_Numeric_Mid_NumLetQ \<longleftrightarrow>
      mid_num (prop1 env h) \<and> prop2 env h = WB_Numeric \<and> next_prop env rest = WB_Numeric"
proof -
  have p: "prop1 env h = wp env (hd (base env h))" by (rule base_prop [OF assms(2)])
  note s = state_of_special [OF wp_proper [OF assms(1), of "hd (base env h)", folded p]]
  show "word_expected env h rest \<noteq> WB_SOT" using assms(2) s(1) by (simp add: word_expected_def)
  have "wp env (hd h) = WB_WSegSpace \<longleftrightarrow> prop1 env h = WB_WSegSpace \<and> base env h = h"
    using base_plain [of env "hd h" "tl h"] assms(2) p by (cases "ignored (wp env (hd h))") auto
  then show "word_expected env h rest = WB_WSegSpace \<longleftrightarrow> wp env (hd h) = WB_WSegSpace"
    using assms(2) s(2) by (simp add: word_expected_def)
  show "word_expected env h rest = WB_Regional_Indicator \<longleftrightarrow> odd (ri_run env h)"
    using assms(2) ri_run_0 [of env h] s(3) by (cases "prop1 env h = WB_Regional_Indicator") (simp_all add: word_expected_def)
  show "word_expected env h rest = WB_AHLetter_Mid_NumLetQ \<longleftrightarrow> letter_mid_seen env h \<and> ahletter (next_prop env rest)"
    using assms(2) s(4) by (simp add: word_expected_def letter_mid_seen_def letter_mid_def)
  show "word_expected env h rest = WB_Hebrew_Letter_DQ \<longleftrightarrow>
      prop1 env h = WB_Double_Quote \<and> prop2 env h = WB_Hebrew_Letter \<and> next_prop env rest = WB_Hebrew_Letter"
    using assms(2) s(5) by (simp add: word_expected_def)
  show "word_expected env h rest = WB_Numeric_Mid_NumLetQ \<longleftrightarrow>
      mid_num (prop1 env h) \<and> prop2 env h = WB_Numeric \<and> next_prop env rest = WB_Numeric"
    using assms(2) s(6) by (simp add: word_expected_def)
qed

text \<open>The situations of a step: WB3c, a line end on the left, on the right, an ignored character, the rest.\<close>

lemma word_situations:
  obtains (picto) "wp env (hd h) = WB_ZWJ" "isExtendedPictographic (we_tables env) c"
  | (left) "\<not> (wp env (hd h) = WB_ZWJ \<and> isExtendedPictographic (we_tables env) c)" "line_end (wp env (hd h))"
  | (right) "\<not> (wp env (hd h) = WB_ZWJ \<and> isExtendedPictographic (we_tables env) c)" "\<not> line_end (wp env (hd h))" "line_end (wp env c)"
  | (skip) "\<not> (wp env (hd h) = WB_ZWJ \<and> isExtendedPictographic (we_tables env) c)" "\<not> line_end (wp env (hd h))" "ignored (wp env c)"
  | (plain) "\<not> (wp env (hd h) = WB_ZWJ \<and> isExtendedPictographic (we_tables env) c)" "\<not> line_end (wp env (hd h))"
      "\<not> line_end (wp env c)" "\<not> ignored (wp env c)"
  by blast

lemma word_check_result:
  assumes "word_rel env h (c # rest) ws" "h \<noteq> []"
  shows "wp env (hd h) = WB_ZWJ \<Longrightarrow> isExtendedPictographic (we_tables env) c \<Longrightarrow>
      word_check env ws c rest = (False, \<lparr>ws_state = wp env c, ws_zwj = (wp env c = WB_ZWJ)\<rparr>)"
    and "\<not> (wp env (hd h) = WB_ZWJ \<and> isExtendedPictographic (we_tables env) c) \<Longrightarrow> line_end (wp env (hd h)) \<Longrightarrow>
      word_check env ws c rest = (\<not> (wp env (hd h) = WB_CR \<and> wp env c = WB_LF), \<lparr>ws_state = wp env c, ws_zwj = (wp env c = WB_ZWJ)\<rparr>)"
    and "\<not> (wp env (hd h) = WB_ZWJ \<and> isExtendedPictographic (we_tables env) c) \<Longrightarrow> \<not> line_end (wp env (hd h)) \<Longrightarrow> line_end (wp env c) \<Longrightarrow>
      word_check env ws c rest = (True, \<lparr>ws_state = wp env c, ws_zwj = (wp env c = WB_ZWJ)\<rparr>)"
    and "\<not> (wp env (hd h) = WB_ZWJ \<and> isExtendedPictographic (we_tables env) c) \<Longrightarrow> \<not> line_end (wp env (hd h)) \<Longrightarrow> ignored (wp env c) \<Longrightarrow>
      word_check env ws c rest = (False, \<lparr>ws_state = (if ws_state ws = WB_WSegSpace then WB_WSegSpace_EFZ else ws_state ws),
        ws_zwj = (wp env c = WB_ZWJ)\<rparr>)"
    and "\<not> (wp env (hd h) = WB_ZWJ \<and> isExtendedPictographic (we_tables env) c) \<Longrightarrow> \<not> line_end (wp env (hd h)) \<Longrightarrow>
      \<not> line_end (wp env c) \<Longrightarrow> \<not> ignored (wp env c) \<Longrightarrow>
      word_check env ws c rest = (fst (word_middle (ws_state ws) (wp env c) (next_prop env rest)),
        \<lparr>ws_state = snd (word_middle (ws_state ws) (wp env c) (next_prop env rest)), ws_zwj = (wp env c = WB_ZWJ)\<rparr>)"
proof -
  have ok: "word_data_ok env" and s: "ws_state ws = word_expected env h (c # rest)"
    and z: "ws_zwj ws \<longleftrightarrow> wp env (hd h) = WB_ZWJ" using assms by (auto simp: word_rel_def)
  have n: "ws_state ws \<noteq> WB_SOT" using expected_special_word(1) [OF ok assms(2)] s by simp
  have e: "line_end X \<Longrightarrow> ws_state ws = X \<longleftrightarrow> wp env (hd h) = X" for X using expected_line_end [OF assms(2)] s by simp
  show "word_check env ws c rest = (False, \<lparr>ws_state = wp env c, ws_zwj = (wp env c = WB_ZWJ)\<rparr>)"
    if "wp env (hd h) = WB_ZWJ" "isExtendedPictographic (we_tables env) c"
    using that z by (simp add: word_check_def Let_def)
  assume z': "\<not> (wp env (hd h) = WB_ZWJ \<and> isExtendedPictographic (we_tables env) c)"
  have start: "word_check env ws c rest = (case word_start (ws_state ws) (wp env c) of
      Some (b, st) \<Rightarrow> (b, \<lparr>ws_state = st, ws_zwj = (wp env c = WB_ZWJ)\<rparr>)
    | None \<Rightarrow> (let (b, st) = word_middle (ws_state ws) (wp env c) (next_prop env rest)
               in (b, \<lparr>ws_state = st, ws_zwj = (wp env c = WB_ZWJ)\<rparr>)))"
  proof -
    have "(ws_zwj ws \<and> isExtendedPictographic (we_tables env) c) = False" using z z' by simp
    then show ?thesis
      unfolding word_check_def word_middle_next Let_def
      by (cases "word_start (ws_state ws) (wp env c)") (auto simp: split_beta)
  qed
  show "word_check env ws c rest = (\<not> (wp env (hd h) = WB_CR \<and> wp env c = WB_LF), \<lparr>ws_state = wp env c, ws_zwj = (wp env c = WB_ZWJ)\<rparr>)"
    if "line_end (wp env (hd h))"
  proof -
    have "ws_state ws = wp env (hd h)" using that e by blast
    with that show ?thesis unfolding start by (elim disjE) (simp_all add: word_start_def)
  qed
  assume l: "\<not> line_end (wp env (hd h))"
  then have l': "\<not> line_end (ws_state ws)" using e by blast
  have st: "word_start (ws_state ws) (wp env c) =
      (if line_end (wp env c) then Some (True, wp env c)
       else if ignored (wp env c)
       then (if ws_state ws = WB_WSegSpace then Some (False, WB_WSegSpace_EFZ) else Some (False, ws_state ws)) else None)"
    using n l' unfolding word_start_def by (cases "ws_state ws") auto
  show "line_end (wp env c) \<Longrightarrow> word_check env ws c rest = (True, \<lparr>ws_state = wp env c, ws_zwj = (wp env c = WB_ZWJ)\<rparr>)"
    unfolding start st by simp
  show "ignored (wp env c) \<Longrightarrow> word_check env ws c rest =
      (False, \<lparr>ws_state = (if ws_state ws = WB_WSegSpace then WB_WSegSpace_EFZ else ws_state ws), ws_zwj = (wp env c = WB_ZWJ)\<rparr>)"
    unfolding start st by auto
  show "\<not> line_end (wp env c) \<Longrightarrow> \<not> ignored (wp env c) \<Longrightarrow> word_check env ws c rest =
      (fst (word_middle (ws_state ws) (wp env c) (next_prop env rest)),
        \<lparr>ws_state = snd (word_middle (ws_state ws) (wp env c) (next_prop env rest)), ws_zwj = (wp env c = WB_ZWJ)\<rparr>)"
    unfolding start st by (simp add: split_beta)
qed

lemma word_decide:
  assumes "word_rel env h (c # rest) ws" "h \<noteq> []"
  shows "fst (word_check env ws c rest) = wb_rules_with (letter_mid_seen env) env h c rest"
proof -
  have ok: "word_data_ok env" and s: "ws_state ws = word_expected env h (c # rest)" using assms by (auto simp: word_rel_def)
  note r = word_check_result [OF assms]
  show ?thesis
  proof (cases rule: word_situations [of env h c])
    case picto
    then have "\<not> line_end (wp env c)" using ok by (auto simp: word_data_ok_def)
    with picto r(1) show ?thesis by (simp add: wb_rules_with_def)
  next
    case left
    with r(2) show ?thesis by (auto simp: wb_rules_with_def)
  next
    case right
    with r(3) show ?thesis by (auto simp: wb_rules_with_def)
  next
    case skip
    then have "\<not> line_end (wp env c)" by auto
    with skip r(4) show ?thesis by (auto simp: wb_rules_with_def Let_def)
  next
    case plain
    have n: "next_prop env (c # rest) = wp env c" using plain(4) by (simp add: next_prop_Cons)
    note e = expected_special_word [OF ok assms(2)] and p = expected_plain_word [OF assms(2)]
    show ?thesis
      unfolding r(5) [OF plain] fst_conv word_middle_decision s wb_rules_with_def Let_def e n
      using plain by (cases "wp env c"; simp add: p; blast?)
  qed
qed


lemma word_expected_own:
  assumes "base env (c # h) = c # h"
  shows "word_expected env (c # h) rest =
    state_of (wp env c) (prop1 env h) (next_prop env rest) False (wp env c = WB_Regional_Indicator \<longrightarrow> odd (ri_run env h))"
  using assms props_own [OF assms] ri_run_own [OF assms] by (simp add: word_expected_def)

lemma state_of_own:
  assumes "a = WB_Regional_Indicator \<longrightarrow> \<not> pr" "\<not> (ahletter p2 \<or> p2 = WB_Numeric) \<or> \<not> (mid_letter a \<or> mid_num a \<or> a = WB_Double_Quote)"
  shows "state_of a p2 n False pr = a"
  using assms unfolding state_of_def by auto

lemma word_step:
  assumes "word_rel env h (c # rest) ws"
  shows "word_rel env (c # h) rest (snd (word_check env ws c rest))"
proof -
  have ok: "word_data_ok env" and s: "ws_state ws = word_expected env h (c # rest)" using assms by (auto simp: word_rel_def)
  have "ws_state (snd (word_check env ws c rest)) = word_expected env (c # h) rest"
  proof (cases "h = []")
    case True
    then have "ws_state ws = WB_SOT" "\<not> ws_zwj ws" using assms by (simp_all add: word_rel_def word_expected_def)
    then have "ws_state (snd (word_check env ws c rest)) = wp env c" by (simp add: word_check_def word_start_def Let_def)
    moreover have "prop1 env [] = WB_SOT" "ri_run env [] = 0" by (simp_all add: prop1_def ri_run.simps)
    ultimately show ?thesis using True word_expected_own [of env c "[]"] by (simp add: state_of_own)
  next
    case False
    note r = word_check_result [OF assms False]
    show ?thesis
    proof (cases rule: word_situations [of env h c])
      case picto
      then have c: "wp env c \<in> {WB_Any, WB_ALetter, WB_Hebrew_Letter, WB_Katakana, WB_Numeric, WB_ExtendNumLet}"
        using ok by (simp add: word_data_ok_def)
      then have "base env (c # h) = c # h" by (intro base_plain) auto
      from word_expected_own [OF this] c r(1) [OF picto] show ?thesis by (auto simp: state_of_own)
    next
      case left
      have p: "line_end (prop1 env h)" using left(2) line_end_prop1 [OF False] by simp
      then have "ri_run env h = 0" by (intro ri_run_0) auto
      with word_expected_own [OF base_after_end [of h env c]] left r(2) p show ?thesis by (auto simp: state_of_own)
    next
      case right
      then have "base env (c # h) = c # h" by (intro base_plain) auto
      from word_expected_own [OF this] right r(3) show ?thesis by (auto simp: state_of_own)
    next
      case skip
      have b: "base env (c # h) = base env h" using skip(3) False skip(2) by (rule base_ignored)
      have st: "base env (c # h) \<noteq> c # h" using length_base [of env h] unfolding b by auto
      have n: "next_prop env (c # rest) = next_prop env rest" using skip(3) by (simp add: next_prop_Cons)
      have key: "state_of p p2 m True pr = (if state_of p p2 m t pr = WB_WSegSpace then WB_WSegSpace_EFZ else state_of p p2 m t pr)"
        for p p2 m t pr unfolding state_of_def by auto
      show ?thesis
        using r(4) [OF skip] props_ignored [OF b False] st False
        by (simp add: s word_expected_def n key [where t = "base env h \<noteq> h"])
    next
      case plain
      note e = expected_special_word [OF ok False] and p = expected_plain_word [OF False]
      have n: "next_prop env (c # rest) = wp env c" using plain(4) by (simp add: next_prop_Cons)
      show ?thesis
        unfolding r(5) [OF plain] word_expected_own [OF base_plain [OF plain(4)]]
        by (cases "wp env c"; simp add: s word_middle_transition e p state_of_def)
    qed
  qed
  with ok show ?thesis by (simp add: word_rel_def)
qed

lemma word_first: "word_rel env [] (c # rest) ws \<Longrightarrow> \<not> fst (word_check env ws c rest)"
  by (simp add: word_rel_def word_expected_def word_check_def word_start_def Let_def)

interpretation word: segmenter "word_check env" "word_rel env" "wb_rules_with (letter_mid_seen env) env" for env
  by unfold_locales (fact word_first word_step word_decide)+

end
