(* ===== verification/Word_Scanner.thy ===== *)
theory Word_Scanner
  imports Word_Break
begin

text \<open>
  The words \<open>iterateWordUntil\<close> hands to its consumer are the segments of the text between the word
  boundaries of UAX 29.
\<close>

section \<open>One word\<close>


section \<open>All words\<close>








section \<open>The rules of the standard\<close>







section \<open>Sample data\<close>

text \<open>Digits, Latin and Hebrew letters, the full stop, the apostrophe, and the last entry of the generated table.\<close>

definition latin_env :: word_env where
  "latin_env = \<lparr>we_tables = sample_tables,
     we_break_table = [mkCodePointWithMeta 0 2, mkCodePointWithMeta 0x27 13, mkCodePointWithMeta 0x28 2,
       mkCodePointWithMeta 0x2E 15, mkCodePointWithMeta 0x2F 2, mkCodePointWithMeta 0x30 18, mkCodePointWithMeta 0x3A 2,
       mkCodePointWithMeta 0x61 12, mkCodePointWithMeta 0x7B 2, mkCodePointWithMeta 0x5D0 11, mkCodePointWithMeta 0x5EB 2,
       mkCodePointWithMeta 0xE0100 6]\<rparr>"


lemma latin_sorted: "table_sorted (we_break_table latin_env)"
  by code_simp






text \<open>The last range of the table is lost: a code point at or above the start of the last entry has the
  property \<open>Any\<close>, whatever that entry says. In the generated table this is the entry for the variation
  selectors from U+E0100, which are \<open>Extend\<close>.\<close>

theorem last_entry_lost:
  assumes "table_sorted (we_break_table env)" "we_break_table env \<noteq> []"
    and "metaCodePoint (last (we_break_table env)) \<le> c" "0 \<le> c"
  shows "getWordBreakProperty env c = WB_Any"
  using find_meta_beyond [OF assms(1-3)] assms(4) by (simp add: getWordBreakProperty_def)

theorem last_entry_lost_witness:
  "getMeta (last (we_break_table latin_env)) = 6 \<and> wordBreakProperties ! 6 = WB_Extend \<and>
   getWordBreakProperty latin_env 0xE0100 = WB_Any"
proof -
  have "metaCodePoint (last (we_break_table latin_env)) \<le> 0xE0100" by code_simp
  moreover have "we_break_table latin_env \<noteq> []" by (simp add: latin_env_def)
  ultimately have "getWordBreakProperty latin_env 0xE0100 = WB_Any" by (intro last_entry_lost latin_sorted) simp_all
  moreover have "getMeta (last (we_break_table latin_env)) = 6" by code_simp
  ultimately show ?thesis by (simp add: wordBreakProperties_def)
qed

end
