(* ===== verification/Case_Fold.thy ===== *)
theory Case_Fold
  imports Codepoint_Set Regex_Flag "HOL-Library.Signed_Division" "HOL-Library.Product_Lexorder"
begin

text \<open>
  Case folding: \<open>tools/casefold/fold_table.cpp\<close>, which compresses the mappings of the Unicode database
  into a two-level table when the program is built, and \<open>unicode/case_fold.cpp\<close>, which reads that table.
  The mappings (\<open>simple_case_fold.in\<close>, \<open>full_case_fold.in\<close>, written by a script from the database) are
  arguments.
\<close>

section \<open>Mappings\<close>

type_synonym mapping_table = "(int \<times> int) list"

text \<open>\<open>CompareLongEntry\<close>, and the search that compares the key of the element it finds.\<close>

definition key_less :: "(int \<times> 'a) \<Rightarrow> int \<Rightarrow> bool" where
  "key_less x y \<longleftrightarrow> fst x < y"

definition find_key :: "(int \<times> 'a) list \<Rightarrow> int \<Rightarrow> 'a option" where
  "find_key table c =
     (let iter = lower_bound key_less table c 0 (length table) in
      if iter \<noteq> length table \<and> fst (table ! iter) = c then Some (snd (table ! iter)) else None)"

section \<open>The generator\<close>

datatype EntryType = E_C | E_S

fun entry_bit :: "EntryType \<Rightarrow> int" where
  "entry_bit E_C = 0"
| "entry_bit E_S = 1"

definition gen_lookup :: "mapping_table \<Rightarrow> mapping_table \<Rightarrow> int \<Rightarrow> int \<times> EntryType" where
  "gen_lookup C S codePoint =
     (case find_key C codePoint of
        Some after \<Rightarrow> (after, E_C)
      | None \<Rightarrow> (case find_key S codePoint of Some after \<Rightarrow> (after, E_S) | None \<Rightarrow> (codePoint, E_C)))"

definition computeMaxFoldCodePoint :: "mapping_table \<Rightarrow> mapping_table \<Rightarrow> int" where
  "computeMaxFoldCodePoint C S = foldl (\<lambda>m e. max m (fst e)) (foldl (\<lambda>m e. max m (fst e)) 0 C) S"

text \<open>\<open>None\<close> is the call of \<open>fatal\<close>.\<close>

definition computeFoldEntry :: "mapping_table \<Rightarrow> mapping_table \<Rightarrow> int \<Rightarrow> int option" where
  "computeFoldEntry C S codePoint =
     (let (c, e) = gen_lookup C S codePoint; d = c - codePoint in
      if d > 2 ^ 30 - 1 \<or> d < - (2 ^ 30) then None else Some (d * 2 + entry_bit e))"

definition FOLD_SHIFT :: nat where
  "FOLD_SHIFT = 5"

definition FOLD_BLOCK_SIZE :: nat where
  "FOLD_BLOCK_SIZE = 2 ^ FOLD_SHIFT"

record FoldTable =
  blockIndexes :: "byte list"
  fold_blocks :: "u32 list list"
  maxFoldCodePoint :: int

function fold_block_count :: "nat \<Rightarrow> int \<Rightarrow> nat" where
  "fold_block_count N mx = (if int (N * FOLD_BLOCK_SIZE) < mx then fold_block_count (N + 1) mx else N)"
  by pat_completeness auto
termination
  by (relation "measure (\<lambda>(N, mx). nat mx - N * FOLD_BLOCK_SIZE)") (auto simp: FOLD_BLOCK_SIZE_def FOLD_SHIFT_def)

declare fold_block_count.simps [simp del]

definition newBlock :: "mapping_table \<Rightarrow> mapping_table \<Rightarrow> nat \<Rightarrow> u32 list option" where
  "newBlock C S index =
     map_option (map word_of_int)
       (those (map (\<lambda>j. computeFoldEntry C S (int (index * FOLD_BLOCK_SIZE + j))) [0..<FOLD_BLOCK_SIZE]))"

text \<open>The loop over the blocks with \<open>indexes\<close>, \<open>blocks\<close> and \<open>blockMap\<close>. An index is stored in a byte.\<close>

fun create_blocks :: "mapping_table \<Rightarrow> mapping_table \<Rightarrow> nat list \<Rightarrow> byte list \<times> u32 list list \<times> (u32 list \<rightharpoonup> u16)
    \<Rightarrow> (byte list \<times> u32 list list \<times> (u32 list \<rightharpoonup> u16)) option" where
  "create_blocks C S [] st = Some st"
| "create_blocks C S (index # is) (indexes, blocks, blockMap) =
     (case newBlock C S index of
        None \<Rightarrow> None
      | Some b \<Rightarrow>
          (case blockMap b of
             Some k \<Rightarrow> create_blocks C S is (indexes[index := ucast k], blocks, blockMap)
           | None \<Rightarrow> (let blockIndex = of_nat (length blocks) :: u16 in
               create_blocks C S is (indexes[index := ucast blockIndex], blocks @ [b], blockMap(b \<mapsto> blockIndex)))))"

definition fold_create :: "mapping_table \<Rightarrow> mapping_table \<Rightarrow> FoldTable option" where
  "fold_create C S =
     (let z = replicate FOLD_BLOCK_SIZE 0;
          mx = computeMaxFoldCodePoint C S;
          N = fold_block_count 1 mx
      in map_option (\<lambda>(indexes, blocks, _). \<lparr>blockIndexes = indexes, fold_blocks = blocks, maxFoldCodePoint = mx\<rparr>)
           (create_blocks C S [0..<N] (replicate N 0, [z], [z \<mapsto> 0])))"

definition createUnfoldTable :: "mapping_table \<Rightarrow> mapping_table \<Rightarrow> mapping_table" where
  "createUnfoldTable C S = sort (map prod.swap C @ map prod.swap S)"

section \<open>The reader\<close>

text \<open>The constants of the generated header \<open>simple_case_fold_table.h\<close> (the blocks follow each other), with
  the tables of \<open>full_case_fold.in\<close>.\<close>

record fold_header =
  max_fold_code_point :: int
  simple_case_fold_block_indexes :: "byte list"
  simple_case_fold_blocks :: "u32 list"
  simple_case_unfold_table :: mapping_table
  case_fold_F_table :: "(int \<times> u16 list) list"
  case_fold_T_table :: "(u16 \<times> u16) list"

definition emit_header :: "FoldTable \<Rightarrow> mapping_table \<Rightarrow> (int \<times> u16 list) list \<Rightarrow> (u16 \<times> u16) list \<Rightarrow> fold_header" where
  "emit_header foldTable unfoldTable F T =
     \<lparr>max_fold_code_point = maxFoldCodePoint foldTable, simple_case_fold_block_indexes = blockIndexes foldTable,
      simple_case_fold_blocks = concat (fold_blocks foldTable), simple_case_unfold_table = unfoldTable,
      case_fold_F_table = F, case_fold_T_table = T\<rparr>"

definition isSimpleCaseFoldTarget :: "fold_header \<Rightarrow> int \<Rightarrow> bool" where
  "isSimpleCaseFoldTarget H codePoint \<longleftrightarrow> codePoint \<ge> 0 \<and> codePoint \<le> max_fold_code_point H"

definition lookupSimpleCaseFoldEntry :: "fold_header \<Rightarrow> nat \<Rightarrow> u32" where
  "lookupSimpleCaseFoldEntry H cp =
     (let index = unat (simple_case_fold_block_indexes H ! (cp div 2 ^ FOLD_SHIFT)) in
      simple_case_fold_blocks H ! (index * FOLD_BLOCK_SIZE + cp mod FOLD_BLOCK_SIZE))"

definition fold_delta :: "u32 \<Rightarrow> int" where
  "fold_delta entry = sint (entry AND NOT 1) sdiv 2"

definition doSimpleCaseFolding :: "fold_header \<Rightarrow> int \<Rightarrow> int" where
  "doSimpleCaseFolding H codePoint =
     (if isSimpleCaseFoldTarget H codePoint
      then codePoint + fold_delta (lookupSimpleCaseFoldEntry H (nat codePoint)) else codePoint)"

datatype CaseFoldingResult = SimpleFolding int | FullFolding "u16 list"

fun folding_equals :: "CaseFoldingResult \<Rightarrow> int \<Rightarrow> bool" where
  "folding_equals (SimpleFolding c) codePoint \<longleftrightarrow> c = codePoint"
| "folding_equals (FullFolding _) codePoint \<longleftrightarrow> False"

definition FULL_FOLD :: byte where
  "FULL_FOLD = 1"

definition TURKIC :: byte where
  "TURKIC = 2"

definition turkic_find :: "(u16 \<times> u16) list \<Rightarrow> int \<Rightarrow> u16 option" where
  "turkic_find T codePoint = map_option snd (List.find (\<lambda>e. uint (fst e) = codePoint) T)"

definition full_fold :: "fold_header \<Rightarrow> int \<Rightarrow> CaseFoldingResult" where
  "full_fold H codePoint =
     (case (if codePoint \<le> fst (last (case_fold_F_table H)) then find_key (case_fold_F_table H) codePoint else None) of
        Some folds \<Rightarrow> FullFolding folds
      | None \<Rightarrow>
          if isSimpleCaseFoldTarget H codePoint
          then (let entry = lookupSimpleCaseFoldEntry H (nat codePoint) in
                if entry AND 1 = 0 then SimpleFolding (codePoint + fold_delta entry) else SimpleFolding codePoint)
          else SimpleFolding codePoint)"

definition doCaseFolding :: "fold_header \<Rightarrow> int \<Rightarrow> byte \<Rightarrow> CaseFoldingResult" where
  "doCaseFolding H codePoint op =
     (case (if hasFlag op TURKIC then turkic_find (case_fold_T_table H) codePoint else None) of
        Some after \<Rightarrow> SimpleFolding (uint after)
      | None \<Rightarrow> if hasFlag op FULL_FOLD then full_fold H codePoint
                else SimpleFolding (doSimpleCaseFolding H codePoint))"

text \<open>The entries of a code point: from the first, as long as they have it.\<close>

definition doSimpleCaseUnfold :: "fold_header \<Rightarrow> int \<Rightarrow> mapping_table" where
  "doSimpleCaseUnfold H codePoint =
     (let table = simple_case_unfold_table H;
          iter = lower_bound key_less table codePoint 0 (length table)
      in if iter \<noteq> length table \<and> fst (table ! iter) = codePoint
         then takeWhile (\<lambda>e. fst e = codePoint) (drop iter table) else [])"

section \<open>Searching\<close>

definition keys_sorted :: "(int \<times> 'a) list \<Rightarrow> bool" where
  "keys_sorted table \<longleftrightarrow> sorted_wrt (\<lambda>a b. fst a < fst b) table"

text \<open>On a table with sorted keys the lower bound splits off the smaller ones.\<close>

lemma lower_bound_drop:
  assumes "sorted_wrt (\<lambda>a b. fst a \<le> fst b) table"
  shows "drop (lower_bound key_less table c 0 (length table)) table = dropWhile (\<lambda>e. fst e < c) table"
    "lower_bound key_less table c 0 (length table) \<le> length table"
proof -
  let ?i = "lower_bound key_less table c 0 (length table)"
  have m: "fst (table ! j) \<le> fst (table ! k)" if "j \<le> k" "k < length table" for j k
    using that assms by (cases "j = k") (auto simp: sorted_wrt_iff_nth_less)
  have "key_less (table ! j) c" if "j \<le> k" "k < length table" "key_less (table ! k) c" for j k
    using m [OF that(1,2)] that(3) by (simp add: key_less_def)
  note q = lower_bound_partition [of table key_less c 0 "length table", OF this]
  have p: "?i \<le> length table" "\<forall>j < ?i. fst (table ! j) < c" "\<forall>j. ?i \<le> j \<and> j < length table \<longrightarrow> \<not> fst (table ! j) < c"
    using q by (simp_all add: key_less_def)
  then show "?i \<le> length table" by simp
  have "dropWhile (\<lambda>e. fst e < c) (take ?i table @ drop ?i table) = drop ?i table"
  proof (subst dropWhile_append2)
    show "fst x < c" if "x \<in> set (take ?i table)" for x
      using that p by (auto simp: in_set_conv_nth)
    show "dropWhile (\<lambda>e. fst e < c) (drop ?i table) = drop ?i table"
      using p(1,3) by (cases "?i = length table") (simp_all add: Cons_nth_drop_Suc [symmetric])
  qed
  then show "drop ?i table = dropWhile (\<lambda>e. fst e < c) table" by simp
qed


lemma find_key_drop:
  assumes "sorted_wrt (\<lambda>a b. fst a \<le> fst b) table"
  shows "find_key table c = (case dropWhile (\<lambda>e. fst e < c) table of [] \<Rightarrow> None | e # _ \<Rightarrow> if fst e = c then Some (snd e) else None)"
proof -
  let ?i = "lower_bound key_less table c 0 (length table)"
  have i: "?i \<le> length table" "drop ?i table = dropWhile (\<lambda>e. fst e < c) table" using lower_bound_drop [OF assms] by auto
  show ?thesis
  proof (cases "?i = length table")
    case True
    with i(2) have d: "dropWhile (\<lambda>e. fst e < c) table = []" by simp
    show ?thesis unfolding d using True by (simp add: find_key_def)
  next
    case False
    with i have "dropWhile (\<lambda>e. fst e < c) table = table ! ?i # drop (Suc ?i) table" by (simp add: Cons_nth_drop_Suc)
    with False show ?thesis by (simp add: find_key_def Let_def)
  qed
qed

lemma keys_sorted_le: "keys_sorted table \<Longrightarrow> sorted_wrt (\<lambda>a b. fst a \<le> fst b) table"
  unfolding keys_sorted_def by (erule sorted_wrt_mono_rel [rotated]) simp

lemma keys_sorted_distinct: "keys_sorted table \<Longrightarrow> distinct (map fst table)"
  by (induction table) (force simp: keys_sorted_def)+

lemma find_key_map_of: "keys_sorted table \<Longrightarrow> find_key table c = map_of table c"
proof (subst find_key_drop [OF keys_sorted_le], assumption, induction table)
  case (Cons e table)
  have "map_of table c = None" if "c < fst e" 
    using that Cons.prems by (force simp: keys_sorted_def map_of_eq_None_iff)
  with Cons show ?case by (cases e) (auto simp: keys_sorted_def)
qed simp

lemma take_equal_keys:
  "sorted_wrt (\<lambda>a b. fst a \<le> fst b) table \<Longrightarrow>
     takeWhile (\<lambda>e. fst e = c) (dropWhile (\<lambda>e. fst e < c) table) = filter (\<lambda>e. fst e = c) (table :: mapping_table)"
proof (induction table)
  case (Cons e table)
  have "filter (\<lambda>e. fst e = c) table = []" if "c < fst e" using that Cons.prems by (force simp: filter_empty_conv)
  moreover have "dropWhile (\<lambda>e. fst e < c) table = table" if "c = fst e"
    using that Cons.prems by (cases table) auto
  ultimately show ?case using Cons by auto
qed simp

lemma doSimpleCaseUnfold_filter:
  assumes "sorted (simple_case_unfold_table H)"
  shows "doSimpleCaseUnfold H c = filter (\<lambda>e. fst e = c) (simple_case_unfold_table H)"
proof -
  let ?t = "simple_case_unfold_table H"
  let ?i = "lower_bound key_less ?t c 0 (length ?t)"
  have s: "sorted_wrt (\<lambda>a b. fst a \<le> fst b) ?t"
    using assms by (rule sorted_wrt_mono_rel [rotated]) (auto simp: less_eq_prod_def)
  note i = lower_bound_drop [OF s, of c]
  have "takeWhile (\<lambda>e. fst e = c) (drop ?i ?t) = []" if "\<not> (?i \<noteq> length ?t \<and> fst (?t ! ?i) = c)"
    using that i(2) by (cases "?i = length ?t") (simp_all add: Cons_nth_drop_Suc [symmetric])
  then have "doSimpleCaseUnfold H c = takeWhile (\<lambda>e. fst e = c) (drop ?i ?t)" by (simp add: doSimpleCaseUnfold_def Let_def)
  then show ?thesis using take_equal_keys [OF s] by (simp add: i(1))
qed

section \<open>The generated table\<close>

text \<open>What the database promises: sorted keys, code points on both sides, and one mapping per code point.\<close>

definition mappings_ok :: "mapping_table \<Rightarrow> mapping_table \<Rightarrow> bool" where
  "mappings_ok C S \<longleftrightarrow> keys_sorted C \<and> keys_sorted S \<and>
     list_all (\<lambda>(b, a). isCodePoint b \<and> isCodePoint a) (C @ S) \<and> fst ` set C \<inter> fst ` set S = {}"

definition simple_map :: "mapping_table \<Rightarrow> mapping_table \<Rightarrow> int \<Rightarrow> int" where
  "simple_map C S c = (case map_of C c of Some a \<Rightarrow> a | None \<Rightarrow> (case map_of S c of Some a \<Rightarrow> a | None \<Rightarrow> c))"

definition map_type :: "mapping_table \<Rightarrow> mapping_table \<Rightarrow> int \<Rightarrow> EntryType" where
  "map_type C S c = (if map_of C c = None \<and> map_of S c \<noteq> None then E_S else E_C)"

lemma gen_lookup_map: "mappings_ok C S \<Longrightarrow> gen_lookup C S c = (simple_map C S c, map_type C S c)"
  by (auto simp: gen_lookup_def simple_map_def map_type_def mappings_ok_def find_key_map_of split: option.split)

lemma simple_map_cases:
  assumes "mappings_ok C S"
  obtains "simple_map C S c = c" "map_of C c = None" "map_of S c = None" | "isCodePoint c" "isCodePoint (simple_map C S c)"
proof (cases "map_of C c = None \<and> map_of S c = None")
  case False
  have in_range: "isCodePoint c \<and> isCodePoint a" if "map_of C c = Some a \<or> map_of S c = Some a" for a
    using that assms map_of_SomeD by (fastforce simp: mappings_ok_def list_all_iff)
  have "isCodePoint c \<and> isCodePoint (simple_map C S c)"
    using False in_range by (auto simp: simple_map_def split: option.split)
  with that(2) show thesis by blast
qed (use that(1) in \<open>simp add: simple_map_def\<close>)

definition entry_of :: "mapping_table \<Rightarrow> mapping_table \<Rightarrow> int \<Rightarrow> int" where
  "entry_of C S c = (simple_map C S c - c) * 2 + entry_bit (map_type C S c)"

lemma delta_bounds: "mappings_ok C S \<Longrightarrow> - (2 ^ 30) \<le> simple_map C S c - c \<and> simple_map C S c - c < 2 ^ 30"
  by (erule simple_map_cases [of C S c]) (simp_all add: isCodePoint_def CODE_POINT_MAX_def)

lemma computeFoldEntry_total: "mappings_ok C S \<Longrightarrow> computeFoldEntry C S c = Some (entry_of C S c)"
  using delta_bounds [of C S c] by (auto simp: computeFoldEntry_def gen_lookup_map entry_of_def Let_def)

definition block_of :: "mapping_table \<Rightarrow> mapping_table \<Rightarrow> nat \<Rightarrow> u32 list" where
  "block_of C S index = map (\<lambda>j. word_of_int (entry_of C S (int (index * FOLD_BLOCK_SIZE + j)))) [0..<FOLD_BLOCK_SIZE]"

lemma those_Some: "those (map (\<lambda>x. Some (f x)) xs) = Some (map f xs)"
  by (induction xs) simp_all

lemma newBlock_total: "mappings_ok C S \<Longrightarrow> newBlock C S index = Some (block_of C S index)"
  by (simp add: newBlock_def computeFoldEntry_total those_Some block_of_def o_def)

lemma length_block_of [simp]: "length (block_of C S i) = FOLD_BLOCK_SIZE"
  by (simp add: block_of_def)

text \<open>The block map leads to the blocks it stands for.\<close>

definition map_leads :: "(u32 list \<rightharpoonup> u16) \<Rightarrow> u32 list list \<Rightarrow> bool" where
  "map_leads m bs \<longleftrightarrow> (\<forall>b k. m b = Some k \<longrightarrow> unat k < length bs \<and> bs ! unat k = b)"

definition leads_to :: "byte \<Rightarrow> u32 list list \<Rightarrow> u32 list \<Rightarrow> bool" where
  "leads_to k bs b \<longleftrightarrow> unat k < length bs \<and> bs ! unat k = b"

lemma leads_to_append: "leads_to k bs b \<Longrightarrow> leads_to k (bs @ ext) b"
  by (simp add: leads_to_def nth_append)

lemma unat_small: "n < 2 ^ 8 \<Longrightarrow> unat (ucast (of_nat n :: u16) :: byte) = n \<and> unat (of_nat n :: u16) = n"
  by (simp add: unsigned_ucast_eq take_bit_eq_mod unat_of_nat)

lemma unat_ucast_small: "unat (k :: u16) < 2 ^ 8 \<Longrightarrow> unat (ucast k :: byte) = unat k"
  by (simp add: unsigned_ucast_eq take_bit_eq_mod)

lemma create_loop_grows: "create_blocks C S is (ix, bs, m) = Some (ix', bs', m') \<Longrightarrow> length bs \<le> length bs'"
  by (induction "is" arbitrary: ix bs m) (fastforce split: option.splits simp: Let_def)+

lemma create_loop_total: "mappings_ok C S \<Longrightarrow> \<exists>r. create_blocks C S is st = Some r"
proof (induction "is" arbitrary: st)
  case (Cons i "is")
  obtain ix bs m where "st = (ix, bs, m)" by (cases st)
  with Cons newBlock_total [OF Cons.prems] show ?case by (simp add: Let_def split: option.split)
qed (simp only: create_blocks.simps option.inject, rule exI, rule refl)

lemma create_loop_spec:
  assumes "mappings_ok C S"
  shows "create_blocks C S is (ix, bs, m) = Some (ix', bs', m') \<Longrightarrow> length bs' \<le> 2 ^ 8 \<Longrightarrow> map_leads m bs \<Longrightarrow>
      distinct is \<Longrightarrow> \<forall>i\<in>set is. i < length ix \<Longrightarrow>
    (\<exists>ext. bs' = bs @ ext) \<and> length ix' = length ix \<and> (\<forall>i. i \<notin> set is \<longrightarrow> ix' ! i = ix ! i) \<and>
    (\<forall>i\<in>set is. leads_to (ix' ! i) bs' (block_of C S i)) \<and> (\<forall>b\<in>set bs'. b \<in> set bs \<or> length b = FOLD_BLOCK_SIZE)"
proof (induction "is" arbitrary: ix bs m)
  case (Cons i "is")
  let ?b = "block_of C S i"
  define goal where "goal ix1 bs1 \<longleftrightarrow> (\<exists>ext. bs' = bs1 @ ext) \<and> length ix' = length ix1 \<and> (\<forall>j. j \<notin> set is \<longrightarrow> ix' ! j = ix1 ! j) \<and>
    (\<forall>j\<in>set is. leads_to (ix' ! j) bs' (block_of C S j)) \<and> (\<forall>b\<in>set bs'. b \<in> set bs1 \<or> length b = FOLD_BLOCK_SIZE)" for ix1 bs1
  have i: "i < length ix" "i \<notin> set is" "distinct is" "\<forall>j\<in>set is. j < length (ix[i := k])" for k using Cons.prems(4,5) by auto
  have step: "?case" if g: "goal (ix[i := k]) (bs @ ext)" and l: "leads_to k bs' ?b" and ext: "\<forall>b\<in>set ext. length b = FOLD_BLOCK_SIZE" for k ext
  proof -
    have "ix' ! i = k" using g i by (simp add: goal_def)
    with g l ext i show ?thesis unfolding goal_def by auto
  qed
  show ?case
  proof (cases "m ?b")
    case (Some k)
    with Cons.prems(1) newBlock_total [OF assms] have "create_blocks C S is (ix[i := ucast k], bs, m) = Some (ix', bs', m')" by simp
    from Cons.IH [OF this Cons.prems(2,3) i(3,4)] have g: "goal (ix[i := ucast k]) bs" unfolding goal_def .
    have k: "unat k < length bs" "bs ! unat k = ?b" using Some Cons.prems(3) by (auto simp: map_leads_def)
    moreover have "length bs \<le> 2 ^ 8" using g Cons.prems(2) by (auto simp: goal_def)
    ultimately have "leads_to (ucast k) bs ?b" using unat_ucast_small [of k] by (simp add: leads_to_def)
    then have "leads_to (ucast k) bs' ?b" using g leads_to_append unfolding goal_def by blast
    with step [of "ucast k" "[]"] g show ?thesis by simp
  next
    case None
    let ?k = "of_nat (length bs) :: u16"
    from None Cons.prems(1) newBlock_total [OF assms]
    have c: "create_blocks C S is (ix[i := ucast ?k], bs @ [?b], m(?b \<mapsto> ?k)) = Some (ix', bs', m')" by (simp add: Let_def)
    show ?thesis
    proof (cases "length bs < 2 ^ 8")
      case True
      note k = unat_small [OF True]
      have "map_leads (m(?b \<mapsto> ?k)) (bs @ [?b])" using Cons.prems(3) k by (auto simp: map_leads_def nth_append less_SucI)
      from Cons.IH [OF c Cons.prems(2) this i(3,4)] have g: "goal (ix[i := ucast ?k]) (bs @ [?b])" unfolding goal_def .
      have "leads_to (ucast ?k) (bs @ [?b]) ?b" using k by (simp add: leads_to_def)
      then have "leads_to (ucast ?k) bs' ?b" using g leads_to_append unfolding goal_def by blast
      with step [of "ucast ?k" "[?b]"] g show ?thesis by simp
    next
      case False
      with create_loop_grows [OF c] Cons.prems(2) show ?thesis by simp
    qed
  qed
qed simp


lemma computeMax_bounds:
  assumes "mappings_ok C S"
  shows "0 \<le> computeMaxFoldCodePoint C S" "computeMaxFoldCodePoint C S < c \<Longrightarrow> simple_map C S c = c \<and> map_of C c = None"
proof -
  let ?m = "computeMaxFoldCodePoint C S"
  have le: "foldl (\<lambda>m e. max m (fst e)) a xs \<ge> a \<and> (\<forall>e\<in>set xs. fst e \<le> foldl (\<lambda>m e. max m (fst e)) a xs)"
    for a :: int and xs :: mapping_table
  proof (induction xs arbitrary: a)
    case (Cons x xs)
    from Cons [of "max a (fst x)"] show ?case by auto
  qed simp
  then show "0 \<le> ?m" unfolding computeMaxFoldCodePoint_def by (meson order_trans)
  have "\<forall>e\<in>set C \<union> set S. fst e \<le> ?m" using le unfolding computeMaxFoldCodePoint_def by (meson Un_iff order_trans)
  then have "map_of C c = None \<and> map_of S c = None" if "?m < c" using that by (force simp: map_of_eq_None_iff)
  then show "simple_map C S c = c \<and> map_of C c = None" if "?m < c" using that by (simp add: simple_map_def)
qed

lemma fold_block_count_ge: "mx \<le> int (fold_block_count N mx * FOLD_BLOCK_SIZE)"
proof (induction N mx rule: fold_block_count.induct)
  case (1 N mx)
  then show ?case by (subst fold_block_count.simps) (simp add: fold_block_count.simps [of N mx])
qed

lemma concat_blocks:
  "\<forall>b\<in>set bs. length b = n \<Longrightarrow> i < length bs \<Longrightarrow> j < n \<Longrightarrow> concat bs ! (i * n + j) = bs ! i ! j"
proof (induction bs arbitrary: i)
  case (Cons b bs)
  then show ?case by (cases i) (simp_all add: nth_append)
qed simp

text \<open>Two bits of an entry and the distance are independent.\<close>

lemma even_part: "(word_of_int (d * 2 + e) :: u32) AND NOT 1 = word_of_int (d * 2)" if "e = 0 \<or> e = 1" for d e :: int
proof -
  have "(d * 2 + e) AND NOT 1 = d * 2"
  proof (rule bit_eqI)
    fix n
    show "bit ((d * 2 + e) AND NOT 1) n \<longleftrightarrow> bit (d * 2) n"
      unfolding bit_and_iff bit_not_int_iff bit_1_iff using that by (cases n) (auto simp: bit_0 bit_Suc)
  qed
  then show ?thesis by (metis of_int_and_eq of_int_not_eq of_int_1)
qed

lemma fold_delta_entry:
  assumes "- (2 ^ 30) \<le> d" "d < 2 ^ 30" "e = 0 \<or> e = 1"
  shows "fold_delta (word_of_int (d * 2 + e)) = d" "(word_of_int (d * 2 + e) :: u32) AND 1 = 0 \<longleftrightarrow> e = 0"
proof -
  have "sint (word_of_int (d * 2) :: u32) = d * 2"
    unfolding sint_sbintrunc' using assms(1,2) by (simp add: signed_take_bit_int_eq_self_iff)
  then show "fold_delta (word_of_int (d * 2 + e)) = d"
    unfolding fold_delta_def even_part [OF assms(3)] by (simp add: signed_divide_int_def sgn_mult abs_mult mult_sgn_abs)
  show "(word_of_int (d * 2 + e) :: u32) AND 1 = 0 \<longleftrightarrow> e = 0"
  proof -
    have "(word_of_int (d * 2 + e) :: u32) AND 1 = word_of_int ((d * 2 + e) AND 1)" by (metis of_int_and_eq of_int_1)
    moreover have "(d * 2 + e) AND 1 = e" using assms(3) by (auto simp: and_one_eq)
    ultimately show ?thesis using assms(3) by auto
  qed
qed


lemma fold_create_spec:
  assumes ok: "mappings_ok C S" and T: "fold_create C S = Some T" "length (fold_blocks T) \<le> 2 ^ 8"
  shows "maxFoldCodePoint T = computeMaxFoldCodePoint C S"
    and "length (blockIndexes T) = fold_block_count 1 (computeMaxFoldCodePoint C S)"
    and "\<forall>i < length (blockIndexes T). leads_to (blockIndexes T ! i) (fold_blocks T) (block_of C S i)"
    and "\<forall>b\<in>set (fold_blocks T). length b = FOLD_BLOCK_SIZE"
proof -
  let ?z = "replicate FOLD_BLOCK_SIZE 0 :: u32 list" and ?N = "fold_block_count 1 (computeMaxFoldCodePoint C S)"
  obtain m where l: "create_blocks C S [0..<?N] (replicate ?N 0, [?z], [?z \<mapsto> 0]) = Some (blockIndexes T, fold_blocks T, m)"
    and mx: "maxFoldCodePoint T = computeMaxFoldCodePoint C S"
    using T(1) by (auto simp: fold_create_def Let_def)
  have "map_leads [?z \<mapsto> 0] [?z]" by (simp add: map_leads_def)
  from create_loop_spec [OF ok l T(2) this] mx
  show "maxFoldCodePoint T = computeMaxFoldCodePoint C S" "length (blockIndexes T) = ?N"
    "\<forall>i < length (blockIndexes T). leads_to (blockIndexes T ! i) (fold_blocks T) (block_of C S i)"
    "\<forall>b\<in>set (fold_blocks T). length b = FOLD_BLOCK_SIZE" by auto
qed

text \<open>The entry the reader finds, for a table with at most 256 blocks, whose last code point does not
  start a block.\<close>

definition table_fits :: "FoldTable \<Rightarrow> bool" where
  "table_fits T \<longleftrightarrow> length (fold_blocks T) \<le> 2 ^ 8 \<and> maxFoldCodePoint T mod int FOLD_BLOCK_SIZE \<noteq> 0"

lemma lookup_entry:
  assumes ok: "mappings_ok C S" and T: "fold_create C S = Some T" "table_fits T"
    and H: "H = emit_header T U F X" and c: "isSimpleCaseFoldTarget H c"
  shows "nat c div 2 ^ FOLD_SHIFT < length (simple_case_fold_block_indexes H) \<and>
    lookupSimpleCaseFoldEntry H (nat c) = word_of_int (entry_of C S c)"
proof -
  note s = fold_create_spec [OF ok T(1) conjunct1 [OF T(2) [unfolded table_fits_def]]]
  let ?q = "nat c div FOLD_BLOCK_SIZE" and ?r = "nat c mod FOLD_BLOCK_SIZE" and ?mx = "computeMaxFoldCodePoint C S"
  have c': "0 \<le> c" "c \<le> ?mx" using c H s(1) by (auto simp: isSimpleCaseFoldTarget_def emit_header_def)
  have "?mx \<noteq> int (length (blockIndexes T) * FOLD_BLOCK_SIZE)" using T(2) s(1) by (auto simp: table_fits_def)
  then have "nat c < length (blockIndexes T) * FOLD_BLOCK_SIZE"
    using fold_block_count_ge [of ?mx 1, folded s(2)] c' by linarith
  then have q: "?q < length (blockIndexes T)" by (simp add: less_mult_imp_div_less)
  then have l: "leads_to (blockIndexes T ! ?q) (fold_blocks T) (block_of C S ?q)" using s(3) by blast
  have r: "?r < FOLD_BLOCK_SIZE" by (simp add: FOLD_BLOCK_SIZE_def)
  have "concat (fold_blocks T) ! (unat (blockIndexes T ! ?q) * FOLD_BLOCK_SIZE + ?r) = block_of C S ?q ! ?r"
    using concat_blocks [OF s(4) _ r, of "unat (blockIndexes T ! ?q)"] l by (simp add: leads_to_def)
  moreover have "block_of C S ?q ! ?r = word_of_int (entry_of C S (int (?q * FOLD_BLOCK_SIZE + ?r)))"
    using r unfolding block_of_def by (subst nth_map) simp_all
  ultimately show ?thesis
    using q c'(1) H unfolding div_mult_mod_eq by (simp add: lookupSimpleCaseFoldEntry_def emit_header_def FOLD_BLOCK_SIZE_def)
qed

section \<open>Folding\<close>

lemma entry_bit_cases: "entry_bit t = 0 \<or> entry_bit t = 1"
  by (cases t) simp_all

text \<open>The folding of the database: Turkic mappings when asked for, then full or simple ones.\<close>

definition database_fold :: "mapping_table \<Rightarrow> mapping_table \<Rightarrow> (int \<times> u16 list) list \<Rightarrow> (u16 \<times> u16) list \<Rightarrow> int \<Rightarrow> byte
    \<Rightarrow> CaseFoldingResult" where
  "database_fold C S F T c op =
     (if hasFlag op TURKIC \<and> turkic_find T c \<noteq> None then SimpleFolding (uint (the (turkic_find T c)))
      else if \<not> hasFlag op FULL_FOLD then SimpleFolding (simple_map C S c)
      else case map_of F c of
        Some folds \<Rightarrow> FullFolding folds
      | None \<Rightarrow> (case map_of C c of Some a \<Rightarrow> SimpleFolding a | None \<Rightarrow> SimpleFolding c))"

lemma simple_folding_database:
  assumes "mappings_ok C S" "fold_create C S = Some T" "table_fits T"
  shows "doSimpleCaseFolding (emit_header T U F X) c = simple_map C S c"
proof (cases "isSimpleCaseFoldTarget (emit_header T U F X) c")
  case True
  from lookup_entry [OF assms refl this] fold_delta_entry(1) [of "simple_map C S c - c"] delta_bounds [OF assms(1)] entry_bit_cases
  show ?thesis using True by (simp add: doSimpleCaseFolding_def entry_of_def)
next
  case False
  then have "c < 0 \<or> computeMaxFoldCodePoint C S < c"
    using fold_create_spec(1) [OF assms(1,2)] assms(3) by (auto simp: isSimpleCaseFoldTarget_def emit_header_def table_fits_def)
  then have "simple_map C S c = c"
  proof
    assume "c < 0"
    then show ?thesis by (rule_tac simple_map_cases [OF assms(1), of c]) (auto simp: isCodePoint_def)
  qed (use computeMax_bounds(2) [OF assms(1)] in blast)
  with False show ?thesis by (simp add: doSimpleCaseFolding_def)
qed


lemma full_folding_database:
  assumes "mappings_ok C S" "fold_create C S = Some T" "table_fits T" "keys_sorted F" "F \<noteq> []"
  shows "full_fold (emit_header T U F X) c =
    (case map_of F c of Some folds \<Rightarrow> FullFolding folds
     | None \<Rightarrow> (case map_of C c of Some a \<Rightarrow> SimpleFolding a | None \<Rightarrow> SimpleFolding c))"
proof -
  let ?H = "emit_header T U F X"
  have "map_of F c = None" if "fst (last F) < c"
  proof -
    have "fst e \<le> fst (last F)" if "e \<in> set F" for e
      using that keys_sorted_le [OF assms(4)] by (induction F) auto
    with \<open>fst (last F) < c\<close> show ?thesis by (force simp: map_of_eq_None_iff)
  qed
  then have F: "(if c \<le> fst (last F) then find_key F c else None) = map_of F c"
    using find_key_map_of [OF assms(4)] by auto
  have k: "(if isSimpleCaseFoldTarget ?H c
     then (let entry = lookupSimpleCaseFoldEntry ?H (nat c) in
           if entry AND 1 = 0 then SimpleFolding (c + fold_delta entry) else SimpleFolding c)
     else SimpleFolding c) = (case map_of C c of Some a \<Rightarrow> SimpleFolding a | None \<Rightarrow> SimpleFolding c)"
  proof (cases "isSimpleCaseFoldTarget ?H c")
    case True
    let ?d = "simple_map C S c - c" and ?e = "entry_bit (map_type C S c)"
    have l: "lookupSimpleCaseFoldEntry ?H (nat c) = word_of_int (?d * 2 + ?e)"
      using lookup_entry [OF assms(1-3) refl True] by (simp add: entry_of_def)
    note e = fold_delta_entry [of ?d ?e, OF _ _ entry_bit_cases]
    have "?e = 0 \<longleftrightarrow> \<not> (map_of C c = None \<and> map_of S c \<noteq> None)" by (simp add: map_type_def)
    then show ?thesis
      unfolding l Let_def using True e delta_bounds [OF assms(1), of c] by (auto simp: simple_map_def split: option.splits)
  next
    case False
    then have "c < 0 \<or> computeMaxFoldCodePoint C S < c"
      using fold_create_spec(1) [OF assms(1,2)] assms(3) by (auto simp: isSimpleCaseFoldTarget_def emit_header_def table_fits_def)
    then have "map_of C c = None"
    proof
      assume "c < 0"
      then show ?thesis by (rule_tac simple_map_cases [OF assms(1), of c]) (auto simp: isCodePoint_def)
    qed (use computeMax_bounds(2) [OF assms(1)] in blast)
    with False show ?thesis by simp
  qed
  have eqF: "case_fold_F_table ?H = F" by (simp add: emit_header_def)
  show ?thesis unfolding full_fold_def eqF F k by (rule refl)
qed

text \<open>C8. Case folding: the generator succeeds on the mappings of the Unicode database, and when its table has at
  most 256 blocks and the last folded code point does not start a block, reading the generated table
  gives for every code point exactly the folding of the database: the Turkic mapping when asked
  for, else the full mapping or the common one, else the simple mapping.\<close>

theorem case_folding_exact:
  assumes "mappings_ok C S" "keys_sorted F" "F \<noteq> []"
  shows "\<exists>T. fold_create C S = Some T \<and> (table_fits T \<longrightarrow>
    doSimpleCaseFolding (emit_header T (createUnfoldTable C S) F X) c = simple_map C S c \<and>
    doCaseFolding (emit_header T (createUnfoldTable C S) F X) c op = database_fold C S F X c op)"
proof -
  obtain T where T: "fold_create C S = Some T"
    using create_loop_total [OF assms(1)] by (fastforce simp: fold_create_def Let_def)
  have "doCaseFolding (emit_header T U F X) c op = database_fold C S F X c op" if "table_fits T" for U
    using full_folding_database [OF assms(1) T that assms(2,3), of U X c] simple_folding_database [OF assms(1) T that, of U F X c]
    by (auto simp: doCaseFolding_def database_fold_def emit_header_def split: option.splits)
  with T simple_folding_database [OF assms(1) T] show ?thesis by blast
qed

section \<open>Unfolding\<close>

lemma simple_map_mem:
  assumes "mappings_ok C S" "list_all (\<lambda>(b, a). b \<noteq> a) (C @ S)"
  shows "(b, a) \<in> set C \<union> set S \<longleftrightarrow> b \<noteq> a \<and> simple_map C S b = a"
proof
  assume m: "(b, a) \<in> set C \<union> set S"
  then have "b \<noteq> a" using assms(2) by (auto simp: list_all_iff)
  moreover have "map_of C b = Some a \<or> map_of S b = Some a \<and> map_of C b = None"
    using m assms(1) keys_sorted_distinct by (force simp: mappings_ok_def map_of_eq_None_iff intro: map_of_is_SomeI)
  ultimately show "b \<noteq> a \<and> simple_map C S b = a" by (auto simp: simple_map_def)
next
  assume "b \<noteq> a \<and> simple_map C S b = a"
  then show "(b, a) \<in> set C \<union> set S" by (auto simp: simple_map_def split: option.splits dest: map_of_SomeD)
qed

text \<open>C9. Case unfolding is the inverse of simple folding: the entries \<open>doSimpleCaseUnfold\<close> returns for a code
  point are exactly the other code points that fold to it, paired with it, without duplicates.\<close>

theorem case_unfold_inverse:
  assumes "mappings_ok C S" "list_all (\<lambda>(b, a). b \<noteq> a) (C @ S)" "fold_create C S = Some T" "table_fits T"
    and "H = emit_header T (createUnfoldTable C S) F X"
  shows "set (doSimpleCaseUnfold H c) = {(c, b) |b. b \<noteq> c \<and> doSimpleCaseFolding H b = c} \<and> distinct (doSimpleCaseUnfold H c)"
proof -
  have H: "simple_case_unfold_table H = createUnfoldTable C S" using assms(5) by (simp add: emit_header_def)
  have u: "doSimpleCaseUnfold H c = filter (\<lambda>e. fst e = c) (createUnfoldTable C S)"
    using doSimpleCaseUnfold_filter [of H c] H by (simp add: createUnfoldTable_def)
  have d: "distinct (map fst C)" "distinct (map fst S)"
    using assms(1) keys_sorted_distinct by (auto simp: mappings_ok_def)
  note mem = simple_map_mem [OF assms(1,2)]
  have "set (doSimpleCaseUnfold H c) = {(c, b) |b. (b, c) \<in> set C \<union> set S}"
    unfolding u by (auto simp: createUnfoldTable_def)
  moreover have "doSimpleCaseFolding H b = simple_map C S b" for b
    unfolding assms(5) by (rule simple_folding_database [OF assms(1,3,4)])
  moreover have "distinct (C @ S)" using assms(1) d by (auto simp: mappings_ok_def distinct_map)
  then have "distinct (createUnfoldTable C S)"
    by (auto simp: createUnfoldTable_def distinct_map inj_on_def)
  ultimately show ?thesis unfolding u using mem by auto
qed


section \<open>Sample mappings\<close>

text \<open>Two common mappings, and a code point with a simple and a full mapping.\<close>

definition C_sample :: mapping_table where
  "C_sample = [(0x41, 0x61), (0x42, 0x62)]"

definition S_sample :: mapping_table where
  "S_sample = [(0x5F, 0x5E)]"

definition F_sample :: "(int \<times> u16 list) list" where
  "F_sample = [(0x5F, [0x73, 0x73, 0])]"

lemma sample_mappings: "mappings_ok C_sample S_sample" "keys_sorted F_sample" "F_sample \<noteq> []"
  by (simp_all add: mappings_ok_def keys_sorted_def C_sample_def S_sample_def F_sample_def code_point_defs)

lemma sample_table:
  "map_option (\<lambda>T. (length (fold_blocks T), blockIndexes T, maxFoldCodePoint T)) (fold_create C_sample S_sample) =
     Some (2, [0, 0, 1], 0x5F)"
  by code_simp

lemma sample_fits: "fold_create C_sample S_sample = Some T \<Longrightarrow> table_fits T"
  using sample_table by (auto simp: table_fits_def FOLD_BLOCK_SIZE_def FOLD_SHIFT_def)

theorem case_folding_exact_witness:
  "\<exists>T. fold_create C_sample S_sample = Some T \<and>
     doSimpleCaseFolding (emit_header T (createUnfoldTable C_sample S_sample) F_sample []) 0x42 = 0x62 \<and>
     doCaseFolding (emit_header T (createUnfoldTable C_sample S_sample) F_sample []) 0x5F FULL_FOLD = FullFolding [0x73, 0x73, 0]"
proof -
  note t = case_folding_exact [OF sample_mappings, where X = "[]"]
  obtain T where T: "fold_create C_sample S_sample = Some T"
    "doSimpleCaseFolding (emit_header T (createUnfoldTable C_sample S_sample) F_sample []) 0x42 = simple_map C_sample S_sample 0x42"
    using t [of "0x42" 0] sample_fits by blast
  moreover have "doCaseFolding (emit_header T (createUnfoldTable C_sample S_sample) F_sample []) 0x5F FULL_FOLD =
      database_fold C_sample S_sample F_sample [] 0x5F FULL_FOLD"
    using t [of "0x5F" FULL_FOLD] T(1) sample_fits by auto
  moreover have "simple_map C_sample S_sample 0x42 = 0x62" by code_simp
  moreover have "database_fold C_sample S_sample F_sample [] 0x5F FULL_FOLD = FullFolding [0x73, 0x73, 0]" by code_simp
  ultimately show ?thesis by auto
qed

theorem case_unfold_inverse_witness:
  "\<exists>T. fold_create C_sample S_sample = Some T \<and>
     (0x61, 0x41) \<in> set (doSimpleCaseUnfold (emit_header T (createUnfoldTable C_sample S_sample) F_sample []) 0x61)"
proof -
  obtain T where T: "fold_create C_sample S_sample = Some T" using sample_table by (cases "fold_create C_sample S_sample") auto
  have n: "list_all (\<lambda>(b, a). b \<noteq> a) (C_sample @ S_sample)" by code_simp
  note u = case_unfold_inverse [OF sample_mappings(1) n T sample_fits [OF T] refl, of F_sample "[]"]
  have "simple_map C_sample S_sample 0x41 = 0x61" by code_simp
  then have "doSimpleCaseFolding (emit_header T (createUnfoldTable C_sample S_sample) F_sample []) 0x41 = 0x61"
    using simple_folding_database [OF sample_mappings(1) T sample_fits [OF T]] by simp
  with T conjunct1 [OF u, of "0x61"] show ?thesis by auto
qed

end
