(* ===== verification/Str_Set.thy ===== *)
theory Str_Set
  imports Set_Builder Regex_Node Regex_Input
begin

text \<open>
  \<open>StrSetBuilder\<close> of \<open>regex/transform.h\<close> and \<open>regex/transform.cpp\<close>: the sets of strings a character class may
  denote. A set is spread over four parts, a set of code points, a radix tree of strings, the kinds of
  emoji sequences whose members are in the emoji trie, and a flag for the empty string; the operations
  move strings between the parts. The emoji trie is a generated table and an argument.
\<close>

section \<open>The builder\<close>

record StrSetBuilder =
  ss_codePoints :: CodePointSetBuilder
  ss_radix :: RadixTree
  ss_emoji :: byte
  ss_emptySeq :: bool

definition unsetFlag :: "byte \<Rightarrow> byte \<Rightarrow> byte" where
  "unsetFlag x y = x AND NOT y"

definition newStrSet :: "bool \<Rightarrow> StrSetBuilder" where
  "newStrSet ignoreCase = \<lparr>ss_codePoints = empty_builder, ss_radix = empty_radix,
     ss_emoji = (if ignoreCase then setFlag 0 RGI_CASE_IGNORE else 0), ss_emptySeq = False\<rparr>"

definition hasEmoji :: "byte \<Rightarrow> bool" where
  "hasEmoji emoji \<longleftrightarrow> unsetFlag emoji RGI_CASE_IGNORE \<noteq> 0"

text \<open>\<open>CodePointSetBuilder::operator bool\<close>\<close>

definition builder_nonempty :: "CodePointSetBuilder \<Rightarrow> bool" where
  "builder_nonempty b \<longleftrightarrow> codePointRanges b \<noteq> []"

definition trie_find :: "PackedRadixTree \<Rightarrow> bytes \<Rightarrow> byte" where
  "trie_find E ref = (case packed_find E ref of Some p \<Rightarrow> p | None \<Rightarrow> 0)"

definition findFromEmoji :: "PackedRadixTree \<Rightarrow> byte \<Rightarrow> bytes \<Rightarrow> bool" where
  "findFromEmoji E emoji ref \<longleftrightarrow> (let p = trie_find E ref in p \<noteq> 0 \<and> hasFlag emoji p)"

definition inEmoji :: "PackedRadixTree \<Rightarrow> StrSetBuilder \<Rightarrow> bytes \<Rightarrow> bool" where
  "inEmoji E b ref \<longleftrightarrow> hasEmoji (ss_emoji b) \<and> findFromEmoji E (ss_emoji b) ref"

text \<open>A walk that stops when the walker returns false.\<close>

fun walk :: "('x \<Rightarrow> 's \<Rightarrow> bool \<times> 's) \<Rightarrow> 'x list \<Rightarrow> 's \<Rightarrow> 's" where
  "walk f [] s = s"
| "walk f (x # xs) s = (case f x s of (True, s') \<Rightarrow> walk f xs s' | (False, s') \<Rightarrow> s')"

definition iterateCodes :: "CodePointSetBuilder \<Rightarrow> (bytes \<times> int) list" where
  "iterateCodes b = map (\<lambda>c. (codePointToUtf8 c, c)) (range_codes (fst (toCompactArrayRef b)))"

definition iterateEmoji :: "PackedRadixTree \<Rightarrow> byte \<Rightarrow> bytes list" where
  "iterateEmoji E emoji =
     (if hasEmoji emoji then map fst (filter (\<lambda>(ref, p). hasFlag emoji p) (packed_strings E)) else [])"

definition radix_strings :: "RadixTree \<Rightarrow> (bytes \<times> byte) list" where
  "radix_strings t = radix_iterate [] t"

definition addCodePoint :: "StrSetBuilder \<Rightarrow> int \<Rightarrow> StrSetBuilder" where
  "addCodePoint b c = b\<lparr>ss_codePoints := addRange (\<lambda>c. c) (ss_codePoints b) c c False\<rparr>"

definition addEmoji :: "StrSetBuilder \<Rightarrow> byte \<Rightarrow> StrSetBuilder" where
  "addEmoji b e = b\<lparr>ss_emoji := setFlag (ss_emoji b) e\<rparr>"

definition addString :: "PackedRadixTree \<Rightarrow> StrSetBuilder \<Rightarrow> bytes \<Rightarrow> byte \<Rightarrow> StrSetBuilder" where
  "addString E b ref p = (if inEmoji E b ref then b else b\<lparr>ss_radix := snd (radix_add (ss_radix b) ref p)\<rparr>)"

definition addStrSet :: "PackedRadixTree \<Rightarrow> StrSetBuilder \<Rightarrow> StrSetBuilder \<Rightarrow> StrSetBuilder" where
  "addStrSet E this builder =
     (let this1 = addEmoji this (ss_emoji builder);
          this2 = (if ss_emptySeq builder then this1\<lparr>ss_emptySeq := True\<rparr> else this1);
          this3 = this2\<lparr>ss_codePoints := addBuilder (ss_codePoints this2) (ss_codePoints builder)\<rparr>
      in foldl (\<lambda>b (ref, p). addString E b ref p) this3 (radix_strings (ss_radix builder)))"

definition mergeEmoji :: "PackedRadixTree \<Rightarrow> byte \<Rightarrow> RadixTree \<Rightarrow> byte \<times> RadixTree" where
  "mergeEmoji E emoji radixTree = (0, foldl (\<lambda>t ref. snd (radix_add t ref 1)) radixTree (iterateEmoji E emoji))"

definition tryToCodePoint :: "bytes \<Rightarrow> int option" where
  "tryToCodePoint ref =
     (let (len, codePoint) = wtf8ToCodePoint ref in if len \<noteq> 0 \<and> len = length ref then Some codePoint else None)"

section \<open>Intersection\<close>

text \<open>The strings of a list that satisfy a test go to the radix tree, or as code points to the set.\<close>

definition addRadixIf :: "(bytes \<Rightarrow> bool) \<Rightarrow> bytes list \<Rightarrow> StrSetBuilder \<Rightarrow> StrSetBuilder" where
  "addRadixIf test refs b =
     foldl (\<lambda>b ref. if test ref then b\<lparr>ss_radix := snd (radix_add (ss_radix b) ref 1)\<rparr> else b) b refs"

definition addCodesIf :: "(bytes \<Rightarrow> bool) \<Rightarrow> (bytes \<times> int) list \<Rightarrow> StrSetBuilder \<Rightarrow> StrSetBuilder" where
  "addCodesIf test codes b = foldl (\<lambda>b (ref, c). if test ref then addCodePoint b c else b) b codes"

definition addContained :: "CodePointSetRef \<Rightarrow> bytes list \<Rightarrow> StrSetBuilder \<Rightarrow> StrSetBuilder" where
  "addContained cset refs b =
     foldl (\<lambda>b ref. case tryToCodePoint ref of
        Some c \<Rightarrow> if set_contains cset c then addCodePoint b c else b
      | None \<Rightarrow> b) b refs"

definition intersectEmoji :: "PackedRadixTree \<Rightarrow> StrSetBuilder \<Rightarrow> StrSetBuilder \<Rightarrow> StrSetBuilder \<Rightarrow> StrSetBuilder" where
  "intersectEmoji E this builder newBuilder =
     (if hasEmoji (ss_emoji this)
      then addCodesIf (findFromEmoji E (ss_emoji this)) (iterateCodes (ss_codePoints builder))
             (addRadixIf (findFromEmoji E (ss_emoji this)) (map fst (radix_strings (ss_radix builder))) newBuilder)
      else newBuilder)"

definition intersectRadix :: "PackedRadixTree \<Rightarrow> StrSetBuilder \<Rightarrow> StrSetBuilder \<Rightarrow> StrSetBuilder \<Rightarrow> StrSetBuilder" where
  "intersectRadix E this builder newBuilder =
     (let stored = (\<lambda>ref. radix_find (ss_radix this) ref \<noteq> 0) in
      if \<not> radix_empty (ss_radix this)
      then addCodesIf stored (iterateCodes (ss_codePoints builder))
             (addRadixIf stored (map fst (radix_strings (ss_radix builder)))
               (addRadixIf stored (iterateEmoji E (ss_emoji builder)) newBuilder))
      else newBuilder)"

definition intersectCodes :: "PackedRadixTree \<Rightarrow> StrSetBuilder \<Rightarrow> StrSetBuilder \<Rightarrow> StrSetBuilder \<Rightarrow> StrSetBuilder" where
  "intersectCodes E this builder newBuilder =
     (if builder_nonempty (ss_codePoints this)
      then (let cset = fst (build (ss_codePoints this));
                new1 = addContained cset (map fst (radix_strings (ss_radix builder)))
                         (addContained cset (iterateEmoji E (ss_emoji builder)) newBuilder)
            in if builder_nonempty (ss_codePoints builder)
               then new1\<lparr>ss_codePoints := addBuilder (ss_codePoints new1)
                           (intersect (ss_codePoints this) (ss_codePoints builder))\<rparr>
               else new1)
      else newBuilder)"

definition intersectStrSet :: "PackedRadixTree \<Rightarrow> StrSetBuilder \<Rightarrow> StrSetBuilder \<Rightarrow> StrSetBuilder" where
  "intersectStrSet E this builder =
     (let ignoreCase = hasFlag (ss_emoji this) RGI_CASE_IGNORE;
          new0 = (newStrSet ignoreCase)\<lparr>ss_emptySeq := ss_emptySeq this \<and> ss_emptySeq builder\<rparr>;
          emoji = ss_emoji this AND ss_emoji builder;
          new1 = new0\<lparr>ss_emoji := (if ignoreCase then setFlag emoji RGI_CASE_IGNORE else emoji)\<rparr>
      in intersectCodes E this builder (intersectRadix E this builder (intersectEmoji E this builder new1)))"

section \<open>Difference\<close>

text \<open>The first string of the other set that an emoji kind of this set has makes the walk copy all its emoji
  strings to the radix tree.\<close>

definition mergeIfFound :: "PackedRadixTree \<Rightarrow> bytes list \<Rightarrow> StrSetBuilder \<Rightarrow> StrSetBuilder" where
  "mergeIfFound E refs this =
     (if hasEmoji (ss_emoji this)
      then walk (\<lambda>ref b.
             if findFromEmoji E (ss_emoji b) ref
             then (let (e, t) = mergeEmoji E (ss_emoji b) (ss_radix b) in (False, b\<lparr>ss_emoji := e, ss_radix := t\<rparr>))
             else (True, b)) refs this
      else this)"

definition removeStrings :: "bytes list \<Rightarrow> RadixTree \<Rightarrow> RadixTree" where
  "removeStrings refs t =
     (if \<not> radix_empty t
      then walk (\<lambda>ref t. let t' = snd (radix_remove ref t) in (\<not> radix_empty t', t')) refs t else t)"

definition singleCodePoints :: "bytes list \<Rightarrow> CodePointSetBuilder" where
  "singleCodePoints refs =
     foldl (\<lambda>s ref. case tryToCodePoint ref of Some c \<Rightarrow> addRange (\<lambda>c. c) s c c False | None \<Rightarrow> s) empty_builder refs"

definition subIfNonempty :: "CodePointSetBuilder \<Rightarrow> CodePointSetBuilder \<Rightarrow> CodePointSetBuilder" where
  "subIfNonempty b other = (if builder_nonempty b then sub b other else b)"

definition subStrSet :: "PackedRadixTree \<Rightarrow> StrSetBuilder \<Rightarrow> StrSetBuilder \<Rightarrow> StrSetBuilder" where
  "subStrSet E this builder =
     (let this1 = (if ss_emptySeq this = ss_emptySeq builder \<and> ss_emptySeq this then this\<lparr>ss_emptySeq := False\<rparr> else this);
          ignoreCase = hasFlag (ss_emoji this1) RGI_CASE_IGNORE;
          emoji = unsetFlag (ss_emoji this1) (ss_emoji builder);
          this2 = this1\<lparr>ss_emoji := (if ignoreCase then setFlag emoji RGI_CASE_IGNORE else emoji)\<rparr>;
          refs = map fst (radix_strings (ss_radix builder));
          codeRefs = map fst (iterateCodes (ss_codePoints builder));
          emojiRefs = iterateEmoji E (ss_emoji builder);
          this3 = mergeIfFound E codeRefs (mergeIfFound E refs this2);
          this4 = this3\<lparr>ss_radix := removeStrings codeRefs (removeStrings refs (removeStrings emojiRefs (ss_radix this3)))\<rparr>;
          cp1 = subIfNonempty (ss_codePoints this4) (singleCodePoints emojiRefs);
          cp2 = subIfNonempty cp1 (singleCodePoints refs);
          cp3 = subIfNonempty cp2 (ss_codePoints builder)
      in this4\<lparr>ss_codePoints := cp3\<rparr>)"

section \<open>The strings of a set\<close>

text \<open>What the generated trie promises: its walk meets the strings \<open>find\<close> knows, every string has one kind
  of emoji sequence, is not empty and fits a radix tree.\<close>

definition emoji_kind :: "byte \<Rightarrow> bool" where
  "emoji_kind p \<longleftrightarrow> (\<exists>k<6. p = push_bit k 1)"

definition trie_ok :: "PackedRadixTree \<Rightarrow> bool" where
  "trie_ok E \<longleftrightarrow> (\<forall>s p. (s, p) \<in> set (packed_strings E) \<longleftrightarrow> trie_find E s = p \<and> p \<noteq> 0) \<and>
     (\<forall>(s, p)\<in>set (packed_strings E). emoji_kind p \<and> s \<noteq> [] \<and> length s \<le> RADIX_MAX_STRING_SIZE)"

definition emoji_strs :: "PackedRadixTree \<Rightarrow> byte \<Rightarrow> bytes set" where
  "emoji_strs E emoji = {s. findFromEmoji E emoji s}"

definition radix_strs :: "RadixTree \<Rightarrow> bytes set" where
  "radix_strs t = {s. radix_find t s \<noteq> 0}"

definition code_strs :: "CodePointSetBuilder \<Rightarrow> bytes set" where
  "code_strs b = codePointToUtf8 ` builder_points b"

definition strs :: "PackedRadixTree \<Rightarrow> StrSetBuilder \<Rightarrow> bytes set" where
  "strs E b = code_strs (ss_codePoints b) \<union> radix_strs (ss_radix b) \<union> emoji_strs E (ss_emoji b) \<union>
     (if ss_emptySeq b then {[]} else {})"

definition radix_fits :: "RadixTree \<Rightarrow> bool" where
  "radix_fits t \<longleftrightarrow> radix_wf t \<and> (\<forall>s\<in>radix_strs t. s \<noteq> [] \<and> length s \<le> RADIX_MAX_STRING_SIZE)"

definition strset_ok :: "StrSetBuilder \<Rightarrow> bool" where
  "strset_ok b \<longleftrightarrow> builder_ok (ss_codePoints b) \<and> radix_fits (ss_radix b)"

subsection \<open>Emoji kinds\<close>

lemma hasFlag_push_bit:
  fixes x :: byte
  assumes "k < 8"
  shows "hasFlag x (push_bit k 1) \<longleftrightarrow> bit x k"
proof
  assume "hasFlag x (push_bit k 1)"
  then have "bit (x AND push_bit k 1) k" using assms by (simp add: hasFlag_def bit_simps)
  then show "bit x k" by (simp add: bit_and_iff)
next
  assume "bit x k"
  then show "hasFlag x (push_bit k 1)" unfolding hasFlag_def by (intro bit_word_eqI) (auto simp: bit_simps)
qed

lemma emoji_kind_flags:
  assumes "emoji_kind p"
  shows "hasFlag (a OR b) p \<longleftrightarrow> hasFlag a p \<or> hasFlag b p" "hasFlag (a AND b) p \<longleftrightarrow> hasFlag a p \<and> hasFlag b p"
    "hasFlag (a AND NOT b) p \<longleftrightarrow> hasFlag a p \<and> \<not> hasFlag b p" "\<not> hasFlag RGI_CASE_IGNORE p" "\<not> hasFlag 0 p"
    "hasFlag a p \<Longrightarrow> hasEmoji a"
proof -
  obtain k where k: "k < 6" "p = push_bit k 1" using assms by (auto simp: emoji_kind_def)
  have h: "hasFlag x p \<longleftrightarrow> bit x k" for x unfolding k(2) by (rule hasFlag_push_bit) (use k in simp)
  have "k = 0 \<or> k = 1 \<or> k = 2 \<or> k = 3 \<or> k = 4 \<or> k = 5" using k(1) by arith
  then have c: "\<not> bit RGI_CASE_IGNORE k" by (elim disjE) (simp_all add: RGI_CASE_IGNORE_def)
  show "hasFlag (a OR b) p \<longleftrightarrow> hasFlag a p \<or> hasFlag b p" "hasFlag (a AND b) p \<longleftrightarrow> hasFlag a p \<and> hasFlag b p"
    "hasFlag (a AND NOT b) p \<longleftrightarrow> hasFlag a p \<and> \<not> hasFlag b p" "\<not> hasFlag RGI_CASE_IGNORE p" "\<not> hasFlag 0 p"
    unfolding h using k(1) c by (auto simp: bit_simps)
  assume "hasFlag a p"
  then have "bit (unsetFlag a RGI_CASE_IGNORE) k" unfolding h unsetFlag_def using k(1) c by (auto simp: bit_simps)
  then show "hasEmoji a" unfolding hasEmoji_def by auto
qed

lemma trie_kind: "trie_ok E \<Longrightarrow> trie_find E s \<noteq> 0 \<Longrightarrow> emoji_kind (trie_find E s) \<and> s \<noteq> [] \<and> length s \<le> RADIX_MAX_STRING_SIZE"
  unfolding trie_ok_def by blast

lemma emoji_strs_simps:
  assumes "trie_ok E"
  shows "emoji_strs E (a OR b) = emoji_strs E a \<union> emoji_strs E b" "emoji_strs E (a AND b) = emoji_strs E a \<inter> emoji_strs E b"
    "emoji_strs E (a AND NOT b) = emoji_strs E a - emoji_strs E b" "emoji_strs E RGI_CASE_IGNORE = {}" "emoji_strs E 0 = {}"
    "\<not> hasEmoji a \<Longrightarrow> emoji_strs E a = {}"
proof -
  note f = emoji_kind_flags [OF conjunct1 [OF trie_kind [OF assms]]]
  show "emoji_strs E (a OR b) = emoji_strs E a \<union> emoji_strs E b" "emoji_strs E (a AND b) = emoji_strs E a \<inter> emoji_strs E b"
    "emoji_strs E RGI_CASE_IGNORE = {}" "emoji_strs E 0 = {}" "\<not> hasEmoji a \<Longrightarrow> emoji_strs E a = {}"
    using f(1,2,4,5,6) by (auto simp: emoji_strs_def findFromEmoji_def Let_def)
  show "emoji_strs E (a AND NOT b) = emoji_strs E a - emoji_strs E b"
    using f(3) by (auto simp: emoji_strs_def findFromEmoji_def Let_def)
qed

lemma set_iterateEmoji:
  assumes "trie_ok E"
  shows "set (iterateEmoji E e) = emoji_strs E e"
proof (cases "hasEmoji e")
  case True
  have "(s, p) \<in> set (packed_strings E) \<longleftrightarrow> trie_find E s = p \<and> p \<noteq> 0" for s p using assms unfolding trie_ok_def by blast
  then show ?thesis using True by (auto simp: iterateEmoji_def emoji_strs_def findFromEmoji_def Let_def image_iff)
qed (simp add: iterateEmoji_def emoji_strs_simps(6) [OF assms])

subsection \<open>Radix trees\<close>

lemma radix_iterate_spec:
  "radix_wf t \<Longrightarrow> (s, p) \<in> set (radix_iterate buf t) \<longleftrightarrow> (\<exists>u. s = buf @ u \<and> radix_find t u = p \<and> p \<noteq> 0)"
proof (induction buf t rule: radix_iterate.induct)
  case (1 buf pre q cs)
  note wf = 1(2)
  have d: "distinct (map fst cs)" using wf by (simp add: wf_children)
  have child: "(s, p) \<in> set (radix_iterate (buf @ pre) c) \<longleftrightarrow> (\<exists>u. s = (buf @ pre) @ u \<and> radix_find c u = p \<and> p \<noteq> 0)"
    if "(k, c) \<in> set cs" for k c
    using 1(1) [of "(k, c)"] that wf by (auto simp: wf_children child_ok_def)
  have start: "u \<noteq> [] \<and> u ! 0 = k" if "(k, c) \<in> set cs" "radix_find c u \<noteq> 0" for k c u
  proof -
    have "radix_prefix c \<noteq> []" "radix_prefix c ! 0 = k" using that(1) wf by (auto simp: wf_children child_ok_def)
    then show ?thesis using that(2) by (cases c) (auto simp: radix_find.simps startsWith_iff nth_append split: if_splits)
  qed
  have "(\<exists>u. s = buf @ u \<and> radix_find (RadixTree pre q cs) u = p \<and> p \<noteq> 0) \<longleftrightarrow>
      (\<exists>u. s = buf @ pre @ u \<and> radix_find (RadixTree pre q cs) (pre @ u) = p \<and> p \<noteq> 0)"
    using find_other [of _ pre q cs] by (metis append.assoc startsWith_iff)
  also have "\<dots> \<longleftrightarrow> s = buf @ pre \<and> q = p \<and> p \<noteq> 0 \<or>
      (\<exists>k c u. (k, c) \<in> set cs \<and> s = buf @ pre @ u \<and> radix_find c u = p \<and> p \<noteq> 0)"
    (is "?l \<longleftrightarrow> ?r")
  proof
    assume ?l
    then show ?r by (auto simp: find_step split: if_splits option.splits dest: map_of_SomeD)
  next
    assume ?r
    then show ?l
    proof (elim disjE exE conjE)
      fix k c u assume u: "(k, c) \<in> set cs" "s = buf @ pre @ u" "radix_find c u = p" "p \<noteq> 0"
      then have "map_of cs (u ! 0) = Some c" "u \<noteq> []" using start [OF u(1)] d by (auto simp: map_of_is_SomeI)
      with u show ?l by (auto simp: find_step)
    qed (auto simp: find_step)
  qed
  also have "\<dots> \<longleftrightarrow> (s, p) \<in> set (radix_iterate buf (RadixTree pre q cs))"
    using child by (fastforce simp: image_iff)
  finally show ?case by blast
qed


abbreviation radix_key :: "bytes \<Rightarrow> bool" where
  "radix_key s \<equiv> s \<noteq> [] \<and> length s \<le> RADIX_MAX_STRING_SIZE"

lemma radix_strings_spec:
  assumes "radix_fits t"
  shows "set (map fst (radix_strings t)) = radix_strs t" "\<forall>(s, p)\<in>set (radix_strings t). p \<noteq> 0"
proof -
  have m: "(s, p) \<in> set (radix_strings t) \<longleftrightarrow> radix_find t s = p \<and> p \<noteq> 0" for s p
    using radix_iterate_spec [of t s p "[]"] assms by (simp add: radix_fits_def radix_strings_def)
  then show "set (map fst (radix_strings t)) = radix_strs t" by (auto simp: radix_strs_def image_iff Bex_def)
  show "\<forall>(s, p)\<in>set (radix_strings t). p \<noteq> 0" using m by auto
qed

lemma radix_add_strs:
  assumes "radix_fits t" "radix_key s" "p \<noteq> 0"
  shows "radix_fits (snd (radix_add t s p)) \<and> radix_strs (snd (radix_add t s p)) = insert s (radix_strs t)"
proof -
  have w: "radix_wf t" using assms(1) by (simp add: radix_fits_def)
  have "radix_strs (snd (radix_add t s p)) = insert s (radix_strs t)"
    using radix.add [OF w assms(2,3)] assms(3) by (auto simp: radix_strs_def)
  then show ?thesis using radix.add [OF w assms(2,3)] assms(1,2) by (simp add: radix_fits_def)
qed

lemma radix_remove_strs:
  assumes "radix_fits t"
  shows "radix_fits (snd (radix_remove s t)) \<and> radix_strs (snd (radix_remove s t)) = radix_strs t - {s}"
proof -
  have w: "radix_wf t" using assms by (simp add: radix_fits_def)
  have "radix_strs (snd (radix_remove s t)) = radix_strs t - {s}"
    using radix.remove [OF w, of s] by (auto simp: radix_strs_def)
  then show ?thesis using radix.remove [OF w, of s] assms by (simp add: radix_fits_def)
qed

lemma radix_empty_strs: "radix_fits t \<Longrightarrow> radix_empty t \<Longrightarrow> radix_strs t = {}"
  by (cases t) (auto simp: radix_fits_def radix_empty_def radix_strs_def find_leaf split: if_splits)

lemma removeStrings_spec:
  assumes "radix_fits t"
  shows "radix_fits (removeStrings refs t) \<and> radix_strs (removeStrings refs t) = radix_strs t - set refs"
proof -
  let ?w = "walk (\<lambda>ref t. let t' = snd (radix_remove ref t) in (\<not> radix_empty t', t'))"
  have "radix_fits (?w refs t) \<and> radix_strs (?w refs t) = radix_strs t - set refs"
    using assms
  proof (induction refs arbitrary: t)
    case (Cons r refs)
    let ?t = "snd (radix_remove r t)"
    have t: "radix_fits ?t" "radix_strs ?t = radix_strs t - {r}" using radix_remove_strs [OF Cons.prems] by auto
    show ?case
    proof (cases "radix_empty ?t")
      case True
      with radix_empty_strs [OF t(1)] t show ?thesis by (auto simp: Let_def)
    next
      case False
      with Cons.IH [OF t(1)] t(2) show ?thesis by (auto simp: Let_def)
    qed
  qed simp
  then show ?thesis using radix_empty_strs [OF assms] assms by (auto simp: removeStrings_def)
qed

subsection \<open>Code points\<close>

lemma tryToCodePoint_iff: "tryToCodePoint ref = Some c \<longleftrightarrow> isCodePoint c \<and> ref = codePointToUtf8 c"
proof
  assume "tryToCodePoint ref = Some c"
  then have d: "wtf8ToCodePoint ref = (length ref, c)" "length ref \<noteq> 0"
    by (auto simp: tryToCodePoint_def Let_def split: prod.splits if_splits)
  from decode_encode [OF d] show "isCodePoint c \<and> ref = codePointToUtf8 c" by simp
next
  assume "isCodePoint c \<and> ref = codePointToUtf8 c"
  then show "tryToCodePoint ref = Some c"
    using encode_decode [of c True "[]"] encode_nonempty [of c] by (simp add: tryToCodePoint_def)
qed

lemma builder_codePoint: "builder_ok b \<Longrightarrow> c \<in> builder_points b \<Longrightarrow> isCodePoint c"
  using builder.bounded [of b] by (auto simp: isCodePoint_def)

lemma encode_inj: "isCodePoint c \<Longrightarrow> isCodePoint d \<Longrightarrow> codePointToUtf8 c = codePointToUtf8 d \<Longrightarrow> c = d"
  using tryToCodePoint_iff [of "codePointToUtf8 c" c] tryToCodePoint_iff [of "codePointToUtf8 c" d] by simp

lemma code_strs_nonempty: "builder_ok b \<Longrightarrow> [] \<notin> code_strs b"
  using builder_codePoint encode_nonempty by (fastforce simp: code_strs_def)

lemma not_nonempty_points: "\<not> builder_nonempty b \<Longrightarrow> builder_points b = {}"
  by (simp add: builder_nonempty_def builder_points_def)

lemma iterateCodes_spec:
  assumes "builder_ok b"
  shows "set (iterateCodes b) = (\<lambda>c. (codePointToUtf8 c, c)) ` builder_points b" "set (map fst (iterateCodes b)) = code_strs b"
proof -
  show "set (iterateCodes b) = (\<lambda>c. (codePointToUtf8 c, c)) ` builder_points b"
    using toCompact_spec [OF assms] by (simp add: iterateCodes_def)
  then show "set (map fst (iterateCodes b)) = code_strs b" by (auto simp: code_strs_def image_iff)
qed

lemma code_strs_ops:
  assumes "builder_ok a" "builder_ok b"
  shows "code_strs (sub a b) = code_strs a - code_strs b" "code_strs (intersect a b) = code_strs a \<inter> code_strs b"
    "code_strs (addBuilder a b) = code_strs a \<union> code_strs b"
proof -
  have i: "inj_on codePointToUtf8 {c. isCodePoint c}" using encode_inj by (auto simp: inj_on_def)
  have s: "builder_points a \<subseteq> {c. isCodePoint c}" "builder_points b \<subseteq> {c. isCodePoint c}"
    using assms builder_codePoint by auto
  show "code_strs (sub a b) = code_strs a - code_strs b"
    using builder.diff [OF assms] inj_on_image_set_diff [OF i, of "builder_points a" "builder_points b"] s
    by (auto simp: code_strs_def)
  show "code_strs (intersect a b) = code_strs a \<inter> code_strs b"
    using builder.inter [OF assms] inj_on_image_Int [OF i s] by (simp add: code_strs_def)
  show "code_strs (addBuilder a b) = code_strs a \<union> code_strs b"
    using builder.union [OF assms] by (simp add: code_strs_def image_Un)
qed

lemma addPoint_spec:
  assumes "builder_ok b" "isCodePoint c"
  shows "builder_ok (addRange f b c c False) \<and> code_strs (addRange f b c c False) = insert (codePointToUtf8 c) (code_strs b)"
  using addRange_spec [of b c c False f] assms by (simp add: isCodePoint_def code_strs_def)


subsection \<open>The parts of a builder\<close>

text \<open>The strings a step adds to the radix tree and to the code points, where it leaves the rest alone.\<close>

definition extends :: "StrSetBuilder \<Rightarrow> bytes set \<Rightarrow> bytes set \<Rightarrow> StrSetBuilder \<Rightarrow> bool" where
  "extends b R A b' \<longleftrightarrow> strset_ok b' \<and> radix_strs (ss_radix b') = radix_strs (ss_radix b) \<union> R \<and>
     code_strs (ss_codePoints b') = code_strs (ss_codePoints b) \<union> A \<and> ss_emoji b' = ss_emoji b \<and> ss_emptySeq b' = ss_emptySeq b"

lemma extends_refl: "strset_ok b \<Longrightarrow> extends b {} {} b"
  by (simp add: extends_def)

lemma extends_ok: "extends b R A b' \<Longrightarrow> strset_ok b'"
  by (simp add: extends_def)

lemma extends_trans: "extends b R A b1 \<Longrightarrow> extends b1 R' A' b2 \<Longrightarrow> extends b (R \<union> R') (A \<union> A') b2"
  by (auto simp: extends_def)

lemma extends_strs: "extends b R A b' \<Longrightarrow> strs E b' = strs E b \<union> R \<union> A"
  by (auto simp: extends_def strs_def)

lemma addCodePoint_extends: "strset_ok b \<Longrightarrow> isCodePoint c \<Longrightarrow> extends b {} {codePointToUtf8 c} (addCodePoint b c)"
  using addPoint_spec [of "ss_codePoints b" c "\<lambda>c. c"] by (simp add: extends_def addCodePoint_def strset_ok_def)

lemma addRadix_extends:
  "strset_ok b \<Longrightarrow> radix_key s \<Longrightarrow> p \<noteq> 0 \<Longrightarrow> extends b {s} {} (b\<lparr>ss_radix := snd (radix_add (ss_radix b) s p)\<rparr>)"
  using radix_add_strs [of "ss_radix b" s p] by (simp add: extends_def strset_ok_def)

lemma foldl_extends:
  assumes "strset_ok b" "\<And>x b. x \<in> set xs \<Longrightarrow> strset_ok b \<Longrightarrow> extends b (R x) (A x) (f b x)"
  shows "extends b (\<Union>(R ` set xs)) (\<Union>(A ` set xs)) (foldl f b xs)"
  using assms
proof (induction xs arbitrary: b)
  case (Cons x xs)
  have x: "extends b (R x) (A x) (f b x)" using Cons.prems by simp
  have "extends (f b x) (\<Union>(R ` set xs)) (\<Union>(A ` set xs)) (foldl f (f b x) xs)"
    using Cons.prems(2) by (intro Cons.IH extends_ok [OF x]) simp
  from extends_trans [OF x this] show ?case by simp
qed (simp add: extends_refl)

lemma addRadixIf_extends:
  assumes "strset_ok b" "\<forall>s\<in>set refs. radix_key s"
  shows "extends b {s \<in> set refs. test s} {} (addRadixIf test refs b)"
proof -
  have "extends b (\<Union>((\<lambda>s. if test s then {s} else {}) ` set refs)) (\<Union>((\<lambda>s. {}) ` set refs)) (addRadixIf test refs b)"
    unfolding addRadixIf_def using assms addRadix_extends extends_refl by (intro foldl_extends) auto
  moreover have "\<Union>((\<lambda>s. if test s then {s} else {}) ` set refs) = {s \<in> set refs. test s}" by auto
  ultimately show ?thesis by simp
qed

lemma addCodesIf_extends:
  assumes "strset_ok b" "builder_ok cb"
  shows "extends b {} {s \<in> code_strs cb. test s} (addCodesIf test (iterateCodes cb) b)"
proof -
  have c: "isCodePoint c" "ref = codePointToUtf8 c" if "(ref, c) \<in> set (iterateCodes cb)" for ref c
    using that iterateCodes_spec(1) [OF assms(2)] builder_codePoint [OF assms(2)] by auto
  have step: "extends b {} {ref} (addCodePoint b c)" if "(ref, c) \<in> set (iterateCodes cb)" "strset_ok b" for ref c b
    using addCodePoint_extends [OF that(2) c(1) [OF that(1)]] c(2) [OF that(1)] by simp
  have "extends b (\<Union>((\<lambda>x. {}) ` set (iterateCodes cb))) (\<Union>((\<lambda>(s, c). if test s then {s} else {}) ` set (iterateCodes cb)))
      (addCodesIf test (iterateCodes cb) b)"
    unfolding addCodesIf_def using assms(1) step extends_refl by (intro foldl_extends) auto
  moreover have "\<Union>((\<lambda>(s, c). if test s then {s} else {}) ` set (iterateCodes cb)) = {s \<in> code_strs cb. test s}"
    by (auto simp: iterateCodes_spec(1) [OF assms(2)] code_strs_def split: if_splits)
  ultimately show ?thesis by simp
qed

lemma addContained_extends:
  assumes "strset_ok b" "builder_ok cb"
  shows "extends b {} (set refs \<inter> code_strs cb) (addContained (fst (build cb)) refs b)"
proof -
  have m: "set_contains (fst (build cb)) c \<longleftrightarrow> c \<in> builder_points cb" if "isCodePoint c" for c
    using that build_spec [OF assms(2)] set_contains_iff_aux [of "fst (build cb)" c] by (simp add: isCodePoint_def)
  have s: "s \<in> code_strs cb \<longleftrightarrow> (\<exists>c. tryToCodePoint s = Some c \<and> c \<in> builder_points cb)" for s
    using builder_codePoint [OF assms(2)] by (auto simp: code_strs_def tryToCodePoint_iff)
  have "extends b (\<Union>((\<lambda>s. {}) ` set refs)) (\<Union>((\<lambda>s. {s} \<inter> code_strs cb) ` set refs)) (addContained (fst (build cb)) refs b)"
    unfolding addContained_def
  proof (rule foldl_extends [OF assms(1)])
    fix s b assume b: "strset_ok b"
    show "extends b {} ({s} \<inter> code_strs cb) (case tryToCodePoint s of
        Some c \<Rightarrow> if set_contains (fst (build cb)) c then addCodePoint b c else b | None \<Rightarrow> b)"
    proof (cases "tryToCodePoint s")
      case None
      then have "{s} \<inter> code_strs cb = {}" using s [of s] by auto
      with None extends_refl [OF b] show ?thesis by simp
    next
      case (Some c)
      then have c: "isCodePoint c" "s = codePointToUtf8 c" by (simp_all add: tryToCodePoint_iff)
      have "{s} \<inter> code_strs cb = (if c \<in> builder_points cb then {s} else {})" using s [of s] Some by auto
      with Some m [OF c(1)] c addCodePoint_extends [OF b c(1)] extends_refl [OF b] show ?thesis by simp
    qed
  qed
  moreover have "\<Union>((\<lambda>s. {s} \<inter> code_strs cb) ` set refs) = set refs \<inter> code_strs cb" by auto
  ultimately show ?thesis by simp
qed

section \<open>The operations on the strings\<close>

lemma emoji_strs_key: "trie_ok E \<Longrightarrow> s \<in> emoji_strs E e \<Longrightarrow> radix_key s"
  using trie_kind by (auto simp: emoji_strs_def findFromEmoji_def Let_def)

lemma strset_parts:
  assumes "strset_ok b"
  shows "builder_ok (ss_codePoints b)" "radix_fits (ss_radix b)" "\<forall>s\<in>radix_strs (ss_radix b). radix_key s"
  using assms by (auto simp: strset_ok_def radix_fits_def)

lemma newStrSet_strs: "trie_ok E \<Longrightarrow> strset_ok (newStrSet ic) \<and> strs E (newStrSet ic) = {}"
  using builder.empty radix.empty emoji_strs_simps [of E]
  by (auto simp: newStrSet_def strset_ok_def radix_fits_def strs_def radix_strs_def code_strs_def setFlag_def)

lemma addString_strs:
  assumes "trie_ok E" "strset_ok b" "radix_key s" "p \<noteq> 0"
  shows "strset_ok (addString E b s p) \<and> strs E (addString E b s p) = insert s (strs E b) \<and> ss_emoji (addString E b s p) = ss_emoji b"
proof (cases "inEmoji E b s")
  case True
  then have "s \<in> strs E b" by (simp add: inEmoji_def strs_def emoji_strs_def)
  with True assms(2) show ?thesis by (simp add: addString_def insert_absorb)
next
  case False
  note x = addRadix_extends [OF assms(2-4)]
  from False extends_ok [OF x] extends_strs [OF x, of E] x show ?thesis by (simp add: addString_def extends_def)
qed

lemma addStrSet_strs:
  assumes "trie_ok E" "strset_ok a" "strset_ok b"
  shows "strset_ok (addStrSet E a b) \<and> strs E (addStrSet E a b) = strs E a \<union> strs E b"
proof -
  let ?b0 = "a\<lparr>ss_codePoints := addBuilder (ss_codePoints a) (ss_codePoints b), ss_emoji := setFlag (ss_emoji a) (ss_emoji b),
      ss_emptySeq := (ss_emptySeq a \<or> ss_emptySeq b)\<rparr>"
  note pa = strset_parts [OF assms(2)] and pb = strset_parts [OF assms(3)]
  have b0: "strset_ok ?b0" using pa pb addBuilder_spec by (simp add: strset_ok_def)
  have s0: "strs E ?b0 \<union> radix_strs (ss_radix b) = strs E a \<union> strs E b"
    using code_strs_ops(3) [OF pa(1) pb(1)] emoji_strs_simps(1) [OF assms(1)] by (auto simp: strs_def setFlag_def)
  have e: "addStrSet E a b = foldl (\<lambda>b (ref, p). addString E b ref p) ?b0 (radix_strings (ss_radix b))"
    by (cases a; cases "ss_emptySeq b") (simp_all add: addStrSet_def Let_def addEmoji_def)
  have "strset_ok (foldl (\<lambda>b (ref, p). addString E b ref p) x rs) \<and>
      strs E (foldl (\<lambda>b (ref, p). addString E b ref p) x rs) = strs E x \<union> fst ` set rs"
    if "strset_ok x" "\<forall>(s, p)\<in>set rs. radix_key s \<and> p \<noteq> 0" for x and rs :: "(bytes \<times> byte) list"
    using that
  proof (induction rs arbitrary: x)
    case (Cons r rs)
    then show ?case using addString_strs [OF assms(1) Cons.prems(1), of "fst r" "snd r"] by (cases r) auto
  qed simp
  note this [OF b0, of "radix_strings (ss_radix b)"]
  moreover have "radix_key s" if "(s, p) \<in> set (radix_strings (ss_radix b))" for s p
    using that radix_strings_spec(1) [OF pb(2)] pb(3) by (metis fst_conv image_eqI list.set_map)
  then have "\<forall>(s, p)\<in>set (radix_strings (ss_radix b)). radix_key s \<and> p \<noteq> 0"
    using radix_strings_spec(2) [OF pb(2)] by blast
  ultimately show ?thesis using s0 radix_strings_spec(1) [OF pb(2)] by (simp add: e)
qed


text \<open>The strings of the other set, by parts.\<close>

lemma other_parts:
  assumes "trie_ok E" "strset_ok b"
  shows "set (map fst (radix_strings (ss_radix b))) = radix_strs (ss_radix b)"
    and "\<forall>s\<in>set (map fst (radix_strings (ss_radix b))). radix_key s"
    and "set (iterateEmoji E (ss_emoji b)) = emoji_strs E (ss_emoji b)"
    and "\<forall>s\<in>set (iterateEmoji E (ss_emoji b)). radix_key s"
  using radix_strings_spec(1) strset_parts [OF assms(2)] set_iterateEmoji [OF assms(1)] emoji_strs_key [OF assms(1)] by simp_all

lemma intersectEmoji_extends:
  assumes "trie_ok E" "strset_ok b" "strset_ok new"
  shows "extends new (radix_strs (ss_radix b) \<inter> emoji_strs E (ss_emoji a)) (code_strs (ss_codePoints b) \<inter> emoji_strs E (ss_emoji a))
    (intersectEmoji E a b new)"
proof (cases "hasEmoji (ss_emoji a)")
  case True
  note o = other_parts [OF assms(1,2)]
  note x = addRadixIf_extends [OF assms(3) o(2), of "findFromEmoji E (ss_emoji a)"]
  note y = addCodesIf_extends [OF extends_ok [OF x] strset_parts(1) [OF assms(2)], of "findFromEmoji E (ss_emoji a)"]
  from extends_trans [OF x y] True o(1) show ?thesis by (simp add: intersectEmoji_def emoji_strs_def Int_def)
next
  case False
  then have "emoji_strs E (ss_emoji a) = {}" by (rule emoji_strs_simps(6) [OF assms(1)])
  with False extends_refl [OF assms(3)] show ?thesis by (simp add: intersectEmoji_def)
qed

lemma intersectRadix_extends:
  assumes "trie_ok E" "strset_ok a" "strset_ok b" "strset_ok new"
  shows "extends new ((emoji_strs E (ss_emoji b) \<union> radix_strs (ss_radix b)) \<inter> radix_strs (ss_radix a))
    (code_strs (ss_codePoints b) \<inter> radix_strs (ss_radix a)) (intersectRadix E a b new)"
proof (cases "radix_empty (ss_radix a)")
  case True
  then have "radix_strs (ss_radix a) = {}" using radix_empty_strs strset_parts(2) [OF assms(2)] by blast
  with True extends_refl [OF assms(4)] show ?thesis by (simp add: intersectRadix_def)
next
  case False
  let ?t = "\<lambda>ref. radix_find (ss_radix a) ref \<noteq> 0"
  note o = other_parts [OF assms(1,3)]
  note x = addRadixIf_extends [OF assms(4) o(4), of ?t]
  note y = addRadixIf_extends [OF extends_ok [OF x] o(2), of ?t]
  note z = addCodesIf_extends [OF extends_ok [OF y] strset_parts(1) [OF assms(3)], of ?t]
  have t: "{s \<in> S. ?t s} = S \<inter> radix_strs (ss_radix a)" for S by (auto simp: radix_strs_def)
  from extends_trans [OF extends_trans [OF x y] z, unfolded o(1,3) t] False show ?thesis
    by (simp add: intersectRadix_def Let_def Int_Un_distrib2)
qed

lemma intersectCodes_extends:
  assumes "trie_ok E" "strset_ok a" "strset_ok b" "strset_ok new"
  shows "extends new {} ((emoji_strs E (ss_emoji b) \<union> radix_strs (ss_radix b) \<union> code_strs (ss_codePoints b)) \<inter> code_strs (ss_codePoints a))
    (intersectCodes E a b new)"
proof (cases "builder_nonempty (ss_codePoints a)")
  case False
  then have "code_strs (ss_codePoints a) = {}" by (simp add: code_strs_def not_nonempty_points)
  with False extends_refl [OF assms(4)] show ?thesis by (simp add: intersectCodes_def)
next
  case True
  note pa = strset_parts [OF assms(2)] and pb = strset_parts [OF assms(3)] and o = other_parts [OF assms(1,3)]
  let ?c = "fst (build (ss_codePoints a))"
  let ?new1 = "addContained ?c (map fst (radix_strings (ss_radix b))) (addContained ?c (iterateEmoji E (ss_emoji b)) new)"
  note x = addContained_extends [OF assms(4) pa(1), of "iterateEmoji E (ss_emoji b)"]
  note y = addContained_extends [OF extends_ok [OF x] pa(1), of "map fst (radix_strings (ss_radix b))"]
  note xy = extends_trans [OF x y, unfolded o(1,3)]
  have "extends ?new1 {} (code_strs (ss_codePoints b) \<inter> code_strs (ss_codePoints a))
      (?new1\<lparr>ss_codePoints := addBuilder (ss_codePoints ?new1) (intersect (ss_codePoints a) (ss_codePoints b))\<rparr>)"
    using code_strs_ops [OF pa(1) pb(1)] code_strs_ops(3) [of "ss_codePoints ?new1" "intersect (ss_codePoints a) (ss_codePoints b)"]
      strset_parts [OF extends_ok [OF y]] builder.inter [OF pa(1) pb(1)] addBuilder_spec
    by (auto simp: extends_def strset_ok_def)
  from extends_trans [OF xy this]
  have full: "extends new {} ((emoji_strs E (ss_emoji b) \<union> radix_strs (ss_radix b) \<union> code_strs (ss_codePoints b)) \<inter> code_strs (ss_codePoints a))
      (?new1\<lparr>ss_codePoints := addBuilder (ss_codePoints ?new1) (intersect (ss_codePoints a) (ss_codePoints b))\<rparr>)"
    by (simp add: Int_Un_distrib2 Un_assoc)
  show ?thesis
  proof (cases "builder_nonempty (ss_codePoints b)")
    case True
    with full \<open>builder_nonempty (ss_codePoints a)\<close> show ?thesis by (simp add: intersectCodes_def Let_def)
  next
    case False
    then have "code_strs (ss_codePoints b) = {}" by (simp add: code_strs_def not_nonempty_points)
    with xy False True show ?thesis by (simp add: intersectCodes_def Let_def Int_Un_distrib2)
  qed
qed

lemma intersectStrSet_extends:
  assumes "trie_ok E" "strset_ok a" "strset_ok b"
  defines "new \<equiv> (newStrSet (hasFlag (ss_emoji a) RGI_CASE_IGNORE))\<lparr>ss_emptySeq := ss_emptySeq a \<and> ss_emptySeq b,
    ss_emoji := (if hasFlag (ss_emoji a) RGI_CASE_IGNORE then setFlag (ss_emoji a AND ss_emoji b) RGI_CASE_IGNORE
                 else ss_emoji a AND ss_emoji b)\<rparr>"
  shows "strset_ok new \<and> extends new
    (radix_strs (ss_radix b) \<inter> emoji_strs E (ss_emoji a) \<union>
       (emoji_strs E (ss_emoji b) \<union> radix_strs (ss_radix b)) \<inter> radix_strs (ss_radix a))
    (code_strs (ss_codePoints b) \<inter> emoji_strs E (ss_emoji a) \<union> code_strs (ss_codePoints b) \<inter> radix_strs (ss_radix a) \<union>
       (emoji_strs E (ss_emoji b) \<union> radix_strs (ss_radix b) \<union> code_strs (ss_codePoints b)) \<inter> code_strs (ss_codePoints a))
    (intersectStrSet E a b)"
proof -
  have new: "strset_ok new" using newStrSet_strs [OF assms(1)] by (simp add: new_def strset_ok_def)
  note x = intersectEmoji_extends [OF assms(1,3) new, of a]
  note y = intersectRadix_extends [OF assms(1-3) extends_ok [OF x]]
  note z = intersectCodes_extends [OF assms(1-3) extends_ok [OF y]]
  have "intersectStrSet E a b = intersectCodes E a b (intersectRadix E a b (intersectEmoji E a b new))"
    by (simp add: intersectStrSet_def new_def Let_def)
  with new extends_trans [OF extends_trans [OF x y] z] show ?thesis by simp
qed

lemma empty_string_parts:
  assumes "trie_ok E" "strset_ok c"
  shows "[] \<notin> code_strs (ss_codePoints c) \<union> radix_strs (ss_radix c) \<union> emoji_strs E (ss_emoji c)"
  using assms code_strs_nonempty strset_parts [OF assms(2)] emoji_strs_key [OF assms(1)] by blast

lemma intersectStrSet_strs:
  assumes "trie_ok E" "strset_ok a" "strset_ok b"
  shows "strset_ok (intersectStrSet E a b) \<and> strs E (intersectStrSet E a b) = strs E a \<inter> strs E b"
proof -
  let ?ic = "hasFlag (ss_emoji a) RGI_CASE_IGNORE" and ?e = "ss_emoji a AND ss_emoji b"
  let ?new = "(newStrSet ?ic)\<lparr>ss_emptySeq := ss_emptySeq a \<and> ss_emptySeq b,
      ss_emoji := (if ?ic then setFlag ?e RGI_CASE_IGNORE else ?e)\<rparr>"
  have "strs E ?new = (emoji_strs E (ss_emoji a) \<inter> emoji_strs E (ss_emoji b)) \<union>
      (if ss_emptySeq a \<and> ss_emptySeq b then {[]} else {})"
    using newStrSet_strs [OF assms(1), of ?ic] emoji_strs_simps [OF assms(1)] by (auto simp: strs_def setFlag_def)
  moreover note x = conjunct2 [OF intersectStrSet_extends [OF assms]]
  ultimately show ?thesis
    using extends_strs [OF x, of E] extends_ok [OF x] empty_string_parts [OF assms(1,2)] empty_string_parts [OF assms(1,3)]
    by (auto simp: strs_def split: if_splits)
qed

subsection \<open>Difference\<close>

lemma merged_radix:
  assumes "trie_ok E" "radix_fits t"
  shows "radix_fits (snd (mergeEmoji E e t)) \<and> radix_strs (snd (mergeEmoji E e t)) = radix_strs t \<union> emoji_strs E e"
proof -
  have "radix_fits (foldl (\<lambda>t ref. snd (radix_add t ref 1)) t refs) \<and>
      radix_strs (foldl (\<lambda>t ref. snd (radix_add t ref 1)) t refs) = radix_strs t \<union> set refs"
    if "radix_fits t" "\<forall>s\<in>set refs. radix_key s" for t refs
    using that
  proof (induction refs arbitrary: t)
    case (Cons r refs)
    then show ?case using radix_add_strs [OF Cons.prems(1), of r 1] by simp
  qed simp
  from this [OF assms(2), of "iterateEmoji E e"] show ?thesis
    using set_iterateEmoji [OF assms(1), of e] emoji_strs_key [OF assms(1)] by (simp add: mergeEmoji_def)
qed

lemma mergeIfFound_cases:
  "mergeIfFound E refs b =
     (if hasEmoji (ss_emoji b) \<and> (\<exists>ref\<in>set refs. findFromEmoji E (ss_emoji b) ref)
      then b\<lparr>ss_emoji := 0, ss_radix := snd (mergeEmoji E (ss_emoji b) (ss_radix b))\<rparr> else b)"
proof -
  let ?f = "\<lambda>ref b. if findFromEmoji E (ss_emoji b) ref
      then (let (e, t) = mergeEmoji E (ss_emoji b) (ss_radix b) in (False, b\<lparr>ss_emoji := e, ss_radix := t\<rparr>)) else (True, b)"
  have "walk ?f refs b = (if \<exists>ref\<in>set refs. findFromEmoji E (ss_emoji b) ref
      then b\<lparr>ss_emoji := 0, ss_radix := snd (mergeEmoji E (ss_emoji b) (ss_radix b))\<rparr> else b)"
    by (induction refs) (simp_all add: mergeEmoji_def)
  then show ?thesis by (simp add: mergeIfFound_def)
qed

lemma mergeIfFound_spec:
  assumes "trie_ok E" "strset_ok b"
  shows "strset_ok (mergeIfFound E refs b)"
    and "ss_codePoints (mergeIfFound E refs b) = ss_codePoints b" "ss_emptySeq (mergeIfFound E refs b) = ss_emptySeq b"
    and "radix_strs (ss_radix (mergeIfFound E refs b)) \<union> emoji_strs E (ss_emoji (mergeIfFound E refs b)) =
      radix_strs (ss_radix b) \<union> emoji_strs E (ss_emoji b)"
    and "emoji_strs E (ss_emoji (mergeIfFound E refs b)) \<subseteq> emoji_strs E (ss_emoji b)"
    and "emoji_strs E (ss_emoji (mergeIfFound E refs b)) \<inter> set refs = {}"
proof -
  note m = merged_radix [OF assms(1) strset_parts(2) [OF assms(2)], of "ss_emoji b"] and e = emoji_strs_simps [OF assms(1)]
  show "strset_ok (mergeIfFound E refs b)" using m assms(2) by (simp add: mergeIfFound_cases strset_ok_def)
  show "ss_codePoints (mergeIfFound E refs b) = ss_codePoints b" "ss_emptySeq (mergeIfFound E refs b) = ss_emptySeq b"
    by (simp_all add: mergeIfFound_cases)
  show "radix_strs (ss_radix (mergeIfFound E refs b)) \<union> emoji_strs E (ss_emoji (mergeIfFound E refs b)) =
      radix_strs (ss_radix b) \<union> emoji_strs E (ss_emoji b)"
    "emoji_strs E (ss_emoji (mergeIfFound E refs b)) \<subseteq> emoji_strs E (ss_emoji b)"
    using m e(5) by (simp_all add: mergeIfFound_cases)
  show "emoji_strs E (ss_emoji (mergeIfFound E refs b)) \<inter> set refs = {}"
    using e(5) e(6) [of "ss_emoji b"] by (auto simp: mergeIfFound_cases emoji_strs_def)
qed

lemma singleCodePoints_spec: "builder_ok (singleCodePoints refs) \<and> code_strs (singleCodePoints refs) = {s \<in> set refs. tryToCodePoint s \<noteq> None}"
proof -
  let ?f = "\<lambda>s ref. case tryToCodePoint ref of Some c \<Rightarrow> addRange (\<lambda>c. c) s c c False | None \<Rightarrow> s"
  have "builder_ok (foldl ?f b refs) \<and> code_strs (foldl ?f b refs) = code_strs b \<union> {s \<in> set refs. tryToCodePoint s \<noteq> None}"
    if "builder_ok b" for b
    using that
  proof (induction refs arbitrary: b)
    case (Cons r refs)
    show ?case
    proof (cases "tryToCodePoint r")
      case (Some c)
      then have c: "isCodePoint c" "r = codePointToUtf8 c" by (simp_all add: tryToCodePoint_iff)
      from addPoint_spec [OF Cons.prems c(1), of "\<lambda>c. c"] Cons.IH Some c(2) show ?thesis by auto
    qed (use Cons in auto)
  qed simp
  from this [OF builder.empty(1)] show ?thesis using builder.empty(2) by (simp add: singleCodePoints_def code_strs_def)
qed

lemma subIfNonempty_spec:
  assumes "builder_ok a" "builder_ok b"
  shows "builder_ok (subIfNonempty a b) \<and> code_strs (subIfNonempty a b) = code_strs a - code_strs b"
  using code_strs_ops(1) [OF assms] builder.diff [OF assms] assms not_nonempty_points [of a]
  by (simp add: subIfNonempty_def code_strs_def)

lemma sub_single:
  assumes "builder_ok b"
  shows "builder_ok (subIfNonempty b (singleCodePoints refs)) \<and> code_strs (subIfNonempty b (singleCodePoints refs)) = code_strs b - set refs"
proof -
  have "code_strs b - {s \<in> set refs. tryToCodePoint s \<noteq> None} = code_strs b - set refs"
    using builder_codePoint [OF assms] by (force simp: code_strs_def tryToCodePoint_iff)
  then show ?thesis
    using subIfNonempty_spec [OF assms, of "singleCodePoints refs"] singleCodePoints_spec [of refs] by simp
qed

text \<open>\<open>M3\<close> is what stays in the emoji part, \<open>R3\<close> the radix part after the copy.\<close>

lemma difference_parts:
  assumes "R3 \<union> M3 = R \<union> (M - M')" "M3 \<subseteq> M - M'" "M3 \<inter> R' = {}" "M3 \<inter> A' = {}"
  shows "(A - M' - R' - A') \<union> (R3 - M' - R' - A') \<union> M3 = (A \<union> R \<union> M) - (A' \<union> R' \<union> M')"
  using assms by blast

lemma subStrSet_parts:
  assumes "trie_ok E" "strset_ok a" "strset_ok b"
  defines "R \<equiv> radix_strs (ss_radix a)" and "R' \<equiv> radix_strs (ss_radix b)"
    and "M \<equiv> emoji_strs E (ss_emoji a)" and "M' \<equiv> emoji_strs E (ss_emoji b)"
    and "A' \<equiv> code_strs (ss_codePoints b)" and "a' \<equiv> subStrSet E a b"
  shows "strset_ok a'" "code_strs (ss_codePoints a') = code_strs (ss_codePoints a) - M' - R' - A'"
    "ss_emptySeq a' = (ss_emptySeq a \<and> \<not> ss_emptySeq b)"
    "\<exists>R3. R3 \<union> emoji_strs E (ss_emoji a') = R \<union> (M - M') \<and> radix_strs (ss_radix a') = R3 - M' - R' - A'"
    "emoji_strs E (ss_emoji a') \<subseteq> M - M'" "emoji_strs E (ss_emoji a') \<inter> R' = {}" "emoji_strs E (ss_emoji a') \<inter> A' = {}"
    "ss_emoji a' = 0 \<or> ss_emoji a' = (if hasFlag (ss_emoji a) RGI_CASE_IGNORE
       then setFlag (unsetFlag (ss_emoji a) (ss_emoji b)) RGI_CASE_IGNORE else unsetFlag (ss_emoji a) (ss_emoji b))"
proof -
  note pa = strset_parts [OF assms(2)] and pb = strset_parts [OF assms(3)]
  define emoji where "emoji = (if hasFlag (ss_emoji a) RGI_CASE_IGNORE then setFlag (unsetFlag (ss_emoji a) (ss_emoji b)) RGI_CASE_IGNORE
     else unsetFlag (ss_emoji a) (ss_emoji b))"
  define a2 where "a2 = a\<lparr>ss_emptySeq := (ss_emptySeq a \<and> \<not> ss_emptySeq b), ss_emoji := emoji\<rparr>"
  define refs where "refs = map fst (radix_strings (ss_radix b))"
  define codeRefs where "codeRefs = map fst (iterateCodes (ss_codePoints b))"
  define emojiRefs where "emojiRefs = iterateEmoji E (ss_emoji b)"
  define a3 where "a3 = mergeIfFound E codeRefs (mergeIfFound E refs a2)"
  define t where "t = removeStrings codeRefs (removeStrings refs (removeStrings emojiRefs (ss_radix a3)))"
  define cp where "cp = subIfNonempty (subIfNonempty (subIfNonempty (ss_codePoints a) (singleCodePoints emojiRefs)) (singleCodePoints refs)) (ss_codePoints b)"
  have sets: "set refs = R'" "set codeRefs = A'" "set emojiRefs = M'"
    using other_parts [OF assms(1,3)] iterateCodes_spec(2) [OF pb(1)]
    by (simp_all only: refs_def codeRefs_def emojiRefs_def R'_def A'_def M'_def)
  have a2: "strset_ok a2" "emoji_strs E emoji = M - M'"
    using assms(2) emoji_strs_simps [OF assms(1)]
    by (auto simp: a2_def strset_ok_def emoji_def setFlag_def unsetFlag_def M_def M'_def)
  note m1 = mergeIfFound_spec [OF assms(1) a2(1), of refs]
  note m2 = mergeIfFound_spec [OF assms(1) m1(1), of codeRefs, folded a3_def]
  have a3: "ss_codePoints a3 = ss_codePoints a" "ss_emptySeq a3 = (ss_emptySeq a \<and> \<not> ss_emptySeq b)" using m1 m2 by (simp_all add: a2_def)
  have t: "radix_fits t" "radix_strs t = radix_strs (ss_radix a3) - M' - R' - A'"
    using removeStrings_spec strset_parts(2) [OF m2(1)] sets by (simp_all add: t_def)
  have cp: "builder_ok cp" "code_strs cp = code_strs (ss_codePoints a) - M' - R' - A'"
    using subIfNonempty_spec sub_single pa(1) pb(1) sets by (simp_all add: cp_def A'_def)
  have "subStrSet E a b = a3\<lparr>ss_radix := t, ss_codePoints := cp\<rparr>"
    unfolding t_def cp_def a3(1) [symmetric] unfolding a3_def a2_def emoji_def refs_def codeRefs_def emojiRefs_def
    by (cases a) (auto simp: subStrSet_def Let_def)
  then have a': "a' = a3\<lparr>ss_radix := t, ss_codePoints := cp\<rparr>" by (simp add: a'_def)
  show "strset_ok a'" using t(1) cp(1) by (simp add: a' strset_ok_def)
  show "code_strs (ss_codePoints a') = code_strs (ss_codePoints a) - M' - R' - A'"
    "ss_emptySeq a' = (ss_emptySeq a \<and> \<not> ss_emptySeq b)" using cp(2) a3(2) by (simp_all add: a')
  have "radix_strs (ss_radix a3) \<union> emoji_strs E (ss_emoji a') = R \<union> (M - M')"
    using m1(4) m2(4) a2(2) by (simp add: a' a2_def R_def)
  then show "\<exists>R3. R3 \<union> emoji_strs E (ss_emoji a') = R \<union> (M - M') \<and> radix_strs (ss_radix a') = R3 - M' - R' - A'"
    using t(2) by (auto simp: a')
  show "emoji_strs E (ss_emoji a') \<subseteq> M - M'" "emoji_strs E (ss_emoji a') \<inter> R' = {}" "emoji_strs E (ss_emoji a') \<inter> A' = {}"
    using m1(5,6) m2(5,6) a2(2) sets by (auto simp: a' a2_def)
  have "ss_emoji a3 = 0 \<or> ss_emoji a3 = emoji" by (simp add: a3_def mergeIfFound_cases a2_def)
  then show "ss_emoji a' = 0 \<or> ss_emoji a' = (if hasFlag (ss_emoji a) RGI_CASE_IGNORE
       then setFlag (unsetFlag (ss_emoji a) (ss_emoji b)) RGI_CASE_IGNORE else unsetFlag (ss_emoji a) (ss_emoji b))"
    by (simp add: a' emoji_def)
qed

lemma subStrSet_strs:
  assumes "trie_ok E" "strset_ok a" "strset_ok b"
  shows "strset_ok (subStrSet E a b) \<and> strs E (subStrSet E a b) = strs E a - strs E b"
proof -
  note p = subStrSet_parts [OF assms]
  let ?all = "\<lambda>c. code_strs (ss_codePoints c) \<union> radix_strs (ss_radix c) \<union> emoji_strs E (ss_emoji c)"
  obtain R3 where R3: "R3 \<union> emoji_strs E (ss_emoji (subStrSet E a b)) =
        radix_strs (ss_radix a) \<union> (emoji_strs E (ss_emoji a) - emoji_strs E (ss_emoji b))"
      "radix_strs (ss_radix (subStrSet E a b)) =
        R3 - emoji_strs E (ss_emoji b) - radix_strs (ss_radix b) - code_strs (ss_codePoints b)" using p(4) by blast
  have "?all (subStrSet E a b) = ?all a - ?all b" unfolding p(2) R3(2) by (rule difference_parts [OF R3(1) p(5-7)])
  then show ?thesis
    using p(1,3) empty_string_parts [OF assms(1,2)] empty_string_parts [OF assms(1,3)] by (auto simp: strs_def)
qed

section \<open>String sets as an algebra\<close>

text \<open>What the lowering of a character class relies on.\<close>

locale string_sets =
  fixes ok :: "'b \<Rightarrow> bool" and elems :: "'b \<Rightarrow> bytes set"
    and union inter diff :: "'b \<Rightarrow> 'b \<Rightarrow> 'b"
  assumes union: "ok a \<Longrightarrow> ok b \<Longrightarrow> ok (union a b) \<and> elems (union a b) = elems a \<union> elems b"
    and inter: "ok a \<Longrightarrow> ok b \<Longrightarrow> ok (inter a b) \<and> elems (inter a b) = elems a \<inter> elems b"
    and diff: "ok a \<Longrightarrow> ok b \<Longrightarrow> ok (diff a b) \<and> elems (diff a b) = elems a - elems b"
begin

lemma fold_inter: "ok a \<Longrightarrow> \<forall>b\<in>set bs. ok b \<Longrightarrow> ok (foldl inter a bs) \<and> elems (foldl inter a bs) = elems a \<inter> (\<Inter>b\<in>set bs. elems b)"
proof (induction bs arbitrary: a)
  case (Cons b bs)
  then show ?case using inter [of a b] by auto
qed simp

lemma fold_diff: "ok a \<Longrightarrow> \<forall>b\<in>set bs. ok b \<Longrightarrow> ok (foldl diff a bs) \<and> elems (foldl diff a bs) = elems a - (\<Union>b\<in>set bs. elems b)"
proof (induction bs arbitrary: a)
  case (Cons b bs)
  then show ?case using diff [of a b] by auto
qed simp

lemma diff_union: "ok a \<Longrightarrow> ok b \<Longrightarrow> ok c \<Longrightarrow> elems (diff a (union b c)) = elems (diff (diff a b) c)"
  using union diff by auto

lemma inter_distrib: "ok a \<Longrightarrow> ok b \<Longrightarrow> ok c \<Longrightarrow> elems (inter a (union b c)) = elems (union (inter a b) (inter a c))"
  using union inter by auto

end

text \<open>The trie is part of the invariant: without its promises nothing is said.\<close>

interpretation strset: string_sets "\<lambda>b. trie_ok E \<and> strset_ok b" "strs E" "addStrSet E" "intersectStrSet E" "subStrSet E" for E
  using addStrSet_strs intersectStrSet_strs subStrSet_strs by unfold_locales auto

text \<open>C12. String sets: whatever part a string is kept in, code point set, radix tree, emoji kinds or the flag of
  the empty string, the operations of \<open>StrSetBuilder\<close> keep the invariant and compute exactly the
  union, the intersection and the difference of the sets of strings; so removing a union is
  removing one set after the other.\<close>

theorem strset_algebra:
  assumes "trie_ok E" "strset_ok a" "strset_ok b" "strset_ok c"
  shows "(strset_ok (addStrSet E a b) \<and> strs E (addStrSet E a b) = strs E a \<union> strs E b) \<and>
    (strset_ok (intersectStrSet E a b) \<and> strs E (intersectStrSet E a b) = strs E a \<inter> strs E b) \<and>
    (strset_ok (subStrSet E a b) \<and> strs E (subStrSet E a b) = strs E a - strs E b) \<and>
    strs E (subStrSet E a (addStrSet E b c)) = strs E (subStrSet E (subStrSet E a b) c)"
  using strset.union [of E a b] strset.inter [of E a b] strset.diff [of E a b] strset.diff_union [of E a b c] assms by simp

text \<open>A trie with one emoji, the watch, and the sets of the emoji of its kind and of its code point.\<close>

definition watch_trie :: PackedRadixTree where
  "watch_trie = \<lparr>packed_ptr = [2, 0, 6, 0, 0xE2, 0x8C, 0x9A, 1], packed_maxCodePointCount = 1\<rparr>"

lemma watch_find: "trie_find watch_trie s = (if s = [0xE2, 0x8C, 0x9A] then 1 else 0)"
proof (cases "startsWith s [0xE2, 0x8C, 0x9A]")
  case True
  then obtain u where "s = [0xE2, 0x8C, 0x9A] @ u" by (auto simp: startsWith_iff)
  then show ?thesis
    by (simp add: trie_find_def packed_find_def packed_findLongestMatched_def watch_trie_def read_be_def slice_def startsWith_iff
        Let_def upt_rec lower_bound.simps)
next
  case False
  then have "s \<noteq> [0xE2, 0x8C, 0x9A]" by (auto simp: startsWith_def)
  with False show ?thesis
    by (simp add: trie_find_def packed_find_def packed_findLongestMatched_def watch_trie_def read_be_def slice_def Let_def upt_rec)
qed

lemma watch_ok: "trie_ok watch_trie"
proof -
  have "packed_strings watch_trie = [([0xE2, 0x8C, 0x9A], 1)]" by code_simp
  moreover have "emoji_kind 1" unfolding emoji_kind_def by (intro exI [of _ 0]) simp
  ultimately show ?thesis by (auto simp: trie_ok_def watch_find RADIX_MAX_STRING_SIZE_def)
qed

definition watch_kind :: StrSetBuilder where
  "watch_kind = (newStrSet False)\<lparr>ss_emoji := 1\<rparr>"

definition watch_code :: StrSetBuilder where
  "watch_code = addCodePoint (newStrSet False) 0x231A"

theorem strset_algebra_witness:
  "strs watch_trie watch_kind = {[0xE2, 0x8C, 0x9A]} \<and> strs watch_trie (subStrSet watch_trie watch_kind watch_code) = {}"
proof -
  note n = newStrSet_strs [OF watch_ok, of False]
  have c: "isCodePoint 0x231A" "codePointToUtf8 0x231A = [0xE2, 0x8C, 0x9A]" by code_simp+
  note x = addCodePoint_extends [OF conjunct1 [OF n] c(1), folded watch_code_def]
  have k: "strset_ok watch_kind" using n by (simp add: watch_kind_def strset_ok_def)
  have "hasFlag 1 (1 :: byte)" by (simp add: hasFlag_def)
  then have "strs watch_trie watch_kind = {[0xE2, 0x8C, 0x9A]}"
    using n by (auto simp: watch_kind_def strs_def emoji_strs_def findFromEmoji_def watch_find Let_def split: if_splits)
  moreover have "strs watch_trie watch_code = {[0xE2, 0x8C, 0x9A]}" using extends_strs [OF x] n c(2) by simp
  ultimately show ?thesis using strset_algebra [OF watch_ok k extends_ok [OF x] k] by simp
qed

end
