(* ===== verification/Regex_Class.thy ===== *)
theory Regex_Class
  imports Str_Set Ucp_Property Regex_Emit
begin

text \<open>
  Character classes in \<open>Lowering\<close> of \<open>regex/transform.h\<close> and \<open>regex/transform.cpp\<close>: a class or a property becomes
  a set of strings, and that set becomes a node the code generator knows. The members of the C++ object
  a class depends on are the fields of a record; the Unicode tables are among them.
\<close>

section \<open>The context\<close>

record Lowering =
  low_tables :: ucp_tables
  low_env :: unicode_env
  low_mode :: Mode
  low_modifiers :: byte
  low_direction :: bool

abbreviation low_fold :: "Lowering \<Rightarrow> int \<Rightarrow> int" where
  "low_fold L \<equiv> simpleFold (low_env L)"

abbreviation low_trie :: "Lowering \<Rightarrow> PackedRadixTree" where
  "low_trie L \<equiv> emojiTrie (low_env L)"

definition has_modifier :: "Lowering \<Rightarrow> Modifier \<Rightarrow> bool" where
  "has_modifier L m \<longleftrightarrow> hasFlag (low_modifiers L) (modifier_bit m)"

definition needSimpleCaseFolding :: "Lowering \<Rightarrow> bool" where
  "needSimpleCaseFolding L \<longleftrightarrow> low_mode L = UNICODE_SET \<and> has_modifier L IGNORE_CASE"

definition mayBeSimpleCaseFolding :: "Lowering \<Rightarrow> CodePointSetBuilder \<Rightarrow> CodePointSetBuilder" where
  "mayBeSimpleCaseFolding L b = (if needSimpleCaseFolding L then foldCase (low_fold L) b else b)"

definition low_complement :: "Lowering \<Rightarrow> CodePointSetBuilder \<Rightarrow> CodePointSetBuilder" where
  "low_complement L b = (if needSimpleCaseFolding L then complementWithFoldCase (low_fold L) b else complement b)"

section \<open>Leaves of a class\<close>

text \<open>\<open>PropertyNode::getUCP\<close> and \<open>getEmojiSeq\<close> unpack the 16 bits of the node.\<close>

definition name_of_byte :: "byte \<Rightarrow> PropertyName" where
  "name_of_byte n = (if n = 0 then General_Category else if n = 1 then Script else if n = 2 then Script_Extensions else Lone)"

definition getUCP :: "u16 \<Rightarrow> Property" where
  "getUCP d = \<lparr>property_name = name_of_byte (ucast (drop_bit 8 d)), property_value = ucast (d AND 0xFF)\<rparr>"

definition getEmojiSeq :: "u16 \<Rightarrow> byte" where
  "getEmojiSeq d = ucast d"

definition isProperty :: "node \<Rightarrow> PropertyType \<Rightarrow> bool" where
  "isProperty n t = (case n of PropertyNode t' _ \<Rightarrow> t' = t | _ \<Rightarrow> False)"

text \<open>The property a node stands for; the types the \<open>switch\<close> of \<open>toCodePointSet\<close> marks unreachable have none.\<close>

definition node_property :: "Lowering \<Rightarrow> PropertyType \<Rightarrow> u16 \<Rightarrow> Property option" where
  "node_property L t d =
     (case getNormalizedType t of
        P_DIGIT \<Rightarrow> Some (Property_lone Lone_ESRegexClassDigit)
      | P_WORD \<Rightarrow> Some (Property_lone (if has_modifier L IGNORE_CASE then Lone_ESRegexClassExtendWord
                                      else Lone_ESRegexClassWord))
      | P_SPACE \<Rightarrow> Some (Property_lone Lone_ESRegexClassSpace)
      | P_UNICODE \<Rightarrow> Some (getUCP d)
      | _ \<Rightarrow> None)"

definition toCodePointSet :: "Lowering \<Rightarrow> BuilderOrSet \<Rightarrow> PropertyType \<Rightarrow> u16 \<Rightarrow> BuilderOrSet" where
  "toCodePointSet L out t d =
     (case node_property L t d of Some p \<Rightarrow> snd (getPropertySet (low_tables L) p out) | None \<Rightarrow> out)"

text \<open>Whether the set \<open>getPropertySet\<close> stores is built for the purpose or a view of a table.\<close>

definition property_built :: "Property \<Rightarrow> bool" where
  "property_built p =
     (case property_name p of
        General_Category \<Rightarrow> \<not> unat (property_value p) < CATEGORY_PRIME_SIZE
      | Script \<Rightarrow> \<not> unat (property_value p) < SCRIPT_PRIME_SIZE
      | Script_Extensions \<Rightarrow> property_value p \<noteq> Script_Zyyy \<and> property_value p \<noteq> Script_Zinh
      | Lone \<Rightarrow> \<not> unat (property_value p) < LONE_PRIME_SIZE)"

definition tryToGenerateCharSetNode :: "Lowering \<Rightarrow> CodePointSetBuilder \<Rightarrow> bool \<Rightarrow> node" where
  "tryToGenerateCharSetNode L setBuilder invert =
     (let (ranges, b) = toCompactArrayRef setBuilder;
          other = CharSetNode invert (has_modifier L IGNORE_CASE) True (fst (build b)) in
      if ranges = [] \<and> invert then AnyNode (modifier_bit DOT_ALL)
      else if length ranges = 1 \<and> \<not> invert
      then (let (first, lst) = ranges ! 0 in
            if first = lst
            then (if has_modifier L IGNORE_CASE then FoldCharNode (low_fold L first) else CharNode first)
            else if first = 0 \<and> lst = CODE_POINT_MAX then AnyNode (modifier_bit DOT_ALL)
            else other)
      else other)"

section \<open>The strings of a class\<close>

text \<open>The elements of a class from left to right, with \<open>a-b\<close> in a class of type \<open>RANGE\<close> taken together
  (\<open>intoCharRange\<close>).\<close>

datatype class_item = RangeItem int int | NodeItem node

definition intoCharRange :: "CharClassType \<Rightarrow> node list \<Rightarrow> (int \<times> int) option" where
  "intoCharRange t cs =
     (case cs of
        CharNode first # n2 # CharNode lst # _ \<Rightarrow> if t = C_RANGE \<and> isProperty n2 P_RANGE then Some (first, lst) else None
      | _ \<Rightarrow> None)"

function class_items :: "CharClassType \<Rightarrow> node list \<Rightarrow> class_item list" where
  "class_items t cs =
     (case cs of [] \<Rightarrow> []
      | c # rest \<Rightarrow>
          (case intoCharRange t cs of
             Some (first, lst) \<Rightarrow> RangeItem first lst # class_items t (drop 3 cs)
           | None \<Rightarrow> NodeItem c # class_items t rest))"
  by pat_completeness auto
termination
  by (relation "measure (\<lambda>(t, cs). length cs)") auto

declare class_items.simps [simp del]

lemma class_items_nodes: "NodeItem n \<in> set (class_items t cs) \<Longrightarrow> n \<in> set cs"
proof (induction t cs rule: class_items.induct)
  case (1 t cs)
  show ?case
  proof (cases cs)
    case Nil
    with 1(3) show ?thesis by (simp add: class_items.simps)
  next
    case (Cons c rest)
    show ?thesis
    proof (cases "intoCharRange t cs")
      case None
      with 1 Cons show ?thesis by (auto simp: class_items.simps [of t "c # rest"])
    next
      case (Some fl)
      then have "n \<in> set (drop 3 cs)" using 1 Cons by (cases fl) (auto simp: class_items.simps [of t "c # rest"])
      then show ?thesis using in_set_dropD by fast
    qed
  qed
qed

text \<open>The code point of an element of a \<open>\q\<close> string; the other nodes the parser does not put there.\<close>

definition string_code :: "Lowering \<Rightarrow> node \<Rightarrow> int" where
  "string_code L c =
     (case c of
        CharNode x \<Rightarrow> if has_modifier L IGNORE_CASE then low_fold L x else x
      | FoldCharNode x \<Rightarrow> x
      | _ \<Rightarrow> -1)"

definition addEmojiNode :: "Lowering \<Rightarrow> u16 \<Rightarrow> StrSetBuilder \<Rightarrow> StrSetBuilder" where
  "addEmojiNode L d b =
     addEmoji b (if needSimpleCaseFolding L then setFlag (getEmojiSeq d) RGI_CASE_IGNORE else getEmojiSeq d)"

definition addPropertyNode :: "Lowering \<Rightarrow> PropertyType \<Rightarrow> u16 \<Rightarrow> StrSetBuilder \<Rightarrow> StrSetBuilder" where
  "addPropertyNode L t d b =
     (let useSubBuilder = property_isInvert t \<or> has_modifier L IGNORE_CASE;
          codes = (\<lambda>cb. out_builder (toCodePointSet L (ToBuilder cb) t d)) in
      if useSubBuilder
      then (let sub0 = mayBeSimpleCaseFolding L (codes empty_builder);
                sub1 = (if property_isInvert t then low_complement L sub0 else sub0)
            in b\<lparr>ss_codePoints := addBuilder (ss_codePoints b) sub1\<rparr>)
      else b\<lparr>ss_codePoints := codes (ss_codePoints b)\<rparr>)"

definition addClassRange :: "Lowering \<Rightarrow> int \<Rightarrow> int \<Rightarrow> StrSetBuilder \<Rightarrow> StrSetBuilder" where
  "addClassRange L first lst b =
     b\<lparr>ss_codePoints := addRange (low_fold L) (ss_codePoints b) first lst (needSimpleCaseFolding L)\<rparr>"

definition isClassOp :: "node \<Rightarrow> bool" where
  "isClassOp e \<longleftrightarrow> isProperty e P_INTERSECT \<or> isProperty e P_SUBTRACT"

function generateStrSet_low :: "Lowering \<Rightarrow> nat \<Rightarrow> node \<Rightarrow> StrSetBuilder \<Rightarrow> StrSetBuilder" where
  "generateStrSet_low L level (CharNode codePoint) b =
     addCodePoint b (if needSimpleCaseFolding L then low_fold L codePoint else codePoint)"
| "generateStrSet_low L level (FoldCharNode codePoint) b = addCodePoint b codePoint"
| "generateStrSet_low L level (PropertyNode t d) b =
     (if mayContainString t then addEmojiNode L d b else addPropertyNode L t d b)"
| "generateStrSet_low L level (CharClassNode invert t may cs) b =
     (let b0 = (if level \<noteq> 0 then newStrSet (has_modifier L IGNORE_CASE) else b);
          b1 = (if t = C_UNION \<or> t = C_RANGE
                then foldl (\<lambda>b item. case item of
                         RangeItem first lst \<Rightarrow> addClassRange L first lst b
                       | NodeItem e \<Rightarrow> generateStrSet_low L (level + 1) e b) b0 (class_items t cs)
                else (case cs of
                        [] \<Rightarrow> b0
                      | c # rest \<Rightarrow>
                          foldl (\<lambda>b e.
                            (let s = generateStrSet_low L 0 e (newStrSet (has_modifier L IGNORE_CASE)) in
                             if t = C_INTERSECT then intersectStrSet (low_trie L) b s else subStrSet (low_trie L) b s))
                            (generateStrSet_low L (level + 1) c b0) (filter (\<lambda>e. \<not> isClassOp e) rest)));
          b2 = (if invert \<and> low_mode L = UNICODE_SET
                then b1\<lparr>ss_codePoints := low_complement L (ss_codePoints b1)\<rparr> else b1)
      in if level \<noteq> 0 then addStrSet (low_trie L) b b2 else b2)"
| "generateStrSet_low L level (AltNode ps) b =
     foldl (\<lambda>b e. case e of
          CharNode _ \<Rightarrow> generateStrSet_low L (level + 1) e b
        | FoldCharNode _ \<Rightarrow> generateStrSet_low L (level + 1) e b
        | EmptyNode \<Rightarrow> b\<lparr>ss_emptySeq := True\<rparr>
        | SeqNode cs \<Rightarrow> addString (low_trie L) b (concat (map (\<lambda>c. codePointToUtf8 (string_code L c)) cs)) 1
        | _ \<Rightarrow> b) b ps"
| "generateStrSet_low L level EmptyNode b = b"
| "generateStrSet_low L level (AnyNode m) b = b"
| "generateStrSet_low L level (BoundaryNode bt m) b = b"
| "generateStrSet_low L level (BackRefNode name index ic) b = b"
| "generateStrSet_low L level (RepeatNode l mn mx g fi la p) b = b"
| "generateStrSet_low L level (SeqNode ps) b = b"
| "generateStrSet_low L level (LookAroundNode lt p) b = b"
| "generateStrSet_low L level (GroupNode gt i st un p) b = b"
| "generateStrSet_low L level (CharSetNode iv ic ow s) b = b"
| "generateStrSet_low L level (StrSetNode raw radix chars) b = b"
  by pat_completeness auto
termination
  by (relation "measure (\<lambda>(L, level, n, b). size n)")
     (auto simp: less_Suc_eq_le size_list_estimation' dest!: class_items_nodes intro!: le_SucI trans_le_add2)

section \<open>Classes\<close>

definition isSingleCharClass :: "bool \<Rightarrow> node list \<Rightarrow> bool" where
  "isSingleCharClass invert cs \<longleftrightarrow>
     length cs = 1 \<and> \<not> invert \<and> (case cs ! 0 of AltNode _ \<Rightarrow> False | _ \<Rightarrow> True)"

definition str_rank :: "node \<Rightarrow> nat" where
  "str_rank n = (if isProperty n P_EMOJI then 0 else case n of AltNode _ \<Rightarrow> 1 | _ \<Rightarrow> 2)"

text \<open>\<open>std::stable_sort\<close> is the stable \<open>sort_key\<close>.\<close>

function normalizeStrCharClass :: "node \<Rightarrow> node" where
  "normalizeStrCharClass n =
     (case n of
        CharClassNode invert t may cs \<Rightarrow>
          if \<not> may \<or> t = C_INTERSECT \<or> t = C_SUBTRACT then n
          else CharClassNode invert t may (map normalizeStrCharClass (sort_key str_rank cs))
      | _ \<Rightarrow> n)"
  by pat_completeness auto
termination
  by (relation "measure size") (auto simp: less_Suc_eq_le size_list_estimation')

declare normalizeStrCharClass.simps [simp del]

lemma normalize_class:
  "normalizeStrCharClass (CharClassNode invert t may cs) =
     (if \<not> may \<or> t = C_INTERSECT \<or> t = C_SUBTRACT then CharClassNode invert t may cs
      else CharClassNode invert t may (map normalizeStrCharClass (sort_key str_rank cs)))"
  by (subst normalizeStrCharClass.simps) simp

lemma normalize_other: "\<not> is_CharClassNode n \<Longrightarrow> normalizeStrCharClass n = n"
  by (subst normalizeStrCharClass.simps) (cases n; simp)

definition mkStrSet :: "Lowering \<Rightarrow> byte \<Rightarrow> RadixTree \<Rightarrow> node option \<Rightarrow> node" where
  "mkStrSet L emoji radix chars =
     StrSetNode (if has_modifier L IGNORE_CASE then setFlag emoji RGI_CASE_IGNORE else emoji) radix chars"

definition generateClassSet :: "Lowering \<Rightarrow> node \<Rightarrow> node" where
  "generateClassSet L n =
     (let b0 = generateStrSet_low L 0 n (newStrSet (has_modifier L IGNORE_CASE));
          invert = class_invert n \<and> low_mode L \<noteq> UNICODE_SET;
          b = (if has_modifier L IGNORE_CASE
               then b0\<lparr>ss_codePoints := foldCase (low_fold L) (ss_codePoints b0)\<rparr> else b0);
          wrap = (\<lambda>m. if ss_emptySeq b then AltNode [m] else m) in
      if radix_empty (ss_radix b) \<and> \<not> hasEmoji (ss_emoji b)
      then (if ss_emptySeq b \<and> \<not> builder_nonempty (ss_codePoints b) then EmptyNode
            else wrap (tryToGenerateCharSetNode L (ss_codePoints b) invert))
      else wrap (mkStrSet L (ss_emoji b) (ss_radix b)
             (if builder_nonempty (ss_codePoints b)
              then Some (tryToGenerateCharSetNode L (ss_codePoints b) invert) else None)))"

definition generatePropertySet :: "Lowering \<Rightarrow> PropertyType \<Rightarrow> u16 \<Rightarrow> node" where
  "generatePropertySet L t d =
     (if mayContainString t
      then mkStrSet L (if has_modifier L IGNORE_CASE then setFlag (getEmojiSeq d) RGI_CASE_IGNORE else getEmojiSeq d)
             empty_radix None
      else (let useBuilder = property_isInvert t \<or> has_modifier L IGNORE_CASE;
                b0 = mayBeSimpleCaseFolding L (out_builder (toCodePointSet L (ToBuilder empty_builder) t d));
                b1 = (if property_isInvert t then low_complement L b0 else b0);
                b2 = (if has_modifier L IGNORE_CASE then foldCase (low_fold L) b1 else b1) in
            if useBuilder then CharSetNode False (has_modifier L IGNORE_CASE) True (fst (build b2))
            else CharSetNode False (has_modifier L IGNORE_CASE)
                   (case node_property L t d of Some p \<Rightarrow> property_built p | None \<Rightarrow> False)
                   (out_set (toCodePointSet L (ToSet empty_set) t d))))"

end
