(* ===== verification/Regex_Lowering.thy ===== *)
theory Regex_Lowering
  imports Regex_Class
begin

text \<open>
  \<open>Lowering\<close> and \<open>transform\<close> of \<open>regex/transform.cpp\<close>: the pass between parser and code generator. It
  removes the groups that do not capture, resolves back references, replaces classes and properties by
  sets, and simplifies sequences, alternatives and repetitions. The stacks of modifiers and directions of
  the C++ object are the fields \<open>low_modifiers\<close> and \<open>low_direction\<close>, changed along the recursion; the states
  of the capture groups are threaded.
\<close>

section \<open>Back references\<close>

datatype CaptureState = NOT_OPENED | NOT_CLOSED | CLOSED

fun refers_closed :: "CaptureState list \<Rightarrow> NamedCaptureEntry \<Rightarrow> bool" where
  "refers_closed rc (MultipleIndices is) \<longleftrightarrow>
     list_all (\<lambda>i. rc ! i \<noteq> NOT_CLOSED) is \<and> list_ex (\<lambda>i. rc ! i = CLOSED) is"
| "refers_closed rc (SingleIndex i) \<longleftrightarrow> rc ! i = CLOSED"

definition checkBackRef :: "NamedCaptureGroups \<Rightarrow> CaptureState list \<Rightarrow> bytes \<Rightarrow> nat \<Rightarrow> bool" where
  "checkBackRef named rc name index =
     (if isNamed name then (case groups_find named name of Some e \<Rightarrow> refers_closed rc e | None \<Rightarrow> False)
      else rc ! index = CLOSED)"

section \<open>Lists of nodes\<close>

fun map_state :: "('a \<Rightarrow> 's \<Rightarrow> 'b \<times> 's) \<Rightarrow> 'a list \<Rightarrow> 's \<Rightarrow> 'b list \<times> 's" where
  "map_state f [] s = ([], s)"
| "map_state f (x # xs) s = (let (y, s1) = f x s; (ys, s2) = map_state f xs s1 in (y # ys, s2))"

lemma map_state_cong [fundef_cong]:
  "xs = ys \<Longrightarrow> s = s' \<Longrightarrow> (\<And>x s. x \<in> set ys \<Longrightarrow> f x s = g x s) \<Longrightarrow> map_state f xs s = map_state g ys s'"
proof (induction xs arbitrary: ys s s')
  case (Cons x xs)
  then show ?case by (auto split: prod.splits)
qed simp

text \<open>\<open>Lowering::visit(SeqNode &)\<close> after the visit of its elements, and what becomes of the sequence.\<close>

definition flatten_seq :: "node list \<Rightarrow> node list" where
  "flatten_seq ps = concat (map (\<lambda>n. case n of SeqNode qs \<Rightarrow> qs | _ \<Rightarrow> [n]) ps)"

definition finish_seq :: "node list \<Rightarrow> node" where
  "finish_seq ps =
     (case filter (\<lambda>n. \<not> isa_EmptyNode n) (flatten_seq ps) of [] \<Rightarrow> EmptyNode | [p] \<Rightarrow> p | qs \<Rightarrow> SeqNode qs)"

text \<open>\<open>std::unique\<close> with the test that both neighbours are empty, and the flattening of the last alternative.\<close>

fun unique_empty :: "node list \<Rightarrow> node list" where
  "unique_empty (x # y # rest) =
     (if isa_EmptyNode x \<and> isa_EmptyNode y then unique_empty (x # rest) else x # unique_empty (y # rest))"
| "unique_empty ps = ps"

definition flatten_last :: "node list \<Rightarrow> node list" where
  "flatten_last ps =
     (if length ps > 1
      then (case last ps of AltNode qs \<Rightarrow> if length qs > 1 then butlast ps @ qs else ps | _ \<Rightarrow> ps)
      else ps)"

definition finish_alt :: "node list \<Rightarrow> node" where
  "finish_alt ps = AltNode (flatten_last (unique_empty ps))"

definition finish_look :: "LookAroundType \<Rightarrow> node \<Rightarrow> node" where
  "finish_look t p = (if isa_EmptyNode p \<and> \<not> isNegate t then p else LookAroundNode t p)"

definition in_order :: "bool \<Rightarrow> ('a list \<Rightarrow> 's \<Rightarrow> 'b list \<times> 's) \<Rightarrow> 'a list \<Rightarrow> 's \<Rightarrow> 'b list \<times> 's" where
  "in_order forward f xs s = (if forward then f xs s else (let (ys, s') = f (rev xs) s in (rev ys, s')))"

lemma in_order_cong [fundef_cong]:
  "fw = fw' \<Longrightarrow> xs = xs' \<Longrightarrow> s = s' \<Longrightarrow> (\<And>ys. set ys = set xs' \<Longrightarrow> f ys s' = g ys s') \<Longrightarrow>
     in_order fw f xs s = in_order fw' g xs' s'"
  by (auto simp: in_order_def)

section \<open>The visit\<close>

definition group_modifiers :: "byte \<Rightarrow> byte \<Rightarrow> byte \<Rightarrow> byte" where
  "group_modifiers m st un =
     (let m1 = (if st \<noteq> 0 then setFlag m st else m) in if un \<noteq> 0 then unsetFlag m1 un else m1)"

lemma size_list_same: "(\<And>c. c \<in> set xs \<Longrightarrow> f c = g c) \<Longrightarrow> size_list f xs = size_list g xs"
  by (induction xs) auto

lemma size_list_sort: "size_list f (sort_key g xs) = size_list f xs"
proof (induction xs)
  case (Cons x xs)
  have "size_list f (insort_key g x ys) = Suc (f x + size_list f ys)" for ys by (induction ys) auto
  with Cons show ?case by simp
qed simp

lemma size_normalize: "size (normalizeStrCharClass n) = size n"
proof (induction n rule: normalizeStrCharClass.induct)
  case (1 n)
  show ?case
  proof (cases n)
    case (CharClassNode iv t may cs)
    show ?thesis
    proof (cases "\<not> may \<or> t = C_INTERSECT \<or> t = C_SUBTRACT")
      case False
      have "size_list (\<lambda>c. size (normalizeStrCharClass c)) (sort_key str_rank cs) = size_list size (sort_key str_rank cs)"
        using 1 CharClassNode False by (intro size_list_same) auto
      with CharClassNode False show ?thesis by (simp add: normalize_class size_list_sort o_def)
    qed (simp add: CharClassNode normalize_class)
  qed (simp_all add: normalize_other)
qed

text \<open>The single element of a class is smaller than the class.\<close>

lemma single_smaller:
  assumes "isSingleCharClass iv (class_chars (normalizeStrCharClass (CharClassNode iv t may cs)))"
  shows "size (class_chars (normalizeStrCharClass (CharClassNode iv t may cs)) ! 0) \<le> size_list size cs"
proof -
  obtain iv' t' may' ds where n: "normalizeStrCharClass (CharClassNode iv t may cs) = CharClassNode iv' t' may' ds"
    by (cases "\<not> may \<or> t = C_INTERSECT \<or> t = C_SUBTRACT") (simp_all add: normalize_class)
  with assms have "ds ! 0 \<in> set ds" by (auto simp: isSingleCharClass_def)
  then have "size (ds ! 0) \<le> size_list size ds" by (simp add: size_list_estimation')
  with n size_normalize [of "CharClassNode iv t may cs"] show ?thesis by simp
qed

function visit :: "NamedCaptureGroups \<Rightarrow> Lowering \<Rightarrow> node \<Rightarrow> CaptureState list \<Rightarrow> node \<times> CaptureState list" where
  "visit nm L EmptyNode rc = (EmptyNode, rc)"
| "visit nm L (AnyNode m) rc = (AnyNode (low_modifiers L), rc)"
| "visit nm L (CharNode codePoint) rc =
     (if has_modifier L IGNORE_CASE then FoldCharNode (low_fold L codePoint) else CharNode codePoint, rc)"
| "visit nm L (CharClassNode iv t may cs) rc =
     (let n = normalizeStrCharClass (CharClassNode iv t may cs) in
      if isSingleCharClass iv (class_chars n) then visit nm L (class_chars n ! 0) rc
      else (generateClassSet L n, rc))"
| "visit nm L (PropertyNode t d) rc =
     (if getNormalizedType t \<noteq> P_GRAPHEME then generatePropertySet L t d else PropertyNode t d, rc)"
| "visit nm L (BoundaryNode t m) rc = (BoundaryNode t (low_modifiers L), rc)"
| "visit nm L (BackRefNode name index ic) rc =
     (if checkBackRef nm rc name index then BackRefNode name index (has_modifier L IGNORE_CASE) else EmptyNode, rc)"
| "visit nm L (SeqNode ps) rc =
     (let (qs, rc') = in_order (low_direction L) (map_state (\<lambda>p rc. visit nm L p rc)) ps rc in (finish_seq qs, rc'))"
| "visit nm L (AltNode ps) rc =
     (let (qs, rc') = map_state (\<lambda>p rc. visit nm L p rc) ps rc in (finish_alt qs, rc'))"
| "visit nm L (LookAroundNode t p) rc =
     (let (q, rc') = visit nm (L\<lparr>low_direction := isLookAhead t\<rparr>) p rc in (finish_look t q, rc'))"
| "visit nm L (RepeatNode l mn mx greedy fi la p) rc =
     (if mx = 0 then (EmptyNode, rc)
      else if mn = 1 \<and> mx = 1 \<and> fi = 0 then visit nm L p rc
      else if mn = 0 \<and> mx = 1 \<and> fi = 0 \<and> greedy
      then (let (qs, rc') = map_state (\<lambda>p rc. visit nm L p rc) [p, EmptyNode] rc in (finish_alt qs, rc'))
      else (let (q, rc') = visit nm L p rc in (RepeatNode l mn mx greedy fi la q, rc')))"
| "visit nm L (GroupNode t g st un p) rc =
     (case t of
        G_CAPTURE \<Rightarrow>
          (let (q, rc') = visit nm L p (rc[g := NOT_CLOSED]) in (GroupNode t g st un q, rc'[g := CLOSED]))
      | G_NON_CAPTURE \<Rightarrow> visit nm L p rc
      | G_MODIFIER \<Rightarrow> visit nm (L\<lparr>low_modifiers := group_modifiers (low_modifiers L) st un\<rparr>) p rc)"
| "visit nm L (FoldCharNode c) rc = (FoldCharNode c, rc)"
| "visit nm L (CharSetNode iv ic ow s) rc = (CharSetNode iv ic ow s, rc)"
| "visit nm L (StrSetNode raw radix chars) rc = (StrSetNode raw radix chars, rc)"
  by pat_completeness auto
termination
  by (relation "measure (\<lambda>(nm, L, n, rc). size n)")
     (simp_all add: less_Suc_eq_le size_list_estimation' single_smaller, auto simp: size_list_estimation')

section \<open>Alternatives of strings\<close>

definition isCharSeq :: "node \<Rightarrow> bool" where
  "isCharSeq n = (case n of CharNode _ \<Rightarrow> True | SeqNode ps \<Rightarrow> list_all isa_CharNode ps | _ \<Rightarrow> False)"

definition isa_FoldCharNode :: "node \<Rightarrow> bool" where
  "isa_FoldCharNode n = (case n of FoldCharNode _ \<Rightarrow> True | _ \<Rightarrow> False)"

definition isFoldCharSeq :: "node \<Rightarrow> bool" where
  "isFoldCharSeq n = (case n of FoldCharNode _ \<Rightarrow> True | SeqNode ps \<Rightarrow> list_all isa_FoldCharNode ps | _ \<Rightarrow> False)"

definition char_code :: "node \<Rightarrow> int" where
  "char_code n = (case n of CharNode c \<Rightarrow> c | FoldCharNode c \<Rightarrow> c | _ \<Rightarrow> -1)"

text \<open>The first code point and the length of a string.\<close>

definition first_and_length :: "node \<Rightarrow> int \<times> nat" where
  "first_and_length n = (case n of SeqNode ps \<Rightarrow> (char_code (ps ! 0), length ps) | _ \<Rightarrow> (char_code n, 1))"

text \<open>Among the strings that start with the same code point the lengths must not grow.\<close>

fun lengths_fall :: "(int \<rightharpoonup> nat) \<Rightarrow> node list \<Rightarrow> bool" where
  "lengths_fall prefixCodeMap [] \<longleftrightarrow> True"
| "lengths_fall prefixCodeMap (e # es) \<longleftrightarrow>
     (if isa_EmptyNode e then lengths_fall prefixCodeMap es
      else (let (codePoint, len) = first_and_length e in
            case prefixCodeMap codePoint of
              Some len' \<Rightarrow> len \<le> len' \<and> lengths_fall (prefixCodeMap(codePoint \<mapsto> len)) es
            | None \<Rightarrow> lengths_fall (prefixCodeMap(codePoint \<mapsto> len)) es))"

definition strings_alt :: "node list \<Rightarrow> bool" where
  "strings_alt ps \<longleftrightarrow>
     length ps > 1 \<and>
     (let qs = rev (dropWhile isa_EmptyNode (rev ps)) in list_all isCharSeq qs \<or> list_all isFoldCharSeq qs) \<and>
     lengths_fall Map.empty ps"

definition generateStrAlt :: "Lowering \<Rightarrow> node list \<Rightarrow> node" where
  "generateStrAlt L ps =
     generateClassSet (L\<lparr>low_modifiers := (if isFoldCharSeq (ps ! 0) then modifier_bit IGNORE_CASE else 0)\<rparr>)
       (snd (class_finalize False C_UNION [AltNode ps]))"

fun optimizeStrAlt :: "Lowering \<Rightarrow> node \<Rightarrow> node" where
  "optimizeStrAlt L (LookAroundNode t p) =
     (if low_direction L then LookAroundNode t (optimizeStrAlt (L\<lparr>low_direction := isLookAhead t\<rparr>) p)
      else LookAroundNode t p)"
| "optimizeStrAlt L (RepeatNode l mn mx greedy fi la p) =
     (if low_direction L then RepeatNode l mn mx greedy fi la (optimizeStrAlt L p) else RepeatNode l mn mx greedy fi la p)"
| "optimizeStrAlt L (GroupNode t g st un p) =
     (if low_direction L then GroupNode t g st un (optimizeStrAlt L p) else GroupNode t g st un p)"
| "optimizeStrAlt L (SeqNode ps) = (if low_direction L then SeqNode (map (optimizeStrAlt L) ps) else SeqNode ps)"
| "optimizeStrAlt L (AltNode ps) =
     (if low_direction L
      then (if strings_alt ps then generateStrAlt L ps else AltNode (map (optimizeStrAlt L) ps))
      else AltNode ps)"
| "optimizeStrAlt L n = n"

fun optimizeFoldChar :: "unicode_env \<Rightarrow> node \<Rightarrow> node" where
  "optimizeFoldChar env (FoldCharNode c) = (if simpleUnfold env c = [] then CharNode c else FoldCharNode c)"
| "optimizeFoldChar env (RepeatNode l mn mx greedy fi la p) = RepeatNode l mn mx greedy fi la (optimizeFoldChar env p)"
| "optimizeFoldChar env (LookAroundNode t p) = LookAroundNode t (optimizeFoldChar env p)"
| "optimizeFoldChar env (GroupNode t g st un p) = GroupNode t g st un (optimizeFoldChar env p)"
| "optimizeFoldChar env (SeqNode ps) = SeqNode (map (optimizeFoldChar env) ps)"
| "optimizeFoldChar env (AltNode ps) = AltNode (map (optimizeFoldChar env) ps)"
| "optimizeFoldChar env n = n"

section \<open>The transformation\<close>

definition newLowering :: "ucp_tables \<Rightarrow> unicode_env \<Rightarrow> Flag \<Rightarrow> Lowering" where
  "newLowering T env flag =
     \<lparr>low_tables = T, low_env = env, low_mode = flag_mode flag, low_modifiers = flag_modifiers flag, low_direction = True\<rparr>"

definition optimize :: "Lowering \<Rightarrow> node \<Rightarrow> node" where
  "optimize L n = optimizeFoldChar (low_env L) (optimizeStrAlt L n)"

definition transform :: "ucp_tables \<Rightarrow> unicode_env \<Rightarrow> SyntaxTree \<Rightarrow> SyntaxTree" where
  "transform T env tree =
     (let L = newLowering T env (tree_flag tree);
          (p, _) = visit (tree_namedCaptureGroups tree) L (tree_pattern tree)
                     (replicate (Suc (tree_captureGroupCount tree)) NOT_OPENED)
      in tree\<lparr>tree_pattern := optimize L p\<rparr>)"

section \<open>Lowered trees\<close>

text \<open>The trees of the parser: none of the nodes only the lowering makes.\<close>

fun parsed :: "node \<Rightarrow> bool" where
  "parsed (CharClassNode _ _ _ cs) \<longleftrightarrow> list_all parsed cs"
| "parsed (RepeatNode _ _ _ _ _ _ p) \<longleftrightarrow> parsed p"
| "parsed (SeqNode ps) \<longleftrightarrow> list_all parsed ps"
| "parsed (AltNode ps) \<longleftrightarrow> list_all parsed ps"
| "parsed (LookAroundNode _ p) \<longleftrightarrow> parsed p"
| "parsed (GroupNode _ _ _ _ p) \<longleftrightarrow> parsed p"
| "parsed (FoldCharNode _) \<longleftrightarrow> False"
| "parsed (CharSetNode _ _ _ _) \<longleftrightarrow> False"
| "parsed (StrSetNode _ _ _) \<longleftrightarrow> False"
| "parsed _ \<longleftrightarrow> True"

lemma lowered_charset: "lowered (tryToGenerateCharSetNode L b invert)"
  by (simp add: tryToGenerateCharSetNode_def case_prod_beta Let_def)

lemma lowered_class: "lowered (generateClassSet L n)"
  by (simp add: generateClassSet_def mkStrSet_def lowered_charset Let_def)

lemma lowered_property: "lowered (generatePropertySet L t d)"
  by (simp add: generatePropertySet_def mkStrSet_def Let_def)

lemma parsed_normalize: "parsed n \<Longrightarrow> parsed (normalizeStrCharClass n)"
proof (induction n rule: normalizeStrCharClass.induct)
  case (1 n)
  show ?case
  proof (cases "is_CharClassNode n")
    case True
    then obtain iv t may cs where n: "n = CharClassNode iv t may cs" by (cases n) auto
    then have "\<forall>c\<in>set cs. parsed c" using 1(2) by (simp add: list_all_iff)
    with 1(1) [OF n] n show ?thesis by (auto simp: normalize_class list_all_iff)
  qed (use 1(2) in \<open>simp add: normalize_other\<close>)
qed

lemma map_state_all:
  assumes "\<And>x s. x \<in> set xs \<Longrightarrow> P (fst (f x s))"
  shows "list_all P (fst (map_state f xs s))"
  using assms
proof (induction xs arbitrary: s)
  case (Cons x xs)
  have "P (fst (f x s))" "list_all P (fst (map_state f xs (snd (f x s))))" using Cons by auto
  then show ?case by (simp add: case_prod_beta Let_def)
qed simp

lemma in_order_all:
  assumes "\<And>ys s. set ys = set xs \<Longrightarrow> list_all P (fst (f ys s))"
  shows "list_all P (fst (in_order fw f xs s))"
  using assms [of xs s] assms [of "rev xs" s] by (simp add: in_order_def case_prod_beta Let_def)

lemma lowered_flatten: "list_all lowered ps \<Longrightarrow> list_all lowered (flatten_seq ps)"
  by (induction ps) (auto simp: flatten_seq_def list_all_iff split: node.splits)

lemma lowered_finish_seq: "list_all lowered ps \<Longrightarrow> lowered (finish_seq ps)"
proof -
  assume "list_all lowered ps"
  then have "list_all lowered (filter (\<lambda>n. \<not> isa_EmptyNode n) (flatten_seq ps))"
    using lowered_flatten [of ps] by (auto simp: list_all_iff)
  then show ?thesis by (auto simp: finish_seq_def split: list.splits)
qed

lemma set_unique_empty: "set (unique_empty ps) \<subseteq> set ps"
  by (induction ps rule: unique_empty.induct) auto

lemma lowered_finish_alt: "list_all lowered ps \<Longrightarrow> lowered (finish_alt ps)"
proof -
  assume a: "list_all lowered ps"
  let ?qs = "unique_empty ps"
  have q: "\<forall>q\<in>set ?qs. lowered q" using a set_unique_empty by (auto simp: list_all_iff)
  have "list_all lowered (flatten_last ?qs)"
  proof (cases "length ?qs > 1 \<and> (\<exists>rs. last ?qs = AltNode rs \<and> length rs > 1)")
    case True
    then obtain rs where rs: "last ?qs = AltNode rs" "length rs > 1" "length ?qs > 1" by blast
    then have "lowered (last ?qs)" using q by (metis last_in_set list.size(3) not_one_less_zero)
    with rs q show ?thesis by (auto simp: flatten_last_def list_all_iff dest: in_set_butlastD)
  next
    case False
    then have "flatten_last ?qs = ?qs" by (auto simp: flatten_last_def split: node.splits)
    with q show ?thesis by (simp add: list_all_iff)
  qed
  then show ?thesis by (simp add: finish_alt_def)
qed

lemma visit_lowered: "parsed n \<Longrightarrow> lowered (fst (visit nm L n rc))"
proof (induction nm L n rc rule: visit.induct)
  case (4 nm L iv t may cs rc)
  let ?n = "normalizeStrCharClass (CharClassNode iv t may cs)"
  show ?case
  proof (cases "isSingleCharClass iv (class_chars ?n)")
    case True
    have "parsed ?n" using parsed_normalize [OF 4(2)] .
    moreover have "is_CharClassNode ?n" by (simp add: normalize_class)
    ultimately have "list_all parsed (class_chars ?n)" by (cases ?n) simp_all
    moreover have "0 < length (class_chars ?n)" using True unfolding isSingleCharClass_def by linarith
    ultimately have "parsed (class_chars ?n ! 0)" unfolding list_all_length by blast
    with 4(1) [OF refl True] True show ?thesis by (simp add: Let_def)
  qed (simp add: lowered_class Let_def)
next
  case (8 nm L ps rc)
  have "list_all lowered (fst (in_order (low_direction L) (map_state (\<lambda>p rc. visit nm L p rc)) ps rc))"
    using 8 by (intro in_order_all map_state_all) (auto simp: list_all_iff)
  then show ?case by (simp add: case_prod_beta Let_def lowered_finish_seq)
next
  case (9 nm L ps rc)
  have "list_all lowered (fst (map_state (\<lambda>p rc. visit nm L p rc) ps rc))"
    using 9 by (intro map_state_all) (auto simp: list_all_iff)
  then show ?case by (simp add: case_prod_beta Let_def lowered_finish_alt)
next
  case (10 nm L t p rc)
  then show ?case by (simp add: case_prod_beta Let_def finish_look_def)
next
  case (11 nm L l mn mx greedy fi la p rc)
  consider "mx = 0" | "mx \<noteq> 0" "mn = 1 \<and> mx = 1 \<and> fi = 0" | "mx \<noteq> 0" "\<not> (mn = 1 \<and> mx = 1 \<and> fi = 0)" "mn = 0 \<and> mx = 1 \<and> fi = 0 \<and> greedy"
    | "mx \<noteq> 0" "\<not> (mn = 1 \<and> mx = 1 \<and> fi = 0)" "\<not> (mn = 0 \<and> mx = 1 \<and> fi = 0 \<and> greedy)" by blast
  then show ?case
  proof cases
    case 3
    have "list_all lowered (fst (map_state (\<lambda>p rc. visit nm L p rc) [p, EmptyNode] rc))"
      using 11(2) [OF 3] 11(4) by (intro map_state_all) auto
    with 3 show ?thesis by (simp add: case_prod_beta Let_def lowered_finish_alt)
  qed (use 11 in \<open>auto simp: case_prod_beta Let_def\<close>)
next
  case (12 nm L t g st un p rc)
  then show ?case by (cases t) (simp_all add: case_prod_beta Let_def)
qed (simp_all add: lowered_property)

lemma optimizeStrAlt_lowered: "lowered n \<Longrightarrow> lowered (optimizeStrAlt L n)"
  by (induction L n rule: optimizeStrAlt.induct) (auto simp: list_all_iff generateStrAlt_def lowered_class)

lemma optimizeFoldChar_lowered: "lowered n \<Longrightarrow> lowered (optimizeFoldChar env n)"
  by (induction env n rule: optimizeFoldChar.induct) (auto simp: list_all_iff)

text \<open>C11. The lowering removes everything the code generator does not know: on a tree of the parser \<open>transform\<close>
  leaves no class, no property but the grapheme cluster and no group that does not capture, so
  generating code from it never reaches a branch the generator marks unreachable; it gives a regular
  expression or an error message.\<close>

theorem transform_lowered:
  assumes "parsed (tree_pattern tree)"
  shows "lowered (tree_pattern (transform T env tree)) \<and> codegen env' (transform T env tree) \<noteq> Inl GenFatal"
proof -
  have l: "lowered (tree_pattern (transform T env tree))"
    using optimizeFoldChar_lowered optimizeStrAlt_lowered visit_lowered [OF assms]
    by (simp add: transform_def optimize_def case_prod_beta Let_def)
  then show ?thesis
    using generate_not_fatal [OF l, of "\<lparr>gen_buf = [], gen_matchers = [], gen_directions = [True]\<rparr>"]
    by (auto simp: codegen_def Let_def split: sum.splits)
qed

end
