(* ===== verification/Class_Lowering.thy ===== *)
theory Class_Lowering
  imports Regex_Class
begin

text \<open>
  What a character class means, and that its lowering gives a node that accepts exactly that. The
  reference \<open>class_strs\<close> is a set of strings, computed by union, intersection, difference and complement along
  the class; it knows nothing of radix trees, emoji kinds or range lists.
\<close>

section \<open>The meaning of a class\<close>

text \<open>With the flags \<open>v\<close> and \<open>i\<close> a class is computed on folded code points, and its complement is taken among
  them.\<close>

definition low_case :: "Lowering \<Rightarrow> int \<Rightarrow> int" where
  "low_case L c = (if needSimpleCaseFolding L then low_fold L c else c)"

definition low_all :: "Lowering \<Rightarrow> int set" where
  "low_all L = low_case L ` {0..CODE_POINT_MAX}"

definition prop_points :: "Lowering \<Rightarrow> PropertyType \<Rightarrow> u16 \<Rightarrow> int set" where
  "prop_points L t d =
     (let P = (case node_property L t d of Some p \<Rightarrow> low_case L ` property_points (low_tables L) p | None \<Rightarrow> {}) in
      if property_isInvert t then low_all L - P else P)"

definition string_strs :: "Lowering \<Rightarrow> node \<Rightarrow> bytes set" where
  "string_strs L e =
     (case e of
        CharNode c \<Rightarrow> {codePointToUtf8 (low_case L c)}
      | FoldCharNode c \<Rightarrow> {codePointToUtf8 c}
      | EmptyNode \<Rightarrow> {[]}
      | SeqNode cs \<Rightarrow> {text_of (map (string_code L) cs)}
      | _ \<Rightarrow> {})"

function (sequential) class_strs :: "Lowering \<Rightarrow> node \<Rightarrow> bytes set" where
  "class_strs L (CharNode c) = string_strs L (CharNode c)"
| "class_strs L (FoldCharNode c) = string_strs L (FoldCharNode c)"
| "class_strs L (PropertyNode t d) =
     (if mayContainString t then emoji_strs (low_trie L) (getEmojiSeq d) else codePointToUtf8 ` prop_points L t d)"
| "class_strs L (AltNode ps) = (\<Union>e\<in>set ps. string_strs L e)"
| "class_strs L (CharClassNode invert t may cs) =
     (let S = (if t = C_UNION \<or> t = C_RANGE
               then {s. \<exists>item\<in>set (class_items t cs). case item of
                      RangeItem f l \<Rightarrow> s \<in> codePointToUtf8 ` low_case L ` {f..l}
                    | NodeItem e \<Rightarrow> s \<in> class_strs L e}
               else (case cs of
                   [] \<Rightarrow> {}
                 | c # rest \<Rightarrow> {s \<in> class_strs L c. \<forall>e\<in>set rest. isClassOp e \<or> (s \<in> class_strs L e) = (t = C_INTERSECT)}))
      in if invert \<and> low_mode L = UNICODE_SET
         then codePointToUtf8 ` (low_all L - {c. isCodePoint c \<and> codePointToUtf8 c \<in> S}) else S)"
| "class_strs L n = {}"
  by pat_completeness auto
termination
  by (relation "measure (\<lambda>(L, n). size n)")
     (auto simp: less_Suc_eq_le size_list_estimation' dest!: class_items_nodes intro!: le_SucI trans_le_add2)

text \<open>Classes as the parser finishes them: valid code points and properties, strings of at least two
  characters that fit a radix tree, an operand first and last, nested classes only with the flag \<open>v\<close>, the mark of
  \<open>finalize\<close>, and no strings in an inverted class.\<close>

definition char_wf :: "Lowering \<Rightarrow> node \<Rightarrow> bool" where
  "char_wf L e =
     (case e of
        CharNode c \<Rightarrow> isCodePoint c
      | FoldCharNode c \<Rightarrow> isCodePoint c \<and> low_fold L c = c \<and> has_modifier L IGNORE_CASE
      | _ \<Rightarrow> False)"

definition string_wf :: "Lowering \<Rightarrow> node \<Rightarrow> bool" where
  "string_wf L e =
     (case e of
        EmptyNode \<Rightarrow> True
      | SeqNode cs \<Rightarrow> length cs > 1 \<and> list_all (char_wf L) cs \<and>
          length (text_of (map (string_code L) cs)) \<le> RADIX_MAX_STRING_SIZE
      | _ \<Rightarrow> char_wf L e)"

definition property_wf :: "Lowering \<Rightarrow> PropertyType \<Rightarrow> u16 \<Rightarrow> bool" where
  "property_wf L t d =
     (if mayContainString t then t = P_EMOJI \<and> \<not> hasFlag (getEmojiSeq d) RGI_CASE_IGNORE
      else (case node_property L t d of Some p \<Rightarrow> property_exists p | None \<Rightarrow> False))"

function (sequential) class_wf :: "Lowering \<Rightarrow> node \<Rightarrow> bool" where
  "class_wf L (CharNode c) \<longleftrightarrow> char_wf L (CharNode c)"
| "class_wf L (FoldCharNode c) \<longleftrightarrow> char_wf L (FoldCharNode c)"
| "class_wf L (PropertyNode t d) \<longleftrightarrow> property_wf L t d"
| "class_wf L (AltNode ps) \<longleftrightarrow> list_all (string_wf L) ps"
| "class_wf L (CharClassNode invert t may cs) \<longleftrightarrow>
     class_finalize invert t cs = (True, CharClassNode invert t may cs) \<and>
     (if t = C_UNION \<or> t = C_RANGE
      then list_all (\<lambda>item. case item of
             RangeItem f l \<Rightarrow> isCodePoint f \<and> isCodePoint l \<and> f \<le> l
           | NodeItem e \<Rightarrow> class_wf L e \<and> (is_CharClassNode e \<longrightarrow> low_mode L = UNICODE_SET)) (class_items t cs)
      else cs \<noteq> [] \<and> \<not> isClassOp (hd cs) \<and>
           list_all (\<lambda>e. isClassOp e \<or> class_wf L e \<and> (is_CharClassNode e \<longrightarrow> low_mode L = UNICODE_SET)) cs)"
| "class_wf L n \<longleftrightarrow> False"
  by pat_completeness auto
termination
  by (relation "measure (\<lambda>(L, n). size n)")
     (auto simp: less_Suc_eq_le size_list_estimation' dest!: class_items_nodes intro!: le_SucI trans_le_add2)

text \<open>What the tables promise: folding is idempotent on code points, and the emoji sequences are encoded
  texts without case.\<close>

definition low_canon :: "Lowering \<Rightarrow> int \<Rightarrow> int" where
  "low_canon L c = (if has_modifier L IGNORE_CASE then low_fold L c else c)"

definition stable_texts :: "Lowering \<Rightarrow> bytes set" where
  "stable_texts L = {text_of t |t. list_all isCodePoint t \<and> map (low_canon L) t = t}"

definition low_ok :: "Lowering \<Rightarrow> bool" where
  "low_ok L \<longleftrightarrow> tables_ok (low_tables L) \<and> trie_ok (low_trie L) \<and>
     (\<forall>c. isCodePoint c \<longrightarrow> isCodePoint (low_fold L c) \<and> low_fold L (low_fold L c) = low_fold L c) \<and>
     (\<forall>s. trie_find (low_trie L) s \<noteq> 0 \<longrightarrow> (\<exists>t. s = text_of t \<and> list_all isCodePoint t \<and> map (low_fold L) t = t))"

section \<open>Builders along a class\<close>

definition tame :: "Lowering \<Rightarrow> StrSetBuilder \<Rightarrow> bool" where
  "tame L b \<longleftrightarrow> strset_ok b \<and> radix_strs (ss_radix b) \<subseteq> stable_texts L \<and>
     (hasFlag (ss_emoji b) RGI_CASE_IGNORE \<longrightarrow> has_modifier L IGNORE_CASE)"

definition plain :: "StrSetBuilder \<Rightarrow> bool" where
  "plain b \<longleftrightarrow> radix_empty (ss_radix b) \<and> \<not> hasEmoji (ss_emoji b) \<and> \<not> ss_emptySeq b"

text \<open>A step that adds the strings \<open>S\<close>, and no part but code points when \<open>only_codes\<close>.\<close>

definition adds :: "Lowering \<Rightarrow> bytes set \<Rightarrow> bool \<Rightarrow> StrSetBuilder \<Rightarrow> StrSetBuilder \<Rightarrow> bool" where
  "adds L S only_codes b b' \<longleftrightarrow> tame L b' \<and> strs (low_trie L) b' = strs (low_trie L) b \<union> S \<and>
     (only_codes \<and> plain b \<longrightarrow> plain b')"

lemma low_okD:
  assumes "low_ok L"
  shows "tables_ok (low_tables L)" "trie_ok (low_trie L)" "isCodePoint c \<Longrightarrow> isCodePoint (low_fold L c)"
    "isCodePoint c \<Longrightarrow> low_fold L (low_fold L c) = low_fold L c"
  using assms by (auto simp: low_ok_def)

lemma low_canon_fun: "low_canon L = (if has_modifier L IGNORE_CASE then low_fold L else (\<lambda>c. c))"
  by (auto simp: low_canon_def)

lemma emoji_stable:
  assumes "low_ok L"
  shows "emoji_strs (low_trie L) e \<subseteq> stable_texts L"
proof
  fix s assume "s \<in> emoji_strs (low_trie L) e"
  then have "trie_find (low_trie L) s \<noteq> 0" by (simp add: emoji_strs_def findFromEmoji_def Let_def)
  then obtain t where "s = text_of t" "list_all isCodePoint t" "map (low_fold L) t = t" using assms unfolding low_ok_def by blast
  then show "s \<in> stable_texts L" by (auto simp: stable_texts_def low_canon_fun)
qed

lemma adds_trans: "adds L S o1 b b1 \<Longrightarrow> adds L S' o2 b1 b2 \<Longrightarrow> adds L (S \<union> S') (o1 \<and> o2) b b2"
  by (auto simp: adds_def)

lemma adds_refl: "tame L b \<Longrightarrow> adds L {} True b b"
  by (simp add: adds_def)

lemma adds_tame: "adds L S o1 b b' \<Longrightarrow> tame L b'"
  by (simp add: adds_def)

lemma foldl_adds:
  assumes "tame L b" "\<And>x b. x \<in> set xs \<Longrightarrow> tame L b \<Longrightarrow> adds L (S x) (only x) b (f b x)"
  shows "adds L (\<Union>(S ` set xs)) (\<forall>x\<in>set xs. only x) b (foldl f b xs)"
  using assms
proof (induction xs arbitrary: b)
  case (Cons x xs)
  have x: "adds L (S x) (only x) b (f b x)" using Cons.prems by simp
  have "adds L (\<Union>(S ` set xs)) (\<forall>x\<in>set xs. only x) (f b x) (foldl f (f b x) xs)"
    using Cons.prems(2) by (intro Cons.IH adds_tame [OF x]) simp
  from adds_trans [OF x this] show ?case by simp
qed (simp add: adds_refl)

lemma extends_adds:
  assumes "extends b R A b'" "tame L b" "R \<subseteq> stable_texts L"
  shows "adds L (R \<union> A) (ss_radix b' = ss_radix b) b b'"
  using assms extends_strs [OF assms(1), of "low_trie L"] by (auto simp: adds_def tame_def plain_def extends_def)


subsection \<open>Operations on tame builders\<close>

lemma tame_parts:
  assumes "tame L b"
  shows "strset_ok b" "radix_strs (ss_radix b) \<subseteq> stable_texts L" "hasFlag (ss_emoji b) RGI_CASE_IGNORE \<Longrightarrow> has_modifier L IGNORE_CASE"
    "builder_ok (ss_codePoints b)"
  using assms strset_parts(1) by (auto simp: tame_def)

lemma flag_bits: "hasFlag (e :: byte) RGI_CASE_IGNORE \<longleftrightarrow> bit e 7"
proof -
  have "RGI_CASE_IGNORE = push_bit 7 1" by (simp add: RGI_CASE_IGNORE_def push_bit_eq_mult)
  then show ?thesis using hasFlag_push_bit [of 7 e] by simp
qed

lemma bit_case_ignore: "bit RGI_CASE_IGNORE k \<longleftrightarrow> k = 7"
proof (cases "k < 8")
  case True
  then have "k = 0 \<or> k = 1 \<or> k = 2 \<or> k = 3 \<or> k = 4 \<or> k = 5 \<or> k = 6 \<or> k = 7" by arith
  then show ?thesis by (elim disjE) (simp_all add: RGI_CASE_IGNORE_def)
next
  case False
  then show ?thesis using bit_imp_le_length [of RGI_CASE_IGNORE k] by auto
qed

lemma no_emoji_bits: "\<not> hasEmoji e \<longleftrightarrow> (\<forall>k<7. \<not> bit e k)"
proof -
  have "unsetFlag e RGI_CASE_IGNORE = 0 \<longleftrightarrow> (\<forall>k<8. bit e k \<longrightarrow> k = 7)"
    by (auto simp: unsetFlag_def bit_eq_iff bit_simps bit_case_ignore)
  also have "\<dots> \<longleftrightarrow> (\<forall>k<7. \<not> bit e k)"
  proof (intro iffI allI impI)
    fix k :: nat assume "\<forall>k<7. \<not> bit e k" "k < 8" "bit e k"
    then have "\<not> k < 7" by blast
    with \<open>k < 8\<close> show "k = 7" by arith
  next
    fix k :: nat assume a: "\<forall>k<8. bit e k \<longrightarrow> k = 7" "k < 7"
    then have "k < 8" "k \<noteq> 7" by arith+
    with a(1) show "\<not> bit e k" by blast
  qed
  finally show ?thesis by (simp add: hasEmoji_def)
qed

lemmas flag_simps = flag_bits no_emoji_bits setFlag_def unsetFlag_def bit_simps bit_case_ignore

lemma tame_new:
  assumes "low_ok L"
  shows "tame L (newStrSet (has_modifier L IGNORE_CASE))" "plain (newStrSet (has_modifier L IGNORE_CASE))"
    "strs (low_trie L) (newStrSet (has_modifier L IGNORE_CASE)) = {}"
proof -
  note n = newStrSet_strs [OF low_okD(2) [OF assms], of "has_modifier L IGNORE_CASE"]
  then show "strs (low_trie L) (newStrSet (has_modifier L IGNORE_CASE)) = {}" by simp
  then have "radix_strs (ss_radix (newStrSet (has_modifier L IGNORE_CASE))) = {}" by (simp add: strs_def)
  with n show "tame L (newStrSet (has_modifier L IGNORE_CASE))" "plain (newStrSet (has_modifier L IGNORE_CASE))"
    by (auto simp: tame_def plain_def newStrSet_def flag_simps radix_empty_def empty_radix_def)
qed

lemma plain_strs:
  assumes "plain b" "strset_ok b"
  shows "radix_strs (ss_radix b) = {}" "radix_strings (ss_radix b) = []"
proof -
  show "radix_strs (ss_radix b) = {}" using radix_empty_strs strset_parts(2) [OF assms(2)] assms(1) by (simp add: plain_def)
  then show "radix_strings (ss_radix b) = []" using radix_strings_spec(1) [OF strset_parts(2) [OF assms(2)]] by simp
qed

lemma addString_adds:
  assumes "low_ok L" "tame L b" "radix_key s" "p \<noteq> 0" "s \<in> stable_texts L"
  shows "adds L {s} False b (addString (low_trie L) b s p)"
proof (cases "inEmoji (low_trie L) b s")
  case True
  then have "s \<in> strs (low_trie L) b" by (simp add: inEmoji_def strs_def emoji_strs_def)
  with True assms(2) show ?thesis by (auto simp: adds_def addString_def)
next
  case False
  from extends_adds [OF addRadix_extends [OF tame_parts(1) [OF assms(2)] assms(3,4)] assms(2)] False assms(5) show ?thesis
    by (simp add: addString_def adds_def)
qed

lemma addStrSet_adds:
  assumes "low_ok L" "tame L a" "tame L b"
  shows "adds L (strs (low_trie L) b) (plain b) a (addStrSet (low_trie L) a b)"
proof -
  let ?E = "low_trie L"
  let ?b0 = "a\<lparr>ss_codePoints := addBuilder (ss_codePoints a) (ss_codePoints b), ss_emoji := setFlag (ss_emoji a) (ss_emoji b),
      ss_emptySeq := (ss_emptySeq a \<or> ss_emptySeq b)\<rparr>"
  note pa = tame_parts [OF assms(2)] and pb = tame_parts [OF assms(3)]
  note fb = strset_parts [OF pb(1)]
  have e: "addStrSet ?E a b = foldl (\<lambda>b (ref, p). addString ?E b ref p) ?b0 (radix_strings (ss_radix b))"
    by (cases a; cases "ss_emptySeq b") (simp_all add: addStrSet_def Let_def addEmoji_def)
  have t0: "tame L ?b0"
    using assms(2,3) addBuilder_spec pa(4) pb(4) by (auto simp: tame_def strset_ok_def flag_simps)
  have k: "radix_key s \<and> p \<noteq> 0 \<and> s \<in> stable_texts L" if "(s, p) \<in> set (radix_strings (ss_radix b))" for s p
  proof -
    have "s \<in> radix_strs (ss_radix b)"
      using that radix_strings_spec(1) [OF fb(2)] by (metis fst_conv image_eqI list.set_map)
    moreover have "p \<noteq> 0" using that radix_strings_spec(2) [OF fb(2)] by blast
    ultimately show ?thesis using fb(3) pb(2) by blast
  qed
  have "adds L (\<Union>((\<lambda>x. {fst x}) ` set (radix_strings (ss_radix b)))) (\<forall>x\<in>set (radix_strings (ss_radix b)). False) ?b0
      (addStrSet ?E a b)"
    unfolding e
  proof (rule foldl_adds [OF t0])
    fix x b' assume "x \<in> set (radix_strings (ss_radix b))" "tame L b'"
    with k [of "fst x" "snd x"] show "adds L {fst x} False b' (case x of (ref, p) \<Rightarrow> addString ?E b' ref p)"
      using addString_adds [OF assms(1), of b' "fst x" "snd x"] by (simp add: case_prod_beta)
  qed
  moreover have "radix_strings (ss_radix b) = []" if "plain b" using plain_strs [OF that pb(1)] by simp
  moreover have "plain b \<and> plain a \<longrightarrow> plain ?b0" by (auto simp: plain_def flag_simps)
  ultimately show ?thesis
    using conjunct2 [OF addStrSet_strs [OF low_okD(2) [OF assms(1)] pa(1) pb(1)]] by (auto simp: adds_def plain_def)
qed

lemma strset_radix_kept:
  "ss_radix (addCodesIf test codes b) = ss_radix b" "ss_radix (addContained cset refs b) = ss_radix b"
  "ss_radix (intersectCodes E a c b) = ss_radix b"
proof -
  show "ss_radix (addCodesIf test codes b) = ss_radix b"
    unfolding addCodesIf_def by (induction codes arbitrary: b) (auto simp: addCodePoint_def)
  show *: "ss_radix (addContained cset refs b) = ss_radix b" for cset refs b
    unfolding addContained_def by (induction refs arbitrary: b) (auto simp: addCodePoint_def split: option.splits)
  show "ss_radix (intersectCodes E a c b) = ss_radix b" by (simp add: intersectCodes_def * Let_def)
qed

lemma intersectStrSet_tame:
  assumes "low_ok L" "tame L a" "tame L b"
  shows "tame L (intersectStrSet (low_trie L) a b)" "plain a \<or> plain b \<Longrightarrow> plain (intersectStrSet (low_trie L) a b)"
proof -
  note x = intersectStrSet_extends [OF low_okD(2) [OF assms(1)] tame_parts(1) [OF assms(2)] tame_parts(1) [OF assms(3)]]
  note e = emoji_strs_simps(6) [OF low_okD(2) [OF assms(1)]]
  note n = newStrSet_strs [OF low_okD(2) [OF assms(1)], of "hasFlag (ss_emoji a) RGI_CASE_IGNORE"]
  then have r: "radix_strs (ss_radix (newStrSet (hasFlag (ss_emoji a) RGI_CASE_IGNORE))) = {}" by (simp add: strs_def)
  show "tame L (intersectStrSet (low_trie L) a b)"
    using x r tame_parts(2,3) [OF assms(2)] tame_parts(2) [OF assms(3)]
    by (auto simp: tame_def extends_def flag_simps split: if_splits)
  assume pl: "plain a \<or> plain b"
  then have "ss_radix (intersectStrSet (low_trie L) a b) = empty_radix"
  proof
    assume a: "plain a"
    then show ?thesis
      by (simp add: plain_def intersectStrSet_def intersectEmoji_def intersectRadix_def newStrSet_def strset_radix_kept Let_def)
  next
    assume b: "plain b"
    then have "iterateEmoji (low_trie L) (ss_emoji b) = []" by (simp add: plain_def iterateEmoji_def)
    with plain_strs(2) [OF b tame_parts(1) [OF assms(3)]] show ?thesis
      by (simp add: intersectStrSet_def intersectEmoji_def intersectRadix_def newStrSet_def addRadixIf_def strset_radix_kept Let_def)
  qed
  with pl show "plain (intersectStrSet (low_trie L) a b)"
    using x r e by (auto simp: plain_def extends_def flag_simps radix_empty_def empty_radix_def split: if_splits)
qed

lemma subStrSet_tame:
  assumes "low_ok L" "tame L a" "tame L b"
  shows "tame L (subStrSet (low_trie L) a b)" "plain a \<Longrightarrow> plain (subStrSet (low_trie L) a b)"
proof -
  note p = subStrSet_parts [OF low_okD(2) [OF assms(1)] tame_parts(1) [OF assms(2)] tame_parts(1) [OF assms(3)]]
  note e = emoji_strs_simps(6) [OF low_okD(2) [OF assms(1)]]
  have f: "bit (ss_emoji (subStrSet (low_trie L) a b)) k \<Longrightarrow> bit (ss_emoji a) k" for k
    using p(8) by (auto simp: flag_simps split: if_splits)
  have "radix_strs (ss_radix (subStrSet (low_trie L) a b)) \<subseteq> radix_strs (ss_radix a) \<union> emoji_strs (low_trie L) (ss_emoji a)"
    using p(4) by blast
  with p(1) f show "tame L (subStrSet (low_trie L) a b)"
    using tame_parts(2,3) [OF assms(2)] emoji_stable [OF assms(1), of "ss_emoji a"] by (auto simp: tame_def flag_bits)
  assume "plain a"
  then have "\<not> hasEmoji (setFlag (unsetFlag (ss_emoji a) (ss_emoji b)) RGI_CASE_IGNORE)" "\<not> hasEmoji (unsetFlag (ss_emoji a) (ss_emoji b))"
    by (auto simp: plain_def flag_simps)
  with \<open>plain a\<close> have "ss_radix (subStrSet (low_trie L) a b) = ss_radix a" "\<not> ss_emptySeq (subStrSet (low_trie L) a b)"
    by (simp_all add: plain_def subStrSet_def mergeIfFound_def removeStrings_def Let_def)
  with \<open>plain a\<close> f show "plain (subStrSet (low_trie L) a b)" by (auto simp: plain_def no_emoji_bits)
qed

subsection \<open>Leaves\<close>

lemma adds_codes:
  assumes "tame L b" "builder_ok cp" "code_strs cp = code_strs (ss_codePoints b) \<union> A"
  shows "adds L A True b (b\<lparr>ss_codePoints := cp\<rparr>)"
  using assms by (auto simp: adds_def tame_def plain_def strset_ok_def strs_def)

lemma adds_points:
  assumes "tame L b" "builder_ok cp" "builder_points cp = builder_points (ss_codePoints b) \<union> P"
  shows "adds L (codePointToUtf8 ` P) True b (b\<lparr>ss_codePoints := cp\<rparr>)"
  by (rule adds_codes) (use assms in \<open>auto simp: code_strs_def\<close>)

lemma low_case_codePoint: "low_ok L \<Longrightarrow> isCodePoint c \<Longrightarrow> isCodePoint (low_case L c)"
  by (simp add: low_case_def low_okD(3))

lemma low_case_fun: "low_case L = (if needSimpleCaseFolding L then low_fold L else (\<lambda>c. c))"
  by (auto simp: low_case_def)

lemma char_adds: "tame L b \<Longrightarrow> isCodePoint c \<Longrightarrow> adds L {codePointToUtf8 c} True b (addCodePoint b c)"
  using extends_adds [OF addCodePoint_extends [OF tame_parts(1)], of L b c] by (simp add: addCodePoint_def)

lemma emoji_adds:
  assumes "low_ok L" "tame L b" "property_wf L t d" "mayContainString t"
  shows "adds L (emoji_strs (low_trie L) (getEmojiSeq d)) False b (addEmojiNode L d b)"
proof -
  have "\<not> bit (getEmojiSeq d) 7" using assms(3,4) by (simp add: property_wf_def flag_bits)
  with assms(2) emoji_strs_simps(1,4) [OF low_okD(2) [OF assms(1)]] show ?thesis
    by (auto simp: adds_def addEmojiNode_def addEmoji_def tame_def strset_ok_def strs_def flag_simps needSimpleCaseFolding_def)
qed

lemma foldCase_low:
  assumes "low_ok L" "builder_ok b"
  shows "builder_ok (foldCase (low_fold L) b) \<and> builder_points (foldCase (low_fold L) b) = low_fold L ` builder_points b"
  using foldCase_spec [OF assms(2), of "low_fold L"] low_okD(3) [OF assms(1)] by blast

lemma mayBeSimpleCaseFolding_spec:
  assumes "low_ok L" "builder_ok b"
  shows "builder_ok (mayBeSimpleCaseFolding L b) \<and> builder_points (mayBeSimpleCaseFolding L b) = low_case L ` builder_points b"
  using foldCase_low [OF assms] assms(2) by (simp add: mayBeSimpleCaseFolding_def low_case_fun)

lemma low_complement_spec:
  assumes "low_ok L" "builder_ok b"
  shows "builder_ok (low_complement L b) \<and> builder_points (low_complement L b) = low_all L - builder_points b"
  using complementWithFoldCase_spec [OF assms(2), of "low_fold L"] complement_spec [OF assms(2)] low_okD(3) [OF assms(1)]
  by (simp add: low_complement_def low_all_def low_case_fun)

lemma toCodePointSet_spec:
  assumes "low_ok L" "property_wf L t d" "\<not> mayContainString t" "builder_ok b"
  obtains p where "node_property L t d = Some p" "property_exists p"
    "builder_ok (out_builder (toCodePointSet L (ToBuilder b) t d))"
    "builder_points (out_builder (toCodePointSet L (ToBuilder b) t d)) = builder_points b \<union> property_points (low_tables L) p"
proof -
  obtain p where p: "node_property L t d = Some p" "property_exists p" using assms(2,3) by (auto simp: property_wf_def split: option.splits)
  have "hands_over (getPropertySet (low_tables L) p) (property_points (low_tables L) p)"
    using holds_property [OF low_okD(1) [OF assms(1)] p(2)] by (simp add: prop_holds_def)
  from hands_over_to_builder [OF this assms(4)] p that show thesis by (simp add: toCodePointSet_def)
qed

text \<open>The set of a property, folded and inverted.\<close>

lemma property_points_low:
  assumes "low_ok L" "property_wf L t d" "\<not> mayContainString t"
  defines "b0 \<equiv> mayBeSimpleCaseFolding L (out_builder (toCodePointSet L (ToBuilder empty_builder) t d))"
  defines "b1 \<equiv> (if property_isInvert t then low_complement L b0 else b0)"
  shows "builder_ok b1 \<and> builder_points b1 = prop_points L t d"
proof -
  obtain p where p: "node_property L t d = Some p"
    "builder_ok (out_builder (toCodePointSet L (ToBuilder empty_builder) t d))"
    "builder_points (out_builder (toCodePointSet L (ToBuilder empty_builder) t d)) = property_points (low_tables L) p"
    using toCodePointSet_spec [OF assms(1-3), of empty_builder] builder.empty by auto
  have "builder_ok b0 \<and> builder_points b0 = low_case L ` property_points (low_tables L) p"
    unfolding b0_def using mayBeSimpleCaseFolding_spec [OF assms(1) p(2)] p(3) by simp
  then show ?thesis using low_complement_spec [OF assms(1), of b0] p(1) by (simp add: b1_def prop_points_def)
qed

lemma property_adds:
  assumes "low_ok L" "tame L b" "property_wf L t d" "\<not> mayContainString t"
  shows "adds L (codePointToUtf8 ` prop_points L t d) True b (addPropertyNode L t d b)"
proof (cases "property_isInvert t \<or> has_modifier L IGNORE_CASE")
  case True
  note b1 = property_points_low [OF assms(1,3,4)]
  from True addBuilder_spec [OF tame_parts(4) [OF assms(2)] conjunct1 [OF b1]] b1 show ?thesis
    unfolding addPropertyNode_def Let_def by (simp only: if_True) (intro adds_points assms(2); simp)
next
  case False
  obtain p where p: "node_property L t d = Some p"
    "builder_ok (out_builder (toCodePointSet L (ToBuilder (ss_codePoints b)) t d))"
    "builder_points (out_builder (toCodePointSet L (ToBuilder (ss_codePoints b)) t d)) =
       builder_points (ss_codePoints b) \<union> property_points (low_tables L) p"
    using toCodePointSet_spec [OF assms(1,3,4) tame_parts(4) [OF assms(2)]] by blast
  have "\<not> needSimpleCaseFolding L" using False by (simp add: needSimpleCaseFolding_def)
  with False p(1) have "prop_points L t d = property_points (low_tables L) p" by (simp add: prop_points_def low_case_fun)
  with False p(2,3) assms(2) show ?thesis by (simp add: addPropertyNode_def Let_def adds_points)
qed

lemma range_adds:
  assumes "low_ok L" "tame L b" "isCodePoint f" "isCodePoint l" "f \<le> l"
  shows "adds L (codePointToUtf8 ` low_case L ` {f..l}) True b (addClassRange L f l b)"
proof -
  have "isCodePoint c" if "c \<in> {f..l}" for c using that assms(3,4) by (auto simp: isCodePoint_def)
  then have "\<forall>c\<in>{f..l}. isCodePoint (low_fold L c)" using low_okD(3) [OF assms(1)] by blast
  with addRange_spec [OF tame_parts(4) [OF assms(2)], of f l "needSimpleCaseFolding L" "low_fold L"] assms(3-5)
  show ?thesis unfolding addClassRange_def
    by (intro adds_points assms(2)) (auto simp: isCodePoint_def low_case_fun)
qed

lemma string_adds:
  assumes "low_ok L" "tame L b" "string_wf L e"
  shows "adds L (string_strs L e) (case e of EmptyNode \<Rightarrow> False | SeqNode _ \<Rightarrow> False | _ \<Rightarrow> True) b
    (case e of
       CharNode _ \<Rightarrow> generateStrSet_low L (level + 1) e b
     | FoldCharNode _ \<Rightarrow> generateStrSet_low L (level + 1) e b
     | EmptyNode \<Rightarrow> b\<lparr>ss_emptySeq := True\<rparr>
     | SeqNode cs \<Rightarrow> addString (low_trie L) b (concat (map (\<lambda>c. codePointToUtf8 (string_code L c)) cs)) 1
     | _ \<Rightarrow> b)"
proof (cases e)
  case EmptyNode
  with assms(2) show ?thesis by (auto simp: adds_def string_strs_def tame_def strset_ok_def strs_def)
next
  case (CharNode c)
  with char_adds [OF assms(2), of "low_case L c"] low_case_codePoint [OF assms(1), of c] assms(3) show ?thesis
    by (simp add: string_strs_def string_wf_def char_wf_def low_case_def)
next
  case (FoldCharNode c)
  with char_adds [OF assms(2), of c] assms(3) show ?thesis by (simp add: string_strs_def string_wf_def char_wf_def)
next
  case (SeqNode cs)
  let ?t = "map (string_code L) cs"
  have wf: "length cs > 1" "\<And>c. c \<in> set cs \<Longrightarrow> char_wf L c" "length (text_of ?t) \<le> RADIX_MAX_STRING_SIZE"
    using assms(3) SeqNode by (auto simp: string_wf_def list_all_iff)
  have c: "isCodePoint (string_code L c) \<and> low_canon L (string_code L c) = string_code L c" if "c \<in> set cs" for c
    using wf(2) [OF that] low_okD(3,4) [OF assms(1)] by (auto simp: char_wf_def string_code_def low_canon_def split: node.splits)
  then have "list_all isCodePoint ?t" "map (low_canon L) ?t = ?t" by (auto simp: list_all_iff)
  then have "text_of ?t \<in> stable_texts L" unfolding stable_texts_def by blast
  moreover have "text_of ?t \<noteq> []"
    using wf(1) c by (cases cs) (auto simp: text_of_def dest: encode_nonempty)
  ultimately have "adds L {text_of ?t} False b (addString (low_trie L) b (text_of ?t) 1)"
    using wf(3) by (intro addString_adds assms(1,2)) auto
  with SeqNode show ?thesis by (simp add: string_strs_def text_of_def o_def)
qed (use assms(3) in \<open>auto simp: string_wf_def char_wf_def\<close>)

subsection \<open>Classes\<close>

text \<open>The operands after the first: each is built apart and combined with what is there.\<close>

lemma foldl_combine:
  assumes "low_ok L" "tame L b" "\<And>e. e \<in> set es \<Longrightarrow> tame L (g e)"
    and op: "op = (if both then intersectStrSet (low_trie L) else subStrSet (low_trie L))"
  shows "tame L (foldl (\<lambda>b e. op b (g e)) b es) \<and>
    strs (low_trie L) (foldl (\<lambda>b e. op b (g e)) b es) =
      {s \<in> strs (low_trie L) b. \<forall>e\<in>set es. (s \<in> strs (low_trie L) (g e)) = both} \<and>
    (plain b \<or> (both \<and> (\<exists>e\<in>set es. plain (g e))) \<longrightarrow> plain (foldl (\<lambda>b e. op b (g e)) b es))"
  using assms(2,3)
proof (induction es arbitrary: b)
  case (Cons e es)
  have e: "tame L (g e)" using Cons.prems by simp
  note ok = low_okD(2) [OF assms(1)] tame_parts(1) [OF Cons.prems(1)] tame_parts(1) [OF e]
  have t: "tame L (op b (g e))"
    using intersectStrSet_tame(1) [OF assms(1) Cons.prems(1) e] subStrSet_tame(1) [OF assms(1) Cons.prems(1) e] by (simp add: op)
  have s: "strs (low_trie L) (op b (g e)) = {s \<in> strs (low_trie L) b. (s \<in> strs (low_trie L) (g e)) = both}"
    using intersectStrSet_strs [OF ok] subStrSet_strs [OF ok] by (auto simp: op)
  have p: "plain b \<or> (both \<and> plain (g e)) \<longrightarrow> plain (op b (g e))"
    using intersectStrSet_tame(2) [OF assms(1) Cons.prems(1) e] subStrSet_tame(2) [OF assms(1) Cons.prems(1) e] by (auto simp: op)
  have "\<And>x. x \<in> set es \<Longrightarrow> tame L (g x)" using Cons.prems(2) by simp
  from Cons.IH [OF t this] s p show ?case by auto
qed simp

definition class_base :: "Lowering \<Rightarrow> CharClassType \<Rightarrow> node list \<Rightarrow> bytes set" where
  "class_base L t cs =
     (if t = C_UNION \<or> t = C_RANGE
      then {s. \<exists>item\<in>set (class_items t cs). case item of
             RangeItem f l \<Rightarrow> s \<in> codePointToUtf8 ` low_case L ` {f..l}
           | NodeItem e \<Rightarrow> s \<in> class_strs L e}
      else (case cs of
          [] \<Rightarrow> {}
        | c # rest \<Rightarrow> {s \<in> class_strs L c. \<forall>e\<in>set rest. isClassOp e \<or> (s \<in> class_strs L e) = (t = C_INTERSECT)}))"

lemma class_strs_class:
  "class_strs L (CharClassNode invert t may cs) =
     (if invert \<and> low_mode L = UNICODE_SET
      then codePointToUtf8 ` (low_all L - {c. isCodePoint c \<and> codePointToUtf8 c \<in> class_base L t cs}) else class_base L t cs)"
  by (simp only: class_strs.simps class_base_def Let_def)

declare class_strs.simps(5) [simp del]

definition gen_adds :: "Lowering \<Rightarrow> node \<Rightarrow> bool" where
  "gen_adds L n \<longleftrightarrow> (\<forall>level b. class_wf L n \<longrightarrow> tame L b \<longrightarrow> (level = 0 \<longrightarrow> plain b \<and> strs (low_trie L) b = {}) \<longrightarrow>
     adds L (class_strs L n) (\<not> mayContainStringsImpl n) b (generateStrSet_low L level n b))"

lemma gen_addsD:
  "gen_adds L n \<Longrightarrow> class_wf L n \<Longrightarrow> tame L b \<Longrightarrow> (level = 0 \<Longrightarrow> plain b \<and> strs (low_trie L) b = {}) \<Longrightarrow>
     adds L (class_strs L n) (\<not> mayContainStringsImpl n) b (generateStrSet_low L level n b)"
  by (simp add: gen_adds_def)

lemma union_adds:
  assumes "low_ok L" "tame L b" "t = C_UNION \<or> t = C_RANGE" "\<And>c. c \<in> set cs \<Longrightarrow> gen_adds L c"
    "class_wf L (CharClassNode invert t may cs)"
  shows "adds L (class_base L t cs) (\<not> may) b
    (foldl (\<lambda>b item. case item of RangeItem first lst \<Rightarrow> addClassRange L first lst b
       | NodeItem e \<Rightarrow> generateStrSet_low L (level + 1) e b) b (class_items t cs))"
proof -
  let ?S = "\<lambda>item. case item of RangeItem f l \<Rightarrow> codePointToUtf8 ` low_case L ` {f..l} | NodeItem e \<Rightarrow> class_strs L e"
  let ?o = "\<lambda>item. case item of RangeItem f l \<Rightarrow> True | NodeItem e \<Rightarrow> \<not> mayContainStringsImpl e"
  have wf: "case item of RangeItem f l \<Rightarrow> isCodePoint f \<and> isCodePoint l \<and> f \<le> l | NodeItem e \<Rightarrow> class_wf L e"
    if "item \<in> set (class_items t cs)" for item
    using that assms(3,5) by (auto simp: list_all_iff split: class_item.splits)
  have "adds L (\<Union>(?S ` set (class_items t cs))) (\<forall>item\<in>set (class_items t cs). ?o item) b
    (foldl (\<lambda>b item. case item of RangeItem first lst \<Rightarrow> addClassRange L first lst b
       | NodeItem e \<Rightarrow> generateStrSet_low L (level + 1) e b) b (class_items t cs))"
  proof (rule foldl_adds [OF assms(2)])
    fix item b assume i: "item \<in> set (class_items t cs)" and b: "tame L b"
    show "adds L (?S item) (?o item) b (case item of RangeItem first lst \<Rightarrow> addClassRange L first lst b
       | NodeItem e \<Rightarrow> generateStrSet_low L (level + 1) e b)"
    proof (cases item)
      case (RangeItem f l)
      with wf [OF i] range_adds [OF assms(1) b] show ?thesis by simp
    next
      case (NodeItem e)
      with wf [OF i] gen_addsD [OF assms(4) _ b, of e "level + 1"] class_items_nodes i show ?thesis by simp
    qed
  qed
  moreover have "\<Union>(?S ` set (class_items t cs)) = class_base L t cs"
  proof -
    have "(case item of RangeItem f l \<Rightarrow> s \<in> codePointToUtf8 ` low_case L ` {f..l} | NodeItem e \<Rightarrow> s \<in> class_strs L e) \<longleftrightarrow> s \<in> ?S item"
      for s item by (cases item) simp_all
    then show ?thesis using assms(3) by (auto simp: class_base_def)
  qed
  moreover have "\<not> may \<Longrightarrow> \<forall>item\<in>set (class_items t cs). ?o item"
    using assms(3,5) class_items_nodes by (auto simp: class_finalize_def Let_def list_ex_iff split: class_item.splits)
  ultimately show ?thesis by (auto simp: adds_def)
qed

lemma operands_adds:
  assumes "low_ok L" "tame L b" "plain b" "strs (low_trie L) b = {}" "\<not> (t = C_UNION \<or> t = C_RANGE)"
    "\<And>c. c \<in> set cs \<Longrightarrow> gen_adds L c" "class_wf L (CharClassNode invert t may cs)"
  shows "adds L (class_base L t cs) (\<not> may) b
    (case cs of [] \<Rightarrow> b
     | c # rest \<Rightarrow> foldl (\<lambda>b e. (let s = generateStrSet_low L 0 e (newStrSet (has_modifier L IGNORE_CASE)) in
           if t = C_INTERSECT then intersectStrSet (low_trie L) b s else subStrSet (low_trie L) b s))
         (generateStrSet_low L (level + 1) c b) (filter (\<lambda>e. \<not> isClassOp e) rest))"
proof -
  let ?E = "low_trie L" and ?new = "newStrSet (has_modifier L IGNORE_CASE)"
  have wf: "cs \<noteq> []" "\<not> isClassOp (hd cs)" "\<And>e. e \<in> set cs \<Longrightarrow> isClassOp e \<or> class_wf L e"
    using assms(5,7) by (auto simp: list_all_iff)
  then obtain c rest where cs: "cs = c # rest" by (cases cs) auto
  define g where "g = (\<lambda>e. generateStrSet_low L 0 e ?new)"
  define es where "es = filter (\<lambda>e. \<not> isClassOp e) rest"
  define op where "op = (if t = C_INTERSECT then intersectStrSet ?E else subStrSet ?E)"
  have c: "adds L (class_strs L c) (\<not> mayContainStringsImpl c) b (generateStrSet_low L (level + 1) c b)"
    using wf(2) wf(3) [of c] cs by (intro gen_addsD assms(2,6)) auto
  have g: "tame L (g e)" "strs ?E (g e) = class_strs L e" "\<not> mayContainStringsImpl e \<Longrightarrow> plain (g e)" if "e \<in> set es" for e
  proof -
    have "adds L (class_strs L e) (\<not> mayContainStringsImpl e) ?new (g e)"
      unfolding g_def using that wf(3) cs tame_new [OF assms(1)] by (intro gen_addsD assms(6)) (auto simp: es_def)
    then show "tame L (g e)" "strs ?E (g e) = class_strs L e" "\<not> mayContainStringsImpl e \<Longrightarrow> plain (g e)"
      using tame_new [OF assms(1)] by (auto simp: adds_def)
  qed
  note f = foldl_combine [OF assms(1) adds_tame [OF c], of es g op "t = C_INTERSECT", OF g(1) op_def]
  have base: "class_base L t cs = {s \<in> class_strs L c. \<forall>e\<in>set es. (s \<in> class_strs L e) = (t = C_INTERSECT)}"
    using assms(5) cs by (auto simp: class_base_def es_def)
  have m: "plain (generateStrSet_low L (level + 1) c b) \<or> (t = C_INTERSECT \<and> (\<exists>e\<in>set es. plain (g e)))" if nm: "\<not> may"
  proof (cases "mayContainStringsImpl c")
    case False
    with c assms(3) show ?thesis by (simp add: adds_def)
  next
    case True
    have may: "may = (case t of C_INTERSECT \<Rightarrow> list_all (\<lambda>e. isCharClassOp e \<or> mayContainStringsImpl e) cs | _ \<Rightarrow> mayContainStringsImpl c)"
      using assms(5,7) cs by (cases t) (auto simp: class_finalize_def Let_def)
    with nm True have t: "t = C_INTERSECT" by (cases t) (use assms(5) in auto)
    then obtain e where "e \<in> set cs" "\<not> isCharClassOp e" "\<not> mayContainStringsImpl e" using may nm by (auto simp: list_all_iff)
    moreover from this have "\<not> isClassOp e"
      by (auto simp: isClassOp_def isProperty_def isCharClassOp_def split: node.splits)
    ultimately have "e \<in> set es" using True cs by (auto simp: es_def)
    with t g(3) \<open>\<not> mayContainStringsImpl e\<close> show ?thesis by blast
  qed
  have "(case cs of [] \<Rightarrow> b
     | c # rest \<Rightarrow> foldl (\<lambda>b e. (let s = generateStrSet_low L 0 e ?new in
           if t = C_INTERSECT then intersectStrSet ?E b s else subStrSet ?E b s))
         (generateStrSet_low L (level + 1) c b) (filter (\<lambda>e. \<not> isClassOp e) rest)) =
      foldl (\<lambda>b e. op b (g e)) (generateStrSet_low L (level + 1) c b) es"
    by (simp add: cs es_def op_def g_def Let_def if_distribR)
  moreover have "adds L (class_base L t cs) (\<not> may) b (foldl (\<lambda>b e. op b (g e)) (generateStrSet_low L (level + 1) c b) es)"
    using f m c g(2) assms(3,4) by (auto simp: adds_def base)
  ultimately show ?thesis by simp
qed

lemma finalize_invert: "class_finalize True t cs = (True, CharClassNode True t may cs) \<Longrightarrow> \<not> may"
  by (auto simp: class_finalize_def Let_def)

lemma inverted_codes:
  assumes "low_ok L" "tame L b" "plain b"
  defines "b' \<equiv> b\<lparr>ss_codePoints := low_complement L (ss_codePoints b)\<rparr>"
  shows "tame L b'" "plain b'"
    "strs (low_trie L) b' = codePointToUtf8 ` (low_all L - {c. isCodePoint c \<and> codePointToUtf8 c \<in> strs (low_trie L) b})"
proof -
  note c = low_complement_spec [OF assms(1) tame_parts(4) [OF assms(2)]]
  note e = emoji_strs_simps(6) [OF low_okD(2) [OF assms(1)]]
  from c assms(2,3) show "tame L b'" "plain b'" by (auto simp: b'_def tame_def plain_def strset_ok_def)
  have "strs (low_trie L) b = code_strs (ss_codePoints b)" "strs (low_trie L) b' = code_strs (ss_codePoints b')"
    using assms(3) e plain_strs(1) [OF assms(3) tame_parts(1) [OF assms(2)]] by (auto simp: b'_def plain_def strs_def)
  moreover have "{c. isCodePoint c \<and> codePointToUtf8 c \<in> code_strs (ss_codePoints b)} = builder_points (ss_codePoints b)"
    using builder_codePoint [OF tame_parts(4) [OF assms(2)]] encode_inj by (auto simp: code_strs_def)
  ultimately show "strs (low_trie L) b' = codePointToUtf8 ` (low_all L - {c. isCodePoint c \<and> codePointToUtf8 c \<in> strs (low_trie L) b})"
    using c by (simp add: b'_def code_strs_def)
qed

lemma generateStrSet_adds:
  assumes "low_ok L"
  shows "gen_adds L n"
proof (induction n)
  case (CharClassNode invert t may cs)
  show ?case
    unfolding gen_adds_def
  proof (intro allI impI)
    fix level :: nat and b assume wf: "class_wf L (CharClassNode invert t may cs)" and b: "tame L b"
      and z: "level = 0 \<longrightarrow> plain b \<and> strs (low_trie L) b = {}"
    define b0 where "b0 = (if level \<noteq> 0 then newStrSet (has_modifier L IGNORE_CASE) else b)"
    define b1 where "b1 = (if t = C_UNION \<or> t = C_RANGE
                then foldl (\<lambda>b item. case item of
                         RangeItem first lst \<Rightarrow> addClassRange L first lst b
                       | NodeItem e \<Rightarrow> generateStrSet_low L (level + 1) e b) b0 (class_items t cs)
                else (case cs of
                        [] \<Rightarrow> b0
                      | c # rest \<Rightarrow>
                          foldl (\<lambda>b e.
                            (let s = generateStrSet_low L 0 e (newStrSet (has_modifier L IGNORE_CASE)) in
                             if t = C_INTERSECT then intersectStrSet (low_trie L) b s else subStrSet (low_trie L) b s))
                            (generateStrSet_low L (level + 1) c b0) (filter (\<lambda>e. \<not> isClassOp e) rest)))"
    define b2 where "b2 = (if invert \<and> low_mode L = UNICODE_SET
                then b1\<lparr>ss_codePoints := low_complement L (ss_codePoints b1)\<rparr> else b1)"
    have g: "generateStrSet_low L level (CharClassNode invert t may cs) b = (if level \<noteq> 0 then addStrSet (low_trie L) b b2 else b2)"
      unfolding b2_def b1_def b0_def generateStrSet_low.simps Let_def by (rule refl)
    have b0: "tame L b0" "plain b0" "strs (low_trie L) b0 = {}" using tame_new [OF assms] b z by (auto simp: b0_def)
    have "adds L (class_base L t cs) (\<not> may) b0 b1"
      unfolding b1_def using union_adds [OF assms b0(1) _ CharClassNode wf] operands_adds [OF assms b0 _ CharClassNode wf] by simp
    then have b1: "tame L b1" "strs (low_trie L) b1 = class_base L t cs" "\<not> may \<Longrightarrow> plain b1" using b0 by (auto simp: adds_def)
    have nm: "invert \<Longrightarrow> \<not> may" using wf by (auto dest: finalize_invert)
    have b2: "tame L b2" "strs (low_trie L) b2 = class_strs L (CharClassNode invert t may cs)" "\<not> may \<Longrightarrow> plain b2"
      using b1 inverted_codes [OF assms b1(1,3)] nm by (auto simp: b2_def class_strs_class)
    show "adds L (class_strs L (CharClassNode invert t may cs)) (\<not> mayContainStringsImpl (CharClassNode invert t may cs)) b
        (generateStrSet_low L level (CharClassNode invert t may cs) b)"
      unfolding g using addStrSet_adds [OF assms b b2(1)] b2 z by (auto simp: adds_def mayContainStringsImpl_def)
  qed
next
  case (CharNode c)
  then show ?case
    using char_adds low_case_codePoint [OF assms]
    by (auto simp: gen_adds_def char_wf_def string_strs_def low_case_def adds_def)
next
  case (FoldCharNode c)
  then show ?case using char_adds by (auto simp: gen_adds_def char_wf_def string_strs_def adds_def)
next
  case (PropertyNode t d)
  then show ?case
    using emoji_adds [OF assms] property_adds [OF assms] by (auto simp: gen_adds_def mayContainStringsImpl_def)
next
  case (AltNode ps)
  show ?case
    unfolding gen_adds_def
  proof (intro allI impI)
    fix level :: nat and b assume wf: "class_wf L (AltNode ps)" and b: "tame L b"
    have "adds L (\<Union>(string_strs L ` set ps)) (\<forall>e\<in>set ps. case e of EmptyNode \<Rightarrow> False | SeqNode _ \<Rightarrow> False | _ \<Rightarrow> True) b
        (generateStrSet_low L level (AltNode ps) b)"
      unfolding generateStrSet_low.simps using wf
      by (intro foldl_adds [OF b] string_adds assms) (simp_all add: list_all_iff)
    moreover have "\<not> mayContainStringsImpl (AltNode ps) \<Longrightarrow> \<forall>e\<in>set ps. case e of EmptyNode \<Rightarrow> False | SeqNode _ \<Rightarrow> False | _ \<Rightarrow> True"
      by (auto simp: mayContainStringsImpl_def list_ex_iff split: node.splits)
    ultimately show "adds L (class_strs L (AltNode ps)) (\<not> mayContainStringsImpl (AltNode ps)) b (generateStrSet_low L level (AltNode ps) b)"
      by (auto simp: adds_def)
  qed
qed (simp_all add: gen_adds_def)

declare generateStrSet_low.simps [simp del]

section \<open>What the generated node accepts\<close>

text \<open>The texts, as lists of code points, a node of a class reads as one element.\<close>

fun accepts :: "unicode_env \<Rightarrow> node \<Rightarrow> int list \<Rightarrow> bool" where
  "accepts env EmptyNode s \<longleftrightarrow> s = []"
| "accepts env (AnyNode m) s \<longleftrightarrow> (\<exists>x. s = [x] \<and> (hasFlag m (modifier_bit DOT_ALL) \<or> \<not> isLineTerminator x))"
| "accepts env (CharNode c) s \<longleftrightarrow> s = [c]"
| "accepts env (FoldCharNode c) s \<longleftrightarrow> map (simpleFold env) s = [c]"
| "accepts env (CharSetNode iv ic ow cset) s \<longleftrightarrow>
     (\<exists>x. s = [x] \<and> set_contains cset (if ic then simpleFold env x else x) \<noteq> iv)"
| "accepts env (StrSetNode raw radix chars) s \<longleftrightarrow>
     text_of (if strset_isIgnoreCase raw then map (simpleFold env) s else s)
       \<in> emoji_strs (emojiTrie env) (strset_getEmojiSeq raw) \<union> radix_strs radix \<or>
     (case chars of Some c \<Rightarrow> accepts env c s | None \<Rightarrow> False)"
| "accepts env (AltNode [p]) s \<longleftrightarrow> s = [] \<or> accepts env p s"
| "accepts env n s \<longleftrightarrow> False"

text \<open>The texts a class denotes. Without the flag \<open>v\<close> an inverted class denotes the code points that
  are not equal, up to case, to one of the class.\<close>

definition set_matches :: "Lowering \<Rightarrow> bool \<Rightarrow> bytes set \<Rightarrow> int list \<Rightarrow> bool" where
  "set_matches L invert D s \<longleftrightarrow>
     (if invert
      then (\<exists>x. s = [x] \<and> (\<forall>y. isCodePoint y \<and> codePointToUtf8 y \<in> D \<longrightarrow> low_canon L y \<noteq> low_canon L x))
      else (\<exists>t. code_points t \<and> text_of t \<in> D \<and> map (low_canon L) t = map (low_canon L) s))"

definition class_matches :: "Lowering \<Rightarrow> node \<Rightarrow> int list \<Rightarrow> bool" where
  "class_matches L n =
     set_matches L (is_CharClassNode n \<and> class_invert n \<and> low_mode L \<noteq> UNICODE_SET) (class_strs L n)"

lemma low_canon_ok:
  assumes "low_ok L" "isCodePoint c"
  shows "isCodePoint (low_canon L c)" "low_canon L (low_canon L c) = low_canon L c"
  using low_okD(3,4) [OF assms(1)] assms(2) by (simp_all add: low_canon_def)

lemma charset_accepts:
  assumes "low_ok L" "builder_ok cp" "\<And>c. c \<in> builder_points cp \<Longrightarrow> low_canon L c = c" "code_points s"
  shows "accepts (low_env L) (tryToGenerateCharSetNode L cp invert) s \<longleftrightarrow>
    (\<exists>x. s = [x] \<and> (low_canon L x \<in> builder_points cp) \<noteq> invert)"
proof -
  define rs b where "rs = fst (toCompactArrayRef cp)" and "b = snd (toCompactArrayRef cp)"
  have rs: "cover rs = builder_points cp" using toCompact_spec [OF assms(2)] by (simp add: rs_def)
  have b: "b = tryToSortAndCompact cp" by (simp add: b_def toCompactArrayRef_def Let_def)
  have "builder_ok b" "builder_points b = builder_points cp" using tryToSortAndCompact_spec [OF assms(2)]
    by (simp_all add: b builder_ok_def canonical_valid)
  then have m: "set_contains (fst (build b)) c \<longleftrightarrow> c \<in> builder_points cp" if "isCodePoint c" for c
    using build_spec [of b] set_contains_iff_aux [of "fst (build b)" c] that by (simp add: isCodePoint_def)
  have other: "accepts (low_env L) (CharSetNode invert (has_modifier L IGNORE_CASE) True (fst (build b))) s \<longleftrightarrow>
      (\<exists>x. s = [x] \<and> (low_canon L x \<in> builder_points cp) \<noteq> invert)"
    using assms(4) m low_canon_ok(1) [OF assms(1)] by (auto simp: low_canon_def)
  have any: "accepts (low_env L) (AnyNode (modifier_bit DOT_ALL)) s \<longleftrightarrow> (\<exists>x. s = [x])" by (simp add: hasFlag_def)
  have n: "tryToGenerateCharSetNode L cp invert =
     (if rs = [] \<and> invert then AnyNode (modifier_bit DOT_ALL)
      else if length rs = 1 \<and> \<not> invert
      then (let (first, lst) = rs ! 0 in
            if first = lst
            then (if has_modifier L IGNORE_CASE then FoldCharNode (low_fold L first) else CharNode first)
            else if first = 0 \<and> lst = CODE_POINT_MAX then AnyNode (modifier_bit DOT_ALL)
            else CharSetNode invert (has_modifier L IGNORE_CASE) True (fst (build b)))
      else CharSetNode invert (has_modifier L IGNORE_CASE) True (fst (build b)))"
    by (simp add: tryToGenerateCharSetNode_def rs_def b_def case_prod_beta Let_def)
  show ?thesis
  proof (cases "length rs = 1 \<and> \<not> invert")
    case True
    then obtain f l where one: "rs = [(f, l)]" by (auto simp: length_Suc_conv)
    then have P: "builder_points cp = {f..l}" using rs by simp
    have c: "f = l \<Longrightarrow> low_canon L f = f" using assms(3) [of f] P by simp
    have all: "f = 0 \<Longrightarrow> l = CODE_POINT_MAX \<Longrightarrow> isCodePoint x \<Longrightarrow> low_canon L x \<in> builder_points cp" for x
      using low_canon_ok(1) [OF assms(1)] by (auto simp: P isCodePoint_def)
    consider "f = l" | "f \<noteq> l" "f = 0 \<and> l = CODE_POINT_MAX" | "f \<noteq> l" "\<not> (f = 0 \<and> l = CODE_POINT_MAX)" by blast
    then show ?thesis
    proof cases
      case 1
      then have "tryToGenerateCharSetNode L cp invert = (if has_modifier L IGNORE_CASE then FoldCharNode f else CharNode f)"
        unfolding n using True one c by (auto simp: low_canon_def)
      then show ?thesis using True 1 P by (auto simp: low_canon_def)
    next
      case 2
      then have "tryToGenerateCharSetNode L cp invert = AnyNode (modifier_bit DOT_ALL)" unfolding n using True one by simp
      then show ?thesis using True 2 all assms(4) any by auto
    next
      case 3
      then have "tryToGenerateCharSetNode L cp invert = CharSetNode invert (has_modifier L IGNORE_CASE) True (fst (build b))"
        unfolding n using True one by simp
      then show ?thesis using other by simp
    qed
  next
    case False
    then show ?thesis using other any rs by (auto simp: n)
  qed
qed

lemma matches_codes:
  assumes "low_ok L" "P \<subseteq> {c. isCodePoint c}" "code_points s"
  shows "(\<exists>t. code_points t \<and> text_of t \<in> codePointToUtf8 ` P \<and> map (low_canon L) t = map (low_canon L) s) \<longleftrightarrow>
    (\<exists>x. s = [x] \<and> low_canon L x \<in> low_canon L ` P)"
proof
  assume "\<exists>t. code_points t \<and> text_of t \<in> codePointToUtf8 ` P \<and> map (low_canon L) t = map (low_canon L) s"
  then obtain t y where t: "code_points t" "y \<in> P" "text_of t = codePointToUtf8 y" "map (low_canon L) t = map (low_canon L) s" by blast
  then have "t = [y]" using text_of_inj [of t "[y]"] assms(2) by auto
  with t(4) obtain x where "s = [x]" "low_canon L x = low_canon L y" by (cases s) auto
  with t(2) show "\<exists>x. s = [x] \<and> low_canon L x \<in> low_canon L ` P" by blast
next
  assume "\<exists>x. s = [x] \<and> low_canon L x \<in> low_canon L ` P"
  then obtain x y where "s = [x]" "y \<in> P" "low_canon L y = low_canon L x" by force
  with assms(2) show "\<exists>t. code_points t \<and> text_of t \<in> codePointToUtf8 ` P \<and> map (low_canon L) t = map (low_canon L) s"
    by (intro exI [of _ "[y]"]) auto
qed

lemma matches_stable:
  assumes "low_ok L" "D \<subseteq> stable_texts L" "code_points s"
  shows "(\<exists>t. code_points t \<and> text_of t \<in> D \<and> map (low_canon L) t = map (low_canon L) s) \<longleftrightarrow> text_of (map (low_canon L) s) \<in> D"
proof
  assume "\<exists>t. code_points t \<and> text_of t \<in> D \<and> map (low_canon L) t = map (low_canon L) s"
  then obtain t where t: "code_points t" "text_of t \<in> D" "map (low_canon L) t = map (low_canon L) s" by blast
  then obtain u where "text_of t = text_of u" "code_points u" "map (low_canon L) u = u" using assms(2) by (auto simp: stable_texts_def)
  with t text_of_inj show "text_of (map (low_canon L) s) \<in> D" by metis
next
  assume "text_of (map (low_canon L) s) \<in> D"
  moreover have "code_points (map (low_canon L) s)" "map (low_canon L) (map (low_canon L) s) = map (low_canon L) s"
    using assms(3) low_canon_ok [OF assms(1)] by (auto simp: list_all_iff)
  ultimately show "\<exists>t. code_points t \<and> text_of t \<in> D \<and> map (low_canon L) t = map (low_canon L) s" by blast
qed

text \<open>The node made of a builder accepts what the strings of the builder denote.\<close>

lemma class_node_accepts:
  assumes "low_ok L" "tame L b0" "code_points s" "invert \<Longrightarrow> plain b0"
  defines "b \<equiv> (if has_modifier L IGNORE_CASE then b0\<lparr>ss_codePoints := foldCase (low_fold L) (ss_codePoints b0)\<rparr> else b0)"
  defines "chars \<equiv> tryToGenerateCharSetNode L (ss_codePoints b) invert"
  defines "wrap \<equiv> (\<lambda>m. if ss_emptySeq b then AltNode [m] else m)"
  shows "accepts (low_env L)
    (if radix_empty (ss_radix b) \<and> \<not> hasEmoji (ss_emoji b)
      then (if ss_emptySeq b \<and> \<not> builder_nonempty (ss_codePoints b) then EmptyNode else wrap chars)
      else wrap (mkStrSet L (ss_emoji b) (ss_radix b) (if builder_nonempty (ss_codePoints b) then Some chars else None))) s \<longleftrightarrow>
    set_matches L invert (strs (low_trie L) b0) s"
proof -
  let ?E = "low_trie L" and ?ic = "has_modifier L IGNORE_CASE"
  define P where "P = builder_points (ss_codePoints b0)"
  define R where "R = radix_strs (ss_radix b0)"
  define M where "M = emoji_strs ?E (ss_emoji b0)"
  have parts: "ss_radix b = ss_radix b0" "ss_emoji b = ss_emoji b0" "ss_emptySeq b = ss_emptySeq b0" by (simp_all add: b_def)
  have P: "P \<subseteq> {c. isCodePoint c}" using builder_codePoint [OF tame_parts(4) [OF assms(2)]] by (auto simp: P_def)
  have cp: "builder_ok (ss_codePoints b)" "builder_points (ss_codePoints b) = low_canon L ` P"
    using foldCase_low [OF assms(1) tame_parts(4) [OF assms(2)]] tame_parts(4) [OF assms(2)]
    by (auto simp: b_def P_def low_canon_def)
  have ch: "accepts (low_env L) chars s \<longleftrightarrow> (\<exists>x. s = [x] \<and> (low_canon L x \<in> low_canon L ` P) \<noteq> invert)"
    unfolding chars_def using low_canon_ok(2) [OF assms(1)] P by (subst charset_accepts [OF assms(1) cp(1) _ assms(3)]) (auto simp: cp(2))
  have none: "\<not> builder_nonempty (ss_codePoints b) \<Longrightarrow> P = {}" using not_nonempty_points [of "ss_codePoints b"] cp(2) by simp
  have sub: "R \<union> M \<subseteq> stable_texts L" using tame_parts(2) [OF assms(2)] emoji_stable [OF assms(1)] by (simp add: R_def M_def)
  have D: "strs ?E b0 = codePointToUtf8 ` P \<union> (R \<union> M) \<union> (if ss_emptySeq b0 then {[]} else {})"
    by (auto simp: strs_def code_strs_def P_def R_def M_def)
  have m: "(\<exists>t. code_points t \<and> text_of t \<in> strs ?E b0 \<and> map (low_canon L) t = map (low_canon L) s) \<longleftrightarrow>
      (\<exists>x. s = [x] \<and> low_canon L x \<in> low_canon L ` P) \<or> text_of (map (low_canon L) s) \<in> R \<union> M \<or> (ss_emptySeq b0 \<and> s = [])"
  proof -
    have "(\<exists>t. code_points t \<and> text_of t = [] \<and> map (low_canon L) t = map (low_canon L) s) \<longleftrightarrow> s = []" (is "?l \<longleftrightarrow> _")
    proof
      assume ?l
      then obtain t where "code_points t" "text_of t = []" "map (low_canon L) t = map (low_canon L) s" by blast
      with text_of_inj [of t "[]"] show "s = []" by simp
    next
      assume "s = []"
      then show ?l by (intro exI [of _ "[]"]) simp
    qed
    then have e: "(\<exists>t. code_points t \<and> text_of t \<in> (if ss_emptySeq b0 then {[]} else {}) \<and> map (low_canon L) t = map (low_canon L) s) \<longleftrightarrow>
        ss_emptySeq b0 \<and> s = []" by (cases "ss_emptySeq b0") simp_all
    have u: "(\<exists>t. code_points t \<and> text_of t \<in> A \<union> B \<union> C \<and> map (low_canon L) t = map (low_canon L) s) \<longleftrightarrow>
        (\<exists>t. code_points t \<and> text_of t \<in> A \<and> map (low_canon L) t = map (low_canon L) s) \<or>
        (\<exists>t. code_points t \<and> text_of t \<in> B \<and> map (low_canon L) t = map (low_canon L) s) \<or>
        (\<exists>t. code_points t \<and> text_of t \<in> C \<and> map (low_canon L) t = map (low_canon L) s)" for A B C by blast
    show ?thesis unfolding D u e matches_codes [OF assms(1) P assms(3)] matches_stable [OF assms(1) sub assms(3)] ..
  qed
  show ?thesis
  proof (cases invert)
    case True
    then have pl: "plain b0" using assms(4) by simp
    then have "R \<union> M = {}" "\<not> ss_emptySeq b0" "radix_empty (ss_radix b0)" "\<not> hasEmoji (ss_emoji b0)"
      using plain_strs(1) [OF pl tame_parts(1) [OF assms(2)]] emoji_strs_simps(6) [OF low_okD(2) [OF assms(1)]]
      by (auto simp: plain_def R_def M_def)
    moreover have "isCodePoint y \<and> codePointToUtf8 y \<in> codePointToUtf8 ` P \<longleftrightarrow> y \<in> P" for y using P encode_inj by blast
    ultimately have "set_matches L invert (strs ?E b0) s \<longleftrightarrow> (\<exists>x. s = [x] \<and> (\<forall>y. y \<in> P \<longrightarrow> low_canon L y \<noteq> low_canon L x))"
      using True unfolding set_matches_def D by simp
    also have "\<dots> \<longleftrightarrow> (\<exists>x. s = [x] \<and> low_canon L x \<notin> low_canon L ` P)" by (simp add: image_iff) metis
    finally have "set_matches L invert (strs ?E b0) s \<longleftrightarrow> (\<exists>x. s = [x] \<and> low_canon L x \<notin> low_canon L ` P)" .
    with True ch \<open>radix_empty (ss_radix b0)\<close> \<open>\<not> hasEmoji _\<close> \<open>\<not> ss_emptySeq b0\<close> show ?thesis by (simp add: parts wrap_def)
  next
    case False
    let ?n = "mkStrSet L (ss_emoji b) (ss_radix b) (if builder_nonempty (ss_codePoints b) then Some chars else None)"
    have raw: "strset_isIgnoreCase (if ?ic then setFlag (ss_emoji b0) RGI_CASE_IGNORE else ss_emoji b0) = ?ic"
      using tame_parts(3) [OF assms(2)] by (auto simp: strset_isIgnoreCase_def flag_simps)
    have em: "emoji_strs ?E (strset_getEmojiSeq (if ?ic then setFlag (ss_emoji b0) RGI_CASE_IGNORE else ss_emoji b0)) = M"
      using emoji_strs_simps [OF low_okD(2) [OF assms(1)]] by (auto simp: strset_getEmojiSeq_def setFlag_def M_def)
    have str: "accepts (low_env L) ?n s \<longleftrightarrow> (\<exists>x. s = [x] \<and> low_canon L x \<in> low_canon L ` P) \<or> text_of (map (low_canon L) s) \<in> R \<union> M"
      using ch none False unfolding mkStrSet_def parts
      by (cases "builder_nonempty (ss_codePoints b)") (auto simp: raw em R_def low_canon_fun)
    have empty: "R \<union> M = {}" if "radix_empty (ss_radix b0) \<and> \<not> hasEmoji (ss_emoji b0)"
      using that radix_empty_strs strset_parts(2) [OF tame_parts(1) [OF assms(2)]] emoji_strs_simps(6) [OF low_okD(2) [OF assms(1)]]
      by (auto simp: R_def M_def)
    have "set_matches L invert (strs ?E b0) s \<longleftrightarrow>
        (\<exists>x. s = [x] \<and> low_canon L x \<in> low_canon L ` P) \<or> text_of (map (low_canon L) s) \<in> R \<union> M \<or> (ss_emptySeq b0 \<and> s = [])"
      using m False by (simp add: set_matches_def)
    with str ch empty none False show ?thesis by (simp add: parts wrap_def) blast
  qed
qed

lemma generateClassSet_accepts:
  assumes "low_ok L" "class_wf L (CharClassNode invert t may cs)" "code_points s"
  shows "accepts (low_env L) (generateClassSet L (CharClassNode invert t may cs)) s \<longleftrightarrow>
    class_matches L (CharClassNode invert t may cs) s"
proof -
  let ?n = "CharClassNode invert t may cs" and ?new = "newStrSet (has_modifier L IGNORE_CASE)"
  have "adds L (class_strs L ?n) (\<not> may) ?new (generateStrSet_low L 0 ?n ?new)"
    using gen_addsD [OF generateStrSet_adds [OF assms(1)] assms(2) tame_new(1) [OF assms(1)], of 0] tame_new [OF assms(1)]
    by (simp add: mayContainStringsImpl_def)
  then have b0: "tame L (generateStrSet_low L 0 ?n ?new)" "strs (low_trie L) (generateStrSet_low L 0 ?n ?new) = class_strs L ?n"
    "\<not> may \<Longrightarrow> plain (generateStrSet_low L 0 ?n ?new)"
    using tame_new [OF assms(1)] by (auto simp: adds_def)
  have "invert \<Longrightarrow> \<not> may" using assms(2) by (auto dest: finalize_invert)
  then have "invert \<and> low_mode L \<noteq> UNICODE_SET \<Longrightarrow> plain (generateStrSet_low L 0 ?n ?new)" using b0(3) by blast
  from class_node_accepts [OF assms(1) b0(1) assms(3) this] show ?thesis
    by (simp add: generateClassSet_def class_matches_def b0(2) Let_def)
qed

end
