(* ===== verification/Class_Visit.thy ===== *)
theory Class_Visit
  imports Regex_Lowering Class_Lowering
begin

text \<open>
  \<open>Lowering::visit\<close> on a class: moving the strings to the front and looking through classes of one element
  does not change what the class accepts.
\<close>

section \<open>Sorting the elements of a class\<close>

lemma items_Nil [simp]: "class_items t [] = []"
  by (simp add: class_items.simps)

lemma items_Cons:
  "class_items t (c # cs) =
     (case intoCharRange t (c # cs) of Some (f, l) \<Rightarrow> RangeItem f l # class_items t (drop 2 cs) | None \<Rightarrow> NodeItem c # class_items t cs)"
  by (subst class_items.simps) (simp split: option.splits)

lemma intoCharRange_Some:
  "intoCharRange t cs = Some (f, l) \<longleftrightarrow>
     t = C_RANGE \<and> (\<exists>r rest. cs = CharNode f # r # CharNode l # rest \<and> isProperty r P_RANGE)"
  by (auto simp: intoCharRange_def split: list.splits node.splits if_splits)

lemma items_not_char: "\<not> is_CharNode c \<Longrightarrow> class_items t (c # cs) = NodeItem c # class_items t cs"
proof -
  assume "\<not> is_CharNode c"
  then have "intoCharRange t (c # cs) = None" by (cases c) (simp_all add: intoCharRange_def)
  then show ?thesis by (simp add: items_Cons)
qed

lemma rank_cases:
  "str_rank n < 3" "str_rank (CharNode c) = 2" "isProperty n P_RANGE \<Longrightarrow> str_rank n = 2 \<and> \<not> is_CharNode n"
  "str_rank n \<noteq> 2 \<Longrightarrow> \<not> is_CharNode n"
  by (cases n; auto simp: str_rank_def isProperty_def)+

text \<open>A range mark that is the first element of the last group is an element by itself.\<close>

lemma stray_range:
  "filter (\<lambda>n. str_rank n = 2) cs = r # rest \<Longrightarrow> isProperty r P_RANGE \<Longrightarrow> NodeItem r \<in> set (class_items t cs)"
proof (induction cs)
  case (Cons c cs)
  then show ?case using rank_cases(3,4) by (auto simp: items_not_char split: if_splits)
qed simp

fun item_rank2 :: "class_item \<Rightarrow> bool" where
  "item_rank2 (RangeItem _ _) \<longleftrightarrow> True"
| "item_rank2 (NodeItem n) \<longleftrightarrow> str_rank n = 2"

lemma items_filter:
  "(\<And>n. NodeItem n \<in> set (class_items t cs) \<Longrightarrow> \<not> isProperty n P_RANGE) \<Longrightarrow>
     class_items t (filter (\<lambda>n. str_rank n = 2) cs) = filter item_rank2 (class_items t cs)"
proof (induction t cs rule: class_items.induct)
  case (1 t cs)
  show ?case
  proof (cases cs)
    case (Cons c rest)
    show ?thesis
    proof (cases "intoCharRange t cs")
      case (Some fl)
      obtain f l r rest' where "t = C_RANGE" and cs: "cs = CharNode f # r # CharNode l # rest'" "isProperty r P_RANGE" "fl = (f, l)"
        using Some by (cases fl) (auto simp: intoCharRange_Some)
      have i: "class_items t (CharNode f # r # CharNode l # xs) = RangeItem f l # class_items t xs" for xs
        using \<open>t = C_RANGE\<close> cs(2) by (simp add: items_Cons intoCharRange_def)
      have "class_items t (filter (\<lambda>n. str_rank n = 2) rest') = filter item_rank2 (class_items t rest')"
        using 1(2) [OF Cons Some cs(3) [symmetric]] 1(3) cs i by simp
      with cs i rank_cases(3) show ?thesis by (simp add: rank_cases(2))
    next
      case None
      then have i: "class_items t cs = NodeItem c # class_items t rest" using Cons by (simp add: items_Cons)
      have IH: "class_items t (filter (\<lambda>n. str_rank n = 2) rest) = filter item_rank2 (class_items t rest)"
        using 1(1) [OF Cons None] 1(3) i by simp
      have "intoCharRange t (c # filter (\<lambda>n. str_rank n = 2) rest) = None"
      proof (rule ccontr)
        assume "intoCharRange t (c # filter (\<lambda>n. str_rank n = 2) rest) \<noteq> None"
        then obtain f l r rest' where "filter (\<lambda>n. str_rank n = 2) rest = r # CharNode l # rest'" "isProperty r P_RANGE"
          by (auto simp: intoCharRange_Some)
        with stray_range [of rest r "CharNode l # rest'" t] 1(3) [of r] i show False by simp
      qed
      then have "class_items t (c # filter (\<lambda>n. str_rank n = 2) rest) = NodeItem c # class_items t (filter (\<lambda>n. str_rank n = 2) rest)"
        by (simp add: items_Cons)
      with i IH Cons show ?thesis by simp
    qed
  qed simp
qed

lemma items_low:
  "(\<And>n. n \<in> set ds \<Longrightarrow> str_rank n \<noteq> 2) \<Longrightarrow> class_items t (ds @ cs) = map NodeItem ds @ class_items t cs"
  using rank_cases(4) by (induction ds) (simp_all add: items_not_char)

lemma low_is_item: "c \<in> set cs \<Longrightarrow> str_rank c \<noteq> 2 \<Longrightarrow> NodeItem c \<in> set (class_items t cs)"
proof (induction t cs rule: class_items.induct)
  case (1 t cs)
  then obtain d rest where cs: "cs = d # rest" by (cases cs) auto
  show ?case
  proof (cases "intoCharRange t cs")
    case None
    then show ?thesis using 1 cs by (auto simp: items_Cons)
  next
    case (Some fl)
    then obtain f l r rest' where "cs = CharNode f # r # CharNode l # rest'" "isProperty r P_RANGE" "fl = (f, l)"
      by (cases fl) (auto simp: intoCharRange_Some)
    with Some 1(2) [OF cs Some] 1(3,4) rank_cases(2,3) show ?thesis by (auto simp: items_Cons)
  qed
qed

lemma sort_ranks:
  "sort_key str_rank cs = filter (\<lambda>n. str_rank n = 0) cs @ filter (\<lambda>n. str_rank n = 1) cs @ filter (\<lambda>n. str_rank n = 2) cs"
proof (induction cs)
  case (Cons c cs)
  define A B C where "A = filter (\<lambda>n. str_rank n = 0) cs" and "B = filter (\<lambda>n. str_rank n = 1) cs"
    and "C = filter (\<lambda>n. str_rank n = 2) cs"
  have IH: "sort_key str_rank cs = A @ B @ C" using Cons by (simp add: A_def B_def C_def)
  have r: "\<forall>x\<in>set A. str_rank x = 0" "\<forall>x\<in>set B. str_rank x = 1" "\<forall>x\<in>set C. str_rank x = 2" by (auto simp: A_def B_def C_def)
  have past: "insort_key str_rank c (xs @ ys) = xs @ insort_key str_rank c ys" if "\<forall>x\<in>set xs. str_rank x < str_rank c" for xs ys
    using that by (induction xs) auto
  have here: "insort_key str_rank c ys = c # ys" if "\<forall>y\<in>set ys. str_rank c \<le> str_rank y" for ys
    using that by (cases ys) auto
  consider "str_rank c = 0" | "str_rank c = 1" | "str_rank c = 2" using rank_cases(1) [of c] by arith
  then have "insort_key str_rank c (A @ B @ C) =
      (if str_rank c = 0 then c # A else A) @ (if str_rank c = 1 then c # B else B) @ (if str_rank c = 2 then c # C else C)"
  proof cases
    case 1
    then show ?thesis using here [of "A @ B @ C"] by simp
  next
    case 2
    have "\<forall>y\<in>set (B @ C). str_rank c \<le> str_rank y" using 2 r(2,3) by fastforce
    with 2 show ?thesis using past [of A "B @ C"] here [of "B @ C"] r(1) by simp
  next
    case 3
    then show ?thesis using past [of A "B @ C"] past [of B C] here [of C] r by auto
  qed
  then show ?case by (simp add: IH) (simp add: A_def B_def C_def)
qed simp

lemma items_sort:
  assumes "\<And>n. NodeItem n \<in> set (class_items t cs) \<Longrightarrow> \<not> isProperty n P_RANGE"
  shows "set (class_items t (sort_key str_rank cs)) = set (class_items t cs)"
proof -
  let ?ds = "filter (\<lambda>n. str_rank n = 0) cs @ filter (\<lambda>n. str_rank n = 1) cs"
  have "class_items t (sort_key str_rank cs) = map NodeItem ?ds @ filter item_rank2 (class_items t cs)"
  proof -
    have "class_items t (?ds @ filter (\<lambda>n. str_rank n = 2) cs) = map NodeItem ?ds @ class_items t (filter (\<lambda>n. str_rank n = 2) cs)"
      by (rule items_low) auto
    with items_filter [of t cs, OF assms] show ?thesis unfolding sort_ranks by (simp only: append_assoc)
  qed
  moreover have "item \<in> NodeItem ` set ?ds \<longleftrightarrow> item \<in> set (class_items t cs) \<and> \<not> item_rank2 item" for item
  proof (cases item)
    case (NodeItem n)
    have "n \<in> set ?ds \<longleftrightarrow> n \<in> set cs \<and> str_rank n \<noteq> 2" using rank_cases(1) [of n] by auto
    also have "\<dots> \<longleftrightarrow> NodeItem n \<in> set (class_items t cs) \<and> str_rank n \<noteq> 2"
      using low_is_item [of n cs t] class_items_nodes [of n t cs] by blast
    finally show ?thesis unfolding NodeItem by (simp add: image_iff)
  qed auto
  ultimately show ?thesis by auto
qed

fun map_item :: "(node \<Rightarrow> node) \<Rightarrow> class_item \<Rightarrow> class_item" where
  "map_item f (RangeItem a b) = RangeItem a b"
| "map_item f (NodeItem n) = NodeItem (f n)"

lemma normalize_same:
  "is_CharNode (normalizeStrCharClass n) \<longleftrightarrow> is_CharNode n" "is_CharNode n \<Longrightarrow> normalizeStrCharClass n = n"
  "isProperty (normalizeStrCharClass n) t \<longleftrightarrow> isProperty n t" "is_CharClassNode (normalizeStrCharClass n) \<longleftrightarrow> is_CharClassNode n"
  by (cases n; simp add: normalize_class normalize_other isProperty_def)+

lemma intoCharRange_three:
  "intoCharRange t (a # b # c # rest) =
     (if is_CharNode a \<and> is_CharNode c \<and> t = C_RANGE \<and> isProperty b P_RANGE then Some (node_codePoint a, node_codePoint c) else None)"
  by (cases a; cases c; simp add: intoCharRange_def)

lemma intoCharRange_short: "length cs < 3 \<Longrightarrow> intoCharRange t cs = None"
  by (auto simp: intoCharRange_def split: list.splits node.splits)

lemma items_map: "class_items t (map normalizeStrCharClass cs) = map (map_item normalizeStrCharClass) (class_items t cs)"
proof (induction t cs rule: class_items.induct)
  case (1 t cs)
  have i: "intoCharRange t (map normalizeStrCharClass cs) = intoCharRange t cs"
  proof (cases "length cs < 3")
    case False
    then obtain a b c rest where "cs = a # b # c # rest" by (auto simp: not_less numeral_3_eq_3 Suc_le_length_iff)
    then show ?thesis by (auto simp: intoCharRange_three normalize_same)
  qed (simp add: intoCharRange_short)
  show ?case
  proof (cases cs)
    case (Cons c rest)
    show ?thesis
    proof (cases "intoCharRange t cs")
      case None
      with 1(1) [OF Cons None] i Cons show ?thesis by (simp add: items_Cons)
    next
      case (Some fl)
      obtain f l where fl: "fl = (f, l)" by (cases fl)
      from 1(2) [OF Cons Some fl [symmetric]] Some fl i Cons show ?thesis by (simp add: items_Cons drop_map numeral_3_eq_3 numeral_2_eq_2)
    qed
  qed simp
qed

section \<open>Normalized classes\<close>

lemma may_normalize: "mayContainStringsImpl (normalizeStrCharClass n) = mayContainStringsImpl n"
  by (cases n) (simp_all add: normalize_class normalize_other mayContainStringsImpl_def)

lemma range_mark_not_wf: "class_wf L n \<Longrightarrow> \<not> isProperty n P_RANGE"
  by (cases n) (auto simp: isProperty_def property_wf_def mayContainString_def node_property_def)

text \<open>The strings of an element.\<close>

fun item_strs :: "Lowering \<Rightarrow> class_item \<Rightarrow> bytes set" where
  "item_strs L (RangeItem f l) = codePointToUtf8 ` low_case L ` {f..l}"
| "item_strs L (NodeItem e) = class_strs L e"

lemma class_base_items: "t = C_UNION \<or> t = C_RANGE \<Longrightarrow> class_base L t cs = (\<Union>item\<in>set (class_items t cs). item_strs L item)"
proof -
  have "(case item of RangeItem f l \<Rightarrow> s \<in> codePointToUtf8 ` low_case L ` {f..l} | NodeItem e \<Rightarrow> s \<in> class_strs L e) \<longleftrightarrow>
      s \<in> item_strs L item" for s item by (cases item) simp_all
  then show "t = C_UNION \<or> t = C_RANGE \<Longrightarrow> ?thesis" by (auto simp: class_base_def)
qed

lemma normalize_keeps:
  "class_wf L n \<Longrightarrow> class_wf L (normalizeStrCharClass n) \<and> class_strs L (normalizeStrCharClass n) = class_strs L n \<and>
     mayContainStringsImpl (normalizeStrCharClass n) = mayContainStringsImpl n"
proof (induction n rule: normalizeStrCharClass.induct)
  case (1 n)
  show ?case
  proof (cases "\<exists>iv t cs. n = CharClassNode iv t True cs \<and> t \<noteq> C_INTERSECT \<and> t \<noteq> C_SUBTRACT")
    case False
    then have "normalizeStrCharClass n = n" by (cases n) (auto simp: normalize_class normalize_other)
    with 1(2) show ?thesis by simp
  next
    case True
    then obtain iv t cs where n: "n = CharClassNode iv t True cs" "t \<noteq> C_INTERSECT" "t \<noteq> C_SUBTRACT" by blast
    then have t: "t = C_UNION \<or> t = C_RANGE" by (cases t) auto
    let ?N = "normalizeStrCharClass"
    let ?ds = "map ?N (sort_key str_rank cs)"
    have N: "?N n = CharClassNode iv t True ?ds" using n by (simp add: normalize_class)
    have wf: "class_finalize iv t cs = (True, n)"
      "\<And>item. item \<in> set (class_items t cs) \<Longrightarrow> case item of RangeItem f l \<Rightarrow> isCodePoint f \<and> isCodePoint l \<and> f \<le> l
           | NodeItem e \<Rightarrow> class_wf L e \<and> (is_CharClassNode e \<longrightarrow> low_mode L = UNICODE_SET)"
      using 1(2) n(1) t by (simp_all add: list_all_iff)
    have IH: "class_wf L (?N e)" "class_strs L (?N e) = class_strs L e" if "NodeItem e \<in> set (class_items t cs)" for e
      using 1(1) [OF n(1), of e] n(2,3) class_items_nodes [OF that] wf(2) [OF that] by simp_all
    have items: "set (class_items t ?ds) = map_item ?N ` set (class_items t cs)"
      using items_sort [of t cs] wf(2) range_mark_not_wf by (fastforce simp: items_map)
    have strs: "item_strs L (map_item ?N item) = item_strs L item" if "item \<in> set (class_items t cs)" for item
      using IH(2) that by (cases item) simp_all
    have "list_ex mayContainStringsImpl ?ds \<longleftrightarrow> list_ex mayContainStringsImpl cs" by (auto simp: list_ex_iff may_normalize)
    then have "class_finalize iv t ?ds = (True, CharClassNode iv t True ?ds)"
      using wf(1) n(1) t by (auto simp: class_finalize_def Let_def)
    moreover have "list_all (\<lambda>item. case item of
             RangeItem f l \<Rightarrow> isCodePoint f \<and> isCodePoint l \<and> f \<le> l
           | NodeItem e \<Rightarrow> class_wf L e \<and> (is_CharClassNode e \<longrightarrow> low_mode L = UNICODE_SET)) (class_items t ?ds)"
      unfolding list_all_iff items
    proof
      fix item assume "item \<in> map_item ?N ` set (class_items t cs)"
      then obtain i where i: "i \<in> set (class_items t cs)" "item = map_item ?N i" by blast
      show "case item of RangeItem f l \<Rightarrow> isCodePoint f \<and> isCodePoint l \<and> f \<le> l
           | NodeItem e \<Rightarrow> class_wf L e \<and> (is_CharClassNode e \<longrightarrow> low_mode L = UNICODE_SET)"
        using i wf(2) [OF i(1)] IH(1) by - (cases i; simp add: normalize_same)
    qed
    ultimately have "class_wf L (?N n)" using t unfolding N class_wf.simps by simp
    moreover have "class_base L t ?ds = class_base L t cs" using strs by (simp add: class_base_items [OF t] items)
    ultimately show ?thesis unfolding N by (simp add: n(1) class_strs_class mayContainStringsImpl_def del: class_wf.simps)
  qed
qed

section \<open>Visiting a class\<close>

lemma generatePropertySet_accepts:
  assumes "low_ok L" "property_wf L t d" "code_points s"
  shows "accepts (low_env L) (generatePropertySet L t d) s \<longleftrightarrow> class_matches L (PropertyNode t d) s"
proof (cases "mayContainString t")
  case True
  let ?ic = "has_modifier L IGNORE_CASE" and ?e = "getEmojiSeq d"
  have nb: "\<not> bit ?e 7" using assms(2) True by (simp add: property_wf_def flag_bits)
  have raw: "strset_isIgnoreCase (if ?ic then setFlag (if ?ic then setFlag ?e RGI_CASE_IGNORE else ?e) RGI_CASE_IGNORE
      else (if ?ic then setFlag ?e RGI_CASE_IGNORE else ?e)) = ?ic"
    using nb by (auto simp: strset_isIgnoreCase_def flag_simps)
  have em: "emoji_strs (low_trie L) (strset_getEmojiSeq (if ?ic then setFlag (if ?ic then setFlag ?e RGI_CASE_IGNORE else ?e) RGI_CASE_IGNORE
      else (if ?ic then setFlag ?e RGI_CASE_IGNORE else ?e))) = emoji_strs (low_trie L) ?e"
    using emoji_strs_simps [OF low_okD(2) [OF assms(1)]] by (auto simp: strset_getEmojiSeq_def setFlag_def)
  have "radix_strs empty_radix = {}" using newStrSet_strs [OF low_okD(2) [OF assms(1)], of False] by (simp add: strs_def newStrSet_def)
  then have "accepts (low_env L) (generatePropertySet L t d) s \<longleftrightarrow> text_of (map (low_canon L) s) \<in> emoji_strs (low_trie L) ?e"
    using True unfolding generatePropertySet_def mkStrSet_def by (simp add: raw em low_canon_fun)
  also have "\<dots> \<longleftrightarrow> class_matches L (PropertyNode t d) s"
    using matches_stable [OF assms(1) emoji_stable [OF assms(1)] assms(3)] True by (simp add: class_matches_def set_matches_def)
  finally show ?thesis .
next
  case False
  let ?P = "prop_points L t d"
  note pts = property_points_low [OF assms(1,2) False]
  have P: "?P \<subseteq> {c. isCodePoint c}" using pts builder_codePoint by blast
  have m: "class_matches L (PropertyNode t d) s \<longleftrightarrow> (\<exists>x. s = [x] \<and> low_canon L x \<in> low_canon L ` ?P)"
    using matches_codes [OF assms(1) P assms(3)] False by (simp add: class_matches_def set_matches_def)
  have ok: "code_points [x] \<Longrightarrow> isCodePoint (low_canon L x)" for x using low_canon_ok(1) [OF assms(1)] by simp
  show ?thesis
  proof (cases "property_isInvert t \<or> has_modifier L IGNORE_CASE")
    case True
    define b0 where "b0 = mayBeSimpleCaseFolding L (out_builder (toCodePointSet L (ToBuilder empty_builder) t d))"
    define b1 where "b1 = (if property_isInvert t then low_complement L b0 else b0)"
    define b2 where "b2 = (if has_modifier L IGNORE_CASE then foldCase (low_fold L) b1 else b1)"
    have "builder_ok b1" "builder_points b1 = ?P" using pts unfolding b1_def b0_def by blast+
    then have b2: "builder_ok b2" "builder_points b2 = low_canon L ` ?P"
      using foldCase_low [OF assms(1), of b1] by (auto simp: b2_def low_canon_fun)
    have "generatePropertySet L t d = CharSetNode False (has_modifier L IGNORE_CASE) True (fst (build b2))"
      using True False by (simp add: generatePropertySet_def b2_def b1_def b0_def Let_def)
    then have acc: "accepts (low_env L) (generatePropertySet L t d) [x] \<longleftrightarrow> set_contains (fst (build b2)) (low_canon L x)" for x
      by (simp add: low_canon_def)
    have mem: "set_contains (fst (build b2)) (low_canon L x) \<longleftrightarrow> low_canon L x \<in> low_canon L ` ?P" if "code_points [x]" for x
      using build_spec [OF b2(1)] b2(2) set_contains_iff_aux [of "fst (build b2)" "low_canon L x"] ok [OF that] by (simp add: isCodePoint_def)
    show ?thesis
    proof (cases "\<exists>x. s = [x]")
      case True
      then obtain x where x: "s = [x]" by blast
      have "class_matches L (PropertyNode t d) s \<longleftrightarrow> low_canon L x \<in> low_canon L ` ?P" unfolding m by (simp add: x)
      with acc [of x] mem [of x] assms(3) x show ?thesis by simp
    qed (use m in \<open>simp add: \<open>generatePropertySet L t d = _\<close>\<close>)
  next
    case inv: False
    obtain p where p: "node_property L t d = Some p" "property_exists p"
      using assms(2) False by (auto simp: property_wf_def split: option.splits)
    have "hands_over (getPropertySet (low_tables L) p) (property_points (low_tables L) p)"
      using holds_property [OF low_okD(1) [OF assms(1)] p(2)] by (simp add: prop_holds_def)
    then obtain cset where "snd (getPropertySet (low_tables L) p (ToSet empty_set)) = ToSet cset" "ref_ok cset"
        "set_points cset = property_points (low_tables L) p"
      unfolding hands_over_def by (metis snd_conv)
    then have o: "out_set (toCodePointSet L (ToSet empty_set) t d) = cset" "set_wf cset" "set_points cset = property_points (low_tables L) p"
      by (simp_all add: toCodePointSet_def p(1) ref_ok_def)
    have "\<not> needSimpleCaseFolding L" using inv by (simp add: needSimpleCaseFolding_def)
    then have "?P = property_points (low_tables L) p" using inv p(1) by (simp add: prop_points_def low_case_fun)
    moreover have "generatePropertySet L t d = CharSetNode False False (property_built p) cset"
      using inv False o(1) p(1) by (simp add: generatePropertySet_def Let_def)
    ultimately show ?thesis
      using m inv assms(3) o set_contains_iff_aux [OF o(2)] by (auto simp: low_canon_fun isCodePoint_def)
  qed
qed

lemma single_strs:
  assumes "class_wf L (CharClassNode False t may [c])"
  shows "class_strs L (CharClassNode False t may [c]) = class_strs L c" "class_wf L c" "is_CharClassNode c \<Longrightarrow> low_mode L = UNICODE_SET"
proof -
  have i: "class_items t [c] = [NodeItem c]" by (simp add: items_Cons intoCharRange_short)
  show "class_strs L (CharClassNode False t may [c]) = class_strs L c" by (simp add: class_strs_class class_base_def i)
  show "class_wf L c" "is_CharClassNode c \<Longrightarrow> low_mode L = UNICODE_SET" using assms by (auto simp: i split: if_splits)
qed

lemma visit_accepts:
  assumes "low_ok L" "code_points s" "class_wf L n" "\<not> is_AltNode n"
  shows "accepts (low_env L) (fst (visit nm L n rc)) s \<longleftrightarrow> class_matches L n s"
  using assms(3,4)
proof (induction "size n" arbitrary: n rule: less_induct)
  case less
  show ?case
  proof (cases n)
    case (CharNode c)
    with less.prems have "isCodePoint c" by (simp add: char_wf_def)
    then have "class_matches L n s \<longleftrightarrow> (\<exists>x. s = [x] \<and> low_canon L x \<in> low_canon L ` {low_case L c})"
      using matches_codes [OF assms(1) _ assms(2), of "{low_case L c}"] low_case_codePoint [OF assms(1), of c] CharNode
      by (simp add: class_matches_def set_matches_def string_strs_def)
    moreover have "low_canon L (low_case L c) = low_canon L c"
      using low_canon_ok(2) [OF assms(1) \<open>isCodePoint c\<close>] by (auto simp: low_case_def needSimpleCaseFolding_def low_canon_def)
    ultimately show ?thesis using CharNode by (auto simp: low_canon_fun split: if_splits)
  next
    case (FoldCharNode c)
    with less.prems have c: "isCodePoint c" "low_fold L c = c" "has_modifier L IGNORE_CASE" by (simp_all add: char_wf_def)
    then have "class_matches L n s \<longleftrightarrow> (\<exists>x. s = [x] \<and> low_canon L x = c)"
      using matches_codes [OF assms(1) _ assms(2), of "{c}"] FoldCharNode
      by (auto simp: class_matches_def set_matches_def string_strs_def low_canon_fun)
    then show ?thesis using FoldCharNode c(3) by (auto simp: low_canon_fun)
  next
    case (PropertyNode t d)
    with less.prems have wf: "property_wf L t d" by simp
    then have "getNormalizedType t \<noteq> P_GRAPHEME"
      by (auto simp: property_wf_def mayContainString_def node_property_def split: if_splits option.splits)
    with generatePropertySet_accepts [OF assms(1) wf assms(2)] PropertyNode show ?thesis by simp
  next
    case (CharClassNode iv t may cs)
    define n' where "n' = normalizeStrCharClass n"
    have "\<exists>ds. n' = CharClassNode iv t may ds"
      using CharClassNode by (cases "\<not> may \<or> t = C_INTERSECT \<or> t = C_SUBTRACT") (auto simp: n'_def normalize_class)
    then obtain ds where n': "n' = CharClassNode iv t may ds" by blast
    then have nv: "normalizeStrCharClass (CharClassNode iv t may cs) = CharClassNode iv t may ds" using CharClassNode by (simp add: n'_def)
    have k: "class_wf L n'" "class_strs L n' = class_strs L n" using normalize_keeps [OF less.prems(1)] by (simp_all add: n'_def)
    have same: "class_matches L n' s = class_matches L n s" using k(2) n' CharClassNode by (simp add: class_matches_def)
    show ?thesis
    proof (cases "isSingleCharClass iv ds")
      case False
      then have "fst (visit nm L n rc) = generateClassSet L n'" using CharClassNode n' by (simp add: nv Let_def)
      with generateClassSet_accepts [OF assms(1) k(1) [unfolded n'] assms(2)] same n' show ?thesis by simp
    next
      case True
      then obtain c where c: "ds = [c]" "\<not> iv" "\<not> is_AltNode c" by (auto simp: isSingleCharClass_def length_Suc_conv split: node.splits)
      have n'': "n' = CharClassNode False t may [c]" using n' c by simp
      note single = single_strs [OF k(1) [unfolded n'' ]]
      have "size c < size n" using size_normalize [of n] n'' by (simp add: n'_def [symmetric])
      then have "accepts (low_env L) (fst (visit nm L c rc)) s \<longleftrightarrow> class_matches L c s"
        using less.hyps [of c] single(2) c(3) by blast
      moreover have "class_matches L c s = class_matches L n' s"
        using single(1,3) n'' by (cases "is_CharClassNode c") (simp_all add: class_matches_def)
      moreover have "fst (visit nm L n rc) = fst (visit nm L c rc)"
        using nv CharClassNode True c by (simp add: Let_def)
      ultimately show ?thesis using same by simp
    qed
  qed (use less.prems in auto)
qed

text \<open>C10. Character classes are lowered exactly. For a class as the parser finishes it, whatever the mode and the
  modifiers, the node \<open>visit\<close> puts in its place accepts precisely the texts the class denotes: the code
  points, strings and emoji sequences that union, intersection, difference and complement of its
  elements give, compared up to case when the modifier \<open>i\<close> is on.\<close>

theorem class_lowering_exact:
  assumes "low_ok L" "class_wf L (CharClassNode invert t may cs)" "code_points s"
  shows "accepts (low_env L) (fst (visit nm L (CharClassNode invert t may cs) rc)) s \<longleftrightarrow>
    class_matches L (CharClassNode invert t may cs) s"
  using visit_accepts [OF assms(1,3,2)] by simp

text \<open>Folding of the ASCII letters, the trie with the watch, and the flags \<open>v\<close> and \<open>i\<close>.\<close>

definition ascii_fold :: "int \<Rightarrow> int" where
  "ascii_fold c = (if 0x41 \<le> c \<and> c \<le> 0x5A then c + 32 else c)"

definition ascii_env :: unicode_env where
  "ascii_env = \<lparr>simpleFold = ascii_fold, simpleUnfold = (\<lambda>c. if 0x61 \<le> c \<and> c \<le> 0x7A then [c - 32] else []),
     isExtendWord = isWord, emojiTrie = watch_trie, firstGrapheme = (\<lambda>s. 0)\<rparr>"

definition ascii_low :: Lowering where
  "ascii_low = newLowering sample_tables ascii_env \<lparr>flag_mode = UNICODE_SET, flag_modifiers = modifier_bit IGNORE_CASE\<rparr>"

lemma ascii_low_ok: "low_ok ascii_low"
proof -
  have "\<exists>t. s = text_of t \<and> code_points t \<and> map ascii_fold t = t" if "trie_find watch_trie s \<noteq> 0" for s
  proof -
    have "s = [0xE2, 0x8C, 0x9A]" using that by (simp add: watch_find split: if_splits)
    moreover have "text_of [0x231A] = [0xE2, 0x8C, 0x9A]" "list_all isCodePoint [0x231A]" by code_simp+
    ultimately show ?thesis by (intro exI [of _ "[0x231A]"]) (simp add: ascii_fold_def)
  qed
  then show ?thesis
    using sample_tables_ok watch_ok
    by (auto simp: low_ok_def ascii_low_def newLowering_def ascii_env_def ascii_fold_def isCodePoint_def CODE_POINT_MAX_def)
qed

definition a_to_c :: node where
  "a_to_c = CharClassNode False C_RANGE False [CharNode 0x61, PropertyNode P_RANGE 0, CharNode 0x63]"

lemma a_to_c_items: "class_items C_RANGE [CharNode 0x61, PropertyNode P_RANGE 0, CharNode 0x63] = [RangeItem 0x61 0x63]"
  by (simp add: items_Cons intoCharRange_def isProperty_def)

lemma a_to_c_wf: "class_wf ascii_low a_to_c"
  by (simp add: a_to_c_def a_to_c_items class_finalize_def mayContainStringsImpl_def mayContainString_def isCodePoint_def CODE_POINT_MAX_def)

theorem class_lowering_exact_witness:
  "low_ok ascii_low \<and> class_wf ascii_low a_to_c \<and>
   accepts (low_env ascii_low) (fst (visit \<lparr>offsetMap = Map.empty, entries = []\<rparr> ascii_low a_to_c [NOT_OPENED])) [0x42]"
proof -
  have "low_canon ascii_low 0x62 = low_canon ascii_low 0x42" "low_case ascii_low 0x62 = 0x62"
    by (simp_all add: low_canon_def low_case_def ascii_low_def newLowering_def ascii_env_def ascii_fold_def has_modifier_def hasFlag_def)
  moreover have "(0x62 :: int) \<in> {0x61..0x63}" by simp
  then have "low_case ascii_low 0x62 \<in> low_case ascii_low ` {0x61..0x63}" by (rule imageI)
  then have "codePointToUtf8 0x62 \<in> codePointToUtf8 ` low_case ascii_low ` {0x61..0x63}"
    using \<open>low_case ascii_low 0x62 = 0x62\<close> by (intro imageI) simp
  ultimately have "class_matches ascii_low a_to_c [0x42]"
    unfolding class_matches_def a_to_c_def set_matches_def class_strs_class class_base_def a_to_c_items
    by (auto simp: isCodePoint_def CODE_POINT_MAX_def intro!: exI [of _ "[0x62]"])
  moreover have "code_points [0x42]" by (simp add: isCodePoint_def CODE_POINT_MAX_def)
  ultimately show ?thesis
    using class_lowering_exact [OF ascii_low_ok a_to_c_wf [unfolded a_to_c_def]] ascii_low_ok a_to_c_wf by (simp add: a_to_c_def)
qed

text \<open>The pattern \<open>(?:[a-c]x)?\<close> with the flags \<open>v\<close> and \<open>i\<close>.\<close>

definition optional_tree :: SyntaxTree where
  "optional_tree = \<lparr>tree_flag = \<lparr>flag_mode = UNICODE_SET, flag_modifiers = modifier_bit IGNORE_CASE\<rparr>, tree_loopCount = 1,
     tree_captureGroupCount = 0, tree_pattern = mkRepeat 0 (GroupNode G_NON_CAPTURE 0 0 0 (SeqNode [a_to_c, CharNode 0x78])) 0 1 True,
     tree_namedCaptureGroups = \<lparr>offsetMap = Map.empty, entries = []\<rparr>\<rparr>"

theorem transform_lowered_witness:
  "parsed (tree_pattern optional_tree) \<and> lowered (tree_pattern (transform sample_tables ascii_env optional_tree)) \<and>
   codegen ascii_env (transform sample_tables ascii_env optional_tree) \<noteq> Inl GenFatal"
proof -
  have "parsed (tree_pattern optional_tree)" by (simp add: optional_tree_def mkRepeat_def a_to_c_def)
  then show ?thesis using transform_lowered [of optional_tree sample_tables ascii_env ascii_env] by simp
qed

end
