(* ===== verification/Spec2Isabelle.thy ===== *)
theory Spec2Isabelle
  imports Regex_Session Regex_Escape Regex_Stack Num_Util Grapheme_Scanner Word_Scanner Case_Fold Class_Visit
begin

text \<open>
  \<^bold>\<open>Verification of the regular expression engine and the Unicode support of arsh\<close>

  arsh is a statically typed shell with a regular expression engine of its own. This development models that
  engine (\<open>src/src/regex\<close>), the Unicode support it rests on (\<open>src/src/unicode\<close>, \<open>src/src/misc/unicode.hpp\<close>,
  \<open>src/src/misc/codepoint_set.hpp\<close>), the generator of the case folding tables (\<open>src/tools/casefold\<close>) and the
  integer conversions (\<open>src/src/misc/num_util.hpp\<close>).

  \<^bold>\<open>The parts and how they work together.\<close> A pattern is parsed into a syntax tree. \<open>transform\<close> lowers the tree:
  character classes, properties and case-insensitive characters become sets of code points, sets of strings
  or folded characters, and the modifiers in force are written into the nodes. \<open>CodeGen\<close> turns the lowered
  tree into byte code with a table of matchers, and \<open>collectPrefilterBits\<close> reads off the code which bytes a
  match can start with. \<open>match\<close> validates the text, searches the start positions and runs a backtracking
  machine on the code; \<open>replace\<close>, \<open>split\<close> and \<open>matchAll\<close> call it repeatedly. Below lie sets of code points (built
  by a builder, packed, searched by bisection), a radix tree for sets of strings, the property tables, case
  folding, and the segmentation of text into grapheme clusters and words.

  \<^bold>\<open>The theories, in the order of the code.\<close>

  \<^item> \<open>Prelude\<close>: bytes, machine integers, result types, generic facts and the collections of simplification rules.
  \<^item> \<open>Utf8\<close> (\<open>misc/unicode.hpp\<close>, the slicing of \<open>misc/string_ref.hpp\<close>): the encoders and decoders. Decoding
    inverts encoding and accepts shortest forms only; a stream yields the encoded code points in order.
  \<^item> \<open>Codepoint_Set\<close> (\<open>misc/codepoint_set.hpp\<close>), \<open>Set_Builder\<close> (\<open>unicode/set_builder.cpp\<close>), \<open>Radix_Tree\<close>
    (\<open>unicode/radix_tree.cpp\<close>): the packed ranges and their bisection, the builder against the algebra of
    sets of integers with its invariant of sorted, separated ranges, the tree against sets of strings. Each interface is a
    locale that is interpreted on the model of the component.
  \<^item> \<open>Ucp_Property\<close> (\<open>unicode/property.cpp\<close>): the property sets, against their derivation from the prime tables.
  \<^item> \<open>Text_Scanner\<close>, \<open>Grapheme\<close>, \<open>Grapheme_Scanner\<close>, \<open>Word_Break\<close>, \<open>Word_Scanner\<close> (\<open>unicode/grapheme.h\<close>, \<open>unicode/word.h\<close>
    and their \<open>.cpp\<close> files): the state machines of the boundaries, their scanners and iterations. The segments are those
    between the boundaries of the rules of Unicode Annex 29; \<open>picto_linker_cut\<close> and \<open>hebrew_quote_cut\<close> show
    where the machines depart from the text of the rules.
  \<^item> \<open>Case_Fold\<close> (\<open>unicode/case_fold.cpp\<close>, \<open>tools/casefold/fold_table.cpp\<close>): the generator of the two-stage tables
    and its readers; together they give back the mappings of the database, and unfolding inverts folding.
  \<^item> \<open>Regex_Flag\<close>, \<open>Regex_Inst\<close>, \<open>Regex_Input\<close>, \<open>Regex_Matcher\<close>, \<open>Regex_Node\<close> (the headers \<open>flag.h\<close>, \<open>instruction.h\<close>,
    \<open>input.h\<close>, \<open>matcher.h\<close>, \<open>capture.h\<close>, \<open>node.h\<close> of \<open>regex\<close>): flags with their parser and printer, instructions and their byte
    encoding, the validated text and its unchecked readers, matchers and captures, the syntax tree.
  \<^item> \<open>Str_Set\<close>, \<open>Regex_Class\<close>, \<open>Regex_Lowering\<close>, \<open>Class_Lowering\<close>, \<open>Class_Visit\<close> (\<open>regex/transform.h\<close>,
    \<open>regex/transform.cpp\<close>): sets of strings, character classes, the visit of the tree and its two
    optimizations. A lowered class accepts exactly the strings the class denotes, and the result of \<open>transform\<close> has only nodes the generator knows.
  \<^item> \<open>Regex_Emit\<close> (\<open>regex/emit.cpp\<close>) and \<open>Regex_Prefilter\<close> (\<open>regex/prefilter.cpp\<close>): the generated code has the
    layout of the tree, with every target and matcher index right.
  \<^item> \<open>Regex_VM\<close> (\<open>regex/vm.cpp\<close>, \<open>regex/match_context.h\<close>): the machine, its backtrack stack, loop states, look-arounds,
    timer and the search over start positions. \<open>Regex_Stack\<close> bounds the stack and lists the possible statuses.
  \<^item> \<open>Regex_Semantics\<close> is the specification: the list of successes of a tree at a position, in order of
    preference. \<open>Regex_Steps\<close>, \<open>Regex_Delivery\<close>, \<open>Regex_Repeat\<close>, \<open>Regex_Correct\<close> prove that code delivers the successes
    of its tree one after the other, by induction on the tree; \<open>Regex_Engine\<close>, \<open>Regex_First\<close>, \<open>Regex_Match\<close>,
    \<open>Regex_Frame\<close> and \<open>Regex_Result\<close> lift this to the search, the prefilter and the captures.
  \<^item> \<open>Regex_Api\<close>, \<open>Regex_Template\<close>, \<open>Regex_Session\<close>, \<open>Regex_Escape\<close> (\<open>regex/regex.cpp\<close>): the entry points against sequences
    of specified matches, replacement templates, and \<open>escape\<close>.
  \<^item> \<open>Num_Util\<close> (\<open>misc/num_util.hpp\<close>): parsing of integers at every width. \<open>Regex_Sample\<close>: the data of the evaluated examples.

  This theory holds what spans them: \<open>match_finds_first\<close>, from the tree to the captures, and two behaviours of the
  engine that the specification does not have.

  \<^bold>\<open>How the code is represented.\<close> Structures are records, tagged unions are datatypes, 8, 16 and 32 bit integers are
  words wherever they can wrap; pointers into a text are byte offsets; failures are values of a sum or an
  option; the buffers and stacks a C++ object keeps are fields of a record that operations return updated. A
  consumer passed as a callback is a function with a state, the timer a sequence of answers.

  \<^bold>\<open>Bounds and fuel.\<close> The match loop takes fuel; \<open>match_finds_first\<close> states that some amount is enough and that every result
  is the specified one, and the theorems on the entry points state one amount above which every call returns. A repetition in the
  specification is unfolded \<open>mn + length cps + 2\<close> times, enough because every round after the required ones
  reads a code point. \<open>replace\<close> and \<open>matchAll\<close> run at most \<open>length text + 2\<close> rounds, since each moves the position forward or is the
  second report of an empty match. Code is shorter than \<open>2 ^ 32\<close> bytes, the width of its addresses; a text is shorter than \<open>2 ^ 32 - 2 ^ 16\<close> bytes,
  so that the 32-bit counter of a loop, which counts at most the required rounds (16 bits) and one round per code point, does not wrap.

  \<^bold>\<open>What the theorem on matching covers.\<close> \<open>supported\<close> excludes string sets, grapheme clusters and capture groups
  inside positive look-arounds; for the last the machine differs from the specification, as \<open>lookahead_capture_leak\<close> proves.

  \<^bold>\<open>Parameters.\<close> The tables the build generates from the Unicode database (properties, folding, segmentation, emoji
  sequences) are arguments of the definitions, and what the code needs of them (sorted ranges, closed tables)
  is a hypothesis; each such property is also evaluated on a small concrete table.

  \<^bold>\<open>Not modelled.\<close> The regex parser beyond the helpers that number groups and finish the tree (the
  development starts from trees), the dump of trees and code (debug output), floating point conversion, and the shell around
  the engine: lexer, parser, type checker, byte code generator, interpreter, jobs, builtin commands, expansion,
  line editor and completion. They are large, depend on the operating system, or use the engine only through
  the entry points modelled here.
\<close>

section \<open>Sample patterns\<close>




section \<open>The machine finds the first match\<close>

text \<open>C1. Matching is correct. Take a pattern the generator accepts, whose constructs are the supported
  ones, and a text accepted by \<open>Input::create\<close>. Then the text is the encoding of code points \<open>cps\<close>, and for
  every answer of the timer, with the prefilter on or off, the machine stops after finitely many steps
  without a fault; unless it stops at the stack limit, a timeout or a cancellation, its status, its cursor
  and all its captures are those of \<open>find_match\<close>: the first match, in the order of preference of a
  backtracking matcher, at the first start position from the requested offset that has one.\<close>

theorem match_finds_first:
  assumes gen: "codegen env tree = Inr regex" and size: "length (regex_instSeq regex) < 2 ^ 32"
    and sup: "supported (tree_namedCaptureGroups tree) (tree_captureGroupCount tree) (unat (tree_loopCount tree)) (tree_pattern tree)"
    and env: "unfold_ok env"
    and ctx: "tryToCreateMatchContext regex s off captures = Inr ctx" "length s + 2 ^ 16 < 2 ^ 32"
  shows "\<exists>cps. code_points cps \<and> s = text_of cps \<and>
    (\<forall>pf timer. (\<exists>fuel res. vm_match fuel env regex (ctx\<lparr>ctx_prefilter := pf\<rparr>) timer = Some res) \<and>
      (\<forall>fuel st ctx'. vm_match fuel env regex (ctx\<lparr>ctx_prefilter := pf\<rparr>) timer = Some (st, ctx') \<longrightarrow> is_limit st \<or>
         match_result (tree_captureGroupCount tree) cps
           (find_match env (tree_namedCaptureGroups tree) cps (tree_pattern tree) (min off (length cps))) st ctx'))"
proof -
  have p: "prepared env tree regex" using gen size sup env by (simp add: prepared_def)
  obtain cps where cps: "code_points cps" "s = text_of cps" and at: "stands_at cps regex ctx (min off (length cps))"
    using create_stands [OF ctx(1)] .
  have t: "text_ok cps" using cps ctx(2) by (simp add: text_ok_def)
  have "stands_at cps regex (ctx\<lparr>ctx_prefilter := pf\<rparr>) (min off (length cps))" for pf using at by simp
  from match_from [OF p t this] cps show ?thesis by blast
qed

theorem match_finds_first_witness:
  "\<exists>regex. codegen sample_env pick_tree = Inr regex \<and>
     (\<forall>timer. (\<exists>fuel res. vm_match fuel sample_env regex
          (newMatchContext regex \<lparr>input_text = [120, 98], input_iter = 0\<rparr> []) timer = Some res) \<and>
       (\<forall>fuel st ctx. vm_match fuel sample_env regex (newMatchContext regex \<lparr>input_text = [120, 98], input_iter = 0\<rparr> []) timer
            = Some (st, ctx) \<longrightarrow>
          is_limit st \<or> st = MATCH_OK \<and>
          ctx_captures ctx = [\<lparr>cap_offset = 1, cap_size = 1\<rparr>, \<lparr>cap_offset = 1, cap_size = 1\<rparr>]))"
proof -
  obtain regex where r: "codegen sample_env pick_tree = Inr regex" "length (regex_instSeq regex) = 27"
    by (rule pick_codegen)
  let ?ctx = "newMatchContext regex \<lparr>input_text = [120, 98], input_iter = 0\<rparr> []"
  have pf: "?ctx\<lparr>ctx_prefilter := True\<rparr> = ?ctx" by (simp add: newMatchContext_def)
  have s: "length (regex_instSeq regex) < 2 ^ 32" "length [120, 98 :: byte] + 2 ^ 16 < 2 ^ 32" using r(2) by simp_all
  from match_finds_first [OF r(1) s(1) pick_supported unfold_ok_sample pick_create s(2)]
  obtain cps where cps: "code_points cps" "[120, 98] = text_of cps"
    and all: "\<forall>pf timer. (\<exists>fuel res. vm_match fuel sample_env regex (?ctx\<lparr>ctx_prefilter := pf\<rparr>) timer = Some res) \<and>
      (\<forall>fuel st ctx'. vm_match fuel sample_env regex (?ctx\<lparr>ctx_prefilter := pf\<rparr>) timer = Some (st, ctx') \<longrightarrow> is_limit st \<or>
         match_result (tree_captureGroupCount pick_tree) cps
           (find_match sample_env (tree_namedCaptureGroups pick_tree) cps (tree_pattern pick_tree) (min 0 (length cps))) st ctx')"
    by blast
  note m = all [THEN spec, of True, unfolded pf, THEN spec]
  have "cps = [120, 98]" using text_of_inj [OF cps(1) pick_text(2)] cps(2) pick_text(1) by simp
  then have "match_result (tree_captureGroupCount pick_tree) cps
      (find_match sample_env (tree_namedCaptureGroups pick_tree) cps (tree_pattern pick_tree) (min 0 (length cps))) st ctx' \<Longrightarrow>
      st = MATCH_OK \<and> ctx_captures ctx' = [\<lparr>cap_offset = 1, cap_size = 1\<rparr>, \<lparr>cap_offset = 1, cap_size = 1\<rparr>]" for st ctx'
    using pick_find by (simp add: match_result_def pick_tree_def offset_of_def codePointToUtf8_def code_point_defs)
  with m r(1) show ?thesis by blast
qed

section \<open>Captures in a positive look-ahead\<close>

lemma check_timer_code [code]:
  "check_timer timer m =
     (if int (m_btCount m) + 1 = 32767
      then (case timer of
              None \<Rightarrow> Running (m\<lparr>m_btCount := 0\<rparr>)
            | Some check \<Rightarrow>
                (case check (m_checks m) of
                   T_None \<Rightarrow> Running (m\<lparr>m_btCount := 0, m_checks := m_checks m + 1\<rparr>)
                 | T_Canceled \<Rightarrow> Finished MATCH_CANCEL (m_vm m)
                 | T_Expired \<Rightarrow> Finished MATCH_TIMEOUT (m_vm m)))
      else Running (m\<lparr>m_btCount := m_btCount m + 1\<rparr>))"
proof -
  have "m_btCount m + 1 = TIMER_CHECK_INTERVAL \<longleftrightarrow> int (m_btCount m) + 1 = 32767"
    unfolding TIMER_CHECK_INTERVAL_def by linarith
  then show ?thesis by (simp add: check_timer_def)
qed







section \<open>Empty matches ahead of the search\<close>




end
